(* ===== verification/Prelude.thy ===== *)
theory Prelude
  imports Main "HOL-Library.Word"
begin

section \<open>Shared vocabulary of the development\<close>

text \<open>
  The kernel sources are K\&R C for a machine whose \<open>int\<close> and \<open>short\<close> have 16 bits
  and whose \<open>long\<close> has 32.  Where a computation can wrap around, the model keeps the
  machine's width with a word type; elsewhere \<open>nat\<close> and \<open>int\<close> stand for values
  that the component's invariant keeps in range.

  This theory holds what every component shares:
  \<^item> the names of the machine's integer types;
  \<^item> the result type of a kernel routine, which may return, go to sleep or panic;
  \<^item> lemmas on lists and words used by more than one component;
  \<^item> two interfaces: a transition system with an inductive invariant, and its
    extension to a mutual exclusion protocol.
\<close>

subsection \<open>Machine integers\<close>

type_synonym u8 = "8 word"
type_synonym u16 = "16 word"
type_synonym u32 = "32 word"

text \<open>Facts that unfold a component's invariant are collected here.\<close>

named_theorems inv_simps "definitions of well-formedness predicates"

text \<open>Addition and subtraction without wrap-around, read through \<open>unat\<close>.\<close>

lemma unat_add_nowrap:
  fixes a b :: "'a::len word"
  assumes "unat a + unat b < 2 ^ LENGTH('a)"
  shows "unat (a + b) = unat a + unat b"
  using assms by (simp add: unat_word_ariths)

lemma unat_sub_nowrap:
  fixes a b :: "'a::len word"
  assumes "unat b \<le> unat a"
  shows "unat (a - b) = unat a - unat b"
  using assms by (simp add: unat_sub word_le_nat_alt)

lemma unat_pos_iff: "0 < unat (w :: 'a::len word) \<longleftrightarrow> w \<noteq> 0"
  by (metis bot_nat_0.not_eq_extremum unat_eq_zero)

text \<open>For values below half the range the signed and the unsigned order agree.\<close>

lemma sint_small:
  fixes a :: u16
  assumes "unat a < 2 ^ 15"
  shows "sint a = int (unat a)"
proof -
  have "sint a = signed_take_bit 15 (uint a)"
    by (simp add: sint_uint)
  also have "\<dots> = uint a"
  proof (rule signed_take_bit_int_eq_self)
    show "- (2 ^ 15) \<le> uint a"
      by (rule order_trans [OF _ uint_ge_0]) simp
    from assms have "int (unat a) < int (2 ^ 15)"
      by (simp only: of_nat_less_iff)
    then show "uint a < 2 ^ 15" by simp
  qed
  finally show ?thesis by simp
qed

lemma sle_small:
  fixes a b :: u16
  assumes "unat a < 2 ^ 15" "unat b < 2 ^ 15"
  shows "a <=s b \<longleftrightarrow> unat a \<le> unat b"
  using assms by (simp add: word_sle_eq sint_small del: of_nat_unat)

subsection \<open>Lists used as arrays\<close>

lemma nth_append_Cons_length [simp]: "(xs @ y # ys) ! length xs = y"
  by simp

lemma list_update_append_Cons [simp]: "(xs @ y # ys)[length xs := z] = xs @ z # ys"
  by simp

lemma takeWhile_append_stop:
  "\<lbrakk>\<forall>x\<in>set xs. P x; \<not> P y\<rbrakk> \<Longrightarrow> takeWhile P (xs @ y # ys) = xs"
  by (simp add: takeWhile_append2)

lemma takeWhile_split:
  assumes "takeWhile P xs \<noteq> xs"
  obtains y ys where "xs = takeWhile P xs @ y # ys" "\<not> P y"
proof -
  from assms have "dropWhile P xs \<noteq> []"
    by (metis append_Nil2 takeWhile_dropWhile_id)
  then obtain y ys where d: "dropWhile P xs = y # ys"
    by (cases "dropWhile P xs") auto
  then have "xs = takeWhile P xs @ y # ys"
    by (metis takeWhile_dropWhile_id)
  moreover from d have "\<not> P y"
    by (simp add: dropWhile_eq_Cons_conv)
  ultimately show thesis ..
qed

subsection \<open>Results of kernel routines\<close>

text \<open>
  A kernel routine returns a value and a new state, or it does not return: it calls
  \<open>sleep\<close> on a channel, or \<open>panic\<close>.  In the second case the state is the one in
  which it stopped.  A loop without a bound known in advance is run with fuel, and
  \<open>Unfinished\<close> says that the fuel was used up.
\<close>

datatype 'c exit = Sleeping 'c | Panicked string | Unfinished

type_synonym ('a, 's, 'c) res = "('c exit \<times> 's) + ('a \<times> 's)"

definition rbind :: "'e + 'a \<Rightarrow> ('a \<Rightarrow> 'e + 'b) \<Rightarrow> 'e + 'b" where
  "rbind m f = (case m of Inl e \<Rightarrow> Inl e | Inr x \<Rightarrow> f x)"

lemma rbind_simps [simp]: "rbind (Inl e) f = Inl e" "rbind (Inr x) f = f x"
  by (simp_all add: rbind_def)

lemma rbind_Inr_iff: "rbind m f = Inr y \<longleftrightarrow> (\<exists>x. m = Inr x \<and> f x = Inr y)"
  by (cases m) auto

lemma rbind_cong [fundef_cong]:
  "\<lbrakk>m = m'; \<And>x. m' = Inr x \<Longrightarrow> f x = f' x\<rbrakk> \<Longrightarrow> rbind m f = rbind m' f'"
  by (cases m') auto

subsection \<open>Device numbers\<close>

definition major :: "nat \<Rightarrow> nat" where
  "major dev = dev div 256"

definition NODEV :: nat where "NODEV = 65535"

subsection \<open>Transition systems with an inductive invariant\<close>

inductive reach :: "('s \<Rightarrow> bool) \<Rightarrow> ('s \<Rightarrow> 's \<Rightarrow> bool) \<Rightarrow> 's \<Rightarrow> bool"
  for start :: "'s \<Rightarrow> bool" and step :: "'s \<Rightarrow> 's \<Rightarrow> bool" where
  reach_start: "start s \<Longrightarrow> reach start step s"
| reach_step: "\<lbrakk>reach start step s; step s t\<rbrakk> \<Longrightarrow> reach start step t"

lemma reach_mono:
  assumes "reach start step s" and "\<And>s. start s \<Longrightarrow> start' s"
  shows "reach start' step s"
  using assms(1) by (induction rule: reach.induct) (auto intro: reach.intros assms(2))

locale safe_system =
  fixes start :: "'s \<Rightarrow> bool" and step :: "'s \<Rightarrow> 's \<Rightarrow> bool" and inv :: "'s \<Rightarrow> bool"
  assumes start_inv: "start s \<Longrightarrow> inv s"
    and step_inv: "\<lbrakk>inv s; step s t\<rbrakk> \<Longrightarrow> inv t"
begin

lemma reach_inv: "reach start step s \<Longrightarrow> inv s"
  by (induction rule: reach.induct) (auto intro: start_inv step_inv)

end

locale mutex_system = safe_system start step inv
  for start :: "'s \<Rightarrow> bool" and step :: "'s \<Rightarrow> 's \<Rightarrow> bool" and inv :: "'s \<Rightarrow> bool" +
  fixes holds :: "'s \<Rightarrow> 't \<Rightarrow> bool"
  assumes holds_unique: "\<lbrakk>inv s; holds s i; holds s j\<rbrakk> \<Longrightarrow> i = j"
begin

lemma mutual_exclusion: "\<lbrakk>reach start step s; holds s i; holds s j\<rbrakk> \<Longrightarrow> i = j"
  by (blast intro: holds_unique reach_inv)

end

end
