(* ===== verification/ResourceMap.thy ===== *)
theory ResourceMap
  imports Prelude
begin

section \<open>Core and swap maps (v7/usr/sys/sys/malloc.c)\<close>

text \<open>
  A resource map is an array of \<open>struct map\<close> entries, each a run of free units, in
  increasing address order and ended by an entry of size 0.  The model keeps the array
  as a list; a pointer into it is a position, and a loop that would step past the end of
  the array yields \<^const>\<open>None\<close>, the undefined behaviour of the C program.
  \<open>m_size\<close> is a signed \<open>short\<close>, \<open>m_addr\<close> an \<open>unsigned short\<close>:
  both are 16-bit words and the comparison with the requested size is the signed one.

  The lemmas relate the array to the set of free units.  They need the entries after
  the terminator to have size 0 as well, which the code relies on without saying so
  (\<open>mfree\<close> overwrites the terminator when it inserts a run and the next entry then
  ends the map), and a table with room for the run.
\<close>

record mapent =
  m_size :: u16
  m_addr :: u16

subsection \<open>Allocation\<close>

text \<open>The do-while loop that closes the gap left by an exhausted entry.\<close>

fun malloc_shift :: "mapent list \<Rightarrow> mapent list option" where
  "malloc_shift (e # f # es) =
     (if m_size f = 0 then Some (f # f # es)
      else map_option ((#) f) (malloc_shift (f # es)))"
| "malloc_shift _ = None"

fun malloc :: "mapent list \<Rightarrow> u16 \<Rightarrow> (u16 \<times> mapent list) option" where
  "malloc [] sz = None"
| "malloc (e # es) sz =
     (if m_size e = 0 then Some (0, e # es)
      else if sz <=s m_size e then
        (let a = m_addr e;
             e' = e\<lparr>m_addr := m_addr e + sz, m_size := m_size e - sz\<rparr>
         in if m_size e' = 0 then map_option (Pair a) (malloc_shift (e' # es))
            else Some (a, e' # es))
      else map_option (\<lambda>(a, m). (a, e # m)) (malloc es sz))"

subsection \<open>Release\<close>

text \<open>The loop that finds the first entry above \<open>a\<close>, or the terminator.\<close>

fun mfree_find :: "mapent list \<Rightarrow> u16 \<Rightarrow> nat option" where
  "mfree_find [] a = None"
| "mfree_find (e # es) a =
     (if m_addr e \<le> a \<and> m_size e \<noteq> 0 then map_option Suc (mfree_find es a) else Some 0)"

text \<open>The loop that removes an entry by moving the following ones down.\<close>

fun mfree_close :: "mapent list \<Rightarrow> mapent list option" where
  "mfree_close (e # es) =
     (if m_size e = 0 then Some (e # es)
      else case es of [] \<Rightarrow> None | f # fs \<Rightarrow> map_option ((#) f) (mfree_close es))"
| "mfree_close [] = None"

text \<open>The loop that inserts an entry by moving the following ones up.\<close>

fun mfree_insert :: "mapent list \<Rightarrow> u16 \<Rightarrow> u16 \<Rightarrow> mapent list option" where
  "mfree_insert [] sz a = None"
| "mfree_insert (e # es) sz a =
     (let rest = (if m_size e = 0 then Some es else mfree_insert es (m_size e) (m_addr e))
      in map_option ((#) \<lparr>m_size = sz, m_addr = a\<rparr>) rest)"

definition mfree_at :: "mapent list \<Rightarrow> nat \<Rightarrow> u16 \<Rightarrow> u16 \<Rightarrow> mapent list option" where
  "mfree_at mp i sz a =
     (let bp = mp ! i; pb = mp ! (i - 1) in
      if 0 < i \<and> m_addr pb + m_size pb = a then
        (let mp1 = mp[i - 1 := pb\<lparr>m_size := m_size pb + sz\<rparr>] in
         if a + sz = m_addr bp then
           (let mp2 = mp1[i - 1 := pb\<lparr>m_size := m_size pb + sz + m_size bp\<rparr>] in
            map_option ((@) (take i mp2)) (mfree_close (drop i mp2)))
         else Some mp1)
      else if a + sz = m_addr bp \<and> m_size bp \<noteq> 0 then
        Some (mp[i := bp\<lparr>m_addr := m_addr bp - sz, m_size := m_size bp + sz\<rparr>])
      else if sz \<noteq> 0 then
        map_option ((@) (take i mp)) (mfree_insert (drop i mp) sz a)
      else Some mp)"

definition mfree_map :: "mapent list \<Rightarrow> u16 \<Rightarrow> u16 \<Rightarrow> mapent list option" where
  "mfree_map mp sz a = Option.bind (mfree_find mp a) (\<lambda>i. mfree_at mp i sz a)"

text \<open>
  The two maps of the kernel and the scheduler's flag \<open>runin\<close>: freeing core wakes the
  process that waits to be swapped in.  \<open>ms_woken\<close> counts the calls of
  \<open>wakeup(&runin)\<close>.
\<close>

datatype mapid = Coremap | Swapmap

record map_state =
  coremap :: "mapent list"
  swapmap :: "mapent list"
  runin :: bool
  ms_woken :: nat

definition mfree :: "mapid \<Rightarrow> u16 \<Rightarrow> u16 \<Rightarrow> map_state \<Rightarrow> map_state option" where
  "mfree mid sz a s =
     (let s' = (if mid = Coremap \<and> runin s
                then s\<lparr>runin := False, ms_woken := Suc (ms_woken s)\<rparr> else s)
      in case mid of
           Coremap \<Rightarrow> map_option (\<lambda>m. s'\<lparr>coremap := m\<rparr>) (mfree_map (coremap s') sz a)
         | Swapmap \<Rightarrow> map_option (\<lambda>m. s'\<lparr>swapmap := m\<rparr>) (mfree_map (swapmap s') sz a))"

subsection \<open>Well-formed maps and the units they hold\<close>

abbreviation beg :: "mapent \<Rightarrow> nat" where "beg e \<equiv> unat (m_addr e)"
abbreviation fin :: "mapent \<Rightarrow> nat" where "fin e \<equiv> unat (m_addr e) + unat (m_size e)"
abbreviation run :: "mapent \<Rightarrow> nat set" where "run e \<equiv> {beg e..<fin e}"

text \<open>
  A run is non-empty, does not start at unit 0 (the value that means failure) and lies
  below \<open>2 ^ 15\<close>, so that no size is negative as a \<open>short\<close>.
\<close>

definition ent_ok :: "mapent \<Rightarrow> bool" where
  "ent_ok e \<longleftrightarrow> m_size e \<noteq> 0 \<and> 0 < beg e \<and> fin e \<le> 2 ^ 15"

text \<open>Neighbouring runs do not even touch: the free units are kept coalesced.\<close>

definition runs_ok :: "mapent list \<Rightarrow> bool" where
  "runs_ok L \<longleftrightarrow> list_all ent_ok L \<and> sorted_wrt (\<lambda>e f. fin e < beg f) L"

definition live :: "mapent list \<Rightarrow> mapent list" where
  "live mp = takeWhile (\<lambda>e. m_size e \<noteq> 0) mp"

definition spare :: "mapent list \<Rightarrow> mapent list" where
  "spare mp = dropWhile (\<lambda>e. m_size e \<noteq> 0) mp"

definition map_inv :: "mapent list \<Rightarrow> bool" where
  "map_inv mp \<longleftrightarrow> runs_ok (live mp) \<and> spare mp \<noteq> [] \<and> list_all (\<lambda>e. m_size e = 0) (spare mp)"

definition runs_units :: "mapent list \<Rightarrow> nat set" where
  "runs_units L = (\<Union>e\<in>set L. run e)"

definition units :: "mapent list \<Rightarrow> nat set" where
  "units mp = runs_units (live mp)"

text \<open>Room for one more run and the terminator after it.\<close>

definition has_room :: "mapent list \<Rightarrow> bool" where
  "has_room mp \<longleftrightarrow> 2 \<le> length (spare mp)"

lemmas runs_defs = runs_ok_def ent_ok_def

lemma map_split: "mp = live mp @ spare mp"
  by (simp add: live_def spare_def)

lemma map_inv_split:
  assumes "map_inv mp"
  obtains t R where "mp = live mp @ t # R" "m_size t = 0" "list_all (\<lambda>e. m_size e = 0) R"
    "spare mp = t # R"
proof -
  from assms obtain t R where s: "spare mp = t # R"
    by (cases "spare mp") (auto simp: map_inv_def)
  with assms map_split [of mp] show thesis
    by (auto simp: map_inv_def intro: that)
qed

lemma live_append:
  "\<lbrakk>list_all ent_ok L; m_size t = 0\<rbrakk> \<Longrightarrow> live (L @ t # R) = L"
  by (auto simp: live_def ent_ok_def list_all_iff intro: takeWhile_append_stop)

lemma spare_append:
  "\<lbrakk>list_all ent_ok L; m_size t = 0\<rbrakk> \<Longrightarrow> spare (L @ t # R) = t # R"
  by (auto simp: spare_def ent_ok_def list_all_iff dropWhile_append3 dropWhile_append)

lemma map_inv_append:
  "\<lbrakk>runs_ok L; m_size t = 0; list_all (\<lambda>e. m_size e = 0) R\<rbrakk> \<Longrightarrow> map_inv (L @ t # R)"
  by (simp add: map_inv_def runs_ok_def live_append spare_append)

lemma runs_ok_append:
  "runs_ok (L1 @ L2) \<longleftrightarrow>
     runs_ok L1 \<and> runs_ok L2 \<and> (\<forall>e\<in>set L1. \<forall>f\<in>set L2. fin e < beg f)"
  by (auto simp: runs_ok_def sorted_wrt_append)

lemma runs_ok_Cons:
  "runs_ok (e # L) \<longleftrightarrow> ent_ok e \<and> runs_ok L \<and> (\<forall>f\<in>set L. fin e < beg f)"
  by (auto simp: runs_ok_def)

lemma runs_ok_Nil [simp]: "runs_ok []"
  by (simp add: runs_ok_def)

lemma runs_units_simps [simp]:
  "runs_units [] = {}"
  "runs_units (e # L) = run e \<union> runs_units L"
  "runs_units (L @ M) = runs_units L \<union> runs_units M"
  by (auto simp: runs_units_def)


subsection \<open>What \<open>malloc\<close> does to the array\<close>

lemma malloc_shift_append:
  "\<lbrakk>list_all (\<lambda>e. m_size e \<noteq> 0) L; m_size t = 0\<rbrakk> \<Longrightarrow>
     malloc_shift (e # L @ t # R) = Some (L @ t # t # R)"
  by (induction L arbitrary: e) auto

definition cut_front :: "mapent \<Rightarrow> u16 \<Rightarrow> mapent" where
  "cut_front e sz = e\<lparr>m_addr := m_addr e + sz, m_size := m_size e - sz\<rparr>"

lemma malloc_found:
  assumes "list_all (\<lambda>x. m_size x \<noteq> 0 \<and> \<not> sz <=s m_size x) L1"
    and "m_size e \<noteq> 0" "sz <=s m_size e"
    and "list_all (\<lambda>x. m_size x \<noteq> 0) L2" "m_size t = 0"
  shows "malloc (L1 @ e # L2 @ t # R) sz =
     Some (m_addr e, if m_size e = sz then L1 @ L2 @ t # t # R
                     else L1 @ cut_front e sz # L2 @ t # R)"
  using assms
  by (induction L1) (auto simp: malloc_shift_append Let_def cut_front_def)

lemma malloc_exhausted:
  assumes "list_all (\<lambda>x. m_size x \<noteq> 0 \<and> \<not> sz <=s m_size x) L" and "m_size t = 0"
  shows "malloc (L @ t # R) sz = Some (0, L @ t # R)"
  using assms by (induction L) auto

text \<open>The first entry that is large enough, as the scan finds it.\<close>

lemma first_fit_split:
  assumes "\<exists>x\<in>set L. P x"
  obtains L1 e L2 where "L = L1 @ e # L2" "P e" "list_all (\<lambda>x. \<not> P x) L1"
  using split_list_first_prop [OF assms] by (auto simp: list_all_iff)

lemma ent_ok_size_bound: "ent_ok e \<Longrightarrow> unat (m_size e) < 2 ^ 15"
  by (auto simp: ent_ok_def)

lemma ent_ok_cut:
  assumes "ent_ok e" "unat sz \<le> unat (m_size e)" "m_size e \<noteq> sz"
  shows "ent_ok (cut_front e sz)" "beg (cut_front e sz) = beg e + unat sz"
    "unat (m_size (cut_front e sz)) = unat (m_size e) - unat sz"
proof -
  have s: "unat (m_size e - sz) = unat (m_size e) - unat sz"
    using assms by (intro unat_sub_nowrap) simp
  have a: "unat (m_addr e + sz) = beg e + unat sz"
    using assms by (intro unat_add_nowrap) (auto simp: ent_ok_def)
  have "unat sz < unat (m_size e)"
    using assms by (metis le_neq_implies_less word_unat_eq_iff)
  with assms s a show "ent_ok (cut_front e sz)"
    by (auto simp: ent_ok_def cut_front_def simp flip: unat_pos_iff)
  from a show "beg (cut_front e sz) = beg e + unat sz"
    by (simp add: cut_front_def)
  from s show "unat (m_size (cut_front e sz)) = unat (m_size e) - unat sz"
    by (simp add: cut_front_def)
qed

lemma runs_disjoint_neighbours:
  assumes "runs_ok L" "e \<in> set L" "f \<in> set L" "x \<in> run e" "Suc x \<in> run f"
  shows "e = f"
proof -
  from assms(2) obtain i where i: "i < length L" "L ! i = e"
    by (auto simp: in_set_conv_nth)
  from assms(3) obtain j where j: "j < length L" "L ! j = f"
    by (auto simp: in_set_conv_nth)
  have "\<not> i < j"
    using assms i j by (auto simp: runs_ok_def dest: sorted_wrt_nth_less [of _ _ i j])
  moreover have "\<not> j < i"
    using assms i j by (auto simp: runs_ok_def dest: sorted_wrt_nth_less [of _ _ j i])
  ultimately show ?thesis using i j by (simp add: nat_neq_iff)
qed

text \<open>Because runs are coalesced, free units in a row all lie in one run.\<close>

lemma window_in_run:
  assumes "runs_ok L" "0 < n" "{x..<x + n} \<subseteq> runs_units L"
  shows "\<exists>e\<in>set L. {x..<x + n} \<subseteq> run e"
  using assms(2,3)
proof (induction n)
  case 0
  then show ?case by simp
next
  case (Suc n)
  show ?case
  proof (cases "n = 0")
    case True
    with Suc.prems(2) show ?thesis by (auto simp: runs_units_def)
  next
    case False
    with Suc obtain e where e: "e \<in> set L" "{x..<x + n} \<subseteq> run e"
      by fastforce
    from Suc.prems(2) have "x + n \<in> runs_units L" by auto
    then obtain f where f: "f \<in> set L" "x + n \<in> run f"
      by (auto simp: runs_units_def)
    from e(2) False have "x + n - 1 \<in> run e" by auto
    with f False e(1) assms(1) have "e = f"
      by (auto intro!: runs_disjoint_neighbours [of L e f "x + n - 1"])
    with e f have "{x..<x + Suc n} \<subseteq> run e"
      by (auto simp: less_Suc_eq)
    with e show ?thesis by blast
  qed
qed

lemma run_disjoint_rest:
  assumes "runs_ok (L1 @ e # L2)"
  shows "run e \<inter> runs_units (L1 @ L2) = {}"
  using assms
  by (fastforce simp: runs_ok_append runs_ok_Cons runs_units_def)

lemma runs_units_cut:
  assumes ok: "runs_ok (L1 @ e # L2)" and sz: "unat sz \<le> unat (m_size e)" and ne: "m_size e \<noteq> sz"
  shows "runs_units (L1 @ cut_front e sz # L2) =
     runs_units (L1 @ e # L2) - {beg e..<beg e + unat sz}"
proof -
  have e: "ent_ok e" using ok by (simp add: runs_ok_append runs_ok_Cons)
  define C where "C = {beg e..<beg e + unat sz}"
  define E where "E = run e"
  have "run (cut_front e sz) = E - C"
    using ent_ok_cut [OF e sz ne] sz by (auto simp: C_def E_def)
  moreover have "C \<subseteq> E" using sz by (auto simp: C_def E_def)
  moreover have "E \<inter> (runs_units L1 \<union> runs_units L2) = {}"
    using run_disjoint_rest [OF ok] by (simp add: E_def)
  ultimately show ?thesis
    unfolding C_def [symmetric] runs_units_simps E_def [symmetric] by blast
qed

lemma runs_ok_cut:
  assumes ok: "runs_ok (L1 @ e # L2)" and sz: "unat sz \<le> unat (m_size e)" and ne: "m_size e \<noteq> sz"
  shows "runs_ok (L1 @ cut_front e sz # L2)"
proof -
  have e: "ent_ok e" using ok by (simp add: runs_ok_append runs_ok_Cons)
  note cut = ent_ok_cut [OF e sz ne]
  show ?thesis
    using ok cut(1) sz by (auto simp: runs_ok_append runs_ok_Cons cut(2,3))
qed

lemma malloc_success:
  assumes inv: "map_inv mp" and sz: "0 < unat sz" "unat sz < 2 ^ 15"
    and fit: "\<exists>x\<in>set (live mp). unat sz \<le> unat (m_size x)"
  shows "\<exists>e mp'. malloc mp sz = Some (m_addr e, mp') \<and> e \<in> set (live mp) \<and>
     unat sz \<le> unat (m_size e) \<and>
     (\<forall>x\<in>set (live mp). unat sz \<le> unat (m_size x) \<longrightarrow> beg e \<le> beg x) \<and>
     map_inv mp' \<and> units mp' = units mp - {beg e..<beg e + unat sz} \<and>
     length (spare mp) \<le> length (spare mp')"
proof -
  from inv obtain t R where mp: "mp = live mp @ t # R" "m_size t = 0"
    and R: "list_all (\<lambda>e. m_size e = 0) R" and sp: "spare mp = t # R"
    by (rule map_inv_split)
  have ok: "runs_ok (live mp)" using inv by (simp add: map_inv_def)
  obtain L1 e L2 where L: "live mp = L1 @ e # L2" and e: "unat sz \<le> unat (m_size e)"
    and L1: "list_all (\<lambda>x. \<not> unat sz \<le> unat (m_size x)) L1"
    by (rule first_fit_split [OF fit])
  have okL: "runs_ok (L1 @ e # L2)" using ok L by simp
  then have ents: "list_all ent_ok L1" "ent_ok e" "list_all ent_ok L2"
    by (simp_all add: runs_ok_def)
  have sle: "sz <=s m_size x \<longleftrightarrow> unat sz \<le> unat (m_size x)" if "ent_ok x" for x
    using sz ent_ok_size_bound [OF that] by (simp add: sle_small)
  define K where "K = (if m_size e = sz then L1 @ L2 else L1 @ cut_front e sz # L2)"
  define Z where "Z = (if m_size e = sz then t # R else R)"
  define mp' where "mp' = K @ t # Z"
  have "malloc (L1 @ e # L2 @ t # R) sz = Some (m_addr e, mp')"
    unfolding mp'_def K_def Z_def using ents e sle mp(2) L1
    by (subst malloc_found) (auto simp: list_all_iff ent_ok_def)
  moreover have "mp = L1 @ e # L2 @ t # R"
    using mp(1) L by simp
  ultimately have res: "malloc mp sz = Some (m_addr e, mp')"
    by simp
  have okK: "runs_ok K"
    using okL runs_ok_cut [OF okL e] by (auto simp: K_def runs_ok_append runs_ok_Cons)
  then have inv': "map_inv mp'"
    unfolding mp'_def using mp(2) R by (intro map_inv_append) (auto simp: Z_def)
  have live': "live mp' = K"
    unfolding mp'_def using okK mp(2) by (intro live_append) (auto simp: runs_ok_def)
  have "spare mp' = t # Z"
    unfolding mp'_def using okK mp(2) by (intro spare_append) (auto simp: runs_ok_def)
  then have spare': "length (spare mp) \<le> length (spare mp')"
    by (simp add: sp Z_def)
  have un: "units mp' = units mp - {beg e..<beg e + unat sz}"
  proof (cases "m_size e = sz")
    case True
    have "runs_units (L1 @ L2) = runs_units (L1 @ e # L2) - run e"
      using run_disjoint_rest [OF okL] unfolding runs_units_simps by blast
    with True show ?thesis by (simp add: units_def live' L K_def)
  next
    case False
    with runs_units_cut [OF okL e] show ?thesis by (simp add: units_def live' L K_def)
  qed
  have low: "beg e \<le> beg x" if "x \<in> set (live mp)" "unat sz \<le> unat (m_size x)" for x
    using that okL L1 L by (fastforce simp: runs_ok_append runs_ok_Cons list_all_iff)
  show ?thesis using res L e low inv' un spare' by auto
qed

lemma malloc_failure:
  assumes inv: "map_inv mp" and sz: "unat sz < 2 ^ 15"
    and nofit: "\<forall>x\<in>set (live mp). unat (m_size x) < unat sz"
  shows "malloc mp sz = Some (0, mp)"
proof -
  from inv obtain t R where mp: "mp = live mp @ t # R" "m_size t = 0"
    by (rule map_inv_split)
  have "ent_ok x" if "x \<in> set (live mp)" for x
    using inv that by (auto simp: map_inv_def runs_ok_def list_all_iff)
  then have "list_all (\<lambda>x. m_size x \<noteq> 0 \<and> \<not> sz <=s m_size x) (live mp)"
    using nofit sz ent_ok_size_bound by (fastforce simp: list_all_iff sle_small ent_ok_def)
  then have "malloc (live mp @ t # R) sz = Some (0, live mp @ t # R)"
    using mp(2) by (rule malloc_exhausted)
  then show ?thesis by (simp only: mp(1) [symmetric])
qed

subsection \<open>What \<open>mfree\<close> does to the array\<close>

lemma mfree_find_append:
  "\<lbrakk>list_all (\<lambda>x. m_addr x \<le> a \<and> m_size x \<noteq> 0) L; \<not> (m_addr y \<le> a \<and> m_size y \<noteq> 0)\<rbrakk>
   \<Longrightarrow> mfree_find (L @ y # Q) a = Some (length L)"
  by (induction L) auto

lemma mfree_close_append:
  "\<lbrakk>list_all (\<lambda>x. m_size x \<noteq> 0) (e # L); m_size t = 0\<rbrakk> \<Longrightarrow>
     mfree_close (e # L @ t # R) = Some (L @ t # t # R)"
  by (induction L arbitrary: e) auto

lemma mfree_insert_append:
  "\<lbrakk>list_all (\<lambda>x. m_size x \<noteq> 0) L; m_size t = 0\<rbrakk> \<Longrightarrow>
     mfree_insert (L @ t # R) sz a = Some (\<lparr>m_size = sz, m_addr = a\<rparr> # L @ R)"
  by (induction L arbitrary: sz a) auto

text \<open>
  The run that holds the freed units: \<open>grow_left\<close> joins them to the run before,
  \<open>grow_right\<close> adds the run after.
\<close>

definition touches_left :: "mapent list \<Rightarrow> u16 \<Rightarrow> bool" where
  "touches_left L1 a \<longleftrightarrow> L1 \<noteq> [] \<and> m_addr (last L1) + m_size (last L1) = a"

definition grow_left :: "mapent list \<Rightarrow> u16 \<Rightarrow> u16 \<Rightarrow> mapent list \<times> mapent" where
  "grow_left L1 sz a =
     (if touches_left L1 a then (butlast L1, (last L1)\<lparr>m_size := m_size (last L1) + sz\<rparr>)
      else (L1, \<lparr>m_size = sz, m_addr = a\<rparr>))"

definition touches_right :: "u16 \<Rightarrow> mapent list \<Rightarrow> bool" where
  "touches_right b L2 \<longleftrightarrow> L2 \<noteq> [] \<and> m_addr (hd L2) = b"

definition grow_right :: "mapent \<Rightarrow> u16 \<Rightarrow> mapent list \<Rightarrow> mapent list" where
  "grow_right e b L2 =
     (if touches_right b L2 then e\<lparr>m_size := m_size e + m_size (hd L2)\<rparr> # tl L2 else e # L2)"

definition freed_runs :: "mapent list \<Rightarrow> u16 \<Rightarrow> u16 \<Rightarrow> mapent list \<Rightarrow> mapent list" where
  "freed_runs L1 sz a L2 =
     (let (B, e) = grow_left L1 sz a in B @ grow_right e (a + sz) L2)"

definition freed_tail :: "mapent list \<Rightarrow> u16 \<Rightarrow> u16 \<Rightarrow> mapent list \<Rightarrow> mapent list \<Rightarrow> mapent list" where
  "freed_tail L1 sz a L2 Z =
     (if touches_left L1 a then if touches_right (a + sz) L2 then hd Z # Z else Z
      else if touches_right (a + sz) L2 then Z else tl Z)"

lemmas grow_defs = freed_runs_def freed_tail_def grow_left_def grow_right_def
  touches_left_def touches_right_def

lemma freed_tail_zero:
  assumes "list_all (\<lambda>e. m_size e = 0) Z" "2 \<le> length Z"
  shows "freed_tail L1 sz a L2 Z \<noteq> [] \<and> list_all (\<lambda>e. m_size e = 0) (freed_tail L1 sz a L2 Z)"
  using assms by (cases Z; cases "tl Z") (auto simp: freed_tail_def)

lemma mfree_at_left:
  assumes "touches_left L1 a" "list_all (\<lambda>x. m_size x \<noteq> 0) L2" "m_size t = 0"
  shows "mfree_at (L1 @ L2 @ t # R) (length L1) sz a =
     Some (freed_runs L1 sz a L2 @ freed_tail L1 sz a L2 (t # R))"
proof -
  from assms(1) obtain B p where L1: "L1 = B @ [p]"
    by (metis touches_left_def append_butlast_last_id)
  show ?thesis
  proof (cases L2)
    case Nil
    with assms L1 show ?thesis
      by (simp add: mfree_at_def grow_defs nth_append Let_def)
  next
    case (Cons n L2')
    with assms L1 mfree_close_append [of n L2' t R] show ?thesis
      by (simp add: mfree_at_def grow_defs nth_append Let_def)
  qed
qed

lemma mfree_at_apart:
  assumes "\<not> touches_left L1 a" "list_all (\<lambda>x. m_size x \<noteq> 0) L2" "m_size t = 0" "sz \<noteq> 0"
  shows "mfree_at (L1 @ L2 @ t # R) (length L1) sz a =
     Some (freed_runs L1 sz a L2 @ freed_tail L1 sz a L2 (t # R))"
proof -
  have nl: "\<not> (0 < length L1 \<and> m_addr ((L1 @ Q) ! (length L1 - 1)) + m_size ((L1 @ Q) ! (length L1 - 1)) = a)" for Q
    using assms(1) by (auto simp: touches_left_def nth_append last_conv_nth)
  show ?thesis
  proof (cases L2)
    case Nil
    with assms show ?thesis
      unfolding mfree_at_def Let_def if_not_P [OF nl]
      by (auto simp: grow_defs)
  next
    case (Cons n L2')
    have "m_addr n - sz = a" if "a + sz = m_addr n"
      using that by (metis add_diff_cancel_right')
    with Cons assms mfree_insert_append [of "n # L2'" t R] show ?thesis
      unfolding mfree_at_def Let_def if_not_P [OF nl]
      by (auto simp: grow_defs add.commute)
  qed
qed

lemma mfree_map_split:
  assumes "list_all (\<lambda>x. m_addr x \<le> a \<and> m_size x \<noteq> 0) L1"
    and "list_all (\<lambda>x. a < m_addr x \<and> m_size x \<noteq> 0) L2" and "m_size t = 0" and "sz \<noteq> 0"
  shows "mfree_map (L1 @ L2 @ t # R) sz a =
     Some (freed_runs L1 sz a L2 @ freed_tail L1 sz a L2 (t # R))"
proof -
  have "mfree_find (L1 @ L2 @ t # R) a = Some (length L1)"
    using assms by (cases L2) (auto intro!: mfree_find_append)
  moreover have "list_all (\<lambda>x. m_size x \<noteq> 0) L2"
    using assms(2) by (auto simp: list_all_iff)
  ultimately show ?thesis
    using assms mfree_at_left [of L1 a L2 t R sz] mfree_at_apart [of L1 a L2 t sz R]
    by (auto simp: mfree_map_def)
qed

text \<open>The runs after the release are well-formed and hold the freed units as well.\<close>

lemma grow_left_ok:
  assumes ok: "runs_ok L1" and below: "\<forall>x\<in>set L1. fin x \<le> unat a"
    and a: "0 < unat a" "unat a + unat sz \<le> 2 ^ 15" and sz: "0 < unat sz"
    and g: "grow_left L1 sz a = (B, e)"
  shows "runs_ok (B @ [e])" "fin e = unat a + unat sz"
    "runs_units B \<union> run e = runs_units L1 \<union> {unat a..<unat a + unat sz}"
proof -
  have "runs_ok (B @ [e]) \<and> fin e = unat a + unat sz \<and>
    runs_units B \<union> run e = runs_units L1 \<union> {unat a..<unat a + unat sz}"
  proof (cases "touches_left L1 a")
    case True
    then obtain p where L1: "L1 = B @ [p]" and e: "e = p\<lparr>m_size := m_size p + sz\<rparr>"
      using g by (auto simp: grow_left_def touches_left_def intro!: that [of "last L1"])
    have "ent_ok p" using ok L1 by (simp add: runs_ok_append runs_ok_Cons)
    then have p: "fin p \<le> 2 ^ 15" "0 < beg p" by (auto simp: ent_ok_def)
    then have "unat (m_addr p + m_size p) = fin p" by (intro unat_add_nowrap) simp
    with True L1 have pa: "fin p = unat a" by (auto simp: touches_left_def)
    then have s: "unat (m_size p + sz) = unat (m_size p) + unat sz"
      using a by (intro unat_add_nowrap) simp
    then have "m_size p + sz \<noteq> 0" using sz by (metis unat_pos_iff add_gr_0)
    with s pa p a have "ent_ok e" by (simp add: ent_ok_def e)
    moreover have "run e = run p \<union> {unat a..<unat a + unat sz}"
      using s pa by (auto simp: e)
    ultimately show ?thesis
      using ok pa s by (auto simp: L1 e runs_ok_append runs_ok_Cons)
  next
    case False
    then have B: "B = L1" and e: "e = \<lparr>m_size = sz, m_addr = a\<rparr>"
      using g by (auto simp: grow_left_def)
    have "fin x < unat a" if x: "x \<in> set L1" for x
    proof -
      from x have ne: "L1 \<noteq> []" by auto
      then obtain C p where L1: "L1 = C @ [p]" by (metis append_butlast_last_id)
      have "ent_ok p" using ok L1 by (simp add: runs_ok_append runs_ok_Cons)
      then have "unat (m_addr p + m_size p) = fin p"
        by (intro unat_add_nowrap) (auto simp: ent_ok_def)
      with False ne L1 have "fin p \<noteq> unat a"
        by (auto simp: touches_left_def word_unat_eq_iff)
      with below L1 have "fin p < unat a" by force
      with ok L1 x show ?thesis
        by (auto simp: runs_ok_append)
    qed
    with ok a sz show ?thesis
      by (auto simp: B e runs_ok_append runs_ok_Cons ent_ok_def)
  qed
  then show "runs_ok (B @ [e])" "fin e = unat a + unat sz"
    "runs_units B \<union> run e = runs_units L1 \<union> {unat a..<unat a + unat sz}"
    by blast+
qed

lemma grow_right_ok:
  assumes okl: "runs_ok (B @ [e])" and okr: "runs_ok L2"
    and above: "\<forall>x\<in>set L2. fin e \<le> beg x" and b: "unat b = fin e"
  shows "runs_ok (B @ grow_right e b L2)"
    "runs_units (B @ grow_right e b L2) = runs_units (B @ [e]) \<union> runs_units L2"
proof -
  have "runs_ok (B @ grow_right e b L2) \<and>
    runs_units (B @ grow_right e b L2) = runs_units (B @ [e]) \<union> runs_units L2"
  proof (cases "touches_right b L2")
    case True
    then obtain n L2' where L2: "L2 = n # L2'" and n: "m_addr n = b"
      by (cases L2) (auto simp: touches_right_def)
    have "ent_ok n" "ent_ok e" using okl okr L2 by (simp_all add: runs_ok_append runs_ok_Cons)
    then have bounds: "fin n \<le> 2 ^ 15" "0 < beg e" "m_size e \<noteq> 0" by (auto simp: ent_ok_def)
    have s: "unat (m_size e + m_size n) = unat (m_size e) + unat (m_size n)"
      using bounds b n by (intro unat_add_nowrap) simp
    then have "m_size e + m_size n \<noteq> 0"
      using bounds(3) by (metis unat_pos_iff add_gr_0)
    with s bounds b n have "ent_ok (e\<lparr>m_size := m_size e + m_size n\<rparr>)"
      by (simp add: ent_ok_def)
    moreover have "run (e\<lparr>m_size := m_size e + m_size n\<rparr>) = run e \<union> run n"
      using s b n by auto
    ultimately show ?thesis
      using okl okr above s b n True
      by (auto simp: L2 grow_right_def touches_right_def runs_ok_append runs_ok_Cons) fastforce+
  next
    case False
    have "fin e < beg x" if "x \<in> set L2" for x
    proof (cases L2)
      case Nil
      with that show ?thesis by simp
    next
      case (Cons n L2')
      with False b above have "fin e < beg n"
        by (auto simp: touches_right_def word_unat_eq_iff order.order_iff_strict)
      with Cons okr that show ?thesis
        by (fastforce simp: runs_ok_Cons)
    qed
    with False okl okr show ?thesis
      by (auto simp: grow_right_def runs_ok_append runs_ok_Cons) fastforce
  qed
  then show "runs_ok (B @ grow_right e b L2)"
    "runs_units (B @ grow_right e b L2) = runs_units (B @ [e]) \<union> runs_units L2"
    by blast+
qed

lemma runs_split_at:
  assumes "runs_ok L"
  obtains L1 L2 where "L = L1 @ L2" "\<forall>x\<in>set L1. m_addr x \<le> a" "\<forall>x\<in>set L2. a < m_addr x"
proof
  show "L = takeWhile (\<lambda>x. m_addr x \<le> a) L @ dropWhile (\<lambda>x. m_addr x \<le> a) L"
    by simp
  show "\<forall>x\<in>set (takeWhile (\<lambda>x. m_addr x \<le> a) L). m_addr x \<le> a"
    by (auto dest: set_takeWhileD)
  from assms show "\<forall>x\<in>set (dropWhile (\<lambda>x. m_addr x \<le> a) L). a < m_addr x"
    by (induction L) (auto simp: runs_ok_Cons word_le_nat_alt word_less_nat_alt not_le dest!: bspec)
qed

lemma mfree_map_ok:
  assumes inv: "map_inv mp" and room: "has_room mp" and sz: "0 < unat sz"
    and a: "0 < unat a" "unat a + unat sz \<le> 2 ^ 15"
    and disj: "{unat a..<unat a + unat sz} \<inter> units mp = {}"
  shows "\<exists>mp'. mfree_map mp sz a = Some mp' \<and> map_inv mp' \<and>
     units mp' = units mp \<union> {unat a..<unat a + unat sz}"
proof -
  from inv obtain t R where mp: "mp = live mp @ t # R" "m_size t = 0"
    and R: "list_all (\<lambda>e. m_size e = 0) R" and sp: "spare mp = t # R"
    by (rule map_inv_split)
  have ok: "runs_ok (live mp)" using inv by (simp add: map_inv_def)
  then obtain L1 L2 where L: "live mp = L1 @ L2" and L1: "\<forall>x\<in>set L1. m_addr x \<le> a"
    and L2: "\<forall>x\<in>set L2. a < m_addr x"
    by (rule runs_split_at)
  have ok1: "runs_ok L1" and ok2: "runs_ok L2" using ok L by (simp_all add: runs_ok_append)
  have ents: "m_size x \<noteq> 0" if "x \<in> set L1 \<or> x \<in> set L2" for x
    using that ok1 ok2 by (auto simp: runs_ok_def list_all_iff ent_ok_def)
  define new where "new = {unat a..<unat a + unat sz}"
  have dj: "new \<inter> run x = {}" if "x \<in> set L1 \<or> x \<in> set L2" for x
  proof -
    have "run x \<subseteq> units mp" using that L by (auto simp: units_def runs_units_def)
    with disj show ?thesis unfolding new_def by blast
  qed
  have left: "fin x \<le> unat a" if "x \<in> set L1" for x
  proof (rule ccontr)
    assume "\<not> fin x \<le> unat a"
    with that L1 have "unat a \<in> run x" by (auto simp: word_le_nat_alt)
    moreover have "unat a \<in> new" using sz by (simp add: new_def)
    ultimately show False using dj that by blast
  qed
  have right: "unat a + unat sz \<le> beg x" if "x \<in> set L2" for x
  proof (rule ccontr)
    assume "\<not> unat a + unat sz \<le> beg x"
    with that L2 have "beg x \<in> new" by (auto simp: new_def word_less_nat_alt)
    moreover have "beg x \<in> run x" using ents that by (auto simp: unat_pos_iff)
    ultimately show False using dj that by blast
  qed
  obtain B e where g: "grow_left L1 sz a = (B, e)" by fastforce
  note gl = grow_left_ok [OF ok1 _ a sz g]
  have b: "unat (a + sz) = unat a + unat sz" using a by (intro unat_add_nowrap) simp
  define K where "K = freed_runs L1 sz a L2"
  have K: "K = B @ grow_right e (a + sz) L2" by (simp add: K_def freed_runs_def g)
  have okK: "runs_ok K" and unK: "runs_units K = runs_units L1 \<union> new \<union> runs_units L2"
    unfolding K using gl grow_right_ok [of B e L2 "a + sz"] ok2 left right b
    by (auto simp: new_def)
  obtain t' Z where tail: "freed_tail L1 sz a L2 (t # R) = t' # Z"
    and z: "m_size t' = 0" "list_all (\<lambda>e. m_size e = 0) Z"
    using freed_tail_zero [of "t # R" L1 sz a L2] mp(2) R room sp
    by (cases "freed_tail L1 sz a L2 (t # R)") (auto simp: has_room_def)
  have "mfree_map (L1 @ L2 @ t # R) sz a = Some (K @ t' # Z)"
    unfolding K_def using L1 L2 ents mp(2) sz
    by (subst mfree_map_split) (auto simp: list_all_iff tail unat_pos_iff)
  then have res: "mfree_map mp sz a = Some (K @ t' # Z)"
    using mp(1) L by simp
  have "live (K @ t' # Z) = K"
    using okK z(1) by (intro live_append) (auto simp: runs_ok_def)
  then have "units (K @ t' # Z) = units mp \<union> new"
    unfolding units_def L runs_units_simps by (simp add: unK Un_commute Un_left_commute)
  moreover have "map_inv (K @ t' # Z)"
    using okK z by (rule map_inv_append)
  ultimately show ?thesis using res by (auto simp: new_def)
qed

text \<open>A coalesced list of runs is determined by the units it holds.\<close>

lemma run_inject: "\<lbrakk>ent_ok e; ent_ok f; run e = run f\<rbrakk> \<Longrightarrow> (e :: mapent) = f"
proof -
  assume ok: "ent_ok e" "ent_ok f" and eq: "run e = run f"
  from ok have "beg e < fin e" "beg f < fin f" by (auto simp: ent_ok_def unat_pos_iff)
  with eq have "beg e = beg f \<and> fin e = fin f" by (simp add: atLeastLessThan_eq_iff)
  then have "m_addr e = m_addr f" "m_size e = m_size f" by (simp_all add: word_unat_eq_iff)
  then show "e = f" by simp
qed

lemma runs_overlap:
  assumes "runs_ok L" "e \<in> set L" "f \<in> set L" "x \<in> run e" "x \<in> run f"
  shows "e = f"
proof -
  from assms(2) obtain L1 L2 where L: "L = L1 @ e # L2" by (auto simp: in_set_conv_decomp)
  have "run e \<inter> runs_units (L1 @ L2) = {}"
    using run_disjoint_rest assms(1) L by blast
  then have "x \<notin> runs_units (L1 @ L2)" using assms(4) by blast
  then have "f \<notin> set (L1 @ L2)" using assms(5) unfolding runs_units_def by blast
  with assms(3) L show ?thesis by auto
qed

lemma run_window: "run e = {beg e..<beg e + unat (m_size e)}" ..

lemma runs_subset:
  assumes L: "runs_ok L" and M: "runs_ok M" and eq: "runs_units L = runs_units M"
  shows "set L \<subseteq> set M"
proof
  fix e assume e: "e \<in> set L"
  with L have oke: "ent_ok e" by (auto simp: runs_ok_def list_all_iff)
  then have pos: "0 < unat (m_size e)" by (simp add: ent_ok_def unat_pos_iff)
  have "run e \<subseteq> runs_units M" using e eq by (auto simp: runs_units_def)
  then obtain f where f: "f \<in> set M" "run e \<subseteq> run f"
    using window_in_run [OF M pos] by blast
  from f(1) M have okf: "ent_ok f" by (auto simp: runs_ok_def list_all_iff)
  then have posf: "0 < unat (m_size f)" by (simp add: ent_ok_def unat_pos_iff)
  have "run f \<subseteq> runs_units L" using f eq by (auto simp: runs_units_def)
  then obtain g where g: "g \<in> set L" "run f \<subseteq> run g"
    using window_in_run [OF L posf] by blast
  have "beg e \<in> run e" using pos by simp
  with f g have "e = g" using runs_overlap [OF L e g(1), of "beg e"] by blast
  with f g have "run e = run f" by blast
  with oke okf f(1) show "e \<in> set M" using run_inject by blast
qed

lemma runs_sorted_beg:
  assumes "runs_ok L"
  shows "sorted (map beg L)" "distinct (map beg L)"
  using assms by (induction L) (fastforce simp: runs_ok_Cons)+

lemma runs_unique:
  assumes L: "runs_ok L" and M: "runs_ok M" and eq: "runs_units L = runs_units M"
  shows "L = M"
proof -
  have S: "set L = set M"
    using runs_subset [OF L M eq] runs_subset [OF M L eq [symmetric]] by blast
  then have "set (map beg L) = set (map beg M)" by simp
  then have "map beg L = map beg M"
    using L M by (intro sorted_distinct_set_unique) (auto intro: runs_sorted_beg)
  moreover have "inj_on beg (set L \<union> set M)"
    using runs_sorted_beg(2) [OF L] S by (simp add: distinct_map)
  ultimately show ?thesis by (simp add: inj_on_map_eq_map)
qed

subsection \<open>The contract of an allocator of units\<close>

text \<open>
  What the swapper and the text segment code rely on.  \<open>alloc m n\<close> returns an address
  and the new map, address 0 meaning that there is no space; \<open>release m n a\<close> gives
  \<open>n\<close> units from \<open>a\<close> on back.
\<close>

locale unit_allocator =
  fixes alloc :: "'m \<Rightarrow> 'n \<Rightarrow> ('n \<times> 'm) option"
    and release :: "'m \<Rightarrow> 'n \<Rightarrow> 'n \<Rightarrow> 'm option"
    and val :: "'n \<Rightarrow> nat" and inv :: "'m \<Rightarrow> bool"
    and free_units :: "'m \<Rightarrow> nat set" and room :: "'m \<Rightarrow> bool" and lim :: nat
  assumes alloc_returns: "\<lbrakk>inv m; 0 < val n; val n < lim\<rbrakk> \<Longrightarrow>
      \<exists>a m'. alloc m n = Some (a, m') \<and> inv m' \<and> (room m \<longrightarrow> room m')"
    and alloc_gives: "\<lbrakk>inv m; 0 < val n; val n < lim; alloc m n = Some (a, m'); val a \<noteq> 0\<rbrakk> \<Longrightarrow>
      {val a..<val a + val n} \<subseteq> free_units m \<and>
      free_units m' = free_units m - {val a..<val a + val n}"
    and alloc_fails: "\<lbrakk>inv m; 0 < val n; val n < lim; alloc m n = Some (a, m'); val a = 0\<rbrakk> \<Longrightarrow>
      m' = m \<and> (\<forall>x. \<not> {x..<x + val n} \<subseteq> free_units m)"
    and units_bound: "inv m \<Longrightarrow> free_units m \<subseteq> {0<..<lim}"
    and release_gives: "\<lbrakk>inv m; room m; 0 < val n; 0 < val a; val a + val n \<le> lim;
      {val a..<val a + val n} \<inter> free_units m = {}\<rbrakk> \<Longrightarrow>
      \<exists>m'. release m n a = Some m' \<and> inv m' \<and>
        free_units m' = free_units m \<union> {val a..<val a + val n}"
begin

lemma alloc_inv:
  "\<lbrakk>inv m; 0 < val n; val n < lim; alloc m n = Some (a, m')\<rbrakk> \<Longrightarrow> inv m' \<and> (room m \<longrightarrow> room m')"
  using alloc_returns [of m n] by auto

lemma window_below:
  assumes "inv m" "0 < val n" "{x..<x + val n} \<subseteq> free_units m"
  shows "x + val n \<le> lim"
proof -
  from assms(2) have "x + val n - 1 \<in> {x..<x + val n}" by auto
  with assms units_bound show ?thesis by fastforce
qed

lemma successive_disjoint:
  assumes "inv m" "0 < val n" "val n < lim" "0 < val n'" "val n' < lim"
    and "alloc m n = Some (a, m1)" "val a \<noteq> 0" "alloc m1 n' = Some (a', m2)" "val a' \<noteq> 0"
  shows "{val a..<val a + val n} \<inter> {val a'..<val a' + val n'} = {}"
proof -
  have "inv m1" using alloc_inv assms by blast
  then have "{val a'..<val a' + val n'} \<subseteq> free_units m1"
    using alloc_gives assms by blast
  moreover have "free_units m1 = free_units m - {val a..<val a + val n}"
    using alloc_gives assms by blast
  ultimately show ?thesis by blast
qed

lemma alloc_release:
  assumes "inv m" "room m" "0 < val n" "val n < lim"
    and "alloc m n = Some (a, m1)" "val a \<noteq> 0"
  shows "\<exists>m2. release m1 n a = Some m2 \<and> inv m2 \<and> free_units m2 = free_units m"
proof -
  have g: "{val a..<val a + val n} \<subseteq> free_units m"
    "free_units m1 = free_units m - {val a..<val a + val n}"
    using alloc_gives assms by blast+
  have m1: "inv m1" "room m1" using alloc_inv assms by blast+
  have "val a + val n \<le> lim" using window_below assms g by blast
  moreover have "{val a..<val a + val n} \<inter> free_units m1 = {}" using g by blast
  ultimately obtain m2 where "release m1 n a = Some m2" "inv m2"
    "free_units m2 = free_units m1 \<union> {val a..<val a + val n}"
    using release_gives [OF m1 assms(3)] assms(6) by blast
  moreover have "free_units m1 \<union> {val a..<val a + val n} = free_units m"
    using g by blast
  ultimately show ?thesis by auto
qed

lemma release_realloc:
  assumes "inv m" "room m" "0 < val n" "val n < lim" "0 < val a" "val a + val n \<le> lim"
    and "{val a..<val a + val n} \<inter> free_units m = {}"
  shows "\<exists>m1 b m2. release m n a = Some m1 \<and> alloc m1 n = Some (b, m2) \<and> val b \<noteq> 0"
proof -
  obtain m1 where m1: "release m n a = Some m1" "inv m1"
    "free_units m1 = free_units m \<union> {val a..<val a + val n}"
    using release_gives assms by blast
  obtain b m2 where b: "alloc m1 n = Some (b, m2)"
    using alloc_returns m1(2) assms(3,4) by blast
  have "{val a..<val a + val n} \<subseteq> free_units m1" using m1(3) by blast
  then have "val b \<noteq> 0" using alloc_fails [OF m1(2) assms(3,4) b] by blast
  with m1 b show ?thesis by blast
qed

end

lemma live_ent_ok: "\<lbrakk>map_inv mp; e \<in> set (live mp)\<rbrakk> \<Longrightarrow> ent_ok e"
  by (auto simp: map_inv_def runs_ok_def list_all_iff)

lemma units_bounded: "map_inv mp \<Longrightarrow> units mp \<subseteq> {0<..<2 ^ 15}"
  by (fastforce simp: units_def runs_units_def ent_ok_def dest: live_ent_ok)

text \<open>Every window of free units lies in a run of the map that is large enough for it.\<close>

lemma units_window:
  assumes "map_inv mp" "0 < n" "{x..<x + n} \<subseteq> units mp"
  shows "\<exists>e\<in>set (live mp). n \<le> unat (m_size e) \<and> beg e \<le> x"
proof -
  obtain e where e: "e \<in> set (live mp)" "{x..<x + n} \<subseteq> run e"
    using window_in_run [of "live mp" n x] assms by (auto simp: map_inv_def units_def)
  from e(2) assms(2) have "beg e \<le> x \<and> x + n \<le> fin e"
    by (simp add: atLeastLessThan_subset_iff)
  with e show ?thesis by force
qed

lemma malloc_cases:
  assumes inv: "map_inv mp" and sz: "0 < unat sz" "unat sz < 2 ^ 15"
    and res: "malloc mp sz = Some (a, mp')"
  shows "map_inv mp' \<and> (has_room mp \<longrightarrow> has_room mp') \<and>
    (if a = 0 then mp' = mp \<and> (\<forall>x. \<not> {x..<x + unat sz} \<subseteq> units mp)
     else {unat a..<unat a + unat sz} \<subseteq> units mp \<and>
       units mp' = units mp - {unat a..<unat a + unat sz} \<and>
       (\<forall>x. {x..<x + unat sz} \<subseteq> units mp \<longrightarrow> unat a \<le> x))"
proof (cases "\<exists>x\<in>set (live mp). unat sz \<le> unat (m_size x)")
  case True
  obtain e where e: "a = m_addr e" "e \<in> set (live mp)" "unat sz \<le> unat (m_size e)"
    "\<forall>x\<in>set (live mp). unat sz \<le> unat (m_size x) \<longrightarrow> beg e \<le> beg x" "map_inv mp'"
    "units mp' = units mp - {beg e..<beg e + unat sz}" "length (spare mp) \<le> length (spare mp')"
    using malloc_success [OF inv sz True] res by auto
  have "a \<noteq> 0" using live_ent_ok [OF inv e(2)] e(1) by (auto simp: ent_ok_def)
  moreover have "unat a \<le> x" if "{x..<x + unat sz} \<subseteq> units mp" for x
    using units_window [OF inv sz(1) that] e(1,4) by fastforce
  moreover have "{unat a..<unat a + unat sz} \<subseteq> units mp"
    using e(1-3) by (fastforce simp: units_def runs_units_def)
  ultimately show ?thesis using e by (auto simp: has_room_def)
next
  case False
  then have "a = 0" "mp' = mp"
    using malloc_failure [OF inv sz(2)] res by (auto simp: not_le)
  moreover have "\<not> {x..<x + unat sz} \<subseteq> units mp" for x
    using units_window [OF inv sz(1)] False by blast
  ultimately show ?thesis using inv by simp
qed

lemma malloc_returns:
  assumes "map_inv mp" "0 < unat sz" "unat sz < 2 ^ 15"
  shows "\<exists>a mp'. malloc mp sz = Some (a, mp')"
  using malloc_success [OF assms] malloc_failure [OF assms(1,3)] by (meson not_le)

interpretation rmap: unit_allocator malloc mfree_map unat map_inv units has_room "2 ^ 15"
proof (unfold_locales, goal_cases)
  case (1 m n)
  obtain a m' where r: "malloc m n = Some (a, m')"
    using malloc_returns [OF "1"] by blast
  from malloc_cases [OF "1" r] r show ?case by blast
next
  case (2 m n a m')
  from malloc_cases [OF "2"(1-4)] "2"(5) show ?case by (simp add: unat_0_iff)
next
  case (3 m n a m')
  from malloc_cases [OF "3"(1-4)] "3"(5) show ?case by (simp add: unat_0_iff)
next
  case (4 m)
  then show ?case by (rule units_bounded)
next
  case (5 m n a)
  then show ?case by (intro mfree_map_ok)
qed

subsection \<open>Conservation of units over any sequence of requests\<close>

text \<open>
  A client holds the runs it was given.  Its steps are a successful and a failed
  \<open>malloc\<close> and an \<open>mfree\<close> of a run it holds, the last only while the
  table has room (the code has no check of its own).
\<close>

type_synonym map_client = "mapent list \<times> (u16 \<times> u16) list"

abbreviation win :: "u16 \<times> u16 \<Rightarrow> nat set" where
  "win h \<equiv> {unat (fst h)..<unat (fst h) + unat (snd h)}"

inductive client_step :: "map_client \<Rightarrow> map_client \<Rightarrow> bool" where
  client_malloc: "\<lbrakk>0 < unat sz; unat sz < 2 ^ 15; malloc mp sz = Some (a, mp')\<rbrakk> \<Longrightarrow>
     client_step (mp, H) (mp', if a = 0 then H else (a, sz) # H)"
| client_mfree: "\<lbrakk>has_room mp; mfree_map mp sz a = Some mp'\<rbrakk> \<Longrightarrow>
     client_step (mp, H1 @ (a, sz) # H2) (mp', H1 @ H2)"

inductive_cases client_stepE: "client_step s t"

definition client_inv :: "nat set \<Rightarrow> map_client \<Rightarrow> bool" where
  "client_inv U s \<longleftrightarrow> map_inv (fst s) \<and>
     list_all (\<lambda>h. 0 < unat (fst h) \<and> 0 < unat (snd h) \<and> unat (fst h) + unat (snd h) \<le> 2 ^ 15) (snd s) \<and>
     sorted_wrt (\<lambda>h k. win h \<inter> win k = {}) (snd s) \<and>
     (\<forall>h\<in>set (snd s). win h \<inter> units (fst s) = {}) \<and>
     units (fst s) \<union> (\<Union>h\<in>set (snd s). win h) = U"

lemma client_inv_malloc:
  assumes inv: "client_inv U (mp, H)" and sz: "0 < unat sz" "unat sz < 2 ^ 15"
    and m: "malloc mp sz = Some (a, mp')"
  shows "client_inv U (mp', if a = 0 then H else (a, sz) # H)"
proof -
  have mi: "map_inv mp" using inv by (simp add: client_inv_def)
  note c = malloc_cases [OF mi sz m]
  show ?thesis
  proof (cases "a = 0")
    case True
    with c inv show ?thesis by simp
  next
    case False
    define W where "W = {unat a..<unat a + unat sz}"
    from False c have g: "W \<subseteq> units mp" "units mp' = units mp - W" "map_inv mp'"
      by (simp_all add: W_def)
    have lim: "unat a + unat sz \<le> 2 ^ 15"
      using rmap.window_below [OF mi sz(1)] g(1) by (simp add: W_def)
    have apart: "W \<inter> win h = {}" if "h \<in> set H" for h
      using inv g(1) that unfolding client_inv_def by fastforce
    have "units mp' \<union> (W \<union> (\<Union>h\<in>set H. win h)) = U"
      using inv g(1,2) unfolding client_inv_def by auto
    moreover have "win h \<inter> units mp' = {}" if "h \<in> set H" for h
      using inv g(2) that unfolding client_inv_def by fastforce
    moreover have "W \<inter> units mp' = {}" using g(2) by blast
    ultimately show ?thesis
      using False inv g(3) apart lim sz(1)
      unfolding client_inv_def W_def by (simp add: unat_pos_iff)
  qed
qed

lemma client_inv_mfree:
  assumes inv: "client_inv U (mp, H1 @ (a, sz) # H2)" and room: "has_room mp"
    and f: "mfree_map mp sz a = Some mp'"
  shows "client_inv U (mp', H1 @ H2)"
proof -
  define W where "W = {unat a..<unat a + unat sz}"
  have a: "map_inv mp" "0 < unat a" "0 < unat sz" "unat a + unat sz \<le> 2 ^ 15"
    and d: "W \<inter> units mp = {}"
    using inv by (auto simp: client_inv_def W_def)
  have g: "map_inv mp'" "units mp' = units mp \<union> W"
    using mfree_map_ok [OF a(1) room a(3,2,4)] d f by (auto simp: W_def)
  have apart: "win h \<inter> W = {}" if "h \<in> set (H1 @ H2)" for h
    using inv that unfolding client_inv_def W_def
    by (auto simp: sorted_wrt_append Int_commute)
  have "win h \<inter> units mp' = {}" if "h \<in> set (H1 @ H2)" for h
  proof -
    have "win h \<inter> units mp = {}" using inv that by (auto simp: client_inv_def)
    with apart [OF that] show ?thesis unfolding g(2) by blast
  qed
  moreover have "units mp' \<union> (\<Union>h\<in>set (H1 @ H2). win h) = U"
    using inv unfolding client_inv_def g(2) W_def by auto
  moreover have "sorted_wrt (\<lambda>h k. win h \<inter> win k = {}) (H1 @ H2)"
    using inv by (auto simp: client_inv_def sorted_wrt_append)
  ultimately show ?thesis
    using inv g(1) by (auto simp: client_inv_def)
qed

interpretation mapclient: safe_system
  "\<lambda>s. snd s = [] \<and> map_inv (fst s) \<and> units (fst s) = U" client_step "client_inv U" for U
proof
  show "client_inv U s" if "snd s = [] \<and> map_inv (fst s) \<and> units (fst s) = U" for s
    using that by (simp add: client_inv_def)
  show "client_inv U t" if "client_inv U s" "client_step s t" for s t
    using that(2,1)
    by (induction rule: client_step.induct) (blast intro: client_inv_malloc client_inv_mfree)+
qed

subsection \<open>Properties\<close>

text \<open>
  C26: on a well-formed map \<open>malloc\<close> always returns.  A non-zero result is the lowest
  address at which the requested number of consecutive units is free, and exactly those
  units leave the map; result 0 means that no such window of free units exists, and the
  map is unchanged.
\<close>

theorem malloc_first_fit:
  assumes "map_inv mp" "0 < unat sz" "unat sz < 2 ^ 15"
  shows "\<exists>a mp'. malloc mp sz = Some (a, mp') \<and> map_inv mp' \<and>
    (if a = 0 then mp' = mp \<and> (\<forall>x. \<not> {x..<x + unat sz} \<subseteq> units mp)
     else {unat a..<unat a + unat sz} \<subseteq> units mp \<and>
       units mp' = units mp - {unat a..<unat a + unat sz} \<and>
       (\<forall>x. {x..<x + unat sz} \<subseteq> units mp \<longrightarrow> unat a \<le> x))"
proof -
  obtain a mp' where r: "malloc mp sz = Some (a, mp')"
    using malloc_returns [OF assms] by blast
  with malloc_cases [OF assms r] show ?thesis by blast
qed

definition demo_map :: "mapent list" where
  "demo_map = [\<lparr>m_size = 10, m_addr = 5\<rparr>, \<lparr>m_size = 4, m_addr = 20\<rparr>,
     \<lparr>m_size = 0, m_addr = 0\<rparr>, \<lparr>m_size = 0, m_addr = 0\<rparr>]"

lemmas demo_map_simps = demo_map_def map_inv_def live_def spare_def runs_ok_def ent_ok_def

lemma demo_map_inv: "map_inv demo_map"
  by (simp add: demo_map_simps)

lemma demo_map_room: "has_room demo_map"
  by (simp add: demo_map_simps has_room_def)

theorem malloc_first_fit_witness:
  "map_inv demo_map \<and> (\<exists>a mp'. malloc demo_map 3 = Some (a, mp') \<and> map_inv mp')"
  using malloc_first_fit [OF demo_map_inv, of 3] demo_map_inv by auto

definition map_at :: "mapid \<Rightarrow> map_state \<Rightarrow> mapent list" where
  "map_at mid s = (case mid of Coremap \<Rightarrow> coremap s | Swapmap \<Rightarrow> swapmap s)"

text \<open>
  C27: \<open>mfree\<close> of units that are not free puts exactly those units back, keeps the map
  sorted and coalesced, leaves the other map alone, and clears \<open>runin\<close> with one wakeup
  of the scheduler exactly when core is freed while the scheduler waits for it.
\<close>

theorem mfree_returns_units:
  assumes "map_inv (map_at mid s)" "has_room (map_at mid s)" "0 < unat sz" "0 < unat a"
    and "unat a + unat sz \<le> 2 ^ 15" "{unat a..<unat a + unat sz} \<inter> units (map_at mid s) = {}"
  shows "\<exists>s'. mfree mid sz a s = Some s' \<and> map_inv (map_at mid s') \<and>
    units (map_at mid s') = units (map_at mid s) \<union> {unat a..<unat a + unat sz} \<and>
    (\<forall>other. other \<noteq> mid \<longrightarrow> map_at other s' = map_at other s) \<and>
    runin s' = (runin s \<and> mid \<noteq> Coremap) \<and>
    ms_woken s' = ms_woken s + (if mid = Coremap \<and> runin s then 1 else 0)"
proof -
  obtain m where m: "mfree_map (map_at mid s) sz a = Some m" "map_inv m"
    "units m = units (map_at mid s) \<union> {unat a..<unat a + unat sz}"
    using mfree_map_ok [OF assms(1-5) assms(6)] by blast
  then show ?thesis
    by (cases mid) (auto simp: mfree_def map_at_def Let_def split: mapid.splits)
qed

definition demo_maps :: map_state where
  "demo_maps = \<lparr>coremap = demo_map, swapmap = [], runin = True, ms_woken = 0\<rparr>"

theorem mfree_returns_units_witness:
  "\<exists>s'. mfree Coremap 5 15 demo_maps = Some s' \<and> runin s' = False \<and> ms_woken s' = 1"
proof -
  have "units demo_map = {5..<15} \<union> {20..<24}"
    by (auto simp: units_def runs_units_def demo_map_simps)
  then have "{unat (15 :: u16)..<unat (15 :: u16) + unat (5 :: u16)} \<inter> units (map_at Coremap demo_maps) = {}"
    by (auto simp: map_at_def demo_maps_def)
  then show ?thesis
    using mfree_returns_units [of Coremap demo_maps 5 15] demo_map_inv demo_map_room
    by (auto simp: map_at_def demo_maps_def)
qed

text \<open>
  Freeing what \<open>malloc\<close> has just returned restores the map entry for entry, not
  only the set of free units: the representation is canonical.
\<close>

theorem malloc_mfree_roundtrip:
  assumes "map_inv mp" "has_room mp" "0 < unat sz" "unat sz < 2 ^ 15"
    and "malloc mp sz = Some (a, mp')" "a \<noteq> 0"
  shows "\<exists>mp''. mfree_map mp' sz a = Some mp'' \<and> live mp'' = live mp"
proof -
  obtain mp'' where m: "mfree_map mp' sz a = Some mp''" "map_inv mp''" "units mp'' = units mp"
    using rmap.alloc_release [OF assms(1-5)] assms(6) by (auto simp: unat_0_iff)
  then have "live mp'' = live mp"
    using assms(1) by (intro runs_unique) (auto simp: map_inv_def units_def)
  with m show ?thesis by blast
qed

theorem malloc_mfree_roundtrip_witness:
  "\<exists>a mp' mp''. malloc demo_map 10 = Some (a, mp') \<and> mfree_map mp' 10 a = Some mp'' \<and>
     live mp'' = live demo_map"
proof -
  have "malloc demo_map 10 = Some (5, [\<lparr>m_size = 4, m_addr = 20\<rparr>, \<lparr>m_size = 0, m_addr = 0\<rparr>,
     \<lparr>m_size = 0, m_addr = 0\<rparr>, \<lparr>m_size = 0, m_addr = 0\<rparr>])"
    by (simp add: demo_map_def word_sle_eq)
  with malloc_mfree_roundtrip [OF demo_map_inv demo_map_room, of 10] show ?thesis by auto
qed

text \<open>
  C28: starting from a map of free units \<open>U\<close>, whatever sequence of \<open>malloc\<close> and
  \<open>mfree\<close> calls a client makes, no unit is ever lost, handed out twice, or free and
  handed out at once.
\<close>

theorem map_units_conserved:
  assumes "reach (\<lambda>s. snd s = [] \<and> map_inv (fst s) \<and> units (fst s) = U) client_step (mp, H)"
  shows "map_inv mp \<and> units mp \<union> (\<Union>h\<in>set H. win h) = U \<and>
    (\<forall>h\<in>set H. win h \<inter> units mp = {}) \<and>
    (\<forall>i<length H. \<forall>j<length H. i \<noteq> j \<longrightarrow> win (H ! i) \<inter> win (H ! j) = {})"
proof -
  have inv: "client_inv U (mp, H)"
    using assms by (rule mapclient.reach_inv)
  then have srt: "sorted_wrt (\<lambda>h k. win h \<inter> win k = {}) H"
    by (simp add: client_inv_def)
  have "win (H ! i) \<inter> win (H ! j) = {}" if "i < length H" "j < length H" "i \<noteq> j" for i j
  proof (cases "i < j")
    case True
    then show ?thesis using sorted_wrt_nth_less [OF srt True] that by simp
  next
    case False
    then have "j < i" using that by simp
    then show ?thesis using sorted_wrt_nth_less [OF srt \<open>j < i\<close>] that by blast
  qed
  with inv show ?thesis by (auto simp: client_inv_def)
qed

theorem map_units_conserved_witness:
  "\<exists>mp. reach (\<lambda>s. snd s = [] \<and> map_inv (fst s) \<and> units (fst s) = units demo_map) client_step
      (mp, [(5, 3)]) \<and> units mp \<union> {5..<8} = units demo_map"
proof -
  let ?mp = "[\<lparr>m_size = 7, m_addr = 8\<rparr>, \<lparr>m_size = 4, m_addr = 20\<rparr>,
     \<lparr>m_size = 0, m_addr = 0\<rparr>, \<lparr>m_size = 0, m_addr = 0\<rparr>] :: mapent list"
  have "malloc demo_map 3 = Some (5, ?mp)"
    by (simp add: demo_map_def word_sle_eq)
  then have step: "client_step (demo_map, []) (?mp, [(5, 3)])"
    using client_malloc [of 3 demo_map 5 ?mp "[]"] by simp
  have r0: "reach (\<lambda>s. snd s = [] \<and> map_inv (fst s) \<and> units (fst s) = units demo_map) client_step
      (demo_map, [])"
    by (rule reach_start) (simp add: demo_map_inv)
  note r = reach_step [OF r0 step]
  show ?thesis
    using r map_units_conserved [OF r] by auto
qed

end
