(* ===== verification/Spinlock.thy ===== *)
theory Spinlock
  imports Prelude
begin

section \<open>Spinlocks (v7/usr/sys/h/spinlock.h)\<close>

text \<open>
  Both variants of the kernel spinlock as transition systems of threads.  Each step is
  one access to the lock word: an atomic builtin (\<open>__sync_lock_test_and_set\<close>,
  \<open>__sync_fetch_and_add\<close>, \<open>__sync_val_compare_and_swap\<close>,
  \<open>__sync_lock_release\<close>) or a volatile read.  The lock words are 32-bit, so the
  tickets of the ticket lock wrap around.  The debugging fields (owner file and line,
  time of acquisition) play no part in locking and are left out.

  Both systems interpret the mutual exclusion interface of the prelude.  For the ticket
  lock the queue of tickets is recovered from the counters, and the lock is shown to be
  first-come first-served, without overtaking and without deadlock, for any number of
  threads below \<open>2 ^ 32\<close>.
\<close>

subsection \<open>The default lock: test and set\<close>

type_synonym tid = nat

datatype tas_pc = TasIdle | TasSet | TasSpin | TasHeld

record tas_sys =
  tas_lock :: u32
  tas_pcs :: "tid \<Rightarrow> tas_pc"

definition spinlock_init :: "tas_sys \<Rightarrow> bool" where
  "spinlock_init s \<longleftrightarrow> tas_lock s = 0 \<and> tas_pcs s = (\<lambda>_. TasIdle)"

inductive tas_step :: "tas_sys \<Rightarrow> tas_sys \<Rightarrow> bool" where
  tas_call: "tas_pcs s i = TasIdle \<Longrightarrow> tas_step s (s\<lparr>tas_pcs := (tas_pcs s)(i := TasSet)\<rparr>)"
| tas_set: "tas_pcs s i = TasSet \<Longrightarrow> tas_step s
     (s\<lparr>tas_lock := 1, tas_pcs := (tas_pcs s)(i := if tas_lock s \<noteq> 0 then TasSpin else TasHeld)\<rparr>)"
| tas_spin: "tas_pcs s i = TasSpin \<Longrightarrow> tas_step s
     (s\<lparr>tas_pcs := (tas_pcs s)(i := if tas_lock s \<noteq> 0 then TasSpin else TasSet)\<rparr>)"
| tas_release: "tas_pcs s i = TasHeld \<Longrightarrow> tas_step s
     (s\<lparr>tas_lock := 0, tas_pcs := (tas_pcs s)(i := TasIdle)\<rparr>)"

definition tas_inv :: "tas_sys \<Rightarrow> bool" where
  "tas_inv s \<longleftrightarrow>
     (\<forall>i j. tas_pcs s i = TasHeld \<longrightarrow> tas_pcs s j = TasHeld \<longrightarrow> i = j) \<and>
     ((\<exists>i. tas_pcs s i = TasHeld) \<longleftrightarrow> tas_lock s \<noteq> 0)"

lemma tas_step_inv: "tas_step s t \<Longrightarrow> tas_inv s \<Longrightarrow> tas_inv t"
  by (induction rule: tas_step.induct) (auto simp: tas_inv_def, (metis tas_pc.distinct)+)

interpretation tas: mutex_system spinlock_init tas_step tas_inv "\<lambda>s i. tas_pcs s i = TasHeld"
proof
  show "tas_inv s" if "spinlock_init s" for s
    using that by (simp add: tas_inv_def spinlock_init_def)
  show "tas_inv t" if "tas_inv s" "tas_step s t" for s t
    using that by (blast intro: tas_step_inv)
  show "i = j" if "tas_inv s" "tas_pcs s i = TasHeld" "tas_pcs s j = TasHeld" for s i j
    using that unfolding tas_inv_def by blast
qed

subsection \<open>The ticket lock\<close>

datatype ticket_pc =
    TkIdle
  | TkCas u32 \<comment> \<open>about to compare \<open>owner\<close> with the ticket\<close>
  | TkSpin u32 \<comment> \<open>inner loop: reads \<open>owner\<close>\<close>
  | TkHeld u32

record ticketlock =
  tk_next :: u32
  tk_owner :: u32
  tk_pcs :: "tid \<Rightarrow> ticket_pc"

definition ticketlock_init :: "ticketlock \<Rightarrow> bool" where
  "ticketlock_init s \<longleftrightarrow> tk_next s = 0 \<and> tk_owner s = 0 \<and> tk_pcs s = (\<lambda>_. TkIdle)"

text \<open>The steps of the threads \<open>0..<N\<close>.\<close>

inductive tk_step :: "nat \<Rightarrow> ticketlock \<Rightarrow> ticketlock \<Rightarrow> bool" for N :: nat where
  tk_acquire: "\<lbrakk>i < N; tk_pcs s i = TkIdle\<rbrakk> \<Longrightarrow> tk_step N s
     (s\<lparr>tk_next := tk_next s + 1, tk_pcs := (tk_pcs s)(i := TkCas (tk_next s))\<rparr>)"
| tk_cas: "\<lbrakk>i < N; tk_pcs s i = TkCas t\<rbrakk> \<Longrightarrow> tk_step N s
     (s\<lparr>tk_pcs := (tk_pcs s)(i := if tk_owner s \<noteq> t then TkSpin t else TkHeld t)\<rparr>)"
| tk_spin: "\<lbrakk>i < N; tk_pcs s i = TkSpin t\<rbrakk> \<Longrightarrow> tk_step N s
     (s\<lparr>tk_pcs := (tk_pcs s)(i := if tk_owner s \<noteq> t then TkSpin t else TkCas t)\<rparr>)"
| tk_release: "\<lbrakk>i < N; tk_pcs s i = TkHeld t\<rbrakk> \<Longrightarrow> tk_step N s
     (s\<lparr>tk_owner := tk_owner s + 1, tk_pcs := (tk_pcs s)(i := TkIdle)\<rparr>)"

fun ticket_of :: "ticket_pc \<Rightarrow> u32 option" where
  "ticket_of TkIdle = None"
| "ticket_of (TkCas t) = Some t"
| "ticket_of (TkSpin t) = Some t"
| "ticket_of (TkHeld t) = Some t"

text \<open>
  The queue behind the counters: the \<open>k\<close>-th thread in it has ticket
  \<open>owner + k\<close>, and only the first can hold the lock.
\<close>

definition tk_queue :: "nat \<Rightarrow> ticketlock \<Rightarrow> tid list \<Rightarrow> bool" where
  "tk_queue N s q \<longleftrightarrow> distinct q \<and> set q \<subseteq> {..<N} \<and>
     tk_next s = tk_owner s + of_nat (length q) \<and>
     (\<forall>k<length q. ticket_of (tk_pcs s (q ! k)) = Some (tk_owner s + of_nat k)) \<and>
     (\<forall>i. i \<notin> set q \<longrightarrow> tk_pcs s i = TkIdle) \<and>
     (\<forall>i t. tk_pcs s i = TkHeld t \<longrightarrow> t = tk_owner s)"

definition tk_inv :: "nat \<Rightarrow> ticketlock \<Rightarrow> bool" where
  "tk_inv N s \<longleftrightarrow> (\<exists>q. tk_queue N s q)"

text \<open>How many threads are served before a thread that waits with ticket \<open>t\<close>.\<close>

definition ahead :: "ticketlock \<Rightarrow> u32 \<Rightarrow> nat" where
  "ahead s t = unat (t - tk_owner s)"

lemma tk_queue_length: "tk_queue N s q \<Longrightarrow> length q \<le> N"
  by (metis tk_queue_def card_lessThan card_mono distinct_card finite_lessThan)

lemma unat_of_nat_less: "\<lbrakk>k \<le> N; N < 2 ^ 32\<rbrakk> \<Longrightarrow> unat (of_nat k :: u32) = k"
  by (simp add: unat_of_nat take_bit_nat_eq_self)

lemma tk_queue_position:
  assumes q: "tk_queue N s q" and N: "N < 2 ^ 32" and t: "ticket_of (tk_pcs s i) = Some t"
  shows "ahead s t < length q \<and> q ! ahead s t = i"
proof -
  from q t have "i \<in> set q" by (fastforce simp: tk_queue_def)
  then obtain k where k: "k < length q" "q ! k = i" by (auto simp: in_set_conv_nth)
  with q t have "t = tk_owner s + of_nat k" by (auto simp: tk_queue_def)
  with k N tk_queue_length [OF q] have "ahead s t = k"
    by (simp add: ahead_def unat_of_nat_less [of k N])
  with k show ?thesis by simp
qed


text \<open>Each step moves the queue as expected: join at the end, leave at the front.\<close>

lemma tk_queue_acquire:
  assumes q: "tk_queue N s q" and i: "i < N" "tk_pcs s i = TkIdle"
  shows "tk_queue N (s\<lparr>tk_next := tk_next s + 1, tk_pcs := (tk_pcs s)(i := TkCas (tk_next s))\<rparr>) (q @ [i])"
proof -
  have "i \<notin> set q"
  proof
    assume "i \<in> set q"
    with q i show False by (fastforce simp: tk_queue_def in_set_conv_nth)
  qed
  moreover from this have "q ! k \<noteq> i" if "k < length q" for k
    using that by auto
  ultimately show ?thesis
    using q i by (auto simp: tk_queue_def nth_append less_Suc_eq)
qed

lemma tk_queue_same:
  assumes q: "tk_queue N s q" and t: "ticket_of (tk_pcs s i) = Some t" "ticket_of p = Some t"
    and h: "\<And>u. p = TkHeld u \<Longrightarrow> u = tk_owner s"
  shows "tk_queue N (s\<lparr>tk_pcs := (tk_pcs s)(i := p)\<rparr>) q"
proof -
  have "i \<in> set q" using q t(1) by (fastforce simp: tk_queue_def)
  with q t h show ?thesis by (auto simp: tk_queue_def)
qed

lemma tk_queue_release:
  assumes q: "tk_queue N s q" and N: "N < 2 ^ 32" and i: "tk_pcs s i = TkHeld t"
  shows "tk_queue N (s\<lparr>tk_owner := tk_owner s + 1, tk_pcs := (tk_pcs s)(i := TkIdle)\<rparr>) (tl q)"
    and "q \<noteq> [] \<and> hd q = i"
proof -
  have t: "t = tk_owner s" using q i by (auto simp: tk_queue_def)
  have "ahead s t < length q \<and> q ! ahead s t = i"
    using tk_queue_position [OF q N, of i t] i by simp
  then obtain q' where q': "q = i # q'"
    using t by (cases q) (auto simp: ahead_def)
  then show "q \<noteq> [] \<and> hd q = i" by simp
  have fresh: "i \<notin> set q'" "\<And>k. k < length q' \<Longrightarrow> q' ! k \<noteq> i"
    using q q' by (auto simp: tk_queue_def)
  have tick: "ticket_of (tk_pcs s (q' ! k)) = Some (tk_owner s + (1 + of_nat k))"
    if "k < length q'" for k
    using q that unfolding tk_queue_def q' by (auto dest!: spec [of _ "Suc k"])
  have "tk_pcs s j \<noteq> TkHeld u" if "j \<noteq> i" for j u
  proof
    assume u: "tk_pcs s j = TkHeld u"
    then have "u = tk_owner s" using q by (auto simp: tk_queue_def)
    then show False using tk_queue_position [OF q N, of j u] u that q' by (simp add: ahead_def)
  qed
  with q q' fresh tick show "tk_queue N (s\<lparr>tk_owner := tk_owner s + 1,
      tk_pcs := (tk_pcs s)(i := TkIdle)\<rparr>) (tl q)"
    by (auto simp: tk_queue_def add.assoc)
qed

lemma tk_step_queue:
  assumes "tk_step N s s'" and N: "N < 2 ^ 32" and q: "tk_queue N s q"
  shows "tk_queue N s' q \<or> (\<exists>i. tk_queue N s' (q @ [i])) \<or>
     (q \<noteq> [] \<and> tk_owner s' = tk_owner s + 1 \<and> tk_queue N s' (tl q))"
  using assms(1)
proof cases
  case (tk_acquire i)
  then show ?thesis using tk_queue_acquire [OF q] by blast
next
  case (tk_cas i t)
  then show ?thesis using tk_queue_same [OF q, of i t "if tk_owner s \<noteq> t then TkSpin t else TkHeld t"]
    by (simp split: if_splits)
next
  case (tk_spin i t)
  then show ?thesis using tk_queue_same [OF q, of i t "if tk_owner s \<noteq> t then TkSpin t else TkCas t"]
    by (simp split: if_splits)
next
  case (tk_release i t)
  then show ?thesis using tk_queue_release [OF q N] by auto
qed

lemma tk_step_inv: "\<lbrakk>tk_step N s s'; N < 2 ^ 32; tk_inv N s\<rbrakk> \<Longrightarrow> tk_inv N s'"
  using tk_step_queue unfolding tk_inv_def by blast

lemma tk_init_queue: "ticketlock_init s \<Longrightarrow> tk_queue N s []"
  by (simp add: ticketlock_init_def tk_queue_def)

lemma tk_queue_holder:
  assumes "tk_queue N s q" "N < 2 ^ 32" "tk_pcs s i = TkHeld t"
  shows "q \<noteq> [] \<and> hd q = i \<and> t = tk_owner s"
proof -
  have "t = tk_owner s" using assms by (auto simp: tk_queue_def)
  with tk_queue_position [OF assms(1,2), of i t] assms(3) show ?thesis
    by (cases q) (auto simp: ahead_def)
qed

interpretation tk: mutex_system "\<lambda>s. N < 2 ^ 32 \<and> ticketlock_init s" "tk_step N"
  "\<lambda>s. N < 2 ^ 32 \<and> tk_inv N s" "\<lambda>s i. \<exists>t. tk_pcs s i = TkHeld t" for N
proof
  show "N < 2 ^ 32 \<and> tk_inv N s" if "N < 2 ^ 32 \<and> ticketlock_init s" for s
    using that tk_init_queue by (auto simp: tk_inv_def)
  show "N < 2 ^ 32 \<and> tk_inv N t" if "N < 2 ^ 32 \<and> tk_inv N s" "tk_step N s t" for s t
    using that tk_step_inv by blast
  show "i = j" if "N < 2 ^ 32 \<and> tk_inv N s" "\<exists>t. tk_pcs s i = TkHeld t"
    "\<exists>t. tk_pcs s j = TkHeld t" for s i j
    using that tk_queue_holder unfolding tk_inv_def by blast
qed

lemma tk_reach_queue:
  assumes "N < 2 ^ 32" "reach ticketlock_init (tk_step N) s"
  obtains q where "tk_queue N s q"
proof -
  have "reach (\<lambda>s. N < 2 ^ 32 \<and> ticketlock_init s) (tk_step N) s"
    using assms by (auto intro: reach_mono)
  then have "N < 2 ^ 32 \<and> tk_inv N s" by (rule tk.reach_inv)
  then show thesis using that by (auto simp: tk_inv_def)
qed

text \<open>The position of a waiting thread is its distance from the front of the queue.\<close>

lemma tk_step_ahead:
  assumes N: "N < 2 ^ 32" and q: "tk_queue N s q" and st: "tk_step N s s'"
    and t: "ticket_of (tk_pcs s i) = Some t" "ticket_of (tk_pcs s' i) = Some t"
  shows "ahead s' t = (if tk_owner s' = tk_owner s then ahead s t else ahead s t - 1) \<and>
     (tk_owner s' \<noteq> tk_owner s \<longrightarrow> tk_owner s' = tk_owner s + 1 \<and> 0 < ahead s t)"
  using st
proof cases
  case (tk_release j u)
  note h = tk_queue_holder [OF q N tk_release(3)]
  have "i \<noteq> j" using t(2) tk_release(1) by auto
  with tk_queue_position [OF q N t(1)] h have "ahead s t \<noteq> 0"
    by (metis hd_conv_nth)
  then have "t - tk_owner s \<noteq> 0" by (simp add: ahead_def unat_0_iff)
  then have "unat (t - tk_owner s - 1) = unat (t - tk_owner s) - 1"
    by (rule unat_minus_one)
  with \<open>ahead s t \<noteq> 0\<close> tk_release(1) show ?thesis
    by (simp add: ahead_def diff_diff_eq)
qed (auto simp: ahead_def)

text \<open>
  The default spinlock gives mutual exclusion: in every state reachable by any
  interleaving of lock word accesses at most one thread is past \<open>spinlock_lock\<close>.
\<close>

theorem spinlock_mutual_exclusion:
  assumes "reach spinlock_init tas_step s" "tas_pcs s i = TasHeld" "tas_pcs s j = TasHeld"
  shows "i = j"
  using assms by (rule tas.mutual_exclusion)

definition tas_idle :: tas_sys where
  "tas_idle = \<lparr>tas_lock = 0, tas_pcs = (\<lambda>_. TasIdle)\<rparr>"

theorem spinlock_mutual_exclusion_witness:
  "\<exists>s. reach spinlock_init tas_step s \<and> tas_pcs s 3 = TasHeld \<and> (\<exists>!i. tas_pcs s i = TasHeld)"
proof -
  let ?s1 = "tas_idle\<lparr>tas_pcs := (tas_pcs tas_idle)(3 := TasSet)\<rparr>"
  let ?s2 = "?s1\<lparr>tas_lock := 1, tas_pcs := (tas_pcs ?s1)(3 := if tas_lock ?s1 \<noteq> 0 then TasSpin else TasHeld)\<rparr>"
  have "reach spinlock_init tas_step tas_idle"
    by (rule reach_start) (simp add: tas_idle_def spinlock_init_def)
  then have "reach spinlock_init tas_step ?s1"
    by (rule reach_step) (rule tas_call, simp add: tas_idle_def)
  then have r: "reach spinlock_init tas_step ?s2"
    by (rule reach_step) (rule tas_set, simp)
  moreover have h: "tas_pcs ?s2 3 = TasHeld" by (simp add: tas_idle_def)
  ultimately show ?thesis
    using spinlock_mutual_exclusion [OF r _ h] by blast
qed

text \<open>
  C31: the ticket lock gives mutual exclusion for any number of threads below
  \<open>2 ^ 32\<close>, although its counters wrap around.
\<close>

theorem ticketlock_mutual_exclusion:
  assumes "N < 2 ^ 32" "reach ticketlock_init (tk_step N) s"
    and "tk_pcs s i = TkHeld t" "tk_pcs s j = TkHeld u"
  shows "i = j"
proof -
  obtain q where "tk_queue N s q" using tk_reach_queue assms(1,2) .
  with assms tk_queue_holder show ?thesis by blast
qed

definition tk_idle :: ticketlock where
  "tk_idle = \<lparr>tk_next = 0, tk_owner = 0, tk_pcs = (\<lambda>_. TkIdle)\<rparr>"

definition tk_one :: ticketlock where
  "tk_one = \<lparr>tk_next = 1, tk_owner = 0, tk_pcs = (\<lambda>_. TkIdle)(0 := TkCas 0)\<rparr>"

definition tk_two :: ticketlock where
  "tk_two = \<lparr>tk_next = 2, tk_owner = 0, tk_pcs = (\<lambda>_. TkIdle)(0 := TkCas 0, 1 := TkCas 1)\<rparr>"

definition tk_two_held :: ticketlock where
  "tk_two_held = \<lparr>tk_next = 2, tk_owner = 0, tk_pcs = (\<lambda>_. TkIdle)(0 := TkHeld 0, 1 := TkCas 1)\<rparr>"

lemma tk_two_reach: "reach ticketlock_init (tk_step 2) tk_two"
proof -
  have "reach ticketlock_init (tk_step 2) tk_idle"
    by (rule reach_start) (simp add: tk_idle_def ticketlock_init_def)
  moreover have "tk_step 2 tk_idle tk_one"
    using tk_acquire [of 0 2 tk_idle] by (simp add: tk_idle_def tk_one_def)
  ultimately have "reach ticketlock_init (tk_step 2) tk_one" by (rule reach_step)
  moreover have "tk_step 2 tk_one tk_two"
    using tk_acquire [of 1 2 tk_one] by (simp add: tk_one_def tk_two_def)
  ultimately show ?thesis by (rule reach_step)
qed

lemma tk_two_step: "tk_step 2 tk_two tk_two_held"
  using tk_cas [of 0 2 tk_two 0] by (simp add: tk_two_def tk_two_held_def fun_upd_twist)

theorem ticketlock_mutual_exclusion_witness:
  "reach ticketlock_init (tk_step 2) tk_two_held \<and> (\<exists>!i. \<exists>t. tk_pcs tk_two_held i = TkHeld t)"
proof -
  have r: "reach ticketlock_init (tk_step 2) tk_two_held"
    using tk_two_reach tk_two_step by (rule reach_step)
  have h: "tk_pcs tk_two_held 0 = TkHeld 0" by (simp add: tk_two_held_def)
  have "i = 0" if "tk_pcs tk_two_held i = TkHeld t" for i t
    using ticketlock_mutual_exclusion [OF _ r that h] by simp
  with r h show ?thesis by blast
qed

text \<open>
  The ticket lock is first-come first-served.  While threads \<open>i\<close> and \<open>j\<close> keep
  their tickets, no step changes their order, and the later one does not hold the lock.
\<close>

theorem ticketlock_no_overtaking:
  assumes "N < 2 ^ 32" "reach ticketlock_init (tk_step N) s" "tk_step N s s'"
    and "ticket_of (tk_pcs s i) = Some t" "ticket_of (tk_pcs s' i) = Some t"
    and "ticket_of (tk_pcs s j) = Some u" "ticket_of (tk_pcs s' j) = Some u"
    and "ahead s t < ahead s u"
  shows "ahead s' t < ahead s' u \<and> tk_pcs s' j \<noteq> TkHeld u"
proof -
  obtain q where q: "tk_queue N s q" using tk_reach_queue assms(1,2) .
  have less: "ahead s' t < ahead s' u"
    using tk_step_ahead [OF assms(1) q assms(3,4,5)] tk_step_ahead [OF assms(1) q assms(3,6,7)]
      assms(8) by (auto split: if_splits)
  obtain q' where q': "tk_queue N s' q'"
    using tk_reach_queue assms(1) reach_step [OF assms(2,3)] .
  have "u = tk_owner s'" if "tk_pcs s' j = TkHeld u"
    using tk_queue_holder [OF q' assms(1) that] by simp
  with less have "tk_pcs s' j \<noteq> TkHeld u" by (auto simp: ahead_def)
  with less show ?thesis by simp
qed

theorem ticketlock_no_overtaking_witness:
  "ahead tk_two 0 < ahead tk_two 1 \<and> ahead tk_two_held 0 < ahead tk_two_held 1 \<and>
     tk_pcs tk_two_held 1 \<noteq> TkHeld 1"
proof -
  have "ahead tk_two 0 < ahead tk_two 1" by (simp add: ahead_def tk_two_def)
  with ticketlock_no_overtaking [OF _ tk_two_reach tk_two_step, of 0 0 1 1] show ?thesis
    by (simp add: tk_two_def tk_two_held_def)
qed

text \<open>
  C32: the ticket lock cannot deadlock.  As long as some thread has a ticket, the thread
  whose ticket is \<open>owner\<close> holds the lock or gets it by its own next steps alone.
\<close>

theorem ticketlock_progress:
  assumes "N < 2 ^ 32" "reach ticketlock_init (tk_step N) s" "tk_pcs s i \<noteq> TkIdle"
  shows "\<exists>j s'. ticket_of (tk_pcs s j) = Some (tk_owner s) \<and> (tk_step N)\<^sup>*\<^sup>* s s' \<and>
     tk_pcs s' = (tk_pcs s)(j := TkHeld (tk_owner s))"
proof -
  obtain q where q: "tk_queue N s q" using tk_reach_queue assms(1,2) .
  with assms(3) obtain j q' where q': "q = j # q'" by (cases q) (auto simp: tk_queue_def)
  with q have j: "j < N" "ticket_of (tk_pcs s j) = Some (tk_owner s)"
    by (auto simp: tk_queue_def dest!: spec [of _ 0])
  let ?o = "tk_owner s"
  have cas: "tk_step N r (r\<lparr>tk_pcs := (tk_pcs r)(j := TkHeld ?o)\<rparr>)"
    if "tk_pcs r j = TkCas ?o" "tk_owner r = ?o" for r
    using tk_cas [OF j(1) that(1)] that(2) by simp
  consider "tk_pcs s j = TkHeld ?o" | "tk_pcs s j = TkCas ?o" | "tk_pcs s j = TkSpin ?o"
    using j(2) by (cases "tk_pcs s j") auto
  then show ?thesis
  proof cases
    case 1
    then have "tk_pcs s = (tk_pcs s)(j := TkHeld ?o)" by auto
    with j(2) show ?thesis by blast
  next
    case 2
    then have "(tk_step N)\<^sup>*\<^sup>* s (s\<lparr>tk_pcs := (tk_pcs s)(j := TkHeld ?o)\<rparr>)"
      using cas [of s] by blast
    with j(2) show ?thesis by fastforce
  next
    case 3
    let ?r = "s\<lparr>tk_pcs := (tk_pcs s)(j := TkCas ?o)\<rparr>"
    have "tk_step N s ?r" using tk_spin [OF j(1) 3] by simp
    moreover have "tk_step N ?r (s\<lparr>tk_pcs := (tk_pcs s)(j := TkHeld ?o)\<rparr>)"
      using cas [of ?r] by simp
    ultimately have "(tk_step N)\<^sup>*\<^sup>* s (s\<lparr>tk_pcs := (tk_pcs s)(j := TkHeld ?o)\<rparr>)"
      by (meson converse_rtranclp_into_rtranclp r_into_rtranclp)
    with j(2) show ?thesis by fastforce
  qed
qed

theorem ticketlock_progress_witness:
  "\<exists>j s'. (tk_step 2)\<^sup>*\<^sup>* tk_two s' \<and> tk_pcs s' j = TkHeld 0"
proof -
  have "tk_pcs tk_two 1 \<noteq> TkIdle" by (simp add: tk_two_def)
  from ticketlock_progress [OF _ tk_two_reach this] show ?thesis
    by (auto simp: tk_two_def) (metis fun_upd_same)
qed

end
