(* ===== verification/Mailbox.thy ===== *)
theory Mailbox
  imports Spinlock
begin

section \<open>Mailbox message passing (src/kernel, src/user/lib)\<close>

text \<open>
  A mailbox is a ring of 16 integers behind a spinlock.  The operations are modelled
  twice.  The functions \<open>mailbox_send\<close> and \<open>mailbox_recv\<close> are the C functions run
  without interference; they return \<^const>\<open>None\<close> when the lock is taken, where
  the code would spin.  The step relation \<open>mb_step\<close> runs any number of threads through
  the same functions one memory access at a time, with the test-and-set lock.

  The lemmas show that a mailbox is a bounded first-in first-out queue, sequentially as
  an instance of an interface for bounded queues and concurrently as an invariant of all
  interleavings.
\<close>

subsection \<open>The mailbox and its operations\<close>

definition MAILBOX_SIZE :: nat where "MAILBOX_SIZE = 16"

record mailbox =
  mb_lock :: u32
  mb_head :: nat
  mb_tail :: nat
  mb_count :: nat
  mb_buffer :: "u32 list"

definition mailbox_init :: "mailbox \<Rightarrow> mailbox" where
  "mailbox_init mb = mb\<lparr>mb_lock := 0, mb_head := 0, mb_tail := 0, mb_count := 0\<rparr>"

definition mailbox_send :: "mailbox \<Rightarrow> u32 \<Rightarrow> (int \<times> mailbox) option" where
  "mailbox_send mb v =
     (if mb_lock mb \<noteq> 0 then None
      else if mb_count mb < MAILBOX_SIZE then
        Some (0, mb\<lparr>mb_buffer := (mb_buffer mb)[mb_tail mb := v],
                   mb_tail := (mb_tail mb + 1) mod MAILBOX_SIZE,
                   mb_count := mb_count mb + 1\<rparr>)
      else Some (-1, mb))"

text \<open>The value read is stored through a pointer; \<^const>\<open>None\<close> leaves it alone.\<close>

definition mailbox_recv :: "mailbox \<Rightarrow> (int \<times> u32 option \<times> mailbox) option" where
  "mailbox_recv mb =
     (if mb_lock mb \<noteq> 0 then None
      else if 0 < mb_count mb then
        Some (0, Some (mb_buffer mb ! mb_head mb),
          mb\<lparr>mb_head := (mb_head mb + 1) mod MAILBOX_SIZE, mb_count := mb_count mb - 1\<rparr>)
      else Some (-1, None, mb))"

subsection \<open>One mailbox per process\<close>

definition NPROC :: nat where "NPROC = 20"

type_synonym mailboxes = "mailbox list"

definition exo_ipc_init :: "mailboxes \<Rightarrow> mailboxes" where
  "exo_ipc_init mbs = map mailbox_init mbs"

text \<open>The index \<open>p - proc\<close> of the process in the process table.\<close>

definition exo_get_mailbox :: "int \<Rightarrow> nat option" where
  "exo_get_mailbox idx = (if idx < 0 \<or> idx \<ge> int NPROC then None else Some (nat idx))"

definition exo_ipc_send :: "mailboxes \<Rightarrow> int \<Rightarrow> u32 \<Rightarrow> (int \<times> mailboxes) option" where
  "exo_ipc_send mbs target v =
     (case exo_get_mailbox target of
        None \<Rightarrow> Some (-1, mbs)
      | Some k \<Rightarrow> map_option (\<lambda>(r, mb). (r, mbs[k := mb])) (mailbox_send (mbs ! k) v))"

definition exo_ipc_recv :: "mailboxes \<Rightarrow> int \<Rightarrow> (int \<times> u32 option \<times> mailboxes) option" where
  "exo_ipc_recv mbs p =
     (case exo_get_mailbox p of
        None \<Rightarrow> Some (-1, None, mbs)
      | Some k \<Rightarrow> map_option (\<lambda>(r, v, mb). (r, v, mbs[k := mb])) (mailbox_recv (mbs ! k)))"

definition exo_send :: "mailboxes \<Rightarrow> int \<Rightarrow> u32 \<Rightarrow> (int \<times> mailboxes) option" where
  "exo_send mbs pid v =
     (if pid < 0 \<or> pid \<ge> int NPROC then Some (-1, mbs)
      else map_option (\<lambda>(r, mb). (r, mbs[nat pid := mb])) (mailbox_send (mbs ! nat pid) v))"

definition exo_recv :: "mailboxes \<Rightarrow> int \<Rightarrow> (int \<times> u32 option \<times> mailboxes) option" where
  "exo_recv mbs pid =
     (if pid < 0 \<or> pid \<ge> int NPROC then Some (-1, None, mbs)
      else map_option (\<lambda>(r, v, mb). (r, v, mbs[nat pid := mb])) (mailbox_recv (mbs ! nat pid)))"

subsection \<open>The queue in the ring\<close>

definition ring :: "nat \<Rightarrow> nat \<Rightarrow> u32 list \<Rightarrow> u32 list" where
  "ring h n buf = map (\<lambda>k. buf ! ((h + k) mod MAILBOX_SIZE)) [0..<n]"

definition mb_contents :: "mailbox \<Rightarrow> u32 list" where
  "mb_contents mb = ring (mb_head mb) (mb_count mb) (mb_buffer mb)"

definition mb_ok :: "mailbox \<Rightarrow> bool" where
  "mb_ok mb \<longleftrightarrow> length (mb_buffer mb) = MAILBOX_SIZE \<and> mb_head mb < MAILBOX_SIZE \<and>
     mb_count mb \<le> MAILBOX_SIZE \<and> mb_tail mb = (mb_head mb + mb_count mb) mod MAILBOX_SIZE"

lemma MAILBOX_SIZE_pos [simp]: "0 < MAILBOX_SIZE"
  by (simp add: MAILBOX_SIZE_def)

lemma length_ring [simp]: "length (ring h n buf) = n"
  by (simp add: ring_def)

lemma ring_0 [simp]: "ring h 0 buf = []"
  by (simp add: ring_def)

lemma ring_Suc: "ring h (Suc n) buf = buf ! (h mod MAILBOX_SIZE) # ring (Suc h) n buf"
  by (simp add: ring_def upt_conv_Cons map_Suc_upt [symmetric] del: upt_Suc)

lemma ring_snoc: "ring h (Suc n) buf = ring h n buf @ [buf ! ((h + n) mod MAILBOX_SIZE)]"
  by (simp add: ring_def)

lemma ring_mod [simp]: "ring (h mod MAILBOX_SIZE) n buf = ring h n buf"
  by (simp add: ring_def mod_add_left_eq)

lemma ring_distinct:
  assumes "k < n" "n < MAILBOX_SIZE"
  shows "(h + k) mod MAILBOX_SIZE \<noteq> (h + n) mod MAILBOX_SIZE"
proof
  assume "(h + k) mod MAILBOX_SIZE = (h + n) mod MAILBOX_SIZE"
  then have "MAILBOX_SIZE dvd (h + n) - (h + k)"
    using assms by (metis mod_eq_dvd_iff_nat nat_add_left_cancel_le less_imp_le)
  with assms show False by (auto dest: dvd_imp_le)
qed

text \<open>Storing at the tail leaves the queue alone and puts the value behind it.\<close>

lemma ring_store:
  assumes "n < MAILBOX_SIZE" "length buf = MAILBOX_SIZE"
  shows "ring h n (buf[(h + n) mod MAILBOX_SIZE := v]) = ring h n buf"
    "buf[(h + n) mod MAILBOX_SIZE := v] ! ((h + n) mod MAILBOX_SIZE) = v"
proof -
  show "ring h n (buf[(h + n) mod MAILBOX_SIZE := v]) = ring h n buf"
    unfolding ring_def
  proof (rule map_cong [OF refl])
    fix k assume "k \<in> set [0..<n]"
    then have "(h + k) mod MAILBOX_SIZE \<noteq> (h + n) mod MAILBOX_SIZE"
      using ring_distinct assms(1) by simp
    then show "buf[(h + n) mod MAILBOX_SIZE := v] ! ((h + k) mod MAILBOX_SIZE) =
      buf ! ((h + k) mod MAILBOX_SIZE)"
      by simp
  qed
  show "buf[(h + n) mod MAILBOX_SIZE := v] ! ((h + n) mod MAILBOX_SIZE) = v"
    using assms(2) by simp
qed

lemma mailbox_send_ok:
  assumes "mb_ok mb" "mb_lock mb = 0"
  shows "\<exists>r mb'. mailbox_send mb v = Some (r, mb') \<and> mb_ok mb' \<and> mb_lock mb' = 0 \<and>
    (if length (mb_contents mb) < MAILBOX_SIZE then r = 0 \<and> mb_contents mb' = mb_contents mb @ [v]
     else r = -1 \<and> mb' = mb)"
  using assms
  by (auto simp: mailbox_send_def mb_ok_def mb_contents_def ring_snoc ring_store mod_Suc_eq)

lemma mailbox_recv_ok:
  assumes "mb_ok mb" "mb_lock mb = 0"
  shows "\<exists>r v mb'. mailbox_recv mb = Some (r, v, mb') \<and> mb_ok mb' \<and> mb_lock mb' = 0 \<and>
    (case mb_contents mb of [] \<Rightarrow> r = -1 \<and> v = None \<and> mb' = mb
     | x # xs \<Rightarrow> r = 0 \<and> v = Some x \<and> mb_contents mb' = xs)"
proof (cases "mb_count mb")
  case 0
  with assms show ?thesis by (simp add: mailbox_recv_def mb_contents_def)
next
  case (Suc n)
  with assms show ?thesis
    by (auto simp: mailbox_recv_def mb_ok_def mb_contents_def ring_Suc mod_add_left_eq mod_Suc_eq)
qed


subsection \<open>The contract of a bounded queue\<close>

text \<open>A run of sends, and a run of receives, with the results of the calls.\<close>

fun run_sends :: "('q \<Rightarrow> 'a \<Rightarrow> (int \<times> 'q) option) \<Rightarrow> 'q \<Rightarrow> 'a list \<Rightarrow> (int list \<times> 'q) option" where
  "run_sends sd q [] = Some ([], q)"
| "run_sends sd q (v # vs) =
     Option.bind (sd q v) (\<lambda>(r, q'). map_option (\<lambda>(rs, q''). (r # rs, q'')) (run_sends sd q' vs))"

fun run_recvs :: "('q \<Rightarrow> (int \<times> 'a option \<times> 'q) option) \<Rightarrow> 'q \<Rightarrow> nat \<Rightarrow> ('a option list \<times> 'q) option" where
  "run_recvs rcv q 0 = Some ([], q)"
| "run_recvs rcv q (Suc n) =
     Option.bind (rcv q) (\<lambda>(r, v, q'). map_option (\<lambda>(vs, q''). (v # vs, q'')) (run_recvs rcv q' n))"

locale bounded_fifo =
  fixes send :: "'q \<Rightarrow> 'a \<Rightarrow> (int \<times> 'q) option"
    and recv :: "'q \<Rightarrow> (int \<times> 'a option \<times> 'q) option"
    and contents :: "'q \<Rightarrow> 'a list" and inv :: "'q \<Rightarrow> bool" and cap :: nat
  assumes send_law: "inv q \<Longrightarrow> \<exists>r q'. send q v = Some (r, q') \<and> inv q' \<and>
      (if length (contents q) < cap then r = 0 \<and> contents q' = contents q @ [v]
       else r = -1 \<and> q' = q)"
    and recv_law: "inv q \<Longrightarrow> \<exists>r v q'. recv q = Some (r, v, q') \<and> inv q' \<and>
      (case contents q of [] \<Rightarrow> r = -1 \<and> v = None \<and> q' = q
       | x # xs \<Rightarrow> r = 0 \<and> v = Some x \<and> contents q' = xs)"
begin

lemma sends_append:
  "\<lbrakk>inv q; length (contents q) + length vs \<le> cap\<rbrakk> \<Longrightarrow>
     \<exists>q'. run_sends send q vs = Some (replicate (length vs) 0, q') \<and> inv q' \<and>
       contents q' = contents q @ vs"
proof (induction vs arbitrary: q)
  case Nil
  then show ?case by simp
next
  case (Cons v vs)
  from send_law [OF Cons.prems(1), of v] Cons.prems(2)
  obtain q1 where q1: "send q v = Some (0, q1)" "inv q1" "contents q1 = contents q @ [v]"
    by auto
  with Cons.prems(2) obtain q' where "run_sends send q1 vs = Some (replicate (length vs) 0, q')"
    "inv q'" "contents q' = contents q @ v # vs"
    using Cons.IH [OF q1(2)] by auto
  with q1 show ?case by simp
qed

lemma recvs_take:
  "\<lbrakk>inv q; n \<le> length (contents q)\<rbrakk> \<Longrightarrow>
     \<exists>q'. run_recvs recv q n = Some (map Some (take n (contents q)), q') \<and> inv q' \<and>
       contents q' = drop n (contents q)"
proof (induction n arbitrary: q)
  case 0
  then show ?case by simp
next
  case (Suc n)
  then obtain x xs where xs: "contents q = x # xs" by (cases "contents q") auto
  with recv_law [OF Suc.prems(1)] obtain q1 where
    q1: "recv q = Some (0, Some x, q1)" "inv q1" "contents q1 = xs" by auto
  with Suc xs obtain q' where "run_recvs recv q1 n = Some (map Some (take n xs), q')"
    "inv q'" "contents q' = drop n xs" by fastforce
  with q1 xs show ?case by simp
qed

lemma send_recv_roundtrip:
  assumes "inv q" "contents q = []" "length vs \<le> cap"
  shows "\<exists>q' q''. run_sends send q vs = Some (replicate (length vs) 0, q') \<and>
    run_recvs recv q' (length vs) = Some (map Some vs, q'') \<and> inv q'' \<and> contents q'' = []"
proof -
  obtain q' where q': "run_sends send q vs = Some (replicate (length vs) 0, q')" "inv q'"
    "contents q' = vs" using sends_append [OF assms(1)] assms by auto
  with recvs_take [OF q'(2), of "length vs"] show ?thesis by auto
qed

end

interpretation mbq: bounded_fifo mailbox_send mailbox_recv mb_contents
  "\<lambda>mb. mb_ok mb \<and> mb_lock mb = 0" MAILBOX_SIZE
proof
  fix q v
  assume q: "mb_ok q \<and> mb_lock q = 0"
  show "\<exists>r q'. mailbox_send q v = Some (r, q') \<and> (mb_ok q' \<and> mb_lock q' = 0) \<and>
    (if length (mb_contents q) < MAILBOX_SIZE then r = 0 \<and> mb_contents q' = mb_contents q @ [v]
     else r = -1 \<and> q' = q)"
    using mailbox_send_ok q by blast
  show "\<exists>r v q'. mailbox_recv q = Some (r, v, q') \<and> (mb_ok q' \<and> mb_lock q' = 0) \<and>
    (case mb_contents q of [] \<Rightarrow> r = -1 \<and> v = None \<and> q' = q
     | x # xs \<Rightarrow> r = 0 \<and> v = Some x \<and> mb_contents q' = xs)"
    using mailbox_recv_ok q by blast
qed

subsection \<open>Threads that share a mailbox\<close>

text \<open>
  The program counter of a thread names the memory access it makes next.  \<open>sent\<close> and
  \<open>recvd\<close> are histories: the values whose \<open>count++\<close>, and whose \<open>count--\<close>, has
  been executed, in that order.
\<close>

datatype mb_op = OpSend u32 | OpRecv

datatype mb_pc =
    MbIdle | MbSet mb_op | MbSpin mb_op | MbCheck mb_op
  | MbStore u32 | MbTail u32 | MbIncr u32
  | MbLoad | MbHead u32 | MbDecr u32
  | MbUnlock int

record mb_sys =
  shared :: mailbox
  mb_pcs :: "tid \<Rightarrow> mb_pc"
  sent :: "u32 list"
  recvd :: "u32 list"

definition goto :: "tid \<Rightarrow> mb_pc \<Rightarrow> mb_sys \<Rightarrow> mb_sys" where
  "goto i p s = s\<lparr>mb_pcs := (mb_pcs s)(i := p)\<rparr>"

inductive mb_step :: "mb_sys \<Rightarrow> mb_sys \<Rightarrow> bool" where
  mb_call: "mb_pcs s i = MbIdle \<Longrightarrow> mb_step s (goto i (MbSet op) s)"
| mb_set: "mb_pcs s i = MbSet op \<Longrightarrow> mb_step s
     (goto i (if mb_lock (shared s) \<noteq> 0 then MbSpin op else MbCheck op)
       (s\<lparr>shared := (shared s)\<lparr>mb_lock := 1\<rparr>\<rparr>))"
| mb_spin: "mb_pcs s i = MbSpin op \<Longrightarrow> mb_step s
     (goto i (if mb_lock (shared s) \<noteq> 0 then MbSpin op else MbSet op) s)"
| mb_check_send: "mb_pcs s i = MbCheck (OpSend v) \<Longrightarrow> mb_step s
     (goto i (if mb_count (shared s) < MAILBOX_SIZE then MbStore v else MbUnlock (-1)) s)"
| mb_store: "mb_pcs s i = MbStore v \<Longrightarrow> mb_step s
     (goto i (MbTail v) (s\<lparr>shared := (shared s)\<lparr>mb_buffer :=
        (mb_buffer (shared s))[mb_tail (shared s) := v]\<rparr>\<rparr>))"
| mb_tail: "mb_pcs s i = MbTail v \<Longrightarrow> mb_step s
     (goto i (MbIncr v) (s\<lparr>shared := (shared s)\<lparr>mb_tail := (mb_tail (shared s) + 1) mod MAILBOX_SIZE\<rparr>\<rparr>))"
| mb_incr: "mb_pcs s i = MbIncr v \<Longrightarrow> mb_step s
     (goto i (MbUnlock 0) (s\<lparr>shared := (shared s)\<lparr>mb_count := mb_count (shared s) + 1\<rparr>,
        sent := sent s @ [v]\<rparr>))"
| mb_check_recv: "mb_pcs s i = MbCheck OpRecv \<Longrightarrow> mb_step s
     (goto i (if 0 < mb_count (shared s) then MbLoad else MbUnlock (-1)) s)"
| mb_load: "mb_pcs s i = MbLoad \<Longrightarrow> mb_step s
     (goto i (MbHead (mb_buffer (shared s) ! mb_head (shared s))) s)"
| mb_head: "mb_pcs s i = MbHead v \<Longrightarrow> mb_step s
     (goto i (MbDecr v) (s\<lparr>shared := (shared s)\<lparr>mb_head := (mb_head (shared s) + 1) mod MAILBOX_SIZE\<rparr>\<rparr>))"
| mb_decr: "mb_pcs s i = MbDecr v \<Longrightarrow> mb_step s
     (goto i (MbUnlock 0) (s\<lparr>shared := (shared s)\<lparr>mb_count := mb_count (shared s) - 1\<rparr>,
        recvd := recvd s @ [v]\<rparr>))"
| mb_unlock: "mb_pcs s i = MbUnlock r \<Longrightarrow> mb_step s
     (goto i MbIdle (s\<lparr>shared := (shared s)\<lparr>mb_lock := 0\<rparr>\<rparr>))"

definition mb_start :: "mb_sys \<Rightarrow> bool" where
  "mb_start s \<longleftrightarrow> mb_pcs s = (\<lambda>_. MbIdle) \<and> sent s = [] \<and> recvd s = [] \<and>
     (\<exists>mb. length (mb_buffer mb) = MAILBOX_SIZE \<and> shared s = mailbox_init mb)"

fun in_cs :: "mb_pc \<Rightarrow> bool" where
  "in_cs MbIdle = False"
| "in_cs (MbSet op) = False"
| "in_cs (MbSpin op) = False"
| "in_cs _ = True"

text \<open>What holds of the mailbox while its holder is at a given place.\<close>

definition mb_rest :: "mb_sys \<Rightarrow> bool" where
  "mb_rest s \<longleftrightarrow> mb_ok (shared s) \<and> sent s = recvd s @ mb_contents (shared s)"

fun holder_ok :: "mb_sys \<Rightarrow> mb_pc \<Rightarrow> bool" where
  "holder_ok s (MbCheck op) = mb_rest s"
| "holder_ok s (MbUnlock r) = mb_rest s"
| "holder_ok s (MbStore v) = (mb_rest s \<and> mb_count (shared s) < MAILBOX_SIZE)"
| "holder_ok s (MbTail v) = (mb_rest s \<and> mb_count (shared s) < MAILBOX_SIZE \<and>
     mb_buffer (shared s) ! mb_tail (shared s) = v)"
| "holder_ok s (MbIncr v) = (let m = shared s in
     length (mb_buffer m) = MAILBOX_SIZE \<and> mb_head m < MAILBOX_SIZE \<and> mb_count m < MAILBOX_SIZE \<and>
     mb_tail m = (mb_head m + Suc (mb_count m)) mod MAILBOX_SIZE \<and>
     mb_buffer m ! ((mb_head m + mb_count m) mod MAILBOX_SIZE) = v \<and>
     sent s = recvd s @ mb_contents m)"
| "holder_ok s MbLoad = (mb_rest s \<and> 0 < mb_count (shared s))"
| "holder_ok s (MbHead v) = (mb_rest s \<and> 0 < mb_count (shared s) \<and>
     mb_buffer (shared s) ! mb_head (shared s) = v)"
| "holder_ok s (MbDecr v) = (let m = shared s in
     length (mb_buffer m) = MAILBOX_SIZE \<and> mb_head m < MAILBOX_SIZE \<and>
     0 < mb_count m \<and> mb_count m \<le> MAILBOX_SIZE \<and>
     mb_tail m = (mb_head m + (mb_count m - 1)) mod MAILBOX_SIZE \<and>
     sent s = recvd s @ v # ring (mb_head m) (mb_count m - 1) (mb_buffer m))"
| "holder_ok s _ = False"

definition mb_inv :: "mb_sys \<Rightarrow> bool" where
  "mb_inv s \<longleftrightarrow>
     (if mb_lock (shared s) = 0 then (\<forall>i. \<not> in_cs (mb_pcs s i)) \<and> mb_rest s
      else \<exists>i. holder_ok s (mb_pcs s i) \<and> (\<forall>j. j \<noteq> i \<longrightarrow> \<not> in_cs (mb_pcs s j)))"

lemma holder_ok_in_cs: "holder_ok s p \<Longrightarrow> in_cs p"
  by (cases p) auto

lemma mb_inv_holder:
  assumes "mb_inv s" "in_cs (mb_pcs s i)"
  shows "mb_lock (shared s) \<noteq> 0 \<and> holder_ok s (mb_pcs s i) \<and>
    (\<forall>j. j \<noteq> i \<longrightarrow> \<not> in_cs (mb_pcs s j))"
  using assms unfolding mb_inv_def by (metis (full_types))

text \<open>A step of the holder inside its critical section.\<close>

lemma mb_inv_inside:
  assumes "mb_inv s" "in_cs (mb_pcs s i)" "mb_lock (shared s') \<noteq> 0"
    and "mb_pcs s' = mb_pcs s" "holder_ok s' p"
  shows "mb_inv (goto i p s')"
proof -
  have h: "holder_ok (goto i p s') p"
    using assms(5) by (cases p) (simp_all add: goto_def mb_rest_def Let_def)
  have "\<forall>j. j \<noteq> i \<longrightarrow> \<not> in_cs (mb_pcs s j)"
    using mb_inv_holder [OF assms(1,2)] by blast
  with h assms(3,4) have "holder_ok (goto i p s') (mb_pcs (goto i p s') i) \<and>
      (\<forall>j. j \<noteq> i \<longrightarrow> \<not> in_cs (mb_pcs (goto i p s') j))"
    by (simp add: goto_def)
  then show ?thesis using assms(3) unfolding mb_inv_def by (auto simp: goto_def)
qed

text \<open>A step of a thread that stays outside leaves the invariant alone.\<close>

lemma mb_inv_outside:
  assumes "mb_inv s" "\<not> in_cs (mb_pcs s i)" "\<not> in_cs p"
  shows "mb_inv (goto i p s)"
proof -
  have "holder_ok (goto i p s) q = holder_ok s q" for q
    by (cases q) (simp_all add: goto_def mb_rest_def Let_def)
  moreover have "mb_rest (goto i p s) = mb_rest s" by (simp add: goto_def mb_rest_def)
  ultimately show ?thesis
    using assms holder_ok_in_cs by (auto simp: mb_inv_def goto_def split: if_splits) metis+
qed

lemma mb_inv_enter:
  assumes "mb_inv s" "\<not> in_cs (mb_pcs s i)"
  shows "mb_inv (goto i (if mb_lock (shared s) \<noteq> 0 then MbSpin op else MbCheck op)
     (s\<lparr>shared := (shared s)\<lparr>mb_lock := 1\<rparr>\<rparr>))"
proof (cases "mb_lock (shared s) = 0")
  case True
  let ?s = "goto i (MbCheck op) (s\<lparr>shared := (shared s)\<lparr>mb_lock := 1\<rparr>\<rparr>)"
  have "holder_ok ?s (mb_pcs ?s i) \<and> (\<forall>j. j \<noteq> i \<longrightarrow> \<not> in_cs (mb_pcs ?s j))"
    using assms True by (simp add: mb_inv_def mb_rest_def mb_ok_def mb_contents_def goto_def)
  moreover have "mb_lock (shared ?s) \<noteq> 0" by (simp add: goto_def)
  ultimately have "mb_inv ?s" unfolding mb_inv_def by auto
  with True show ?thesis by simp
next
  case False
  have inv: "mb_inv (s\<lparr>shared := (shared s)\<lparr>mb_lock := 1\<rparr>\<rparr>)" (is "mb_inv ?r")
  proof -
    have "holder_ok ?r q = holder_ok s q" for q
      by (cases q) (simp_all add: mb_rest_def mb_ok_def mb_contents_def Let_def)
    with assms(1) False show ?thesis by (simp add: mb_inv_def)
  qed
  show ?thesis using mb_inv_outside [OF inv, of i "MbSpin op"] assms(2) False by simp
qed

lemma mb_inv_leave:
  assumes "mb_inv s" "mb_pcs s i = MbUnlock r"
  shows "mb_inv (goto i MbIdle (s\<lparr>shared := (shared s)\<lparr>mb_lock := 0\<rparr>\<rparr>))"
proof -
  have "holder_ok s (MbUnlock r)" "\<forall>j. j \<noteq> i \<longrightarrow> \<not> in_cs (mb_pcs s j)"
    using mb_inv_holder [OF assms(1), of i] assms(2) by auto
  then show ?thesis
    by (simp add: mb_inv_def goto_def mb_rest_def mb_ok_def mb_contents_def)
qed

text \<open>The memory accesses of the critical section, one by one.\<close>

lemma holder_store:
  assumes "holder_ok s (MbStore v)"
  shows "holder_ok (s\<lparr>shared := (shared s)\<lparr>mb_buffer :=
     (mb_buffer (shared s))[mb_tail (shared s) := v]\<rparr>\<rparr>) (MbTail v)"
  using assms by (simp add: mb_rest_def mb_ok_def mb_contents_def ring_store)

lemma holder_tail:
  assumes "holder_ok s (MbTail v)"
  shows "holder_ok (s\<lparr>shared := (shared s)\<lparr>mb_tail := (mb_tail (shared s) + 1) mod MAILBOX_SIZE\<rparr>\<rparr>) (MbIncr v)"
  using assms by (auto simp: mb_rest_def mb_ok_def mb_contents_def Let_def mod_Suc_eq)

lemma holder_incr:
  assumes "holder_ok s (MbIncr v)"
  shows "holder_ok (s\<lparr>shared := (shared s)\<lparr>mb_count := mb_count (shared s) + 1\<rparr>,
     sent := sent s @ [v]\<rparr>) (MbUnlock r)"
  using assms by (simp add: mb_rest_def mb_ok_def mb_contents_def Let_def ring_snoc)

lemma holder_head:
  assumes "holder_ok s (MbHead v)"
  shows "holder_ok (s\<lparr>shared := (shared s)\<lparr>mb_head := (mb_head (shared s) + 1) mod MAILBOX_SIZE\<rparr>\<rparr>) (MbDecr v)"
proof -
  from assms obtain n where "mb_count (shared s) = Suc n"
    by (cases "mb_count (shared s)") auto
  with assms show ?thesis
    by (auto simp: mb_rest_def mb_ok_def mb_contents_def Let_def ring_Suc mod_add_left_eq mod_Suc_eq)
qed

lemma holder_decr:
  assumes "holder_ok s (MbDecr v)"
  shows "holder_ok (s\<lparr>shared := (shared s)\<lparr>mb_count := mb_count (shared s) - 1\<rparr>,
     recvd := recvd s @ [v]\<rparr>) (MbUnlock r)"
  using assms by (auto simp: mb_rest_def mb_ok_def mb_contents_def Let_def)

lemma mb_step_inv: "mb_step s t \<Longrightarrow> mb_inv s \<Longrightarrow> mb_inv t"
proof (induction rule: mb_step.induct)
  case (mb_call s i op)
  then show ?case by (intro mb_inv_outside) auto
next
  case (mb_set s i op)
  then show ?case by (intro mb_inv_enter) auto
next
  case (mb_spin s i op)
  then show ?case by (intro mb_inv_outside) auto
next
  case (mb_check_send s i v)
  then show ?case using mb_inv_holder [of s i] by (intro mb_inv_inside [of s]) auto
next
  case (mb_store s i v)
  then show ?case using mb_inv_holder [of s i] holder_store [of s v]
    by (intro mb_inv_inside [of s]) auto
next
  case (mb_tail s i v)
  then show ?case using mb_inv_holder [of s i] holder_tail [of s v]
    by (intro mb_inv_inside [of s]) auto
next
  case (mb_incr s i v)
  then show ?case using mb_inv_holder [of s i] holder_incr [of s v 0]
    by (intro mb_inv_inside [of s]) auto
next
  case (mb_check_recv s i)
  then show ?case using mb_inv_holder [of s i] by (intro mb_inv_inside [of s]) auto
next
  case (mb_load s i)
  then show ?case using mb_inv_holder [of s i] by (intro mb_inv_inside [of s]) auto
next
  case (mb_head s i v)
  then show ?case using mb_inv_holder [of s i] holder_head [of s v]
    by (intro mb_inv_inside [of s]) auto
next
  case (mb_decr s i v)
  then show ?case using mb_inv_holder [of s i] holder_decr [of s v 0]
    by (intro mb_inv_inside [of s]) auto
next
  case (mb_unlock s i r)
  then show ?case by (intro mb_inv_leave)
qed

interpretation mbsys: mutex_system mb_start mb_step mb_inv "\<lambda>s i. in_cs (mb_pcs s i)"
proof
  show "mb_inv s" if "mb_start s" for s
    using that by (auto simp: mb_start_def mb_inv_def mb_rest_def mb_ok_def mb_contents_def mailbox_init_def)
  show "mb_inv t" if "mb_inv s" "mb_step s t" for s t
    using that mb_step_inv by blast
  show "i = j" if "mb_inv s" "in_cs (mb_pcs s i)" "in_cs (mb_pcs s j)" for s i j
    using that mb_inv_holder by blast
qed

subsection \<open>Properties\<close>

text \<open>
  C33: under every interleaving of any number of senders and receivers, when no thread
  holds the lock the values received so far, followed by the queue in the ring, are
  exactly the values sent so far, in order: nothing is lost, duplicated or reordered.
\<close>

theorem mailbox_concurrent_fifo:
  assumes "reach mb_start mb_step s" "mb_lock (shared s) = 0"
  shows "mb_ok (shared s) \<and> sent s = recvd s @ mb_contents (shared s)"
proof -
  have "mb_inv s" using assms(1) by (rule mbsys.reach_inv)
  with assms(2) show ?thesis by (simp add: mb_inv_def mb_rest_def)
qed

definition mb_fresh :: mailbox where
  "mb_fresh = \<lparr>mb_lock = 0, mb_head = 0, mb_tail = 0, mb_count = 0,
     mb_buffer = replicate MAILBOX_SIZE 0\<rparr>"

definition mb_sys0 :: mb_sys where
  "mb_sys0 = \<lparr>shared = mb_fresh, mb_pcs = (\<lambda>_. MbIdle), sent = [], recvd = []\<rparr>"

lemma mb_fresh_ok: "mb_ok mb_fresh"
  by (simp add: mb_fresh_def mb_ok_def)

lemma mb_sys0_start: "mb_start mb_sys0"
  by (auto simp: mb_start_def mb_sys0_def mb_fresh_def mailbox_init_def
      intro!: exI [of _ mb_fresh])

theorem mailbox_concurrent_fifo_witness:
  "reach mb_start mb_step mb_sys0 \<and> sent mb_sys0 = recvd mb_sys0 @ mb_contents (shared mb_sys0)"
proof -
  have r: "reach mb_start mb_step mb_sys0"
    using mb_sys0_start by (rule reach_start)
  moreover have "mb_lock (shared mb_sys0) = 0"
    by (simp add: mb_sys0_def mb_fresh_def)
  ultimately show ?thesis
    using mailbox_concurrent_fifo [OF r] by blast
qed

text \<open>
  up to 16 values sent to an empty mailbox are all accepted, and as many receives
  return them in the order in which they were sent and leave the mailbox empty.
\<close>

theorem mailbox_roundtrip:
  assumes "mb_ok mb" "mb_lock mb = 0" "mb_contents mb = []" "length vs \<le> MAILBOX_SIZE"
  shows "\<exists>mb' mb''. run_sends mailbox_send mb vs = Some (replicate (length vs) 0, mb') \<and>
    run_recvs mailbox_recv mb' (length vs) = Some (map Some vs, mb'') \<and> mb_contents mb'' = []"
  using mbq.send_recv_roundtrip [of mb vs] assms by auto

theorem mailbox_roundtrip_witness:
  "\<exists>mb' mb''. run_sends mailbox_send mb_fresh [7, 8, 9] = Some ([0, 0, 0], mb') \<and>
    run_recvs mailbox_recv mb' 3 = Some ([Some 7, Some 8, Some 9], mb'')"
proof -
  have "mb_lock mb_fresh = 0" "mb_contents mb_fresh = []"
    "length [7, 8, 9 :: u32] \<le> MAILBOX_SIZE"
    by (simp_all add: mb_fresh_def mb_contents_def MAILBOX_SIZE_def)
  from mailbox_roundtrip [OF mb_fresh_ok this] show ?thesis
    by (auto simp: numeral_3_eq_3)
qed

text \<open>
  A send to a process outside the process table fails and changes nothing; a send
  to a process with a free lock changes no other process's mailbox, and either appends
  the value to the target's queue or, when that is full, fails and leaves it unchanged.
\<close>

theorem exo_ipc_send_effect:
  assumes "length mbs = NPROC" "list_all (\<lambda>mb. mb_ok mb \<and> mb_lock mb = 0) mbs"
  shows "\<exists>r mbs'. exo_ipc_send mbs target v = Some (r, mbs') \<and>
    list_all (\<lambda>mb. mb_ok mb \<and> mb_lock mb = 0) mbs' \<and>
    (if target < 0 \<or> target \<ge> int NPROC then r = -1 \<and> mbs' = mbs
     else (\<forall>k<NPROC. k \<noteq> nat target \<longrightarrow> mbs' ! k = mbs ! k) \<and>
       (if length (mb_contents (mbs ! nat target)) < MAILBOX_SIZE
        then r = 0 \<and> mb_contents (mbs' ! nat target) = mb_contents (mbs ! nat target) @ [v]
        else r = -1 \<and> mbs' = mbs))"
proof (cases "target < 0 \<or> target \<ge> int NPROC")
  case True
  with assms show ?thesis by (auto simp: exo_ipc_send_def exo_get_mailbox_def)
next
  case False
  then have k: "nat target < length mbs" using assms(1) by auto
  with assms(2) have "mb_ok (mbs ! nat target)" "mb_lock (mbs ! nat target) = 0"
    by (auto simp: list_all_length)
  then obtain r mb' where m: "mailbox_send (mbs ! nat target) v = Some (r, mb')" "mb_ok mb'"
    "mb_lock mb' = 0"
    "if length (mb_contents (mbs ! nat target)) < MAILBOX_SIZE
     then r = 0 \<and> mb_contents mb' = mb_contents (mbs ! nat target) @ [v]
     else r = -1 \<and> mb' = mbs ! nat target"
    using mailbox_send_ok by blast
  have "list_all (\<lambda>mb. mb_ok mb \<and> mb_lock mb = 0) (mbs[nat target := mb'])"
    using assms(2) m(2,3) by (auto simp: list_all_iff dest!: subsetD [OF set_update_subset_insert])
  moreover have "mbs[nat target := mbs ! nat target] = mbs" by simp
  ultimately show ?thesis
    using m False k by (auto simp: exo_ipc_send_def exo_get_mailbox_def split: if_splits)
qed

theorem exo_ipc_send_effect_witness:
  "\<exists>mbs'. exo_ipc_send (replicate NPROC mb_fresh) 3 42 = Some (0, mbs') \<and>
     mb_contents (mbs' ! 3) = [42]"
proof -
  have "mb_lock mb_fresh = 0" "mb_contents mb_fresh = []"
    by (simp_all add: mb_fresh_def mb_contents_def)
  then show ?thesis
    using exo_ipc_send_effect [of "replicate NPROC mb_fresh" 3 42] mb_fresh_ok
    by (auto simp: list_all_length NPROC_def)
qed

end
