(* ===== verification/Bytes.thy ===== *)
theory Bytes
  imports Prelude
begin

section \<open>Structures in disk blocks\<close>

text \<open>
  Disk blocks are 512 bytes.  The C sources read and write structures in them by casting
  the buffer address; here the fields are read and written at their offsets, in the byte
  order of the PDP-11 (a 16-bit word has its low byte first, a \<open>long\<close> its high word
  first).  The lemmas say that a field that is written is read back, as the value that
  fits its width, and that other fields are untouched.
\<close>

definition BSIZE :: nat where "BSIZE = 512"

type_synonym block = "u8 list"

definition get16 :: "block \<Rightarrow> nat \<Rightarrow> int" where
  "get16 b k = uint (b ! k) + 256 * uint (b ! (k + 1))"

definition put16 :: "block \<Rightarrow> nat \<Rightarrow> int \<Rightarrow> block" where
  "put16 b k v = b[k := word_of_int v, k + 1 := word_of_int (v div 256)]"

definition get32 :: "block \<Rightarrow> nat \<Rightarrow> int" where
  "get32 b k = 65536 * get16 b k + get16 b (k + 2)"

definition put32 :: "block \<Rightarrow> nat \<Rightarrow> int \<Rightarrow> block" where
  "put32 b k v = put16 (put16 b k (v div 65536)) (k + 2) v"

text \<open>The signed values of a \<open>short\<close> and of a \<open>long\<close>.\<close>

definition sgn16 :: "int \<Rightarrow> int" where
  "sgn16 v = (if v < 32768 then v else v - 65536)"

definition sgn32 :: "int \<Rightarrow> int" where
  "sgn32 v = (if v < 2147483648 then v else v - 4294967296)"

lemma length_put16 [simp]: "length (put16 b k v) = length b"
  by (simp add: put16_def)

lemma length_put32 [simp]: "length (put32 b k v) = length b"
  by (simp add: put32_def)

lemma mod_div_256: "v mod 256 + 256 * (v div 256 mod 256) = v mod (65536 :: int)"
  using zmod_zmult2_eq [of 256 v 256] by simp

lemma get16_put16_same:
  "k + 1 < length b \<Longrightarrow> get16 (put16 b k v) k = v mod 65536"
  using mod_div_256 [of v]
  by (simp add: get16_def put16_def uint_word_of_int)

lemma get16_put16_other:
  "\<lbrakk>j + 1 < k \<or> k + 1 < j\<rbrakk> \<Longrightarrow> get16 (put16 b k v) j = get16 b j"
  by (auto simp: get16_def put16_def)

lemma nth_put16_other: "\<lbrakk>j \<noteq> k; j \<noteq> k + 1\<rbrakk> \<Longrightarrow> put16 b k v ! j = b ! j"
  by (simp add: put16_def)

lemma nth_put32_other: "j < k \<or> k + 3 < j \<Longrightarrow> put32 b k v ! j = b ! j"
  by (auto simp: put32_def nth_put16_other)

lemma get32_put32_same:
  assumes "k + 3 < length b"
  shows "get32 (put32 b k v) k = v mod 4294967296"
proof -
  have "get16 (put32 b k v) k = v div 65536 mod 65536"
    using assms by (simp add: put32_def get16_put16_other get16_put16_same)
  moreover have "get16 (put32 b k v) (k + 2) = v mod 65536"
    using assms by (simp add: put32_def get16_put16_same)
  moreover have "65536 * (v div 65536 mod 65536) + v mod 65536 = v mod 4294967296"
    using zmod_zmult2_eq [of 65536 v 65536] by simp
  ultimately show ?thesis by (simp add: get32_def)
qed

lemma get16_put32_other: "j + 1 < k \<or> k + 3 < j \<Longrightarrow> get16 (put32 b k v) j = get16 b j"
  by (auto simp: put32_def get16_put16_other)

lemma get32_put32_other: "j + 3 < k \<or> k + 3 < j \<Longrightarrow> get32 (put32 b k v) j = get32 b j"
  by (auto simp: get32_def get16_put32_other)

lemma mod_negative: "\<lbrakk>- n \<le> v; v < 0\<rbrakk> \<Longrightarrow> v mod n = v + (n :: int)"
  using mod_pos_pos_trivial [of "v + n" n] by simp

lemma sgn16_mod: "\<lbrakk>-32768 \<le> v; v < 32768\<rbrakk> \<Longrightarrow> sgn16 (v mod 65536) = v"
  by (cases "v < 0") (simp_all add: sgn16_def mod_negative)

lemma sgn32_mod: "\<lbrakk>-2147483648 \<le> v; v < 2147483648\<rbrakk> \<Longrightarrow> sgn32 (v mod 4294967296) = v"
  by (cases "v < 0") (simp_all add: sgn32_def mod_negative)

subsection \<open>Arrays of longs\<close>

text \<open>The long at index \<open>i\<close> of an array that starts at offset \<open>k\<close>.\<close>

definition getl :: "block \<Rightarrow> nat \<Rightarrow> int" where
  "getl b k = sgn32 (get32 b k)"

fun putls :: "block \<Rightarrow> nat \<Rightarrow> int list \<Rightarrow> block" where
  "putls b k [] = b"
| "putls b k (v # vs) = putls (put32 b k v) (k + 4) vs"

definition getls :: "block \<Rightarrow> nat \<Rightarrow> nat \<Rightarrow> int list" where
  "getls b k n = map (\<lambda>i. getl b (k + 4 * i)) [0..<n]"

definition is_long :: "int \<Rightarrow> bool" where
  "is_long v \<longleftrightarrow> -2147483648 \<le> v \<and> v < 2147483648"

lemma length_putls [simp]: "length (putls b k vs) = length b"
  by (induction vs arbitrary: b k) auto

lemma length_getls [simp]: "length (getls b k n) = n"
  by (simp add: getls_def)

lemma getl_put32_same: "\<lbrakk>k + 3 < length b; is_long v\<rbrakk> \<Longrightarrow> getl (put32 b k v) k = v"
  by (simp add: getl_def get32_put32_same sgn32_mod is_long_def)

lemma getl_put32_other: "j + 3 < k \<or> k + 3 < j \<Longrightarrow> getl (put32 b k v) j = getl b j"
  by (simp add: getl_def get32_put32_other)

lemma get16_putls_before: "j + 1 < k \<Longrightarrow> get16 (putls b k vs) j = get16 b j"
  by (induction vs arbitrary: b k) (auto simp: get16_put32_other)

lemma getl_putls_before: "j + 3 < k \<Longrightarrow> getl (putls b k vs) j = getl b j"
  by (induction vs arbitrary: b k) (auto simp: getl_put32_other)

lemma getl_putls:
  "\<lbrakk>i < length vs; k + 4 * length vs \<le> length b; list_all is_long vs\<rbrakk> \<Longrightarrow>
     getl (putls b k vs) (k + 4 * i) = vs ! i"
proof (induction vs arbitrary: b k i)
  case Nil
  then show ?case by simp
next
  case (Cons v vs)
  show ?case
  proof (cases i)
    case 0
    with Cons.prems show ?thesis by (simp add: getl_putls_before getl_put32_same)
  next
    case (Suc i')
    with Cons.prems Cons.IH [of i' "k + 4" "put32 b k v"] show ?thesis
      by (simp add: algebra_simps)
  qed
qed

lemma getls_putls:
  "\<lbrakk>k + 4 * length vs \<le> length b; list_all is_long vs\<rbrakk> \<Longrightarrow> getls (putls b k vs) k (length vs) = vs"
  by (auto simp: getls_def getl_putls intro!: nth_equalityI)

end
