(* ===== verification/Kernel.thy ===== *)
theory Kernel
  imports Bytes
begin

section \<open>Kernel state of the file system\<close>

text \<open>
  The tables the file system code works on, as one record: the contents of the disk
  blocks, the mount table with the in-core super blocks, the in-core inode, file and text
  tables, the memory of the current process and the part of its \<open>user\<close> structure that
  these routines and its entry in the process table use.  A pointer into a table is an index, a null pointer \<^const>\<open>None\<close>.

  The buffer cache is seen through its contract (dev/bio.c): \<open>bread\<close> gives the current
  contents of a block or an I/O error, \<open>bwrite\<close> and \<open>bdwrite\<close> replace the
  contents.  A buffer is its block number and its 512 bytes; \<open>k_blocks\<close> is what
  \<open>bread\<close> would return, whether the block is cached or on the device.  What the code
  does not determine is an arbitrary component of the state: which blocks have I/O errors
  (\<open>k_bad\<close>), what a fresh buffer holds before it is filled (\<open>k_junk\<close>), the residual
  count the driver leaves (\<open>k_resid\<close>), whether a change to a buffer that is released
  without being written is seen by later reads (\<open>k_keep\<close>), and which addresses of the
  process are valid (\<open>k_memok\<close>).
\<close>

subsection \<open>Constants of param.h, ino.h and inode.h\<close>

definition NICFREE :: nat where "NICFREE = 50"
definition NICINOD :: nat where "NICINOD = 100"
definition NINDIR :: nat where "NINDIR = 128"
definition NADDR :: nat where "NADDR = 13"
definition NINODE :: nat where "NINODE = 200"
definition NMOUNT :: nat where "NMOUNT = 8"
definition NOFILE :: nat where "NOFILE = 20"
definition INOPB :: nat where "INOPB = 8"
definition DIRSIZ :: nat where "DIRSIZ = 14"
definition ROOTINO :: nat where "ROOTINO = 2"
definition SUPERB :: int where "SUPERB = 1"

lemmas fs_consts = NICFREE_def NICINOD_def NINDIR_def NADDR_def INOPB_def BSIZE_def

text \<open>File types and permissions, the octal constants of inode.h.\<close>

definition IFMT :: u16 where "IFMT = 0xF000"
definition IFDIR :: u16 where "IFDIR = 0x4000"
definition IFCHR :: u16 where "IFCHR = 0x2000"
definition IFBLK :: u16 where "IFBLK = 0x6000"
definition IFREG :: u16 where "IFREG = 0x8000"
definition IFMPC :: u16 where "IFMPC = 0x3000"
definition IFMPB :: u16 where "IFMPB = 0x7000"
definition ISUID :: u16 where "ISUID = 0x800"
definition ISGID :: u16 where "ISGID = 0x400"
definition ISVTX :: u16 where "ISVTX = 0x200"
definition IREAD :: u16 where "IREAD = 0x100"
definition IWRITE :: u16 where "IWRITE = 0x80"
definition IEXEC :: u16 where "IEXEC = 0x40"

lemmas mode_consts = IFMT_def IFDIR_def IFCHR_def IFBLK_def IFREG_def IFMPC_def IFMPB_def
  ISUID_def ISGID_def ISVTX_def IREAD_def IWRITE_def IEXEC_def

subsection \<open>Tables\<close>

datatype errno = EPERM | ENOENT | ESRCH | EINTR | EIO | ENXIO | E2BIG | ENOEXEC | EBADF | ECHILD
  | EAGAIN | ENOMEM | EACCES | EFAULT | ENOTBLK | EBUSY | EEXIST | EXDEV | ENODEV | ENOTDIR
  | EISDIR | EINVAL | ENFILE | EMFILE | ENOTTY | ETXTBSY | EFBIG | ENOSPC | ESPIPE | EROFS
  | EMLINK | EPIPE | EDOM | ERANGE

datatype chan = ChFlock nat | ChIlock nat | ChInode nat | ChInode1 nat | ChInode2 nat | ChText nat
  | ChUser

record filsys =
  s_isize :: int
  s_fsize :: int
  s_nfree :: int
  s_free :: "int list"
  s_ninode :: int
  s_inode :: "nat list"
  s_flock :: nat
  s_ilock :: nat
  s_fmod :: bool
  s_ronly :: bool
  s_time :: int
  s_rest :: block

record mount =
  m_dev :: nat
  m_bufp :: "filsys option"
  m_inodp :: "nat option"

datatype iflag = ILOCK | IUPD | IACC | IMOUNT | IWANT | ITEXT | ICHG

text \<open>The counts of references are of type \<open>char\<close>, which is signed.\<close>

definition wrap8 :: "int \<Rightarrow> int" where
  "wrap8 x = (x + 128) mod 256 - 128"

lemma wrap8_id: "- 128 \<le> x \<Longrightarrow> x < 128 \<Longrightarrow> wrap8 x = x"
  by (simp add: wrap8_def)

text \<open>\<open>i_rdev\<close> shares its place with \<open>i_addr[0]\<close>.\<close>

record inode =
  i_flag :: "iflag set"
  i_count :: int
  i_dev :: nat
  i_number :: nat
  i_mode :: u16
  i_nlink :: int
  i_uid :: int
  i_gid :: int
  i_size :: int
  i_addr :: "int list"
  i_lastr :: int

datatype fflag = FREAD | FWRITE | FPIPE | FMPX | FMPY | FKERNEL

record file_ent =
  f_flag :: "fflag set"
  f_count :: int
  f_inode :: nat
  f_offset :: int

datatype xflag = XTRC | XWRIT | XLOAD | XLOCK | XWANT

record text_ent =
  x_daddr :: int
  x_caddr :: int
  x_size :: int
  x_iptr :: "nat option"
  x_count :: int
  x_ccount :: int
  x_flag :: "xflag set"

text \<open>\<open>u_segflg\<close>: user data, system, user instructions.\<close>

datatype seg = UserD | System | UserI

text \<open>
  System addresses count from \<open>&u.u_dent\<close>, the only system buffer that the routines of
  the model pass to \<open>readi\<close> and \<open>writei\<close>.
\<close>

record kern =
  k_blocks :: "nat \<Rightarrow> int \<Rightarrow> block"
  k_bad :: "nat \<Rightarrow> int \<Rightarrow> bool"
  k_junk :: "nat \<Rightarrow> int \<Rightarrow> block"
  k_resid :: "nat \<Rightarrow> int \<Rightarrow> nat"
  k_keep :: "nat \<Rightarrow> int \<Rightarrow> bool"
  k_mount :: "mount list"
  k_inode :: "inode list"
  k_file :: "file_ent list"
  k_text :: "text_ent list"
  k_time :: int
  k_rablock :: int
  k_rootdir :: nat
  k_pipedev :: nat
  k_mpxip :: "nat option"
  k_updlock :: bool
  k_mem :: "seg \<Rightarrow> u16 \<Rightarrow> u8"
  k_memok :: "seg \<Rightarrow> u16 \<Rightarrow> bool"
  k_log :: "(string \<times> nat option) list"
  k_wakeups :: "chan list"
  k_signals :: "nat list"
  k_swfree :: "(int \<times> int) list"
  u_error :: "errno option"
  u_uid :: int
  u_gid :: int
  u_ruid :: int
  u_rgid :: int
  u_asu :: bool
  u_segflg :: seg
  u_base :: u16
  u_count :: u16
  u_offset :: int
  u_cdir :: nat
  u_rdir :: "nat option"
  u_pdir :: nat
  u_dirp :: u16
  u_dbuf :: "u8 list"
  u_dent :: "u8 list"
  u_ofile :: "nat option list"
  u_pofile :: "u8 list"
  u_cmask :: u16
  u_rval1 :: int
  u_rval2 :: int
  p_uid :: int
  p_nice :: int
  p_clktim :: int
  p_pid :: int
  p_ppid :: int
  k_lbolt :: u16
  u_times :: "int list"
  u_prof :: "u16 list"

type_synonym 'a kres = "('a, kern, chan) res"

type_synonym buf = "int \<times> block"

subsection \<open>The buffer cache's contract\<close>

definition zero_block :: block where
  "zero_block = replicate BSIZE 0"

text \<open>\<open>bread\<close>: the buffer, or \<^const>\<open>None\<close> for \<open>B_ERROR\<close>.\<close>

definition bread :: "nat \<Rightarrow> int \<Rightarrow> kern \<Rightarrow> buf option \<times> kern" where
  "bread dev bno s =
     (if k_bad s dev bno then (None, s\<lparr>u_error := Some EIO\<rparr>)
      else (Some (bno, k_blocks s dev bno), s))"

definition put_block :: "nat \<Rightarrow> buf \<Rightarrow> kern \<Rightarrow> kern" where
  "put_block dev bp s =
     s\<lparr>k_blocks := (k_blocks s)(dev := (k_blocks s dev)(fst bp := snd bp))\<rparr>"

definition bdwrite :: "nat \<Rightarrow> buf \<Rightarrow> kern \<Rightarrow> kern" where
  "bdwrite dev bp s = put_block dev bp s"

definition bwrite :: "nat \<Rightarrow> buf \<Rightarrow> kern \<Rightarrow> kern" where
  "bwrite dev bp s =
     (let s' = put_block dev bp s in if k_bad s dev (fst bp) then s'\<lparr>u_error := Some EIO\<rparr> else s')"

text \<open>Release without writing of a buffer whose bytes have been changed.\<close>

definition brelse_dirty :: "nat \<Rightarrow> buf \<Rightarrow> kern \<Rightarrow> kern" where
  "brelse_dirty dev bp s = (if k_keep s dev (fst bp) then put_block dev bp s else s)"

definition getblk :: "nat \<Rightarrow> int \<Rightarrow> kern \<Rightarrow> buf" where
  "getblk dev bno s = (bno, k_junk s dev bno)"

definition prdev :: "string \<Rightarrow> nat \<Rightarrow> kern \<Rightarrow> kern" where
  "prdev msg dev s = s\<lparr>k_log := k_log s @ [(msg, Some dev)]\<rparr>"

definition printf :: "string \<Rightarrow> kern \<Rightarrow> kern" where
  "printf msg s = s\<lparr>k_log := k_log s @ [(msg, None)]\<rparr>"

definition wakeup :: "chan \<Rightarrow> kern \<Rightarrow> kern" where
  "wakeup c s = s\<lparr>k_wakeups := k_wakeups s @ [c]\<rparr>"

text \<open>The fields of an entry of the inode table.\<close>

definition upd_inode :: "nat \<Rightarrow> (inode \<Rightarrow> inode) \<Rightarrow> kern \<Rightarrow> kern" where
  "upd_inode ip f s = s\<lparr>k_inode := (k_inode s)[ip := f (k_inode s ! ip)]\<rparr>"

definition add_flags :: "iflag set \<Rightarrow> inode \<Rightarrow> inode" where
  "add_flags fl ino = ino\<lparr>i_flag := i_flag ino \<union> fl\<rparr>"

definition del_flags :: "iflag set \<Rightarrow> inode \<Rightarrow> inode" where
  "del_flags fl ino = ino\<lparr>i_flag := i_flag ino - fl\<rparr>"

definition set_error :: "errno \<Rightarrow> kern \<Rightarrow> kern" where
  "set_error e s = s\<lparr>u_error := Some e\<rparr>"

subsection \<open>The mount table\<close>

text \<open>The first entry in use for a device; the in-core super block lives in it.\<close>

fun find_mount :: "mount list \<Rightarrow> nat \<Rightarrow> nat option" where
  "find_mount [] dev = None"
| "find_mount (m # ms) dev =
     (if m_bufp m \<noteq> None \<and> m_dev m = dev then Some 0 else map_option Suc (find_mount ms dev))"

definition set_super :: "nat \<Rightarrow> filsys \<Rightarrow> kern \<Rightarrow> kern" where
  "set_super i fp s = s\<lparr>k_mount := (k_mount s)[i := (k_mount s ! i)\<lparr>m_bufp := Some fp\<rparr>]\<rparr>"

definition super :: "kern \<Rightarrow> nat \<Rightarrow> filsys" where
  "super s i = the (m_bufp (k_mount s ! i))"

text \<open>\<open>getfs\<close> returns the position of the mount entry.\<close>

definition getfs :: "nat \<Rightarrow> kern \<Rightarrow> nat kres" where
  "getfs dev s =
     (case find_mount (k_mount s) dev of
        None \<Rightarrow> Inl (Panicked ''no fs'', s)
      | Some i \<Rightarrow>
          (let fp = super s i in
           if s_nfree fp > int NICFREE \<or> s_ninode fp > int NICINOD
           then Inr (i, set_super i (fp\<lparr>s_nfree := 0, s_ninode := 0\<rparr>) (prdev ''bad count'' dev s))
           else Inr (i, s)))"

lemma find_mount_Some:
  "find_mount ms dev = Some i \<Longrightarrow>
     i < length ms \<and> m_dev (ms ! i) = dev \<and> m_bufp (ms ! i) \<noteq> None"
  by (induction ms arbitrary: i) (auto split: if_splits)

lemma find_mount_update:
  "\<lbrakk>find_mount ms dev = Some i; m_dev m = dev; m_bufp m \<noteq> None\<rbrakk> \<Longrightarrow>
     find_mount (ms[i := m]) dev = Some i"
  by (induction ms arbitrary: i) (auto split: if_splits)

lemma find_mount_set_super:
  assumes "find_mount (k_mount s) dev = Some i"
  shows "find_mount (k_mount (set_super i fp s)) dev = Some i"
  using assms find_mount_Some [OF assms] by (simp add: set_super_def find_mount_update)

lemma super_set_super:
  assumes "find_mount (k_mount s) dev = Some i"
  shows "super (set_super i fp s) i = fp"
  using find_mount_Some [OF assms] by (simp add: super_def set_super_def)

lemma super_set [simp]: "i < length (k_mount t) \<Longrightarrow> super (set_super i fp t) i = fp"
  by (simp add: super_def set_super_def)

lemma length_mount_set_super [simp]: "length (k_mount (set_super i fp t)) = length (k_mount t)"
  by (simp add: set_super_def)

lemma kern_frames [simp]:
  "k_junk (put_block dev bp s) = k_junk s" "k_inode (put_block dev bp s) = k_inode s"
  "u_error (put_block dev bp s) = u_error s"
  "k_mount (put_block dev bp s) = k_mount s" "k_bad (put_block dev bp s) = k_bad s"
  "k_mount (bwrite dev bp s) = k_mount s" "k_bad (bwrite dev bp s) = k_bad s"
  "k_mount (bdwrite dev bp s) = k_mount s" "k_bad (bdwrite dev bp s) = k_bad s"
  "k_mount (prdev msg dev s) = k_mount s" "k_blocks (prdev msg dev s) = k_blocks s"
  "k_bad (prdev msg dev s) = k_bad s"
  "k_mount (wakeup c s) = k_mount s" "k_blocks (wakeup c s) = k_blocks s"
  "k_bad (wakeup c s) = k_bad s"
  "k_blocks (set_super i fp s) = k_blocks s" "k_bad (set_super i fp s) = k_bad s"
  "u_error (set_super i fp s) = u_error s" "u_error (wakeup c s) = u_error s"
  "u_error (prdev msg dev s) = u_error s" "u_error (bdwrite dev bp s) = u_error s"
  "k_blocks (bwrite dev bp s) = k_blocks (put_block dev bp s)"
  "k_blocks (bdwrite dev bp s) = k_blocks (put_block dev bp s)"
  by (simp_all add: put_block_def bwrite_def bdwrite_def prdev_def wakeup_def set_super_def Let_def)

lemma super_frames [simp]:
  "super (put_block dev bp s) i = super s i" "super (bwrite dev bp s) i = super s i"
  "super (bdwrite dev bp s) i = super s i" "super (prdev msg dev s) i = super s i"
  "super (wakeup c s) i = super s i" "super (s\<lparr>u_error := e\<rparr>) i = super s i"
  by (simp_all add: super_def)

lemma put_block_at [simp]: "k_blocks (put_block dev (b, d) s) dev b = d"
  by (simp add: put_block_def)

lemma put_block_other [simp]:
  "dev' \<noteq> dev \<or> b' \<noteq> fst bp \<Longrightarrow> k_blocks (put_block dev bp s) dev' b' = k_blocks s dev' b'"
  by (auto simp: put_block_def)

text \<open>
  What the block and inode allocators may change of the state: blocks, super blocks, the
  console log, the wakeups issued and the error code.
\<close>

definition fs_erase :: "kern \<Rightarrow> kern" where
  "fs_erase s = s\<lparr>k_blocks := (\<lambda>_ _. []), k_mount := [], k_log := [], k_wakeups := [], u_error := None\<rparr>"

definition fs_frame :: "kern \<Rightarrow> kern \<Rightarrow> bool" where
  "fs_frame s s' \<longleftrightarrow> fs_erase s = fs_erase s'"

lemma fs_frame_refl [simp]: "fs_frame s s"
  by (simp add: fs_frame_def)

lemma fs_frame_trans [trans]: "\<lbrakk>fs_frame s t; fs_frame t r\<rbrakk> \<Longrightarrow> fs_frame s r"
  by (simp add: fs_frame_def)

lemma fs_frame_ops [simp]:
  "fs_frame s (put_block dev bp t) = fs_frame s t"
  "fs_frame s (prdev m dev t) = fs_frame s t" "fs_frame s (printf m t) = fs_frame s t"
  "fs_frame s (wakeup c t) = fs_frame s t" "fs_frame s (set_super i fp t) = fs_frame s t"
  "fs_frame s (t\<lparr>u_error := e\<rparr>) = fs_frame s t" "fs_frame s (set_error x t) = fs_frame s t"
  "fs_frame s (bdwrite dev bp t) = fs_frame s t" "fs_frame s (bwrite dev bp t) = fs_frame s t"
  by (simp_all add: prdev_def printf_def wakeup_def set_super_def set_error_def bdwrite_def
    bwrite_def put_block_def Let_def fs_frame_def fs_erase_def)

lemma fs_frameD:
  assumes "fs_frame s t"
  shows
    "k_bad t = k_bad s" "k_junk t = k_junk s" "k_resid t = k_resid s" "k_keep t = k_keep s"
    "k_inode t = k_inode s" "k_file t = k_file s" "k_text t = k_text s" "k_mem t = k_mem s"
    "k_memok t = k_memok s" "u_offset t = u_offset s" "u_count t = u_count s" "u_base t = u_base s"
    "u_segflg t = u_segflg s" "u_dent t = u_dent s" "u_uid t = u_uid s" "u_gid t = u_gid s"
    "k_time t = k_time s" "k_rablock t = k_rablock s"
proof -
  have E: "fs_erase s = fs_erase t" using assms by (simp add: fs_frame_def)
  show "k_bad t = k_bad s" using arg_cong [OF E, of k_bad] by (simp add: fs_erase_def)
  show "k_junk t = k_junk s" using arg_cong [OF E, of k_junk] by (simp add: fs_erase_def)
  show "k_resid t = k_resid s" using arg_cong [OF E, of k_resid] by (simp add: fs_erase_def)
  show "k_keep t = k_keep s" using arg_cong [OF E, of k_keep] by (simp add: fs_erase_def)
  show "k_inode t = k_inode s" using arg_cong [OF E, of k_inode] by (simp add: fs_erase_def)
  show "k_file t = k_file s" using arg_cong [OF E, of k_file] by (simp add: fs_erase_def)
  show "k_text t = k_text s" using arg_cong [OF E, of k_text] by (simp add: fs_erase_def)
  show "k_mem t = k_mem s" using arg_cong [OF E, of k_mem] by (simp add: fs_erase_def)
  show "k_memok t = k_memok s" using arg_cong [OF E, of k_memok] by (simp add: fs_erase_def)
  show "u_offset t = u_offset s" using arg_cong [OF E, of u_offset] by (simp add: fs_erase_def)
  show "u_count t = u_count s" using arg_cong [OF E, of u_count] by (simp add: fs_erase_def)
  show "u_base t = u_base s" using arg_cong [OF E, of u_base] by (simp add: fs_erase_def)
  show "u_segflg t = u_segflg s" using arg_cong [OF E, of u_segflg] by (simp add: fs_erase_def)
  show "u_dent t = u_dent s" using arg_cong [OF E, of u_dent] by (simp add: fs_erase_def)
  show "u_uid t = u_uid s" using arg_cong [OF E, of u_uid] by (simp add: fs_erase_def)
  show "u_gid t = u_gid s" using arg_cong [OF E, of u_gid] by (simp add: fs_erase_def)
  show "k_time t = k_time s" using arg_cong [OF E, of k_time] by (simp add: fs_erase_def)
  show "k_rablock t = k_rablock s" using arg_cong [OF E, of k_rablock] by (simp add: fs_erase_def)
qed

text \<open>A machine with nothing mounted and nothing open, the base of concrete examples.\<close>

definition kern0 :: kern where
  "kern0 = \<lparr>
    k_blocks = \<lambda>_ _. zero_block, k_bad = \<lambda>_ _. False,
    k_junk = \<lambda>_ _. zero_block, k_resid = \<lambda>_ _. 0, k_keep = \<lambda>_ _. False,
    k_mount = [], k_inode = [], k_file = [], k_text = [], k_time = 0, k_rablock = 0,
    k_rootdir = 0, k_pipedev = 0, k_mpxip = None, k_updlock = False, k_mem = \<lambda>_ _. 0,
    k_memok = \<lambda>_ _. True, k_log = [], k_wakeups = [], k_signals = [], k_swfree = [],
    u_error = None, u_uid = 0, u_gid = 0, u_ruid = 0, u_rgid = 0, u_asu = False,
    u_segflg = UserD, u_base = 0, u_count = 0, u_offset = 0, u_cdir = 0,
    u_rdir = None, u_pdir = 0, u_dirp = 0, u_dbuf = replicate DIRSIZ 0, u_dent = replicate 16 0,
    u_ofile = replicate NOFILE None,
    u_pofile = replicate NOFILE 0, u_cmask = 0, u_rval1 = 0, u_rval2 = 0, p_uid = 0,
    p_nice = 20, p_clktim = 0, p_pid = 1, p_ppid = 0, k_lbolt = 0, u_times = [0, 0, 0, 0], u_prof = [0, 0, 0, 0]\<rparr>"

end
