(* ===== verification/FreeList.thy ===== *)
theory FreeList
  imports Kernel
begin

section \<open>The free block list (alloc and free of sys/alloc.c)\<close>

text \<open>
  Free blocks form a stack.  The super block holds up to \<open>NICFREE\<close> of them, entry 0
  being the link: a block that holds a count and the next entries, or 0 at the end.
  The inductive predicate \<open>free_chain\<close> reads the whole stack off the super block and
  the disk; the theorems say that \<open>free\<close> pushes, \<open>alloc\<close> pops, and no sequence of
  the two loses or duplicates a block.
\<close>

subsection \<open>The list entries in a block (struct fblk)\<close>

definition df_nfree :: "block \<Rightarrow> int" where
  "df_nfree b = sgn16 (get16 b 0)"

definition df_free :: "block \<Rightarrow> int list" where
  "df_free b = getls b 2 NICFREE"

definition put_fblk :: "block \<Rightarrow> int \<Rightarrow> int list \<Rightarrow> block" where
  "put_fblk b n fs = putls (put16 b 0 n) 2 fs"

subsection \<open>The operations\<close>

definition bad_range :: "filsys \<Rightarrow> int \<Rightarrow> bool" where
  "bad_range fp bn \<longleftrightarrow> bn < s_isize fp \<or> bn \<ge> s_fsize fp"

definition badblock :: "filsys \<Rightarrow> int \<Rightarrow> nat \<Rightarrow> kern \<Rightarrow> bool \<times> kern" where
  "badblock fp bn dev s =
     (if bad_range fp bn then (True, prdev ''bad block'' dev s) else (False, s))"

text \<open>
  The do-while loop of \<open>alloc\<close>: the block taken, \<^const>\<open>None\<close> for the jump to
  \<open>nospace\<close>.
\<close>

function alloc_loop :: "nat \<Rightarrow> filsys \<Rightarrow> kern \<Rightarrow> int option \<times> filsys \<times> kern" where
  "alloc_loop dev fp s =
     (if s_nfree fp \<le> 0 then (None, fp, s)
      else if s_nfree fp > int NICFREE then (None, fp, prdev ''Bad free count'' dev s)
      else
        (let fp = fp\<lparr>s_nfree := s_nfree fp - 1\<rparr>; bno = s_free fp ! nat (s_nfree fp)
         in if bno = 0 then (None, fp, s)
            else case badblock fp bno dev s of
              (True, s) \<Rightarrow> alloc_loop dev fp s
            | (False, s) \<Rightarrow> (Some bno, fp, s)))"
  by pat_completeness auto
termination
  by (relation "measure (\<lambda>(dev, fp, s). nat (s_nfree fp))") auto

declare alloc_loop.simps [simp del]

definition nospace :: "nat \<Rightarrow> nat \<Rightarrow> filsys \<Rightarrow> kern \<Rightarrow> buf option \<times> kern" where
  "nospace dev i fp s =
     (None, (prdev ''no space'' dev (set_super i (fp\<lparr>s_nfree := 0\<rparr>) s))\<lparr>u_error := Some ENOSPC\<rparr>)"

text \<open>
  \<open>alloc\<close>: the cleared buffer of the block, or \<^const>\<open>None\<close> with \<open>ENOSPC\<close>.
\<close>

definition alloc :: "nat \<Rightarrow> kern \<Rightarrow> buf option kres" where
  "alloc dev s =
     rbind (getfs dev s) (\<lambda>(i, s).
       if s_flock (super s i) \<noteq> 0 then Inl (Sleeping (ChFlock dev), s)
       else case alloc_loop dev (super s i) s of
         (None, fp, s) \<Rightarrow> Inr (nospace dev i fp s)
       | (Some bno, fp, s) \<Rightarrow>
           if s_nfree fp \<le> 0 then
             (let (bp, s) = bread dev bno s;
                  fp = (case bp of
                          None \<Rightarrow> fp
                        | Some (_, d) \<Rightarrow> fp\<lparr>s_nfree := df_nfree d, s_free := df_free d\<rparr>);
                  s = wakeup (ChFlock dev) s
              in if s_nfree fp \<le> 0 then Inr (nospace dev i fp s)
                 else Inr (Some (bno, zero_block), set_super i (fp\<lparr>s_fmod := True\<rparr>) s))
           else Inr (Some (bno, zero_block), set_super i (fp\<lparr>s_fmod := True\<rparr>) s))"

text \<open>The part of \<open>free\<close> after its checks.\<close>

definition free_store :: "nat \<Rightarrow> nat \<Rightarrow> int \<Rightarrow> filsys \<Rightarrow> kern \<Rightarrow> kern" where
  "free_store dev i bno fp s =
     (let fp = (if s_nfree fp \<le> 0 then fp\<lparr>s_nfree := 1, s_free := (s_free fp)[0 := 0]\<rparr> else fp);
          (fp, s) =
            (if s_nfree fp \<ge> int NICFREE then
               (let (b, d) = getblk dev bno s;
                    s = bwrite dev (b, put_fblk d (s_nfree fp) (s_free fp)) s
                in (fp\<lparr>s_nfree := 0\<rparr>, wakeup (ChFlock dev) s))
             else (fp, s));
          fp = fp\<lparr>s_nfree := s_nfree fp + 1, s_free := (s_free fp)[nat (s_nfree fp) := bno]\<rparr>
      in set_super i (fp\<lparr>s_fmod := True\<rparr>) s)"

definition free :: "nat \<Rightarrow> int \<Rightarrow> kern \<Rightarrow> unit kres" where
  "free dev bno s =
     rbind (getfs dev s) (\<lambda>(i, s).
       let fp = (super s i)\<lparr>s_fmod := True\<rparr>; s = set_super i fp s in
       if s_flock fp \<noteq> 0 then Inl (Sleeping (ChFlock dev), s)
       else case badblock fp bno dev s of
         (True, s) \<Rightarrow> Inr ((), s)
       | (False, s) \<Rightarrow> Inr ((), free_store dev i bno fp s))"

subsection \<open>The stack of free blocks\<close>

text \<open>The entries above the link, from the top of the stack down.\<close>

definition upper :: "int \<Rightarrow> int list \<Rightarrow> int list" where
  "upper n fs = rev (drop 1 (take (nat n) fs))"

inductive free_chain :: "(int \<Rightarrow> block) \<Rightarrow> int \<Rightarrow> int list \<Rightarrow> int list \<Rightarrow> bool"
  for blk :: "int \<Rightarrow> block" where
  chain_none: "free_chain blk 0 fs []"
| chain_end: "\<lbrakk>1 \<le> n; n \<le> int NICFREE; fs ! 0 = 0\<rbrakk> \<Longrightarrow> free_chain blk n fs (upper n fs)"
| chain_link: "\<lbrakk>1 \<le> n; n \<le> int NICFREE; fs ! 0 = b; b \<noteq> 0;
     1 \<le> df_nfree (blk b); free_chain blk (df_nfree (blk b)) (df_free (blk b)) L\<rbrakk> \<Longrightarrow>
     free_chain blk n fs (upper n fs @ b # L)"

inductive_cases chain_cons: "free_chain blk n fs L"

text \<open>
  The free list of device \<open>dev\<close>, mounted at entry \<open>i\<close>, is \<open>L\<close>, and the
  super block is in order.
\<close>

definition fs_free :: "nat \<Rightarrow> kern \<Rightarrow> nat \<Rightarrow> int list \<Rightarrow> bool" where
  "fs_free dev s i L \<longleftrightarrow> find_mount (k_mount s) dev = Some i \<and>
     s_flock (super s i) = 0 \<and> s_ninode (super s i) \<le> int NICINOD \<and>
     0 \<le> s_nfree (super s i) \<and> s_nfree (super s i) \<le> int NICFREE \<and>
     length (s_free (super s i)) = NICFREE \<and> list_all is_long (s_free (super s i)) \<and>
     free_chain (k_blocks s dev) (s_nfree (super s i)) (s_free (super s i)) L \<and> distinct L \<and>
     (\<forall>b\<in>set L. \<not> bad_range (super s i) b \<and> \<not> k_bad s dev b) \<and>
     0 < s_isize (super s i) \<and> s_fsize (super s i) \<le> 2147483648 \<and>
     (\<forall>b. length (k_junk s dev b) = BSIZE)"

lemma df_free_length [simp]: "length (df_free b) = NICFREE"
  by (simp add: df_free_def)

lemma get16_range: "0 \<le> get16 b k \<and> get16 b k < 65536"
proof -
  have "uint (b ! k) < 256" "uint (b ! (k + 1)) < 256"
    using uint_bounded [of "b ! k"] uint_bounded [of "b ! (k + 1)"] by simp_all
  then show ?thesis by (simp add: get16_def)
qed

lemma getl_is_long: "is_long (getl b k)"
  using get16_range [of b k] get16_range [of b "k + 2"]
  by (auto simp: getl_def sgn32_def get32_def is_long_def)

lemma df_free_is_long: "list_all is_long (df_free b)"
  by (simp add: df_free_def getls_def list_all_iff getl_is_long)

lemma fblk_roundtrip:
  assumes "length d = BSIZE" "length fs = NICFREE" "list_all is_long fs" "0 \<le> n" "n \<le> int NICFREE"
  shows "df_nfree (put_fblk d n fs) = n" "df_free (put_fblk d n fs) = fs"
proof -
  show "df_nfree (put_fblk d n fs) = n"
    using assms
    by (simp add: df_nfree_def put_fblk_def get16_putls_before get16_put16_same sgn16_def fs_consts)
  have "getls (putls (put16 d 0 n) 2 fs) 2 (length fs) = fs"
    using assms by (intro getls_putls) (simp_all add: fs_consts)
  then show "df_free (put_fblk d n fs) = fs"
    using assms by (simp add: df_free_def put_fblk_def)
qed

lemma upper_1 [simp]: "upper 1 fs = []"
  by (cases fs) (simp_all add: upper_def)

lemma upper_pop:
  assumes "2 \<le> n" "nat n \<le> length fs"
  shows "upper n fs = fs ! nat (n - 1) # upper (n - 1) fs"
proof -
  obtain m where m: "nat n = Suc m" "n - 1 = int m" "0 < m"
    using assms(1) by (intro that [of "nat (n - 1)"]) auto
  then have "take (nat n) fs = take m fs @ [fs ! m]"
    using assms(2) by (simp add: take_Suc_conv_app_nth)
  with m assms(2) show ?thesis by (simp add: upper_def)
qed

lemma upper_push:
  assumes "1 \<le> n" "nat n < length fs"
  shows "upper (n + 1) (fs[nat n := b]) = b # upper n fs"
  using assms upper_pop [of "n + 1" "fs[nat n := b]"] by (simp add: upper_def)

lemma free_chain_cong:
  "\<lbrakk>free_chain blk n fs L; \<forall>b\<in>set L. blk' b = blk b\<rbrakk> \<Longrightarrow> free_chain blk' n fs L"
proof (induction rule: free_chain.induct)
  case (chain_link n fs b L)
  then show ?case by (auto intro!: free_chain.chain_link)
qed (auto intro: free_chain.intros)

lemma free_chain_nonneg: "free_chain blk n fs L \<Longrightarrow> 0 \<le> n \<and> n \<le> int NICFREE"
  by (cases rule: free_chain.cases) auto

text \<open>Popping the top entry.\<close>

lemma free_chain_pop:
  assumes "free_chain blk n fs (b # L)" "length fs = NICFREE"
  shows "1 \<le> n \<and> fs ! nat (n - 1) = b \<and>
    (if n = 1 then 1 \<le> df_nfree (blk b) \<and> free_chain blk (df_nfree (blk b)) (df_free (blk b)) L
     else free_chain blk (n - 1) fs L)"
  using assms(1)
proof (cases rule: free_chain.cases)
  case chain_end
  then have "n \<noteq> 1" by auto
  with chain_end assms(2) have "fs ! nat (n - 1) = b \<and> L = upper (n - 1) fs"
    using upper_pop [of n fs] by auto
  with chain_end \<open>n \<noteq> 1\<close> show ?thesis by (auto intro: free_chain.chain_end)
next
  case (chain_link b' L')
  show ?thesis
  proof (cases "n = 1")
    case True
    with chain_link show ?thesis by auto
  next
    case False
    with chain_link assms(2) have "fs ! nat (n - 1) = b \<and> L = upper (n - 1) fs @ b' # L'"
      using upper_pop [of n fs] by auto
    with chain_link False show ?thesis by (auto intro: free_chain.chain_link)
  qed
qed

lemma free_chain_empty:
  assumes "free_chain blk n fs []" "length fs = NICFREE"
  shows "n = 0 \<or> n = 1 \<and> fs ! 0 = 0"
  using assms(1)
proof (cases rule: free_chain.cases)
  case chain_end
  with assms(2) upper_pop [of n fs] show ?thesis by (cases "n = 1") (auto simp: nat_le_iff)
qed auto

text \<open>Pushing an entry while there is room in the super block.\<close>

lemma free_chain_push:
  assumes "free_chain blk n fs L" "1 \<le> n" "n < int NICFREE" "length fs = NICFREE"
  shows "free_chain blk (n + 1) (fs[nat n := b]) (b # L)"
  using assms(1)
proof (cases rule: free_chain.cases)
  case chain_none
  with assms show ?thesis by simp
next
  case chain_end
  with assms have "fs[nat n := b] ! 0 = 0" by simp
  with assms chain_end upper_push [of n fs b] show ?thesis
    using free_chain.chain_end [of "n + 1" "fs[nat n := b]" blk] by simp
next
  case (chain_link b' L')
  with assms have "fs[nat n := b] ! 0 = b'" by simp
  with assms chain_link upper_push [of n fs b] show ?thesis
    using free_chain.chain_link [of "n + 1" "fs[nat n := b]" b' blk L'] by simp
qed

subsection \<open>What the operations do to the stack\<close>

lemma getfs_ok: "fs_free dev s i L \<Longrightarrow> getfs dev s = Inr (i, s)"
  by (simp add: fs_free_def getfs_def Let_def)

lemma fs_free_update:
  assumes "fs_free dev s i L" and "k_mount s' = k_mount s" "k_bad s' = k_bad s" "k_junk s' = k_junk s"
    and "s_flock fp = 0" "s_ninode fp = s_ninode (super s i)" "s_isize fp = s_isize (super s i)"
    "s_fsize fp = s_fsize (super s i)"
    and "0 \<le> s_nfree fp" "s_nfree fp \<le> int NICFREE" "length (s_free fp) = NICFREE"
    "list_all is_long (s_free fp)"
    and "free_chain (k_blocks s' dev) (s_nfree fp) (s_free fp) L'" "distinct L'"
    "\<forall>b\<in>set L'. \<not> bad_range (super s i) b \<and> \<not> k_bad s dev b"
  shows "fs_free dev (set_super i fp s') i L'"
proof -
  have m: "find_mount (k_mount s') dev = Some i" using assms by (simp add: fs_free_def)
  show ?thesis
    using assms find_mount_set_super [OF m] super_set_super [OF m]
    by (simp add: fs_free_def bad_range_def badblock_def set_super_def)
qed

lemma alloc_empty:
  assumes fs: "fs_free dev s i []"
  shows "\<exists>s'. alloc dev s = Inr (None, s') \<and> u_error s' = Some ENOSPC \<and>
    k_blocks s' = k_blocks s \<and> fs_free dev s' i []"
proof -
  define fp where "fp = super s i"
  have n: "s_nfree fp = 0 \<or> s_nfree fp = 1 \<and> s_free fp ! 0 = 0" and l: "s_flock fp = 0"
    using free_chain_empty fs by (auto simp: fs_free_def fp_def)
  define fp' where "fp' = (if s_nfree fp = 0 then fp else fp\<lparr>s_nfree := 0\<rparr>)"
  have loop: "alloc_loop dev fp s = (None, fp', s)"
    using n by (auto simp: alloc_loop.simps [of dev fp s] fp'_def NICFREE_def Let_def)
  let ?s = "snd (nospace dev i fp' s)"
  have "alloc dev s = Inr (None, ?s)"
    using loop l by (simp add: alloc_def getfs_ok [OF fs] fp_def [symmetric] nospace_def)
  moreover have "fs_free dev (set_super i (fp'\<lparr>s_nfree := 0\<rparr>) s) i []"
    using fs by (intro fs_free_update [OF fs])
      (auto simp: fp'_def fp_def fs_free_def intro: chain_none)
  then have "fs_free dev ?s i []"
    by (simp add: nospace_def fs_free_def prdev_def super_def)
  ultimately show ?thesis by (auto simp: nospace_def)
qed

lemma alloc_takes_top:
  assumes fs: "fs_free dev s i (b # L)"
  shows "\<exists>s'. alloc dev s = Inr (Some (b, zero_block), s') \<and> u_error s' = u_error s \<and>
    k_blocks s' = k_blocks s \<and> fs_free dev s' i L"
proof -
  define fp where "fp = super s i"
  let ?n = "s_nfree fp"
  have len: "length (s_free fp) = NICFREE" and l: "s_flock fp = 0" and n: "?n \<le> int NICFREE"
    and chain: "free_chain (k_blocks s dev) ?n (s_free fp) (b # L)"
    and b: "\<not> bad_range fp b" "\<not> k_bad s dev b" "b \<noteq> 0" and lng: "list_all is_long (s_free fp)"
    using fs by (auto simp: fs_free_def fp_def bad_range_def badblock_def)
  note pop = free_chain_pop [OF chain len]
  have bad: "bad_range (fp\<lparr>s_nfree := m\<rparr>) b = bad_range fp b" for m by (simp add: bad_range_def badblock_def)
  have loop: "alloc_loop dev fp s = (Some b, fp\<lparr>s_nfree := ?n - 1\<rparr>, s)"
    using pop n b bad by (auto simp: alloc_loop.simps [of dev fp s] Let_def badblock_def)
  show ?thesis
  proof (cases "?n = 1")
    case False
    let ?fp = "fp\<lparr>s_nfree := ?n - 1, s_fmod := True\<rparr>"
    have "alloc dev s = Inr (Some (b, zero_block), set_super i ?fp s)"
      using loop l pop False by (simp add: alloc_def getfs_ok [OF fs] fp_def [symmetric])
    moreover have "fs_free dev (set_super i ?fp s) i L"
      using fs pop False len n lng
      by (intro fs_free_update [OF fs]) (auto simp: fp_def [symmetric] fs_free_def)
    ultimately show ?thesis by simp
  next
    case True
    let ?d = "k_blocks s dev b"
    let ?fp = "fp\<lparr>s_nfree := df_nfree ?d, s_free := df_free ?d, s_fmod := True\<rparr>"
    let ?s = "wakeup (ChFlock dev) s"
    have d: "1 \<le> df_nfree ?d" "free_chain (k_blocks s dev) (df_nfree ?d) (df_free ?d) L"
      using pop True by auto
    have "alloc dev s = Inr (Some (b, zero_block), set_super i ?fp ?s)"
      using loop l d True b
      by (simp add: alloc_def getfs_ok [OF fs] fp_def [symmetric] bread_def)
    moreover have "fs_free dev (set_super i ?fp ?s) i L"
      using fs d free_chain_nonneg [OF d(2)]
      by (intro fs_free_update [OF fs])
        (auto simp: fp_def [symmetric] fs_free_def df_free_is_long wakeup_def)
    ultimately show ?thesis by simp
  qed
qed

text \<open>What is left when \<open>free\<close> returns: the block is on top of the stack.\<close>

definition pushed :: "nat \<Rightarrow> nat \<Rightarrow> int \<Rightarrow> int list \<Rightarrow> kern \<Rightarrow> kern \<Rightarrow> bool" where
  "pushed dev i b L s s' \<longleftrightarrow> u_error s' = u_error s \<and> fs_free dev s' i (b # L) \<and>
     (\<forall>dev' b'. dev' \<noteq> dev \<or> b' \<noteq> b \<longrightarrow> k_blocks s' dev' b' = k_blocks s dev' b')"

lemma fs_free_facts:
  assumes "fs_free dev s i L" "fp = super s i"
  shows "find_mount (k_mount s) dev = Some i" "length (s_free fp) = NICFREE" "s_flock fp = 0"
    "0 \<le> s_nfree fp" "s_nfree fp \<le> int NICFREE" "list_all is_long (s_free fp)"
    "free_chain (k_blocks s dev) (s_nfree fp) (s_free fp) L" "length (k_junk s dev b) = BSIZE"
    "\<not> bad_range fp x \<Longrightarrow> is_long x \<and> x \<noteq> 0"
  using assms by (auto simp: fs_free_def bad_range_def badblock_def is_long_def)

text \<open>Storing back a super block whose list has the new block on top.\<close>

lemma pushed_store:
  assumes fs: "fs_free dev s i L" and b: "\<not> bad_range (super s i) b" "\<not> k_bad s dev b" "b \<notin> set L"
    and s': "k_mount s' = k_mount s" "k_bad s' = k_bad s" "k_junk s' = k_junk s" "u_error s' = u_error s"
    and same: "\<forall>dev' b'. dev' \<noteq> dev \<or> b' \<noteq> b \<longrightarrow> k_blocks s' dev' b' = k_blocks s dev' b'"
    and n: "0 \<le> n" "n \<le> int NICFREE" and k: "k < NICFREE"
    and fs': "fs' = s_free (super s i) \<or> fs' = (s_free (super s i))[0 := 0]"
    and chain: "free_chain (k_blocks s' dev) n (fs'[k := b]) (b # L)"
  shows "pushed dev i b L s
    (set_super i ((super s i)\<lparr>s_nfree := n, s_free := fs'[k := b], s_fmod := True\<rparr>) s')"
proof -
  note f = fs_free_facts [OF fs refl]
  have "list_all is_long (fs'[k := b])" "length (fs'[k := b]) = NICFREE"
    using f(2,6,9) b(1) fs'
    by (auto simp: list_all_iff is_long_def dest!: subsetD [OF set_update_subset_insert])
  then have "fs_free dev (set_super i ((super s i)\<lparr>s_nfree := n, s_free := fs'[k := b], s_fmod := True\<rparr>) s') i (b # L)"
    using fs s' n chain b by (intro fs_free_update [OF fs]) (auto simp: fs_free_def)
  with s' same show ?thesis by (simp add: pushed_def)
qed

lemma free_store_empty:
  assumes fs: "fs_free dev s i L" and b: "\<not> bad_range (super s i) b" "\<not> k_bad s dev b" "b \<notin> set L"
    and n: "s_nfree (super s i) = 0"
  shows "pushed dev i b L s (free_store dev i b (super s i) s)"
proof -
  let ?fp = "super s i"
  let ?fs = "(s_free ?fp)[0 := 0]"
  note f = fs_free_facts [OF fs refl]
  have "L = []" using f(7) n by (cases rule: free_chain.cases) auto
  have "free_chain (k_blocks s dev) 2 (?fs[1 := b]) (b # L)"
    using chain_end [of 2 "?fs[1 := b]" "k_blocks s dev"] upper_pop [of 2 "?fs[1 := b]"] f(2) \<open>L = []\<close>
    by (simp add: NICFREE_def)
  moreover have "free_store dev i b ?fp s =
      set_super i (?fp\<lparr>s_nfree := 2, s_free := ?fs[1 := b], s_fmod := True\<rparr>) s"
    using n by (simp add: free_store_def NICFREE_def)
  ultimately show ?thesis
    using pushed_store [OF fs b, of s 2 1 ?fs] by (simp add: NICFREE_def)
qed

lemma free_store_room:
  assumes fs: "fs_free dev s i L" and b: "\<not> bad_range (super s i) b" "\<not> k_bad s dev b" "b \<notin> set L"
    and n: "1 \<le> s_nfree (super s i)" "s_nfree (super s i) < int NICFREE"
  shows "pushed dev i b L s (free_store dev i b (super s i) s)"
proof -
  let ?fp = "super s i"
  let ?k = "nat (s_nfree ?fp)"
  note f = fs_free_facts [OF fs refl]
  have "free_chain (k_blocks s dev) (s_nfree ?fp + 1) ((s_free ?fp)[?k := b]) (b # L)"
    using f(7) n f(2) by (rule free_chain_push)
  moreover have "free_store dev i b ?fp s =
      set_super i (?fp\<lparr>s_nfree := s_nfree ?fp + 1, s_free := (s_free ?fp)[?k := b], s_fmod := True\<rparr>) s"
    using n by (simp add: free_store_def Let_def)
  ultimately show ?thesis
    using pushed_store [OF fs b, of s "s_nfree ?fp + 1" ?k "s_free ?fp"] n by simp
qed

lemma free_store_full:
  assumes fs: "fs_free dev s i L" and b: "\<not> bad_range (super s i) b" "\<not> k_bad s dev b" "b \<notin> set L"
    and n: "s_nfree (super s i) = int NICFREE"
  shows "pushed dev i b L s (free_store dev i b (super s i) s)"
proof -
  let ?fp = "super s i"
  let ?d = "put_fblk (k_junk s dev b) (s_nfree ?fp) (s_free ?fp)"
  let ?s = "wakeup (ChFlock dev) (bwrite dev (b, ?d) s)"
  note f = fs_free_facts [OF fs refl]
  have rt: "df_nfree ?d = s_nfree ?fp" "df_free ?d = s_free ?fp"
    using fblk_roundtrip [OF f(8,2,6,4,5)] by simp_all
  have "free_chain (k_blocks ?s dev) (s_nfree ?fp) (s_free ?fp) L"
    using b(3) by (intro free_chain_cong [OF f(7)]) (auto simp: put_block_def)
  then have "free_chain (k_blocks ?s dev) 1 ((s_free ?fp)[0 := b]) (b # L)"
    using chain_link [of 1 "(s_free ?fp)[0 := b]" b "k_blocks ?s dev" L] rt n f(2,9) b(1)
    by (simp add: NICFREE_def)
  moreover have "free_store dev i b ?fp s =
      set_super i (?fp\<lparr>s_nfree := 1, s_free := (s_free ?fp)[0 := b], s_fmod := True\<rparr>) ?s"
    using n by (simp add: free_store_def NICFREE_def getblk_def Let_def)
  ultimately show ?thesis
    using pushed_store [OF fs b, of ?s 1 0 "s_free ?fp"] b(2)
    by (simp add: NICFREE_def wakeup_def bwrite_def put_block_def)
qed

lemma free_puts_top:
  assumes fs: "fs_free dev s i L" and b: "\<not> bad_range (super s i) b" "\<not> k_bad s dev b" "b \<notin> set L"
  shows "\<exists>s'. free dev b s = Inr ((), s') \<and> pushed dev i b L s s'"
proof -
  define fp where "fp = (super s i)\<lparr>s_fmod := True\<rparr>"
  define s0 where "s0 = set_super i fp s"
  note f = fs_free_facts [OF fs refl]
  have fs0: "fs_free dev s0 i L"
    unfolding s0_def using fs
    by (intro fs_free_update [OF fs]) (auto simp: fp_def fs_free_def)
  have sup: "super s0 i = fp" using super_set_super [OF f(1)] by (simp add: s0_def)
  have b0: "\<not> bad_range (super s0 i) b" "\<not> k_bad s0 dev b" "b \<notin> set L"
    using b sup by (simp_all add: fp_def bad_range_def badblock_def s0_def)
  have "s_nfree fp = 0 \<or> 1 \<le> s_nfree fp \<and> s_nfree fp < int NICFREE \<or> s_nfree fp = int NICFREE"
    using fs_free_facts(4,5) [OF fs0 refl] sup by auto
  then have "pushed dev i b L s0 (free_store dev i b fp s0)"
    using free_store_empty [OF fs0 b0] free_store_room [OF fs0 b0] free_store_full [OF fs0 b0] sup
    by auto
  then have "pushed dev i b L s (free_store dev i b fp s0)"
    by (simp add: pushed_def s0_def)
  moreover have "free dev b s = Inr ((), free_store dev i b fp s0)"
    using f(3) b0(1) sup unfolding free_def getfs_ok [OF fs]
    by (simp add: Let_def badblock_def fp_def [symmetric] s0_def [symmetric])
  ultimately show ?thesis by blast
qed

lemma free_out_of_range:
  assumes fs: "fs_free dev s i L" and b: "bad_range (super s i) b"
  shows "\<exists>s'. free dev b s = Inr ((), s') \<and> k_blocks s' = k_blocks s \<and> fs_free dev s' i L \<and>
    k_log s' = k_log s @ [(''bad block'', Some dev)]"
proof -
  let ?s = "set_super i ((super s i)\<lparr>s_fmod := True\<rparr>) s"
  have "fs_free dev ?s i L"
    using fs by (intro fs_free_update [OF fs]) (auto simp: fs_free_def)
  then have "fs_free dev (prdev ''bad block'' dev ?s) i L"
    by (simp add: fs_free_def prdev_def super_def)
  moreover have "bad_range ((super s i)\<lparr>s_fmod := True\<rparr>) b" using b by (simp add: bad_range_def badblock_def)
  then have "free dev b s = Inr ((), prdev ''bad block'' dev ?s)"
    using fs unfolding free_def getfs_ok [OF fs] by (simp add: Let_def fs_free_def badblock_def)
  ultimately show ?thesis by (simp add: prdev_def set_super_def)
qed

subsection \<open>Frame conditions\<close>

lemma alloc_loop_frame: "fs_frame s0 s \<Longrightarrow> fs_frame s0 (snd (snd (alloc_loop dev fp s)))"
proof (induction dev fp s rule: alloc_loop.induct)
  case (1 dev fp s)
  then show ?case
    by (subst alloc_loop.simps) (auto simp: Let_def badblock_def split: if_splits)
qed

lemma getfs_frame: "getfs dev s = Inr (i, s') \<Longrightarrow> fs_frame s s'"
  by (auto simp: getfs_def Let_def split: option.splits if_splits)

lemma bread_frame [simp]: "fs_frame s0 (snd (bread dev b s)) = fs_frame s0 s"
  by (simp add: bread_def)

lemma nospace_frame [simp]: "fs_frame s0 (snd (nospace dev i fp s)) = fs_frame s0 s"
  by (simp add: nospace_def)

lemma alloc_frame:
  assumes "alloc dev s = Inr (r, s')"
  shows "fs_frame s s'"
proof -
  obtain i s1 where g: "getfs dev s = Inr (i, s1)"
    using assms unfolding alloc_def rbind_Inr_iff by auto
  obtain b fp s2 where l: "alloc_loop dev (super s1 i) s1 = (b, fp, s2)"
    by (cases "alloc_loop dev (super s1 i) s1") auto
  have f2: "fs_frame s s2"
    using alloc_loop_frame [OF getfs_frame [OF g], of dev "super s1 i"] l by simp
  show ?thesis
    using assms g l f2
    by (auto simp: alloc_def Let_def nospace_def bread_def split: if_splits option.splits prod.splits)
qed

lemma free_frame:
  assumes "free dev b s = Inr (r, s')"
  shows "fs_frame s s'"
proof -
  obtain i s1 where g: "getfs dev s = Inr (i, s1)"
    using assms unfolding free_def rbind_Inr_iff by auto
  with assms getfs_frame [OF g] show ?thesis
    by (auto simp: free_def free_store_def badblock_def Let_def split: if_splits prod.splits)
qed

text \<open>The sizes of the file system never change.\<close>

lemma alloc_loop_sizes:
  "s_isize (fst (snd (alloc_loop dev fp s))) = s_isize fp \<and>
   s_fsize (fst (snd (alloc_loop dev fp s))) = s_fsize fp \<and>
   k_mount (snd (snd (alloc_loop dev fp s))) = k_mount s"
proof (induction dev fp s rule: alloc_loop.induct)
  case (1 dev fp s)
  then show ?case
    by (subst (1 2 3) alloc_loop.simps) (auto simp: Let_def badblock_def split: if_splits)
qed

lemma alloc_sizes:
  assumes fs: "fs_free dev s i L" and a: "alloc dev s = Inr (r, s')"
  shows "s_isize (super s' i) = s_isize (super s i) \<and> s_fsize (super s' i) = s_fsize (super s i)"
proof -
  obtain b fp s2 where l: "alloc_loop dev (super s i) s = (b, fp, s2)"
    by (cases "alloc_loop dev (super s i) s") auto
  then have f: "s_isize fp = s_isize (super s i)" "s_fsize fp = s_fsize (super s i)" "k_mount s2 = k_mount s"
    using alloc_loop_sizes [of dev "super s i" s] by auto
  show ?thesis
    using a l f fs find_mount_Some [OF fs_free_facts(1) [OF fs refl]]
    by (auto simp: alloc_def getfs_ok [OF fs] Let_def nospace_def bread_def fs_free_def
      split: if_splits option.splits prod.splits)
qed

lemma free_sizes:
  assumes fs: "fs_free dev s i L" and a: "free dev b s = Inr (r, s')"
  shows "s_isize (super s' i) = s_isize (super s i) \<and> s_fsize (super s' i) = s_fsize (super s i)"
proof -
  show ?thesis
    using a fs find_mount_Some [OF fs_free_facts(1) [OF fs refl]]
    by (auto simp: free_def free_store_def badblock_def getfs_ok [OF fs] Let_def fs_free_def
      split: if_splits prod.splits)
qed

subsection \<open>A stack of resources\<close>

text \<open>Repeated pops and pushes; \<^const>\<open>None\<close> when one of them does not return.\<close>

fun pops :: "('s \<Rightarrow> ('b option \<times> 's) option) \<Rightarrow> nat \<Rightarrow> 's \<Rightarrow> ('b option list \<times> 's) option" where
  "pops pop 0 s = Some ([], s)"
| "pops pop (Suc n) s =
     Option.bind (pop s) (\<lambda>(r, s). map_option (\<lambda>(rs, s). (r # rs, s)) (pops pop n s))"

fun pushes :: "('b \<Rightarrow> 's \<Rightarrow> 's option) \<Rightarrow> 'b list \<Rightarrow> 's \<Rightarrow> 's option" where
  "pushes push [] s = Some s"
| "pushes push (b # bs) s = Option.bind (push b s) (pushes push bs)"

locale stack_store =
  fixes pop :: "'s \<Rightarrow> ('b option \<times> 's) option"
    and push :: "'b \<Rightarrow> 's \<Rightarrow> 's option"
    and holds :: "'s \<Rightarrow> 'b list \<Rightarrow> bool"
    and valid :: "'s \<Rightarrow> 'b \<Rightarrow> bool"
  assumes pop_nil: "holds s [] \<Longrightarrow> \<exists>s'. pop s = Some (None, s') \<and> holds s' []"
    and pop_cons: "holds s (b # L) \<Longrightarrow> \<exists>s'. pop s = Some (Some b, s') \<and> holds s' L"
    and push: "\<lbrakk>holds s L; valid s b; b \<notin> set L\<rbrakk> \<Longrightarrow> \<exists>s'. push b s = Some s' \<and> holds s' (b # L)"
    and push_valid: "\<lbrakk>holds s L; push b s = Some s'; valid s c\<rbrakk> \<Longrightarrow> valid s' c"
begin

lemma pops_take:
  "holds s (bs @ L) \<Longrightarrow> \<exists>s'. pops pop (length bs) s = Some (map Some bs, s') \<and> holds s' L"
proof (induction bs arbitrary: s)
  case (Cons b bs)
  then obtain s1 where "pop s = Some (Some b, s1)" "holds s1 (bs @ L)"
    using pop_cons by fastforce
  with Cons.IH [of s1] show ?case by auto
qed simp

lemma pushes_rev:
  "\<lbrakk>holds s L; \<forall>b\<in>set bs. valid s b; distinct (bs @ L)\<rbrakk> \<Longrightarrow>
     \<exists>s'. pushes push bs s = Some s' \<and> holds s' (rev bs @ L)"
proof (induction bs arbitrary: s L)
  case (Cons b bs)
  then obtain s1 where s1: "push b s = Some s1" "holds s1 (b # L)"
    using push [of s L b] by auto
  with Cons.prems have "\<forall>c\<in>set bs. valid s1 c" using push_valid by fastforce
  with Cons.IH [of s1 "b # L"] Cons.prems s1 show ?case by auto
qed simp

text \<open>Blocks pushed come back in reverse order, and the rest of the stack is as it was.\<close>

lemma lifo:
  assumes "holds s L" "\<forall>b\<in>set bs. valid s b" "distinct (bs @ L)"
  shows "\<exists>s1 s2. pushes push bs s = Some s1 \<and>
    pops pop (length bs) s1 = Some (map Some (rev bs), s2) \<and> holds s2 L"
proof -
  obtain s1 where s1: "pushes push bs s = Some s1" "holds s1 (rev bs @ L)"
    using pushes_rev [OF assms] by blast
  with pops_take [of s1 "rev bs" L] show ?thesis by auto
qed

text \<open>A stack of \<open>n\<close> elements gives exactly these before it runs out.\<close>

lemma exhaust:
  assumes "holds s L"
  shows "\<exists>s'. pops pop (length L + 1) s = Some (map Some L @ [None], s') \<and> holds s' []"
  using assms
proof (induction L arbitrary: s)
  case Nil
  with pop_nil [of s] show ?case by auto
next
  case (Cons b L)
  then obtain s1 where "pop s = Some (Some b, s1)" "holds s1 L"
    using pop_cons by blast
  with Cons.IH [of s1] show ?case by auto
qed

end

text \<open>The block allocator of one device in this form.\<close>

definition alloc_pop :: "nat \<Rightarrow> kern \<Rightarrow> (int option \<times> kern) option" where
  "alloc_pop dev s =
     (case alloc dev s of Inl _ \<Rightarrow> None | Inr (r, s') \<Rightarrow> Some (map_option fst r, s'))"

definition free_push :: "nat \<Rightarrow> int \<Rightarrow> kern \<Rightarrow> kern option" where
  "free_push dev b s = (case free dev b s of Inl _ \<Rightarrow> None | Inr (_, s') \<Rightarrow> Some s')"

definition fs_valid :: "nat \<Rightarrow> nat \<Rightarrow> kern \<Rightarrow> int \<Rightarrow> bool" where
  "fs_valid dev i s b \<longleftrightarrow> \<not> bad_range (super s i) b \<and> \<not> k_bad s dev b"

interpretation blk: stack_store "alloc_pop dev" "free_push dev" "\<lambda>s. fs_free dev s i" "fs_valid dev i"
  for dev i
proof (unfold_locales, goal_cases)
  case (1 s)
  with alloc_empty show ?case by (fastforce simp: alloc_pop_def)
next
  case (2 s b L)
  with alloc_takes_top show ?case by (fastforce simp: alloc_pop_def)
next
  case (3 s L b)
  then obtain s' where "free dev b s = Inr ((), s')" "pushed dev i b L s s'"
    using free_puts_top [of dev s i L b] by (auto simp: fs_valid_def)
  then show ?case by (simp add: free_push_def pushed_def)
next
  case (4 s L b s' c)
  then obtain r where "free dev b s = Inr (r, s')"
    by (auto simp: free_push_def split: sum.splits)
  with 4 free_sizes [of dev s i L b r s'] fs_frameD(1) [OF free_frame] show ?case
    by (simp add: fs_valid_def bad_range_def)
qed

subsection \<open>Clients of the allocator\<close>

text \<open>
  The state and the blocks that clients hold.  They allocate, free blocks they hold, and
  write what they like into blocks they hold.
\<close>

inductive blk_step :: "nat \<Rightarrow> kern \<times> int set \<Rightarrow> kern \<times> int set \<Rightarrow> bool" for dev :: nat where
  blk_alloc: "alloc dev s = Inr (Some (b, d), s') \<Longrightarrow> blk_step dev (s, H) (s', insert b H)"
| blk_none: "alloc dev s = Inr (None, s') \<Longrightarrow> blk_step dev (s, H) (s', H)"
| blk_free: "\<lbrakk>b \<in> H; free dev b s = Inr ((), s')\<rbrakk> \<Longrightarrow> blk_step dev (s, H) (s', H - {b})"
| blk_write: "b \<in> H \<Longrightarrow> blk_step dev (s, H) (put_block dev (b, d) s, H)"

inductive_cases blk_stepE: "blk_step dev s t"

definition blk_inv :: "nat \<Rightarrow> nat \<Rightarrow> int set \<Rightarrow> kern \<times> int set \<Rightarrow> bool" where
  "blk_inv dev i A sH \<longleftrightarrow> (\<exists>L. fs_free dev (fst sH) i L \<and> set L \<inter> snd sH = {} \<and>
     set L \<union> snd sH = A \<and> (\<forall>b\<in>snd sH. fs_valid dev i (fst sH) b))"

lemma fs_free_valid: "fs_free dev s i L \<Longrightarrow> b \<in> set L \<Longrightarrow> fs_valid dev i s b"
  by (simp add: fs_free_def fs_valid_def)

lemma fs_valid_alloc:
  "\<lbrakk>fs_free dev s i L; alloc dev s = Inr (r, s')\<rbrakk> \<Longrightarrow> fs_valid dev i s' b = fs_valid dev i s b"
  using alloc_sizes [of dev s i L r s'] fs_frameD(1) [OF alloc_frame [of dev s r s']]
  by (simp add: fs_valid_def bad_range_def)

lemma fs_valid_free:
  "\<lbrakk>fs_free dev s i L; free dev c s = Inr (r, s')\<rbrakk> \<Longrightarrow> fs_valid dev i s' b = fs_valid dev i s b"
  using free_sizes [of dev s i L c r s'] fs_frameD(1) [OF free_frame [of dev c s r s']]
  by (simp add: fs_valid_def bad_range_def)

lemma blk_inv_alloc:
  assumes inv: "blk_inv dev i A (s, H)" and a: "alloc dev s = Inr (r, s')"
  shows "blk_inv dev i A (s', case r of None \<Rightarrow> H | Some bp \<Rightarrow> insert (fst bp) H)"
proof -
  obtain L where L: "fs_free dev s i L" "set L \<inter> H = {}" "set L \<union> H = A" "\<forall>b\<in>H. fs_valid dev i s b"
    using inv by (auto simp: blk_inv_def)
  note v = fs_valid_alloc [OF L(1) a]
  show ?thesis
  proof (cases L)
    case Nil
    with L a v alloc_empty [of dev s i] show ?thesis by (auto simp: blk_inv_def)
  next
    case (Cons b L')
    then have "r = Some (b, zero_block)" "fs_free dev s' i L'"
      using L(1) a alloc_takes_top [of dev s i b L'] by auto
    moreover have "b \<notin> set L'" "fs_valid dev i s b"
      using L(1) Cons by (auto simp: fs_free_def fs_valid_def)
    ultimately show ?thesis
      using L v Cons by (auto simp: blk_inv_def intro!: exI [of _ L'])
  qed
qed

lemma blk_inv_free:
  assumes inv: "blk_inv dev i A (s, H)" and b: "b \<in> H" and f: "free dev b s = Inr ((), s')"
  shows "blk_inv dev i A (s', H - {b})"
proof -
  obtain L where L: "fs_free dev s i L" "set L \<inter> H = {}" "set L \<union> H = A" "\<forall>b\<in>H. fs_valid dev i s b"
    using inv by (auto simp: blk_inv_def)
  moreover have "fs_free dev s' i (b # L)"
    using blk.push [OF L(1), of b] L b f by (auto simp: free_push_def)
  ultimately show ?thesis
    using b fs_valid_free [OF L(1) f] by (auto simp: blk_inv_def intro!: exI [of _ "b # L"])
qed

lemma fs_free_write:
  assumes fs: "fs_free dev s i L" and b: "b \<notin> set L"
  shows "fs_free dev (put_block dev (b, d) s) i L"
proof -
  have "free_chain (k_blocks (put_block dev (b, d) s) dev) (s_nfree (super s i)) (s_free (super s i)) L"
    using fs b by (intro free_chain_cong [OF fs_free_facts(7) [OF fs refl]]) (auto simp: put_block_def)
  with fs show ?thesis by (simp add: fs_free_def)
qed

lemma blk_inv_write:
  assumes inv: "blk_inv dev i A (s, H)" and b: "b \<in> H"
  shows "blk_inv dev i A (put_block dev (b, d) s, H)"
proof -
  obtain L where L: "fs_free dev s i L" "set L \<inter> H = {}" "set L \<union> H = A" "\<forall>b\<in>H. fs_valid dev i s b"
    using inv by (auto simp: blk_inv_def)
  moreover have "fs_free dev (put_block dev (b, d) s) i L"
    using L b by (intro fs_free_write) auto
  moreover have "\<forall>b'\<in>H. fs_valid dev i (put_block dev (b, d) s) b'"
    using L(4) by (simp add: fs_valid_def)
  ultimately show ?thesis unfolding blk_inv_def fst_conv snd_conv by blast
qed

interpretation blkclient: safe_system
  "\<lambda>sH. \<exists>L. fs_free dev (fst sH) i L \<and> set L = A \<and> snd sH = {}" "blk_step dev" "blk_inv dev i A"
  for dev i A
proof
  show "blk_inv dev i A sH" if "\<exists>L. fs_free dev (fst sH) i L \<and> set L = A \<and> snd sH = {}" for sH
    using that by (auto simp: blk_inv_def)
  show "blk_inv dev i A t" if "blk_inv dev i A s" "blk_step dev s t" for s t
    using that(2,1)
  proof (induction rule: blk_step.induct)
    case (blk_alloc s b d s' H)
    with blk_inv_alloc [of dev i A s H "Some (b, d)" s'] show ?case by simp
  next
    case (blk_none s s' H)
    with blk_inv_alloc [of dev i A s H None s'] show ?case by simp
  qed (blast intro: blk_inv_free blk_inv_write)+
qed

subsection \<open>Properties\<close>

text \<open>
  C6: the free list of a file system in order is handed out from the top: as many calls
  of \<open>alloc\<close> as there are free blocks return these blocks, each once and in the order
  of the list, across the link blocks, and the next call fails with \<open>ENOSPC\<close>.
\<close>

theorem alloc_hands_out_free_list:
  assumes "fs_free dev s i L"
  shows "\<exists>s'. pops (alloc_pop dev) (length L) s = Some (map Some L, s') \<and>
    (\<exists>s''. alloc dev s' = Inr (None, s'') \<and> u_error s'' = Some ENOSPC)"
  using blk.pops_take [of dev s i L "[]"] alloc_empty [of dev _ i] assms by fastforce

definition demo_super :: filsys where
  "demo_super = \<lparr>s_isize = 2, s_fsize = 10, s_nfree = 5, s_free = 0 # 5 # 7 # 8 # 6 # replicate 45 0,
     s_ninode = 0, s_inode = [], s_flock = 0, s_ilock = 0, s_fmod = False, s_ronly = False, s_time = 0,
     s_rest = replicate 94 0\<rparr>"

definition demo_fs :: kern where
  "demo_fs = kern0\<lparr>k_mount := [\<lparr>m_dev = 0, m_bufp = Some demo_super, m_inodp = None\<rparr>]\<rparr>"

lemma demo_fs_free: "fs_free 0 demo_fs 0 [6, 8, 7, 5]"
proof -
  have "upper 5 (s_free demo_super) = [6, 8, 7, 5]"
    by (simp add: upper_def demo_super_def eval_nat_numeral)
  moreover have "free_chain (k_blocks demo_fs 0) 5 (s_free demo_super) (upper 5 (s_free demo_super))"
    by (rule chain_end) (simp_all add: demo_super_def NICFREE_def)
  ultimately show ?thesis
    by (simp add: fs_free_def demo_fs_def kern0_def super_def bad_range_def zero_block_def)
      (simp add: demo_super_def fs_consts is_long_def list_all_iff)
qed

theorem alloc_hands_out_free_list_witness:
  "\<exists>s' s''. pops (alloc_pop 0) 4 demo_fs = Some ([Some 6, Some 8, Some 7, Some 5], s') \<and>
     alloc 0 s' = Inr (None, s'') \<and> u_error s'' = Some ENOSPC"
  using alloc_hands_out_free_list [OF demo_fs_free] by (simp add: eval_nat_numeral)

text \<open>
  C7: \<open>free\<close> is a push.  Any list of distinct blocks in the range of the file system
  that are not free already can be freed, spilling full lists into link blocks, and
  allocating as many blocks again returns them last one first and leaves the list as it
  was.
\<close>

theorem free_alloc_lifo:
  assumes "fs_free dev s i L" "\<forall>b\<in>set bs. \<not> bad_range (super s i) b \<and> \<not> k_bad s dev b"
    and "distinct (bs @ L)"
  shows "\<exists>s1 s2. pushes (free_push dev) bs s = Some s1 \<and>
    pops (alloc_pop dev) (length bs) s1 = Some (map Some (rev bs), s2) \<and> fs_free dev s2 i L"
  using blk.lifo [OF assms(1) _ assms(3)] assms(2) by (simp add: fs_valid_def)

theorem free_alloc_lifo_witness:
  "\<exists>s1 s2. pushes (free_push 0) [3, 4, 9] demo_fs = Some s1 \<and>
     pops (alloc_pop 0) 3 s1 = Some ([Some 9, Some 4, Some 3], s2) \<and> fs_free 0 s2 0 [6, 8, 7, 5]"
proof -
  have "super demo_fs 0 = demo_super" by (simp add: super_def demo_fs_def)
  then show ?thesis
    using free_alloc_lifo [OF demo_fs_free, of "[3, 4, 9]"]
    by (simp add: bad_range_def numeral_3_eq_3) (simp add: demo_fs_def demo_super_def kern0_def)
qed

text \<open>
  C8: whatever sequence of allocations, releases of held blocks and writes into held
  blocks the clients of a file system make, no block is lost, handed out twice, or both
  free and held, and the free list can always be read off the disk.
\<close>

theorem blocks_conserved:
  assumes "reach (\<lambda>sH. \<exists>L. fs_free dev (fst sH) i L \<and> set L = A \<and> snd sH = {}) (blk_step dev) (s, H)"
  shows "\<exists>L. fs_free dev s i L \<and> distinct L \<and> set L \<inter> H = {} \<and> set L \<union> H = A"
  using blkclient.reach_inv [OF assms] by (auto simp: blk_inv_def fs_free_def)

theorem blocks_conserved_witness:
  "\<exists>s L. fs_free 0 s 0 L \<and> set L \<inter> {6} = {} \<and> set L \<union> {6} = {5, 6, 7, 8 :: int}"
proof -
  let ?start = "\<lambda>sH. \<exists>L. fs_free 0 (fst sH) 0 L \<and> set L = {5, 6, 7, 8} \<and> snd sH = {}"
  obtain s where s: "alloc 0 demo_fs = Inr (Some (6, zero_block), s)"
    using alloc_takes_top [OF demo_fs_free] by blast
  have "reach ?start (blk_step 0) (demo_fs, {})"
    by (rule reach_start) (use demo_fs_free in \<open>auto intro!: exI [of _ "[6, 8, 7, 5]"]\<close>)
  then have "reach ?start (blk_step 0) (s, {6})"
    using blk_alloc [OF s, of "{}"] by (auto intro: reach_step)
  from blocks_conserved [OF this] show ?thesis by blast
qed

text \<open>
  A block number outside the data area is refused: the console message is printed
  and neither the disk nor the free list changes.
\<close>

theorem free_rejects_bad_block:
  assumes "fs_free dev s i L" "b < s_isize (super s i) \<or> s_fsize (super s i) \<le> b"
  shows "\<exists>s'. free dev b s = Inr ((), s') \<and> k_blocks s' = k_blocks s \<and> fs_free dev s' i L \<and>
    k_log s' = k_log s @ [(''bad block'', Some dev)]"
  using free_out_of_range [OF assms(1)] assms(2) by (simp add: bad_range_def)

theorem free_rejects_bad_block_witness:
  "\<exists>s'. free 0 10 demo_fs = Inr ((), s') \<and> fs_free 0 s' 0 [6, 8, 7, 5]"
proof -
  have "super demo_fs 0 = demo_super" by (simp add: super_def demo_fs_def)
  then show ?thesis
    using free_rejects_bad_block [OF demo_fs_free, of 10] by (auto simp: demo_super_def)
qed

end
