(* ===== verification/Inode.thy ===== *)
theory Inode
  imports FreeList
begin

section \<open>Inodes (sys/iget.c, and ialloc, ifree, update of sys/alloc.c)\<close>

text \<open>
  The in-core inode table, the inodes on disk, and the routines that move between the
  two: \<open>iget\<close> and \<open>iput\<close> with the lock bits (\<open>plock\<close>, \<open>prele\<close>),
  \<open>iexpand\<close> and \<open>iupdat\<close> with the packed 3-byte block addresses, truncation through
  the indirect blocks, allocation of a fresh inode, and \<open>update\<close> (sync).  The spin lock
  \<open>ilock_spin\<close> that brackets the accesses to \<open>i_flag\<close> is the subject of the theory
  Spinlock and has no effect in a sequential run.
\<close>

subsection \<open>The inode lock (plock and prele of sys/pipe.c)\<close>

definition plock :: "nat \<Rightarrow> kern \<Rightarrow> unit kres" where
  "plock ip s =
     (if ILOCK \<notin> i_flag (k_inode s ! ip) then Inr ((), upd_inode ip (add_flags {ILOCK}) s)
      else Inl (Sleeping (ChInode ip), upd_inode ip (add_flags {IWANT}) s))"

definition prele :: "nat \<Rightarrow> kern \<Rightarrow> kern" where
  "prele ip s =
     (let s = upd_inode ip (del_flags {ILOCK}) s
      in if IWANT \<in> i_flag (k_inode s ! ip)
         then wakeup (ChInode ip) (upd_inode ip (del_flags {IWANT}) s) else s)"

subsection \<open>Inodes in disk blocks\<close>

text \<open>\<open>itod\<close> and \<open>itoo\<close> of param.h, on 16-bit inode numbers.\<close>

definition itod :: "nat \<Rightarrow> int" where
  "itod ino = int ((ino + 15) mod 65536 div 8)"

definition itoo :: "nat \<Rightarrow> nat" where
  "itoo ino = (ino + 15) mod 8"

text \<open>The offset of the inode in its block; \<open>struct dinode\<close> has 64 bytes.\<close>

definition dinode_at :: "nat \<Rightarrow> nat" where
  "dinode_at ino = 64 * itoo ino"

definition get_addr :: "block \<Rightarrow> nat \<Rightarrow> int" where
  "get_addr d j = 65536 * uint (d ! j) + uint (d ! (j + 1)) + 256 * uint (d ! (j + 2))"

definition iexpand :: "block \<Rightarrow> nat \<Rightarrow> inode \<Rightarrow> inode" where
  "iexpand d k ip = ip\<lparr>
     i_mode := word_of_int (get16 d k),
     i_nlink := sgn16 (get16 d (k + 2)),
     i_uid := sgn16 (get16 d (k + 4)),
     i_gid := sgn16 (get16 d (k + 6)),
     i_size := getl d (k + 8),
     i_addr := map (\<lambda>i. get_addr d (k + 12 + 3 * i)) [0..<NADDR]\<rparr>"

fun put_addrs :: "block \<Rightarrow> nat \<Rightarrow> int list \<Rightarrow> block" where
  "put_addrs d j [] = d"
| "put_addrs d j (a # as) =
     put_addrs (d[j := word_of_int (a div 65536), j + 1 := word_of_int a,
       j + 2 := word_of_int (a div 256)]) (j + 3) as"

definition put_dinode :: "block \<Rightarrow> nat \<Rightarrow> inode \<Rightarrow> int \<Rightarrow> int \<Rightarrow> int \<Rightarrow> block" where
  "put_dinode d k ip ta tm tc =
     (let d = put16 d k (uint (i_mode ip));
          d = put16 d (k + 2) (i_nlink ip);
          d = put16 d (k + 4) (i_uid ip);
          d = put16 d (k + 6) (i_gid ip);
          d = put32 d (k + 8) (i_size ip);
          d = put_addrs d (k + 12) (i_addr ip);
          d = (if IACC \<in> i_flag ip then put32 d (k + 52) ta else d);
          d = (if IUPD \<in> i_flag ip then put32 d (k + 56) tm else d)
      in if ICHG \<in> i_flag ip then put32 d (k + 60) tc else d)"

text \<open>The messages of \<open>iupdat\<close> for addresses that do not fit in three bytes.\<close>

fun big_addrs :: "u16 \<Rightarrow> int list \<Rightarrow> kern \<Rightarrow> kern" where
  "big_addrs mode [] s = s"
| "big_addrs mode (a # as) s =
     big_addrs mode as
       (if a div 16777216 mod 256 \<noteq> 0 \<and> and mode IFMT \<noteq> IFMPC \<and> and mode IFMT \<noteq> IFMPB
        then printf ''iaddress > 2^24'' s else s)"

definition iupdat :: "nat \<Rightarrow> int \<Rightarrow> int \<Rightarrow> kern \<Rightarrow> unit kres" where
  "iupdat ip ta tm s =
     (let ino = k_inode s ! ip in
      if i_flag ino \<inter> {IUPD, IACC, ICHG} \<noteq> {} then
        rbind (getfs (i_dev ino) s) (\<lambda>(i, s).
          if s_ronly (super s i) then Inr ((), s)
          else case bread (i_dev ino) (itod (i_number ino)) s of
            (None, s) \<Rightarrow> Inr ((), s)
          | (Some (b, d), s) \<Rightarrow>
              (let d = put_dinode d (dinode_at (i_number ino)) ino ta tm (k_time s);
                   s = big_addrs (i_mode ino) (i_addr ino) s;
                   s = upd_inode ip (del_flags {IUPD, IACC, ICHG}) s
               in Inr ((), bdwrite (i_dev ino) (b, d) s)))
      else Inr ((), s))"

subsection \<open>Truncation\<close>

text \<open>
  The loop of \<open>tloop\<close> over the entries \<open>i-1, ..., 0\<close> of the indirect block \<open>bn\<close>.
  \<open>inner\<close> is the recursive call, \<^const>\<open>None\<close> when the entries are data blocks
  (\<open>f1\<close> is 0); the buffer is released before a recursive call and read again.  The
  result is false when a read error made the routine return.
\<close>

fun tloop_entries ::
  "(int \<Rightarrow> kern \<Rightarrow> unit kres) option \<Rightarrow> nat \<Rightarrow> int \<Rightarrow> nat \<Rightarrow> block option \<Rightarrow> kern \<Rightarrow> bool kres" where
  "tloop_entries inner dev bn 0 bp s = Inr (True, s)"
| "tloop_entries inner dev bn (Suc i) bp s =
     (case (case bp of None \<Rightarrow> bread dev bn s | Some d \<Rightarrow> (Some (bn, d), s)) of
        (None, s) \<Rightarrow> Inr (False, s)
      | (Some (_, d), s) \<Rightarrow>
          (let nb = getl d (4 * i) in
           if nb = 0 then tloop_entries inner dev bn i (Some d) s
           else case inner of
             Some f \<Rightarrow> rbind (f nb s) (\<lambda>(_, s). tloop_entries inner dev bn i None s)
           | None \<Rightarrow> rbind (free dev nb s) (\<lambda>(_, s). tloop_entries inner dev bn i (Some d) s)))"

definition tloop_body :: "(int \<Rightarrow> kern \<Rightarrow> unit kres) option \<Rightarrow> nat \<Rightarrow> int \<Rightarrow> kern \<Rightarrow> unit kres" where
  "tloop_body inner dev bn s =
     rbind (tloop_entries inner dev bn NINDIR None s) (\<lambda>(ok, s).
       if ok then free dev bn s else Inr ((), s))"

text \<open>
  The three ways \<open>tloop\<close> is called: level 0 is \<open>tloop(dev, bn, 0, 0)\<close>, level 1
  \<open>tloop(dev, bn, 1, 0)\<close> and level 2 \<open>tloop(dev, bn, 1, 1)\<close>.
\<close>

primrec tloop :: "nat \<Rightarrow> nat \<Rightarrow> int \<Rightarrow> kern \<Rightarrow> unit kres" where
  "tloop 0 dev = tloop_body None dev"
| "tloop (Suc n) dev = tloop_body (Some (tloop n dev)) dev"

text \<open>The loop of \<open>itrunc\<close> over the addresses \<open>i-1, ..., 0\<close>.\<close>

fun itrunc_addrs :: "nat \<Rightarrow> nat \<Rightarrow> nat \<Rightarrow> kern \<Rightarrow> unit kres" where
  "itrunc_addrs ip dev 0 s = Inr ((), s)"
| "itrunc_addrs ip dev (Suc i) s =
     (let bn = i_addr (k_inode s ! ip) ! i in
      if bn = 0 then itrunc_addrs ip dev i s
      else
        (let s = upd_inode ip (\<lambda>ino. ino\<lparr>i_addr := (i_addr ino)[i := 0]\<rparr>) s
         in rbind (if i = NADDR - 3 then tloop 0 dev bn s
                   else if i = NADDR - 2 then tloop 1 dev bn s
                   else if i = NADDR - 1 then tloop 2 dev bn s
                   else free dev bn s)
              (\<lambda>(_, s). itrunc_addrs ip dev i s)))"

definition itrunc :: "nat \<Rightarrow> kern \<Rightarrow> unit kres" where
  "itrunc ip s =
     (let ino = k_inode s ! ip; ty = and (i_mode ino) IFMT in
      if ty \<noteq> IFREG \<and> ty \<noteq> IFDIR then Inr ((), s)
      else rbind (itrunc_addrs ip (i_dev ino) NADDR s) (\<lambda>(_, s).
        Inr ((), upd_inode ip (\<lambda>ino. add_flags {ICHG, IUPD} (ino\<lparr>i_size := 0\<rparr>)) s)))"

subsection \<open>Releasing and getting inodes\<close>

definition ifree :: "nat \<Rightarrow> nat \<Rightarrow> kern \<Rightarrow> unit kres" where
  "ifree dev ino s =
     rbind (getfs dev s) (\<lambda>(i, s).
       let fp = super s i in
       if s_ilock fp \<noteq> 0 then Inr ((), s)
       else if s_ninode fp \<ge> int NICINOD then Inr ((), s)
       else Inr ((), set_super i (fp\<lparr>s_ninode := s_ninode fp + 1,
              s_inode := (s_inode fp)[nat (s_ninode fp) := ino], s_fmod := True\<rparr>) s))"

text \<open>The last reference: free the file when it has no links, and write the inode out.\<close>

definition iput_last :: "nat \<Rightarrow> kern \<Rightarrow> unit kres" where
  "iput_last ip s =
     (let s = upd_inode ip (add_flags {ILOCK}) s; ino = k_inode s ! ip in
      rbind
        (if i_nlink ino \<le> 0 then
           rbind (itrunc ip s) (\<lambda>(_, s).
             let s = upd_inode ip (\<lambda>n. add_flags {IUPD, ICHG} (n\<lparr>i_mode := 0\<rparr>)) s
             in ifree (i_dev ino) (i_number ino) s)
         else Inr ((), s))
        (\<lambda>(_, s). rbind (iupdat ip (k_time s) (k_time s) s) (\<lambda>(_, s).
           Inr ((), upd_inode ip (\<lambda>n. n\<lparr>i_flag := {}, i_number := 0\<rparr>) (prele ip s)))))"

definition iput :: "nat \<Rightarrow> kern \<Rightarrow> unit kres" where
  "iput ip s =
     rbind (if i_count (k_inode s ! ip) = 1 then iput_last ip s else Inr ((), s)) (\<lambda>(_, s).
       Inr ((), prele ip (upd_inode ip (\<lambda>n. n\<lparr>i_count := wrap8 (i_count n - 1)\<rparr>) s)))"

text \<open>The searches of \<open>iget\<close> through the inode table and the mount table.\<close>

fun find_first :: "('a \<Rightarrow> bool) \<Rightarrow> 'a list \<Rightarrow> nat option" where
  "find_first P [] = None"
| "find_first P (x # xs) = (if P x then Some 0 else map_option Suc (find_first P xs))"

definition same_inode :: "nat \<Rightarrow> nat \<Rightarrow> inode \<Rightarrow> bool" where
  "same_inode dev ino n \<longleftrightarrow> i_number n = ino \<and> i_dev n = dev"

text \<open>An inode that is not in core is read from the device into the free entry \<open>ip\<close>.\<close>

definition iget_read :: "nat \<Rightarrow> nat \<Rightarrow> nat \<Rightarrow> kern \<Rightarrow> nat option kres" where
  "iget_read dev ino ip s =
     (let s = upd_inode ip (\<lambda>n. n\<lparr>i_flag := {ILOCK}, i_count := wrap8 (i_count n + 1), i_dev := dev,
            i_number := ino, i_lastr := 0\<rparr>) s
      in case bread dev (itod ino) s of
           (None, s) \<Rightarrow> rbind (iput ip s) (\<lambda>(_, s). Inr (None, s))
         | (Some (_, d), s) \<Rightarrow> Inr (Some ip, upd_inode ip (iexpand d (dinode_at ino)) s))"

text \<open>
  \<open>iget\<close>; the fuel bounds the number of mount points crossed.
\<close>

fun iget_fuel :: "nat \<Rightarrow> nat \<Rightarrow> nat \<Rightarrow> kern \<Rightarrow> nat option kres" where
  "iget_fuel 0 dev ino s = Inl (Unfinished, s)"
| "iget_fuel (Suc n) dev ino s =
     (case find_first (same_inode dev ino) (k_inode s) of
        Some ip \<Rightarrow>
          (let fl = i_flag (k_inode s ! ip) in
           if ILOCK \<in> fl then Inl (Sleeping (ChInode ip), upd_inode ip (add_flags {IWANT}) s)
           else if IMOUNT \<in> fl then
             (case find_first (\<lambda>m. m_inodp m = Some ip) (k_mount s) of
                Some j \<Rightarrow> iget_fuel n (m_dev (k_mount s ! j)) ROOTINO s
              | None \<Rightarrow> Inl (Panicked ''no imt'', s))
           else Inr (Some ip, upd_inode ip (\<lambda>m. add_flags {ILOCK} (m\<lparr>i_count := wrap8 (i_count m + 1)\<rparr>)) s))
      | None \<Rightarrow>
          (case find_first (\<lambda>m. i_count m = 0) (k_inode s) of
             None \<Rightarrow> Inr (None, set_error ENFILE (printf ''Inode table overflow'' s))
           | Some ip \<Rightarrow> iget_read dev ino ip s))"

definition iget :: "nat \<Rightarrow> nat \<Rightarrow> kern \<Rightarrow> nat option kres" where
  "iget dev ino s = iget_fuel (Suc (length (k_mount s))) dev ino s"

subsection \<open>Allocating an inode\<close>

text \<open>The free entries of one block of the inode list, read from \<open>d\<close>.\<close>

fun ialloc_block :: "nat \<Rightarrow> nat \<Rightarrow> block \<Rightarrow> nat list \<Rightarrow> nat \<Rightarrow> kern \<Rightarrow> nat \<times> kern" where
  "ialloc_block dev i d [] ino s = (ino, s)"
| "ialloc_block dev i d (j # js) ino s =
     (if get16 d (64 * j) \<noteq> 0 \<or> list_ex (same_inode dev ino) (k_inode s)
      then ialloc_block dev i d js ((ino + 1) mod 65536) s
      else
        (let fp = super s i;
             s = set_super i (fp\<lparr>s_ninode := s_ninode fp + 1,
                   s_inode := (s_inode fp)[nat (s_ninode fp) := ino]\<rparr>) s
         in if s_ninode (super s i) \<ge> int NICINOD then (ino, s)
            else ialloc_block dev i d js ((ino + 1) mod 65536) s))"

text \<open>The search through the blocks of the inode list.\<close>

fun ialloc_scan :: "nat \<Rightarrow> nat \<Rightarrow> int list \<Rightarrow> nat \<Rightarrow> kern \<Rightarrow> kern" where
  "ialloc_scan dev i [] ino s = s"
| "ialloc_scan dev i (adr # adrs) ino s =
     (case bread dev adr s of
        (None, s) \<Rightarrow> ialloc_scan dev i adrs ((ino + INOPB) mod 65536) s
      | (Some (_, d), s) \<Rightarrow>
          (case ialloc_block dev i d [0..<INOPB] ino s of
             (ino, s) \<Rightarrow>
               if s_ninode (super s i) \<ge> int NICINOD then s else ialloc_scan dev i adrs ino s))"

text \<open>The part of \<open>ialloc\<close> from the label \<open>loop\<close>; fuel bounds the jumps back to it.\<close>

fun ialloc_loop :: "nat \<Rightarrow> nat \<Rightarrow> nat \<Rightarrow> kern \<Rightarrow> nat option kres" where
  "ialloc_loop 0 dev i s = Inl (Unfinished, s)"
| "ialloc_loop (Suc n) dev i s =
     (let fp = super s i in
      if s_ninode fp > 0 then
        (let s = set_super i (fp\<lparr>s_ninode := s_ninode fp - 1\<rparr>) s;
             ino = s_inode fp ! nat (s_ninode fp - 1)
         in if ino < ROOTINO then ialloc_loop n dev i s
            else rbind (iget dev ino s) (\<lambda>(r, s).
              case r of
                None \<Rightarrow> Inr (None, s)
              | Some ip \<Rightarrow>
                  if i_mode (k_inode s ! ip) = 0 then
                    (let s = upd_inode ip (\<lambda>m. m\<lparr>i_addr := replicate NADDR 0\<rparr>) s
                     in Inr (Some ip, set_super i ((super s i)\<lparr>s_fmod := True\<rparr>) s))
                  else rbind (iput ip s) (\<lambda>(_, s). ialloc_loop n dev i s)))
      else
        (let s = set_super i (fp\<lparr>s_ilock := s_ilock fp + 1\<rparr>) s;
             s = ialloc_scan dev i [SUPERB + 1..s_isize fp - 1] 1 s;
             s = set_super i ((super s i)\<lparr>s_ilock := 0\<rparr>) s;
             s = wakeup (ChIlock dev) s
         in if s_ninode (super s i) > 0 then ialloc_loop n dev i s
            else Inr (None, set_error ENOSPC (prdev ''Out of inodes'' dev s))))"

definition ialloc :: "nat \<Rightarrow> nat \<Rightarrow> kern \<Rightarrow> nat option kres" where
  "ialloc n dev s =
     rbind (getfs dev s) (\<lambda>(i, s).
       if s_ilock (super s i) \<noteq> 0 then Inl (Sleeping (ChIlock dev), s)
       else ialloc_loop n dev i s)"

subsection \<open>Writing everything out (update)\<close>

fun put16s :: "block \<Rightarrow> nat \<Rightarrow> nat list \<Rightarrow> block" where
  "put16s d k [] = d"
| "put16s d k (v # vs) = put16s (put16 d k (int v)) (k + 2) vs"

fun put_bytes :: "block \<Rightarrow> nat \<Rightarrow> u8 list \<Rightarrow> block" where
  "put_bytes d k [] = d"
| "put_bytes d k (v # vs) = put_bytes (d[k := v]) (k + 1) vs"

text \<open>\<open>struct filsys\<close> as it lies in its block.\<close>

definition put_filsys :: "block \<Rightarrow> filsys \<Rightarrow> block" where
  "put_filsys d fp =
     (let d = put16 d 0 (s_isize fp);
          d = put32 d 2 (s_fsize fp);
          d = put16 d 6 (s_nfree fp);
          d = putls d 8 (s_free fp);
          d = put16 d 208 (s_ninode fp);
          d = put16s d 210 (s_inode fp);
          d = put_bytes d 410 [of_nat (s_flock fp), of_nat (s_ilock fp), of_bool (s_fmod fp),
                of_bool (s_ronly fp)];
          d = put32 d 414 (s_time fp)
      in put_bytes d 418 (s_rest fp))"

text \<open>The loop over the mount table; \<open>getblk\<close> itself does not fail.\<close>

fun update_supers :: "nat list \<Rightarrow> kern \<Rightarrow> kern" where
  "update_supers [] s = s"
| "update_supers (i # is) s =
     (case m_bufp (k_mount s ! i) of
        None \<Rightarrow> update_supers is s
      | Some fp \<Rightarrow>
          if \<not> s_fmod fp \<or> s_ilock fp \<noteq> 0 \<or> s_flock fp \<noteq> 0 \<or> s_ronly fp then update_supers is s
          else
            (let dev = m_dev (k_mount s ! i);
                 (b, d) = getblk dev SUPERB s;
                 fp = fp\<lparr>s_fmod := False, s_time := k_time s\<rparr>;
                 s = set_super i fp s
             in update_supers is (bwrite dev (b, put_filsys d fp) s)))"

fun update_inodes :: "nat list \<Rightarrow> kern \<Rightarrow> unit kres" where
  "update_inodes [] s = Inr ((), s)"
| "update_inodes (ip # ips) s =
     (if ILOCK \<notin> i_flag (k_inode s ! ip) \<and> i_count (k_inode s ! ip) \<noteq> 0 then
        (let s = upd_inode ip (\<lambda>m. add_flags {ILOCK} (m\<lparr>i_count := wrap8 (i_count m + 1)\<rparr>)) s
         in rbind (iupdat ip (k_time s) (k_time s) s) (\<lambda>(_, s).
              rbind (iput ip s) (\<lambda>(_, s). update_inodes ips s)))
      else update_inodes ips s)"

definition update :: "kern \<Rightarrow> unit kres" where
  "update s =
     (if k_updlock s then Inr ((), s)
      else
        (let s = update_supers [0..<length (k_mount s)] (s\<lparr>k_updlock := True\<rparr>)
         in rbind (update_inodes [0..<length (k_inode s)] s) (\<lambda>(_, s).
              Inr ((), s\<lparr>k_updlock := False\<rparr>))))"

end
