(* ===== verification/FileTree.thy ===== *)
theory FileTree
  imports Kernel
begin

section \<open>The tree of blocks of a file\<close>

text \<open>
  What \<open>bmap\<close> walks through, seen as a tree without any program: the 13 addresses of
  the inode are the roots; below address \<open>j\<close> there are \<open>depth j\<close> levels of indirect
  blocks with 128 entries each.  A position is a root \<open>j\<close>, a number of steps \<open>k\<close> and a
  prefix \<open>p\<close> of the block number in base 128; the positions at depth \<open>depth j\<close> are the
  data blocks.  The lemmas say what happens to all positions when one missing block is
  put in, provided no block occurs at two positions.
\<close>

definition depth :: "nat \<Rightarrow> nat" where
  "depth j = (if j < 10 then 0 else j - 9)"

fun node :: "(int \<Rightarrow> block) \<Rightarrow> int list \<Rightarrow> nat \<Rightarrow> nat \<Rightarrow> int \<Rightarrow> int" where
  "node blk addr j 0 p = addr ! j"
| "node blk addr j (Suc k) p =
     (let b = node blk addr j k (p div 128)
      in if b = 0 then 0 else getl (blk b) (4 * nat (p mod 128)))"

declare node.simps(2) [simp del]

lemmas node_Suc = node.simps(2) [unfolded Let_def]

definition vpos :: "nat \<Rightarrow> nat \<Rightarrow> int \<Rightarrow> bool" where
  "vpos j k p \<longleftrightarrow> j < 13 \<and> k \<le> depth j \<and> 0 \<le> p \<and> p < 128 ^ k"

text \<open>The position of the data block number \<open>bn\<close> of a file: root and prefix.\<close>

definition locate :: "int \<Rightarrow> nat \<times> int" where
  "locate bn =
     (if bn < 10 then (nat bn, 0)
      else if bn < 138 then (10, bn - 10)
      else if bn < 16522 then (11, bn - 138)
      else (12, bn - 16522))"

definition max_blocks :: int where
  "max_blocks = 2113674"

definition fblock :: "(int \<Rightarrow> block) \<Rightarrow> int list \<Rightarrow> int \<Rightarrow> int" where
  "fblock blk addr bn = (case locate bn of (j, p) \<Rightarrow> node blk addr j (depth j) p)"

text \<open>What a read of the block sees: a missing block reads as zeros.\<close>

definition fdata :: "(int \<Rightarrow> block) \<Rightarrow> int list \<Rightarrow> int \<Rightarrow> block" where
  "fdata blk addr bn =
     (let b = fblock blk addr bn in if b = 0 then zero_block else blk b)"

definition no_sharing :: "(int \<Rightarrow> block) \<Rightarrow> int list \<Rightarrow> bool" where
  "no_sharing blk addr \<longleftrightarrow>
     (\<forall>j k p j' k' p'. vpos j k p \<longrightarrow> vpos j' k' p' \<longrightarrow> node blk addr j k p \<noteq> 0 \<longrightarrow>
        node blk addr j k p = node blk addr j' k' p' \<longrightarrow> (j, k, p) = (j', k', p'))"

definition tree_blocks :: "(int \<Rightarrow> block) \<Rightarrow> int list \<Rightarrow> int set" where
  "tree_blocks blk addr = {b. b \<noteq> 0 \<and> (\<exists>j k p. vpos j k p \<and> node blk addr j k p = b)}"

lemma tree_blocksI: "\<lbrakk>vpos j k p; node blk addr j k p \<noteq> 0\<rbrakk> \<Longrightarrow> node blk addr j k p \<in> tree_blocks blk addr"
  unfolding tree_blocks_def by blast

lemma no_sharingD:
  "\<lbrakk>no_sharing blk addr; vpos j k p; vpos j' k' p'; node blk addr j k p \<noteq> 0;
    node blk addr j k p = node blk addr j' k' p'\<rbrakk> \<Longrightarrow> (j, k, p) = (j', k', p')"
  unfolding no_sharing_def by blast

lemma vpos_parent:
  assumes "vpos j (Suc k) p"
  shows "vpos j k (p div 128)"
proof -
  have "p div 128 < 128 ^ k"
    using assms div_mult_mod_eq [of p 128] pos_mod_sign [of 128 p] by (simp add: vpos_def) linarith
  with assms show ?thesis by (simp add: vpos_def pos_imp_zdiv_nonneg_iff)
qed

lemma getl_zero_block: "k + 3 < BSIZE \<Longrightarrow> getl zero_block k = 0"
  by (simp add: getl_def get32_def get16_def zero_block_def sgn32_def)

lemma entry_offset: "4 * nat (p mod 128) + 3 < BSIZE"
  using pos_mod_bound [of 128 p] by (simp add: BSIZE_def)

text \<open>Putting the fresh cleared block \<open>b\<close> in place of a missing root.\<close>

lemma node_new_root:
  assumes j: "j < 13" "length addr = 13" "addr ! j = 0"
    and b: "b \<noteq> 0" "b \<notin> tree_blocks blk addr"
    and v: "vpos j' k' p'"
  shows "node (blk(b := zero_block)) (addr[j := b]) j' k' p' =
    (if (j', k') = (j, 0) then b else node blk addr j' k' p')"
  using v
proof (induction k' arbitrary: p')
  case 0
  then show ?case using j by (simp add: vpos_def nth_list_update)
next
  case (Suc m)
  note par = vpos_parent [OF Suc.prems]
  show ?case
  proof (cases "(j', m) = (j, 0)")
    case True
    with Suc.IH [OF par] b(1) j(3) show ?thesis by (simp add: node_Suc getl_zero_block entry_offset)
  next
    case False
    have "node blk addr j' m (p' div 128) \<noteq> b"
      using b par by (auto simp: tree_blocks_def)
    with False Suc.IH [OF par] show ?thesis by (auto simp: node_Suc)
  qed
qed

text \<open>Putting it in place of a missing entry \<open>i\<close> of the indirect block at \<open>(j, k, p)\<close>.\<close>

lemma node_new_entry:
  assumes v0: "vpos j (Suc k) q" and nd: "node blk addr j k (q div 128) = nd" "nd \<noteq> 0"
    and none: "node blk addr j (Suc k) q = 0" and ns: "no_sharing blk addr"
    and b: "b \<noteq> 0" "b \<notin> tree_blocks blk addr" "is_long b" and len: "length (blk nd) = BSIZE"
    and v: "vpos j' k' p'"
  shows "node (blk(b := zero_block, nd := put32 (blk nd) (4 * nat (q mod 128)) b)) addr j' k' p' =
    (if (j', k', p') = (j, Suc k, q) then b else node blk addr j' k' p')"
proof -
  define blk' where "blk' = blk(b := zero_block, nd := put32 (blk nd) (4 * nat (q mod 128)) b)"
  note par0 = vpos_parent [OF v0]
  have ndb: "nd \<noteq> b" using nd b par0 by (auto simp: tree_blocks_def)
  have blk': "blk' b = zero_block" "blk' nd = put32 (blk nd) (4 * nat (q mod 128)) b"
    "\<And>x. \<lbrakk>x \<noteq> b; x \<noteq> nd\<rbrakk> \<Longrightarrow> blk' x = blk x"
    using ndb by (simp_all add: blk'_def)
  have "node blk' addr j' k' p' = (if (j', k', p') = (j, Suc k, q) then b else node blk addr j' k' p')"
    using v
  proof (induction k' arbitrary: p')
    case 0
    then show ?case by simp
  next
    case (Suc m)
    note par = vpos_parent [OF Suc.prems]
    let ?N = "node blk addr j' m (p' div 128)"
    consider "(j', m, p' div 128) = (j, Suc k, q)" | "(j', m, p' div 128) \<noteq> (j, Suc k, q)" "?N = 0"
      | "(j', m, p' div 128) \<noteq> (j, Suc k, q)" "?N \<noteq> 0" "?N \<noteq> nd"
      | "(j', m, p' div 128) \<noteq> (j, Suc k, q)" "?N = nd" by blast
    then show ?case
    proof cases
      case 1
      then have "node blk' addr j' m (p' div 128) = b" "?N = 0" "(j', Suc m, p') \<noteq> (j, Suc k, q)"
        using Suc.IH [OF par] none by auto
      then show ?thesis using b(1) ndb by (auto simp: node_Suc blk' getl_zero_block entry_offset)
    next
      case 2
      then have "(j', Suc m, p') \<noteq> (j, Suc k, q)" using nd by auto
      with 2 Suc.IH [OF par] show ?thesis by (auto simp: node_Suc blk')
    next
      case 3
      then have "?N \<noteq> b" using b par by (auto simp: tree_blocks_def)
      moreover have "(j', Suc m, p') \<noteq> (j, Suc k, q)" using 3 nd by auto
      ultimately show ?thesis using 3 Suc.IH [OF par] by (auto simp: node_Suc blk')
    next
      case 4
      then have same: "j' = j" "m = k" "p' div 128 = q div 128"
        using ns par par0 nd unfolding no_sharing_def by (metis prod.inject)+
      have "getl (put32 (blk nd) (4 * nat (q mod 128)) b) (4 * nat (p' mod 128)) =
        (if p' = q then b else getl (blk nd) (4 * nat (p' mod 128)))"
      proof (cases "p' mod 128 = q mod 128")
        case True
        then have "p' = q" using same(3) by (metis div_mult_mod_eq)
        then show ?thesis using len entry_offset [of q] b(3) by (simp add: getl_put32_same)
      next
        case False
        then have "4 * nat (p' mod 128) + 3 < 4 * nat (q mod 128) \<or> 4 * nat (q mod 128) + 3 < 4 * nat (p' mod 128)"
          using pos_mod_sign [of 128 p'] pos_mod_sign [of 128 q] by linarith
        then show ?thesis using False by (auto simp: getl_put32_other)
      qed
      with 4 same nd Suc.IH [OF par] show ?thesis by (auto simp: node_Suc blk')
    qed
  qed
  then show ?thesis by (simp only: blk'_def)
qed

subsection \<open>The tree after a block has been added\<close>

text \<open>The new positions agree with the old ones but for \<open>b\<close> at \<open>(j0, k0, p0)\<close>.\<close>

definition node_added ::
  "(int \<Rightarrow> block) \<Rightarrow> int list \<Rightarrow> (int \<Rightarrow> block) \<Rightarrow> int list \<Rightarrow> nat \<Rightarrow> nat \<Rightarrow> int \<Rightarrow> int \<Rightarrow> bool" where
  "node_added blk addr blk' addr' j0 k0 p0 b \<longleftrightarrow>
     vpos j0 k0 p0 \<and> node blk addr j0 k0 p0 = 0 \<and> b \<noteq> 0 \<and> b \<notin> tree_blocks blk addr \<and>
     (\<forall>j k p. vpos j k p \<longrightarrow>
        node blk' addr' j k p = (if (j, k, p) = (j0, k0, p0) then b else node blk addr j k p))"

lemma node_added_at: "node_added blk addr blk' addr' j k p b \<Longrightarrow> node blk' addr' j k p = b"
  by (simp add: node_added_def)

lemma node_added_old:
  "\<lbrakk>node_added blk addr blk' addr' j0 k0 p0 b; vpos j k p; node blk addr j k p \<noteq> 0\<rbrakk> \<Longrightarrow>
     node blk' addr' j k p = node blk addr j k p"
  by (auto simp: node_added_def)

lemma node_added_no_sharing:
  assumes "node_added blk addr blk' addr' j0 k0 p0 b" "no_sharing blk addr"
  shows "no_sharing blk' addr'"
  unfolding no_sharing_def
proof (intro allI impI)
  fix j k p j' k' p'
  assume v: "vpos j k p" "vpos j' k' p'"
    and n: "node blk' addr' j k p \<noteq> 0" "node blk' addr' j k p = node blk' addr' j' k' p'"
  have old: "node blk addr x y z \<noteq> b" if "vpos x y z" for x y z
    using assms(1) that unfolding node_added_def tree_blocks_def by blast
  have N: "node blk' addr' x y z = (if (x, y, z) = (j0, k0, p0) then b else node blk addr x y z)"
    if "vpos x y z" for x y z
    using assms(1) that by (simp add: node_added_def)
  show "(j, k, p) = (j', k', p')"
  proof (cases "(j, k, p) = (j0, k0, p0) \<or> (j', k', p') = (j0, k0, p0)")
    case True
    then show ?thesis
      using n(2) N [OF v(1)] N [OF v(2)] old [OF v(1)] old [OF v(2)] by (metis (full_types))
  next
    case False
    then show ?thesis
      using n N [OF v(1)] N [OF v(2)] no_sharingD [OF assms(2) v] by auto
  qed
qed

lemma node_added_blocks:
  assumes "node_added blk addr blk' addr' j0 k0 p0 b"
  shows "tree_blocks blk' addr' = insert b (tree_blocks blk addr)"
proof -
  have N: "node blk' addr' x y z = (if (x, y, z) = (j0, k0, p0) then b else node blk addr x y z)"
    if "vpos x y z" for x y z
    using assms that by (simp add: node_added_def)
  show ?thesis
  proof (intro set_eqI iffI)
    fix x assume "x \<in> tree_blocks blk' addr'"
    then obtain j k p where "vpos j k p" "node blk' addr' j k p = x" "x \<noteq> 0"
      by (auto simp: tree_blocks_def)
    then show "x \<in> insert b (tree_blocks blk addr)"
      using N [of j k p] tree_blocksI [of j k p blk addr] by (auto split: if_splits)
  next
    fix x assume x: "x \<in> insert b (tree_blocks blk addr)"
    show "x \<in> tree_blocks blk' addr'"
    proof (cases "x = b")
      case True
      then show ?thesis
        using assms tree_blocksI [of j0 k0 p0 blk' addr'] node_added_at [OF assms]
        by (simp add: node_added_def)
    next
      case False
      with x obtain j k p where "vpos j k p" "node blk addr j k p = x" "x \<noteq> 0"
        by (auto simp: tree_blocks_def)
      then show ?thesis
        using node_added_old [OF assms, of j k p] by (auto simp: tree_blocks_def)
    qed
  qed
qed

lemma locate_vpos: "\<lbrakk>0 \<le> bn; bn < max_blocks; locate bn = (j, p)\<rbrakk> \<Longrightarrow> vpos j (depth j) p"
  by (auto simp: locate_def vpos_def depth_def max_blocks_def split: if_splits)

lemma locate_inject: "\<lbrakk>0 \<le> bn; 0 \<le> bn'; locate bn = locate bn'\<rbrakk> \<Longrightarrow> bn = bn'"
  by (auto simp: locate_def split: if_splits)

text \<open>The contents of the file stay the same when the data blocks do.\<close>

lemma node_added_fdata:
  assumes ad: "node_added blk addr blk' addr' j0 k0 p0 b" and z: "blk' b = zero_block"
    and same: "\<And>j p. \<lbrakk>vpos j (depth j) p; node blk addr j (depth j) p \<noteq> 0\<rbrakk> \<Longrightarrow>
      blk' (node blk addr j (depth j) p) = blk (node blk addr j (depth j) p)"
    and bn: "0 \<le> bn" "bn < max_blocks"
  shows "fdata blk' addr' bn = fdata blk addr bn"
proof -
  obtain j p where l: "locate bn = (j, p)" by (cases "locate bn")
  note v = locate_vpos [OF bn l]
  show ?thesis
  proof (cases "node blk addr j (depth j) p = 0")
    case True
    then show ?thesis
      using ad z v l by (auto simp: fdata_def fblock_def node_added_def Let_def)
  next
    case False
    with node_added_old [OF ad v False] same [OF v False] l show ?thesis
      by (simp add: fdata_def fblock_def)
  qed
qed

lemma root_added:
  assumes "j < 13" "length addr = 13" "addr ! j = 0" "b \<noteq> 0" "b \<notin> tree_blocks blk addr"
  shows "node_added blk addr (blk(b := zero_block)) (addr[j := b]) j 0 0 b"
proof -
  have "k = 0 \<Longrightarrow> vpos j' k p \<Longrightarrow> p = 0" for j' k p by (auto simp: vpos_def)
  with assms node_new_root [OF assms] show ?thesis
    by (auto simp: node_added_def vpos_def)
qed

lemma entry_added:
  assumes "vpos j (Suc k) q" "node blk addr j k (q div 128) = nd" "nd \<noteq> 0"
    and "node blk addr j (Suc k) q = 0" "no_sharing blk addr"
    and "b \<noteq> 0" "b \<notin> tree_blocks blk addr" "is_long b" "length (blk nd) = BSIZE"
  shows "node_added blk addr
    (blk(b := zero_block, nd := put32 (blk nd) (4 * nat (q mod 128)) b)) addr j (Suc k) q b"
  using assms node_new_entry [OF assms] unfolding node_added_def by blast

text \<open>A block at a position is not at a leaf when it has an entry below it.\<close>

lemma inner_not_leaf:
  assumes "no_sharing blk addr" "vpos j (Suc k) q" "node blk addr j k (q div 128) = nd" "nd \<noteq> 0"
    and "vpos j' (depth j') p'"
  shows "node blk addr j' (depth j') p' \<noteq> nd"
proof
  assume "node blk addr j' (depth j') p' = nd"
  then have "(j', depth j', p') = (j, k, q div 128)"
    using assms(3,4) no_sharingD [OF assms(1,5) vpos_parent [OF assms(2)]] by metis
  with assms(2) show False by (auto simp: vpos_def)
qed

text \<open>Writing a data block changes no position.\<close>

lemma node_write_leaf:
  assumes ns: "no_sharing blk addr" and l: "vpos j (depth j) p" "node blk addr j (depth j) p = x" "x \<noteq> 0"
    and v: "vpos j' k' p'"
  shows "node (blk(x := d)) addr j' k' p' = node blk addr j' k' p'"
  using v
proof (induction k' arbitrary: p')
  case (Suc m)
  note IH = Suc.IH [OF vpos_parent [OF Suc.prems]]
  show ?case
  proof (cases "node blk addr j' m (p' div 128) = 0")
    case False
    then have "node blk addr j' m (p' div 128) \<noteq> x"
      using inner_not_leaf [OF ns Suc.prems refl False l(1)] l(2) by blast
    with IH show ?thesis by (simp add: node_Suc)
  qed (unfold node_Suc IH, simp)
qed simp

end

