(* ===== verification/Bmap.thy ===== *)
theory Bmap
  imports Inode FileTree
begin

section \<open>Logical to physical blocks (bmap of sys/subr.c)\<close>

text \<open>
  \<open>bmap\<close> walks from the inode through up to three levels of indirect blocks and
  allocates missing blocks when the file is being written.  The result -1 (no block) and
  the result 0 (with \<open>u_error\<close> set) are the ones of the code.
\<close>

datatype rw = B_READ | B_WRITE

text \<open>
  The loop that finds the level: the number \<open>j\<close> of the address in the inode
  (\<open>NADDR-j\<close>), the shift, and the block number relative to that subtree.
\<close>

fun bmap_level :: "nat \<Rightarrow> nat \<Rightarrow> int \<Rightarrow> int \<Rightarrow> nat \<times> nat \<times> int" where
  "bmap_level 0 sh nb bn = (0, sh, bn)"
| "bmap_level (Suc j) sh nb bn =
     (let sh = sh + 7; nb = nb * 128
      in if bn < nb then (Suc j, sh, bn) else bmap_level j sh nb (bn - nb))"

text \<open>
  A null address: with \<open>B_READ\<close> or a full device the caller returns -1
  (\<^const>\<open>None\<close>), otherwise the block is allocated and its cleared buffer written.
\<close>

definition bmap_new :: "nat \<Rightarrow> rw \<Rightarrow> kern \<Rightarrow> int option kres" where
  "bmap_new dev rwflg s =
     (case rwflg of
        B_READ \<Rightarrow> Inr (None, s)
      | B_WRITE \<Rightarrow> rbind (alloc dev s) (\<lambda>(r, s).
          case r of None \<Rightarrow> Inr (None, s) | Some bp \<Rightarrow> Inr (Some (fst bp), bdwrite dev bp s)))"

text \<open>The address at position \<open>i\<close> of the inode, allocated when it is missing.\<close>

definition bmap_addr :: "nat \<Rightarrow> nat \<Rightarrow> rw \<Rightarrow> kern \<Rightarrow> int option kres" where
  "bmap_addr ip i rwflg s =
     (let nb = i_addr (k_inode s ! ip) ! i in
      if nb \<noteq> 0 then Inr (Some nb, s)
      else rbind (bmap_new (i_dev (k_inode s ! ip)) rwflg s) (\<lambda>(r, s).
        case r of
          None \<Rightarrow> Inr (None, s)
        | Some nb \<Rightarrow> Inr (Some nb, upd_inode ip (\<lambda>n. add_flags {IUPD, ICHG} (n\<lparr>i_addr := (i_addr n)[i := nb]\<rparr>)) s)))"

text \<open>
  The loop through the indirect blocks: \<open>k\<close> levels are left, \<open>nb\<close> is the current
  indirect block.  At the end the read-ahead block is taken from the last one read.
\<close>

fun bmap_indirect :: "nat \<Rightarrow> nat \<Rightarrow> int \<Rightarrow> int \<Rightarrow> rw \<Rightarrow> kern \<Rightarrow> int kres" where
  "bmap_indirect 0 dev bn nb rwflg s = Inr (nb, s)"
| "bmap_indirect (Suc k) dev bn nb rwflg s =
     (case bread dev nb s of
        (None, s) \<Rightarrow> Inr (0, s)
      | (Some (b, d), s) \<Rightarrow>
          (let i = nat (bn div 2 ^ (7 * k) mod 128);
               nb' = getl d (4 * i) in
           rbind
             (if nb' \<noteq> 0 then Inr (Some (nb', d), s)
              else rbind (bmap_new dev rwflg s) (\<lambda>(r, s).
                case r of
                  None \<Rightarrow> Inr (None, s)
                | Some nb' \<Rightarrow>
                    (let d = put32 d (4 * i) nb' in Inr (Some (nb', d), bdwrite dev (b, d) s))))
             (\<lambda>(r, s).
               case r of
                 None \<Rightarrow> Inr (-1, s)
               | Some (nb', d) \<Rightarrow>
                   bmap_indirect k dev bn nb' rwflg
                     (if k = 0 \<and> i < NINDIR - 1 then s\<lparr>k_rablock := getl d (4 * (i + 1))\<rparr> else s))))"

definition bmap :: "nat \<Rightarrow> int \<Rightarrow> rw \<Rightarrow> kern \<Rightarrow> int kres" where
  "bmap ip bn rwflg s =
     (if bn < 0 then Inr (0, set_error EFBIG s)
      else
        (let dev = i_dev (k_inode s ! ip); s = s\<lparr>k_rablock := 0\<rparr> in
         if bn < int NADDR - 3 then
           rbind (bmap_addr ip (nat bn) rwflg s) (\<lambda>(r, s).
             case r of
               None \<Rightarrow> Inr (-1, s)
             | Some nb \<Rightarrow>
                 Inr (nb, if bn < int NADDR - 4
                          then s\<lparr>k_rablock := i_addr (k_inode s ! ip) ! (nat bn + 1)\<rparr> else s))
         else
           (case bmap_level 3 0 1 (bn - (int NADDR - 3)) of
              (j, sh, bn) \<Rightarrow>
                if j = 0 then Inr (0, set_error EFBIG s)
                else rbind (bmap_addr ip (NADDR - j) rwflg s) (\<lambda>(r, s).
                  case r of
                    None \<Rightarrow> Inr (-1, s)
                  | Some nb \<Rightarrow> bmap_indirect (4 - j) dev bn nb rwflg s))))"

subsection \<open>The file in a kernel state\<close>

abbreviation addr_of :: "nat \<Rightarrow> kern \<Rightarrow> int list" where
  "addr_of ip s \<equiv> i_addr (k_inode s ! ip)"

definition node_of :: "nat \<Rightarrow> nat \<Rightarrow> kern \<Rightarrow> nat \<Rightarrow> nat \<Rightarrow> int \<Rightarrow> int" where
  "node_of dev ip s j k p = node (k_blocks s dev) (addr_of ip s) j k p"

definition tree_of :: "nat \<Rightarrow> nat \<Rightarrow> kern \<Rightarrow> int set" where
  "tree_of dev ip s = tree_blocks (k_blocks s dev) (addr_of ip s)"

definition data_of :: "nat \<Rightarrow> nat \<Rightarrow> kern \<Rightarrow> int \<Rightarrow> block" where
  "data_of dev ip s bn = fdata (k_blocks s dev) (addr_of ip s) bn"

lemmas of_defs = node_of_def tree_of_def data_of_def

text \<open>
  Inode \<open>ip\<close> is a file on device \<open>dev\<close> whose blocks are in range, occur once, and are
  not free; \<open>L\<close> is the free list.
\<close>

definition file_inv :: "nat \<Rightarrow> nat \<Rightarrow> nat \<Rightarrow> kern \<Rightarrow> int list \<Rightarrow> bool" where
  "file_inv dev i ip s L \<longleftrightarrow> fs_free dev s i L \<and> ip < length (k_inode s) \<and>
     i_dev (k_inode s ! ip) = dev \<and> length (addr_of ip s) = NADDR \<and>
     (\<forall>b. length (k_blocks s dev b) = BSIZE) \<and>
     no_sharing (k_blocks s dev) (addr_of ip s) \<and>
     (\<forall>b\<in>tree_of dev ip s. fs_valid dev i s b \<and> b \<notin> set L)"

text \<open>What \<open>bmap\<close> does not touch.\<close>

definition bmap_erase :: "nat \<Rightarrow> kern \<Rightarrow> kern" where
  "bmap_erase ip s = s\<lparr>k_blocks := (\<lambda>_ _. []), k_mount := [], k_log := [], k_wakeups := [], k_rablock := 0,
     k_inode := (k_inode s)[ip := (k_inode s ! ip)\<lparr>i_addr := [], i_flag := {}\<rparr>]\<rparr>"

text \<open>
  The file may have got blocks from the free list, but its contents are the same, the
  blocks it had are where they were, and nothing else has changed.
\<close>

definition grown :: "nat \<Rightarrow> nat \<Rightarrow> nat \<Rightarrow> kern \<Rightarrow> int list \<Rightarrow> kern \<Rightarrow> int list \<Rightarrow> bool" where
  "grown dev i ip s L t M \<longleftrightarrow> file_inv dev i ip t M \<and> (\<exists>N. L = N @ M) \<and>
     tree_of dev ip t \<union> set M = tree_of dev ip s \<union> set L \<and>
     bmap_erase ip s = bmap_erase ip t \<and>
     (\<forall>bn. 0 \<le> bn \<longrightarrow> bn < max_blocks \<longrightarrow> data_of dev ip t bn = data_of dev ip s bn) \<and>
     (\<forall>j k p. vpos j k p \<longrightarrow> node_of dev ip s j k p \<noteq> 0 \<longrightarrow>
        node_of dev ip t j k p = node_of dev ip s j k p) \<and>
     (\<forall>x. fs_valid dev i t x = fs_valid dev i s x) \<and>
     (\<forall>dev' b. dev' \<noteq> dev \<or> b \<notin> tree_of dev ip s \<union> set L \<longrightarrow>
        k_blocks t dev' b = k_blocks s dev' b)"

lemma grown_refl: "file_inv dev i ip s L \<Longrightarrow> grown dev i ip s L s L"
  by (simp add: grown_def)

lemma grown_trans:
  assumes "grown dev i ip s L t M" "grown dev i ip t M r N"
  shows "grown dev i ip s L r N"
proof -
  have "vpos j k p \<Longrightarrow> node_of dev ip s j k p \<noteq> 0 \<Longrightarrow>
      node_of dev ip r j k p = node_of dev ip s j k p" for j k p
    using assms by (simp add: grown_def)
  moreover have "k_blocks r dev' b = k_blocks s dev' b"
    if "dev' \<noteq> dev \<or> b \<notin> tree_of dev ip s \<union> set L" for dev' b
    using assms that unfolding grown_def by metis
  ultimately show ?thesis
    using assms unfolding grown_def by (intro conjI) auto
qed

lemma grown_rablock: "grown dev i ip s L t M \<Longrightarrow> grown dev i ip s L (t\<lparr>k_rablock := r\<rparr>) M"
  by (simp add: grown_def file_inv_def fs_free_def fs_valid_def of_defs super_def bmap_erase_def)

lemma fs_free_rablock [simp]: "fs_free dev (s\<lparr>k_rablock := r\<rparr>) i L = fs_free dev s i L"
  by (simp add: fs_free_def super_def)

lemma file_inv_rablock [simp]: "file_inv dev i ip (s\<lparr>k_rablock := r\<rparr>) L = file_inv dev i ip s L"
  by (simp add: file_inv_def fs_valid_def of_defs super_def)

lemma grownI:
  assumes inv: "file_inv dev i ip s (b # L)"
    and ad: "node_added (k_blocks s dev) (addr_of ip s) (k_blocks t dev) (addr_of ip t) j k p b"
    and fs: "fs_free dev t i L" and fr: "bmap_erase ip s = bmap_erase ip t"
    and val: "\<And>x. fs_valid dev i t x = fs_valid dev i s x"
    and len: "length (addr_of ip t) = NADDR" "\<forall>x. length (k_blocks t dev x) = BSIZE"
    and ino: "length (k_inode t) = length (k_inode s)" "i_dev (k_inode t ! ip) = dev"
    and z: "k_blocks t dev b = zero_block"
    and leaf: "\<And>j p. \<lbrakk>vpos j (depth j) p; node_of dev ip s j (depth j) p \<noteq> 0\<rbrakk> \<Longrightarrow>
      k_blocks t dev (node_of dev ip s j (depth j) p) = k_blocks s dev (node_of dev ip s j (depth j) p)"
    and oth: "\<And>dev' x. dev' \<noteq> dev \<or> x \<notin> insert b (tree_of dev ip s) \<Longrightarrow>
      k_blocks t dev' x = k_blocks s dev' x"
  shows "grown dev i ip s (b # L) t L"
proof -
  have tree: "tree_of dev ip t = insert b (tree_of dev ip s)"
    unfolding tree_of_def by (rule node_added_blocks [OF ad])
  have b: "b \<notin> set L" "fs_valid dev i s b"
    using inv by (auto simp: file_inv_def fs_free_def fs_valid_def)
  then have inv': "file_inv dev i ip t L"
    using inv fs len ino val node_added_no_sharing [OF ad] by (auto simp: file_inv_def tree)
  have "data_of dev ip t bn = data_of dev ip s bn" if "0 \<le> bn" "bn < max_blocks" for bn
    unfolding data_of_def using leaf that
    by (intro node_added_fdata [OF ad z]) (simp_all add: node_of_def)
  moreover have "node_of dev ip t j k p = node_of dev ip s j k p"
    if "vpos j k p" "node_of dev ip s j k p \<noteq> 0" for j k p
    using that node_added_old [OF ad] by (simp add: node_of_def)
  ultimately show ?thesis
    using inv' fr val oth unfolding grown_def by (auto simp: tree)
qed

lemma fs_valid_nonzero: "\<lbrakk>fs_free dev s i L; fs_valid dev i s b\<rbrakk> \<Longrightarrow> b \<noteq> 0 \<and> 0 < b \<and> is_long b"
  by (auto simp: fs_free_def fs_valid_def bad_range_def is_long_def)

text \<open>Taking a block for the file.\<close>

lemma bmap_new_write:
  assumes "fs_free dev s i (b # L)"
  shows "\<exists>t. bmap_new dev B_WRITE s = Inr (Some b, t) \<and> fs_free dev t i L \<and> fs_frame s t \<and>
    u_error t = u_error s \<and> (\<forall>x. fs_valid dev i t x = fs_valid dev i s x) \<and>
    k_blocks t = (k_blocks s)(dev := (k_blocks s dev)(b := zero_block))"
proof -
  obtain s1 where a: "alloc dev s = Inr (Some (b, zero_block), s1)" "u_error s1 = u_error s"
      "k_blocks s1 = k_blocks s" "fs_free dev s1 i L"
    using alloc_takes_top [OF assms] by blast
  have "b \<notin> set L" using assms by (simp add: fs_free_def)
  then have "fs_free dev (bdwrite dev (b, zero_block) s1) i L"
    using a(4) by (simp add: bdwrite_def fs_free_write)
  moreover have "fs_valid dev i (bdwrite dev (b, zero_block) s1) x = fs_valid dev i s x" for x
    using fs_valid_alloc [OF assms a(1)] by (simp add: fs_valid_def)
  ultimately show ?thesis
    using a alloc_frame [OF a(1)] by (simp add: bmap_new_def bdwrite_def) (simp add: put_block_def)
qed

lemma bmap_erase_frame:
  assumes "fs_frame s t" "u_error t = u_error s"
  shows "bmap_erase ip s = bmap_erase ip t"
proof -
  have "bmap_erase ip s = (fs_erase s)\<lparr>u_error := u_error s, k_rablock := 0,
      k_inode := (k_inode s)[ip := (k_inode s ! ip)\<lparr>i_addr := [], i_flag := {}\<rparr>]\<rparr>" for s
    by (simp add: bmap_erase_def fs_erase_def)
  with assms fs_frameD(5) [OF assms(1)] show ?thesis by (simp add: fs_frame_def)
qed

lemma bmap_erase_addr:
  "bmap_erase ip (upd_inode ip (\<lambda>n. add_flags F (n\<lparr>i_addr := A n\<rparr>)) s) = bmap_erase ip s"
  by (cases "ip < length (k_inode s)")
    (simp_all add: bmap_erase_def upd_inode_def add_flags_def list_update_beyond)

lemma bmap_erase_put_block [simp]: "bmap_erase ip (put_block dev bp s) = bmap_erase ip s"
  by (simp add: bmap_erase_def put_block_def)

lemma upd_inode_frames [simp]:
  "k_blocks (upd_inode ip f s) = k_blocks s" "k_bad (upd_inode ip f s) = k_bad s"
  "super (upd_inode ip f s) i = super s i" "u_error (upd_inode ip f s) = u_error s"
  "k_mount (upd_inode ip f s) = k_mount s" "k_junk (upd_inode ip f s) = k_junk s"
  "length (k_inode (upd_inode ip f s)) = length (k_inode s)"
  by (simp_all add: upd_inode_def super_def)

lemma upd_inode_at [simp]: "ip < length (k_inode s) \<Longrightarrow> k_inode (upd_inode ip f s) ! ip = f (k_inode s ! ip)"
  by (simp add: upd_inode_def)

lemma fs_free_upd_inode [simp]: "fs_free dev (upd_inode ip f s) i L = fs_free dev s i L"
  by (simp add: fs_free_def)

lemma add_flags_sel [simp]:
  "i_addr (add_flags F n) = i_addr n" "i_dev (add_flags F n) = i_dev n"
  "i_size (add_flags F n) = i_size n" "i_mode (add_flags F n) = i_mode n"
  "i_number (add_flags F n) = i_number n" "i_count (add_flags F n) = i_count n"
  by (simp_all add: add_flags_def)

lemma bmap_addr_write:
  assumes inv: "file_inv dev i ip s L" and L: "L \<noteq> []" and j: "j < 13"
  shows "\<exists>nb t M. bmap_addr ip j B_WRITE s = Inr (Some nb, t) \<and> grown dev i ip s L t M \<and>
    nb \<noteq> 0 \<and> node_of dev ip t j 0 0 = nb \<and> length L \<le> length M + 1"
proof (cases "addr_of ip s ! j = 0")
  case False
  with grown_refl [OF inv] show ?thesis
    by (auto simp: bmap_addr_def node_of_def)
next
  case True
  obtain b M where Lb: "L = b # M" using L by (cases L) auto
  have fs: "fs_free dev s i (b # M)" and ip: "ip < length (k_inode s)" "i_dev (k_inode s ! ip) = dev"
    and len: "length (addr_of ip s) = 13"
    using inv by (auto simp: file_inv_def Lb NADDR_def)
  obtain t where t: "bmap_new dev B_WRITE s = Inr (Some b, t)" "fs_free dev t i M" "fs_frame s t"
      "u_error t = u_error s" "\<forall>x. fs_valid dev i t x = fs_valid dev i s x"
      "k_blocks t = (k_blocks s)(dev := (k_blocks s dev)(b := zero_block))"
    using bmap_new_write [OF fs] by blast
  define r where "r = upd_inode ip (\<lambda>n. add_flags {IUPD, ICHG} (n\<lparr>i_addr := (i_addr n)[j := b]\<rparr>)) t"
  have ino: "k_inode t = k_inode s" using fs_frameD(5) [OF t(3)] .
  have b: "fs_valid dev i s b" "b \<noteq> 0"
    using fs fs_valid_nonzero [OF fs] by (auto simp: fs_free_def fs_valid_def)
  have bt: "b \<notin> tree_blocks (k_blocks s dev) (addr_of ip s)"
    using inv by (auto simp: file_inv_def Lb tree_of_def)
  have blk: "k_blocks r dev = (k_blocks s dev)(b := zero_block)" and addr: "addr_of ip r = (addr_of ip s)[j := b]"
    using t(6) ip by (simp_all add: r_def ino)
  have ad: "node_added (k_blocks s dev) (addr_of ip s) (k_blocks r dev) (addr_of ip r) j 0 0 b"
    unfolding blk addr using j len True b(2) bt by (rule root_added)
  have er: "bmap_erase ip s = bmap_erase ip r"
    unfolding r_def bmap_erase_addr by (rule bmap_erase_frame [OF t(3,4)])
  have "grown dev i ip s (b # M) r M"
  proof (rule grownI [OF _ ad])
    show "file_inv dev i ip s (b # M)" using inv by (simp add: Lb)
    show "fs_free dev r i M" using t(2) by (simp add: r_def)
    show "bmap_erase ip s = bmap_erase ip r" by (rule er)
    show "fs_valid dev i r x = fs_valid dev i s x" for x
      using t(5) by (simp add: fs_valid_def r_def)
    show "k_blocks r dev (node_of dev ip s j (depth j) p) = k_blocks s dev (node_of dev ip s j (depth j) p)"
      if "vpos j (depth j) p" "node_of dev ip s j (depth j) p \<noteq> 0" for j p
      using tree_blocksI [of j "depth j" p] that bt by (auto simp: node_of_def blk)
    show "k_blocks r dev' x = k_blocks s dev' x" if "dev' \<noteq> dev \<or> x \<notin> insert b (tree_of dev ip s)" for dev' x
      using that t(6) by (auto simp: r_def)
  qed (use inv ip ino len blk addr in \<open>auto simp: file_inv_def r_def zero_block_def NADDR_def\<close>)
  moreover have "bmap_addr ip j B_WRITE s = Inr (Some b, r)"
    using True t(1) ip by (simp add: bmap_addr_def r_def)
  moreover have "node_of dev ip r j 0 0 = b"
    using node_added_at [OF ad] by (simp add: node_of_def)
  ultimately show ?thesis using b(2) Lb by auto
qed

text \<open>One missing entry of an indirect block.\<close>

lemma bmap_entry_write:
  assumes inv: "file_inv dev i ip s (b # M)" and v: "vpos j (Suc c) q"
    and nb: "node_of dev ip s j c (q div 128) = nb" "nb \<noteq> 0" and none: "node_of dev ip s j (Suc c) q = 0"
  shows "\<exists>t. bmap_new dev B_WRITE s = Inr (Some b, t) \<and>
    grown dev i ip s (b # M)
      (bdwrite dev (nb, put32 (k_blocks s dev nb) (4 * nat (q mod 128)) b) t) M \<and>
    node_of dev ip (bdwrite dev (nb, put32 (k_blocks s dev nb) (4 * nat (q mod 128)) b) t) j (Suc c) q = b \<and>
    b \<noteq> 0"
proof -
  have fs: "fs_free dev s i (b # M)" and ip: "ip < length (k_inode s)" "i_dev (k_inode s ! ip) = dev"
    and ns: "no_sharing (k_blocks s dev) (addr_of ip s)" and len: "\<forall>x. length (k_blocks s dev x) = BSIZE"
    using inv by (auto simp: file_inv_def)
  obtain t where t: "bmap_new dev B_WRITE s = Inr (Some b, t)" "fs_free dev t i M" "fs_frame s t"
      "u_error t = u_error s" "\<forall>x. fs_valid dev i t x = fs_valid dev i s x"
      "k_blocks t = (k_blocks s)(dev := (k_blocks s dev)(b := zero_block))"
    using bmap_new_write [OF fs] by blast
  define d where "d = put32 (k_blocks s dev nb) (4 * nat (q mod 128)) b"
  define r where "r = bdwrite dev (nb, d) t"
  have ino: "k_inode t = k_inode s" using fs_frameD(5) [OF t(3)] .
  have b: "fs_valid dev i s b" "b \<noteq> 0" "is_long b"
    using fs fs_valid_nonzero [OF fs] by (auto simp: fs_free_def fs_valid_def)
  have bt: "b \<notin> tree_blocks (k_blocks s dev) (addr_of ip s)"
    using inv by (auto simp: file_inv_def tree_of_def)
  have nbt: "nb \<in> tree_of dev ip s"
    using tree_blocksI [OF vpos_parent [OF v]] nb by (auto simp: of_defs)
  then have nbM: "nb \<notin> set M" "nb \<noteq> b" using inv bt by (auto simp: file_inv_def tree_of_def)
  have blk: "k_blocks r dev = (k_blocks s dev)(b := zero_block, nb := d)" and addr: "addr_of ip r = addr_of ip s"
    using t(6) by (simp_all add: r_def bdwrite_def put_block_def ino)
  have ad: "node_added (k_blocks s dev) (addr_of ip s) (k_blocks r dev) (addr_of ip r) j (Suc c) q b"
    unfolding blk addr d_def using nb none len
    by (intro entry_added [OF v _ _ _ ns b(2) bt b(3)]) (simp_all add: node_of_def)
  have er: "bmap_erase ip s = bmap_erase ip r"
    unfolding r_def bdwrite_def using bmap_erase_frame [OF t(3,4)] by simp
  have leaf: "k_blocks r dev (node_of dev ip s j' (depth j') p) = k_blocks s dev (node_of dev ip s j' (depth j') p)"
    if lf: "vpos j' (depth j') p" "node_of dev ip s j' (depth j') p \<noteq> 0" for j' p
    using tree_blocksI [OF lf(1)] lf(2) bt inner_not_leaf [OF ns v _ nb(2) lf(1)] nb(1)
    by (auto simp: node_of_def blk)
  have "grown dev i ip s (b # M) r M"
  proof (rule grownI [OF inv ad _ er])
    show "fs_free dev r i M"
      using t(2) nbM by (simp add: r_def bdwrite_def fs_free_write)
    show "fs_valid dev i r x = fs_valid dev i s x" for x
      using t(5) by (simp add: fs_valid_def r_def)
    show "\<forall>x. length (k_blocks r dev x) = BSIZE"
      using len by (simp add: blk d_def zero_block_def)
    show "k_blocks r dev' x = k_blocks s dev' x" if "dev' \<noteq> dev \<or> x \<notin> insert b (tree_of dev ip s)" for dev' x
    proof (cases "dev' = dev")
      case True
      with that nbt have "x \<noteq> b" "x \<noteq> nb" by auto
      with True blk show ?thesis by simp
    next
      case False
      with t(6) show ?thesis by (simp add: r_def bdwrite_def put_block_def)
    qed
  qed (use inv ip ino blk addr nbM leaf in \<open>auto simp: file_inv_def r_def bdwrite_def\<close>)
  moreover have "node_of dev ip r j (Suc c) q = b"
    using node_added_at [OF ad] by (simp add: node_of_def)
  ultimately show ?thesis using t(1) b(2) by (auto simp: r_def d_def)
qed

lemma div_power_Suc: "bn div 128 ^ k div 128 = bn div 128 ^ Suc (k :: nat)" for bn :: int
  by (metis power_Suc2 zdiv_zmult2_eq zero_le_numeral)

lemma vpos_prefix:
  assumes "vpos j (depth j) bn" "c + k = depth j"
  shows "vpos j c (bn div 128 ^ k)"
  using assms
proof (induction k arbitrary: c)
  case (Suc k)
  then have "vpos j (Suc c) (bn div 128 ^ k)" by simp
  then have "vpos j c (bn div 128 ^ k div 128)" by (rule vpos_parent)
  then show ?case by (simp add: div_power_Suc)
qed simp

lemma bmap_indirect_write:
  "\<lbrakk>file_inv dev i ip s L; k \<le> length L; vpos j (depth j) bn; c + k = depth j;
    node_of dev ip s j c (bn div 128 ^ k) = nb; nb \<noteq> 0\<rbrakk> \<Longrightarrow>
   \<exists>nb' t M. bmap_indirect k dev bn nb B_WRITE s = Inr (nb', t) \<and> grown dev i ip s L t M \<and>
     nb' \<noteq> 0 \<and> node_of dev ip t j (depth j) bn = nb' \<and> length L \<le> k + length M"
proof (induction k arbitrary: s L c nb)
  case 0
  with grown_refl [OF 0(1)] show ?case by auto
next
  case (Suc k)
  let ?q = "bn div 128 ^ k"
  let ?i = "nat (?q mod 128)"
  let ?d = "k_blocks s dev nb"
  have v: "vpos j (Suc c) ?q" using vpos_prefix [of j bn "Suc c" k] Suc.prems by simp
  have nb: "node_of dev ip s j c (?q div 128) = nb" using Suc.prems(5) by (simp add: div_power_Suc)
  have good: "\<not> k_bad s dev nb"
    using Suc.prems(1,6) tree_blocksI [OF vpos_parent [OF v]] nb
    by (auto simp: file_inv_def fs_valid_def of_defs)
  have q: "bn div 2 ^ (7 * k) = ?q" by (simp add: power_mult)
  have ent: "node_of dev ip s j (Suc c) ?q = getl ?d (4 * ?i)"
    using nb Suc.prems(6) by (simp add: node_of_def node_Suc)
  show ?case
  proof (cases "getl ?d (4 * ?i) = 0")
    case False
    define s1 where "s1 = (if k = 0 \<and> ?i < NINDIR - 1 then s\<lparr>k_rablock := getl ?d (4 * (?i + 1))\<rparr> else s)"
    have g: "grown dev i ip s L s1 L" using grown_rablock [OF grown_refl] Suc.prems(1) grown_refl
      by (auto simp: s1_def)
    have "bmap_indirect (Suc k) dev bn nb B_WRITE s = bmap_indirect k dev bn (getl ?d (4 * ?i)) B_WRITE s1"
      using False good by (simp add: bread_def Let_def q s1_def)
    moreover have "file_inv dev i ip s1 L" "node_of dev ip s1 j (Suc c) ?q = getl ?d (4 * ?i)"
      using g ent by (auto simp: grown_def s1_def node_of_def)
    then obtain nb' t M where "bmap_indirect k dev bn (getl ?d (4 * ?i)) B_WRITE s1 = Inr (nb', t)"
      "grown dev i ip s1 L t M" "nb' \<noteq> 0" "node_of dev ip t j (depth j) bn = nb'"
      "length L \<le> k + length M"
      using Suc.IH [of s1 L "Suc c" "getl ?d (4 * ?i)"] Suc.prems False by auto
    ultimately show ?thesis using grown_trans [OF g] by fastforce
  next
    case True
    obtain b M where Lb: "L = b # M" using Suc.prems(2) by (cases L) auto
    define d where "d = put32 ?d (4 * ?i) b"
    obtain t where t: "bmap_new dev B_WRITE s = Inr (Some b, t)"
      "grown dev i ip s (b # M) (bdwrite dev (nb, d) t) M"
      "node_of dev ip (bdwrite dev (nb, d) t) j (Suc c) ?q = b" "b \<noteq> 0"
      using bmap_entry_write [of dev i ip s b M j c ?q nb] Suc.prems v nb ent True by (auto simp: Lb d_def)
    define s1 where "s1 = (let r = bdwrite dev (nb, d) t in
      if k = 0 \<and> ?i < NINDIR - 1 then r\<lparr>k_rablock := getl d (4 * (?i + 1))\<rparr> else r)"
    have g: "grown dev i ip s (b # M) s1 M" using t(2) grown_rablock by (auto simp: s1_def Let_def)
    have "bmap_indirect (Suc k) dev bn nb B_WRITE s = bmap_indirect k dev bn b B_WRITE s1"
      using True good t(1) by (auto simp: bread_def Let_def q s1_def d_def)
    moreover have "file_inv dev i ip s1 M" "node_of dev ip s1 j (Suc c) ?q = b"
      using g t(3) by (auto simp: grown_def s1_def node_of_def Let_def)
    then obtain nb' r N where "bmap_indirect k dev bn b B_WRITE s1 = Inr (nb', r)"
      "grown dev i ip s1 M r N" "nb' \<noteq> 0" "node_of dev ip r j (depth j) bn = nb'"
      "length M \<le> k + length N"
      using Suc.IH [of s1 M "Suc c" b] Suc.prems t(4) by (auto simp: Lb)
    ultimately show ?thesis using grown_trans [OF g] by (fastforce simp: Lb)
  qed
qed

text \<open>The level loop finds the position of the block.\<close>

lemma bmap_level_locate:
  assumes "10 \<le> bn" "bn < max_blocks"
  shows "\<exists>j sh p. bmap_level 3 0 1 (bn - 10) = (j, sh, p) \<and> 0 < j \<and> j \<le> 3 \<and>
    locate bn = (NADDR - j, p) \<and> depth (NADDR - j) = 4 - j \<and> sh = 7 * (4 - j)"
  using assms
  by (simp add: numeral_3_eq_3 locate_def max_blocks_def depth_def Let_def NADDR_def)

lemma bmap_level_none: "max_blocks \<le> bn \<Longrightarrow> fst (bmap_level 3 0 1 (bn - 10)) = 0"
  by (simp add: numeral_3_eq_3 max_blocks_def Let_def)

lemma bmap_write_ok:
  assumes inv: "file_inv dev i ip s L" and L: "4 \<le> length L" and bn: "0 \<le> bn" "bn < max_blocks"
  shows "\<exists>nb t M. bmap ip bn B_WRITE s = Inr (nb, t) \<and> nb \<noteq> 0 \<and> grown dev i ip s L t M \<and>
    fblock (k_blocks t dev) (addr_of ip t) bn = nb \<and> length L \<le> length M + 4"
proof (cases "bn < 10")
  case True
  let ?s = "s\<lparr>k_rablock := 0\<rparr>"
  have inv0: "file_inv dev i ip ?s L" and ne: "L \<noteq> []" "nat bn < 13" using inv L True by auto
  obtain nb t M where t: "bmap_addr ip (nat bn) B_WRITE ?s = Inr (Some nb, t)"
    "grown dev i ip ?s L t M" "nb \<noteq> 0" "node_of dev ip t (nat bn) 0 0 = nb" "length L \<le> length M + 1"
    using bmap_addr_write [OF inv0 ne] by blast
  define r where "r = (if bn < int NADDR - 4 then t\<lparr>k_rablock := addr_of ip t ! (nat bn + 1)\<rparr> else t)"
  have "grown dev i ip s L r M"
    using grown_trans [OF grown_rablock [OF grown_refl [OF inv]] t(2)] grown_rablock by (auto simp: r_def)
  moreover have "bmap ip bn B_WRITE s = Inr (nb, r)"
    using True bn(1) t(1) by (auto simp: bmap_def r_def NADDR_def Let_def)
  moreover have "fblock (k_blocks r dev) (addr_of ip r) bn = nb"
    using t(4) True bn(1) by (simp add: fblock_def locate_def depth_def r_def node_of_def nat_less_iff)
  moreover have "length L \<le> length M + 4" using t(5) by simp
  ultimately show ?thesis using t(3) by blast
next
  case False
  let ?s = "s\<lparr>k_rablock := 0\<rparr>"
  have inv0: "file_inv dev i ip ?s L" and ne: "L \<noteq> []" using inv L by auto
  have dev: "i_dev (k_inode s ! ip) = dev" using inv by (simp add: file_inv_def)
  obtain j sh p where l: "bmap_level 3 0 1 (bn - 10) = (j, sh, p)" "0 < j" "j \<le> 3"
    "locate bn = (NADDR - j, p)" "depth (NADDR - j) = 4 - j"
    using bmap_level_locate [of bn] False bn by auto
  have v: "vpos (NADDR - j) (depth (NADDR - j)) p" using locate_vpos [OF bn l(4)] .
  obtain nb t M where t: "bmap_addr ip (NADDR - j) B_WRITE ?s = Inr (Some nb, t)"
    "grown dev i ip ?s L t M" "nb \<noteq> 0" "node_of dev ip t (NADDR - j) 0 0 = nb" "length L \<le> length M + 1"
    using bmap_addr_write [OF inv0 ne, of "NADDR - j"] l(2) by (auto simp: NADDR_def)
  have "node_of dev ip t (NADDR - j) 0 (p div 128 ^ (4 - j)) = nb"
    using t(4) by (simp add: node_of_def)
  moreover have "4 - j \<le> length M" using t(5) L l(2) by linarith
  moreover have "file_inv dev i ip t M" using t(2) by (simp add: grown_def)
  ultimately obtain nb' r N where r: "bmap_indirect (4 - j) dev p nb B_WRITE t = Inr (nb', r)"
    "grown dev i ip t M r N" "nb' \<noteq> 0" "node_of dev ip r (NADDR - j) (depth (NADDR - j)) p = nb'"
    "length M \<le> (4 - j) + length N"
    using bmap_indirect_write [of dev i ip t M "4 - j" "NADDR - j" p 0 nb] v l(5) t(3) by auto
  have "grown dev i ip s L r N"
    using grown_trans [OF grown_trans [OF grown_rablock [OF grown_refl [OF inv]] t(2)] r(2)] .
  moreover have "bmap ip bn B_WRITE s = Inr (nb', r)"
    using False l(1,2) t(1) r(1) dev by (auto simp: bmap_def NADDR_def Let_def)
  moreover have "fblock (k_blocks r dev) (addr_of ip r) bn = nb'"
    using r(4) l(4) by (simp add: fblock_def node_of_def)
  moreover have "length L \<le> length N + 4" using t(5) r(5) l(2) by linarith
  ultimately show ?thesis using r(3) by blast
qed

text \<open>Looking up never changes anything but the read-ahead hint.\<close>

lemma bmap_indirect_read:
  "\<lbrakk>file_inv dev i ip s L; vpos j (depth j) bn; c + k = depth j;
    node_of dev ip s j c (bn div 128 ^ k) = nb; nb \<noteq> 0\<rbrakk> \<Longrightarrow>
   \<exists>ra. bmap_indirect k dev bn nb B_READ s =
     Inr (if node_of dev ip s j (depth j) bn = 0 then -1 else node_of dev ip s j (depth j) bn,
       s\<lparr>k_rablock := ra\<rparr>)"
proof (induction k arbitrary: s c nb)
  case 0
  then show ?case by (auto intro: exI [of _ "k_rablock s"])
next
  case (Suc k)
  let ?q = "bn div 128 ^ k"
  let ?i = "nat (?q mod 128)"
  let ?d = "k_blocks s dev nb"
  have v: "vpos j (Suc c) ?q" using vpos_prefix [of j bn "Suc c" k] Suc.prems by simp
  have nb: "node_of dev ip s j c (?q div 128) = nb" using Suc.prems(4) by (simp add: div_power_Suc)
  have good: "\<not> k_bad s dev nb"
    using Suc.prems(1,5) tree_blocksI [OF vpos_parent [OF v]] nb
    by (auto simp: file_inv_def fs_valid_def of_defs)
  have q: "bn div 2 ^ (7 * k) = ?q" by (simp add: power_mult)
  have ent: "node_of dev ip s j (Suc c) ?q = getl ?d (4 * ?i)"
    using nb Suc.prems(5) by (simp add: node_of_def node_Suc)
  show ?case
  proof (cases "getl ?d (4 * ?i) = 0")
    case False
    define s1 where "s1 = (if k = 0 \<and> ?i < NINDIR - 1 then s\<lparr>k_rablock := getl ?d (4 * (?i + 1))\<rparr> else s)"
    have "bmap_indirect (Suc k) dev bn nb B_READ s = bmap_indirect k dev bn (getl ?d (4 * ?i)) B_READ s1"
      using False good by (auto simp: bread_def Let_def q s1_def)
    moreover have "file_inv dev i ip s1 L" "node_of dev ip s1 j (Suc c) ?q = getl ?d (4 * ?i)"
      "node_of dev ip s1 j (depth j) bn = node_of dev ip s j (depth j) bn"
      "\<And>ra. s1\<lparr>k_rablock := ra\<rparr> = s\<lparr>k_rablock := ra\<rparr>"
      using ent Suc.prems(1) by (auto simp: s1_def node_of_def)
    ultimately show ?thesis
      using Suc.IH [of s1 "Suc c" "getl ?d (4 * ?i)"] Suc.prems False by auto
  next
    case True
    then have "node_of dev ip s j (Suc c + m) (bn div 128 ^ (k - m)) = 0" if "m \<le> k" for m
      using that
    proof (induction m)
      case 0
      with ent True show ?case by simp
    next
      case (Suc m)
      then have "bn div 128 ^ (k - Suc m) div 128 = bn div 128 ^ (k - m)"
        by (simp add: div_power_Suc Suc_diff_Suc)
      with Suc show ?case by (simp add: node_of_def node_Suc)
    qed
    from this [of k] have "node_of dev ip s j (depth j) bn = 0" using Suc.prems(3) by simp
    moreover have "bmap_indirect (Suc k) dev bn nb B_READ s = Inr (-1, s)"
      using True good by (simp add: bread_def Let_def q bmap_new_def)
    ultimately show ?thesis by (auto intro: exI [of _ "k_rablock s"])
  qed
qed

lemma node_of_missing_root:
  "addr_of ip s ! j = 0 \<Longrightarrow> node_of dev ip s j k p = 0"
  by (induction k arbitrary: p) (simp_all add: node_of_def node_Suc)

lemma bmap_read_ok:
  assumes inv: "file_inv dev i ip s L" and bn: "0 \<le> bn" "bn < max_blocks"
  shows "\<exists>ra. bmap ip bn B_READ s =
    Inr (let b = fblock (k_blocks s dev) (addr_of ip s) bn in if b = 0 then -1 else b,
      s\<lparr>k_rablock := ra\<rparr>)"
proof (cases "bn < 10")
  case True
  then show ?thesis
    using bn(1) by (auto simp: bmap_def bmap_addr_def bmap_new_def Let_def NADDR_def fblock_def locate_def depth_def)
next
  case False
  let ?s = "s\<lparr>k_rablock := 0\<rparr>"
  have inv0: "file_inv dev i ip ?s L" using inv by simp
  have dev: "i_dev (k_inode s ! ip) = dev" using inv by (simp add: file_inv_def)
  obtain j sh p where l: "bmap_level 3 0 1 (bn - 10) = (j, sh, p)" "0 < j" "j \<le> 3"
    "locate bn = (NADDR - j, p)" "depth (NADDR - j) = 4 - j"
    using bmap_level_locate [of bn] False bn by auto
  let ?j = "NADDR - j"
  have v: "vpos ?j (depth ?j) p" using locate_vpos [OF bn l(4)] .
  have b: "fblock (k_blocks s dev) (addr_of ip s) bn = node_of dev ip ?s ?j (depth ?j) p"
    using l(4) by (simp add: fblock_def node_of_def)
  show ?thesis
  proof (cases "addr_of ip s ! ?j = 0")
    case True
    then have "node_of dev ip ?s ?j (depth ?j) p = 0" by (intro node_of_missing_root) simp
    moreover have "bmap ip bn B_READ s = Inr (-1, ?s)"
      using True False l(1,2) dev by (auto simp: bmap_def bmap_addr_def bmap_new_def NADDR_def Let_def)
    ultimately show ?thesis using b by auto
  next
    case nz: False
    have "node_of dev ip ?s ?j 0 (p div 128 ^ (4 - j)) = addr_of ip s ! ?j" by (simp add: node_of_def)
    then obtain ra where "bmap_indirect (4 - j) dev p (addr_of ip s ! ?j) B_READ ?s =
      Inr (if node_of dev ip ?s ?j (depth ?j) p = 0 then -1 else node_of dev ip ?s ?j (depth ?j) p,
        ?s\<lparr>k_rablock := ra\<rparr>)"
      using bmap_indirect_read [OF inv0 v, of 0 "4 - j" "addr_of ip s ! ?j"] l(5) nz by auto
    moreover have "bmap ip bn B_READ s = bmap_indirect (4 - j) dev p (addr_of ip s ! ?j) B_READ ?s"
      using nz False l(1,2) dev by (auto simp: bmap_def bmap_addr_def NADDR_def Let_def)
    ultimately show ?thesis using b by (auto simp: Let_def)
  qed
qed

subsection \<open>Properties\<close>

text \<open>
  C3: \<open>bmap\<close> with \<open>B_WRITE\<close> on a file system with at least four free blocks gives
  every logical block in range a physical block that a later lookup returns again.  It
  takes the missing data and indirect blocks from the free list, keeps every block of the
  file and of the free list in exactly one place, changes no other block of the disk, and
  leaves the contents of the file as they were: a new block reads as zeros, like the
  hole it replaces.
\<close>

theorem bmap_write_then_read:
  assumes "file_inv dev i ip s L" "4 \<le> length L" "0 \<le> bn" "bn < max_blocks"
  shows "\<exists>nb t M ra. bmap ip bn B_WRITE s = Inr (nb, t) \<and> 0 < nb \<and> file_inv dev i ip t M \<and>
    bmap ip bn B_READ t = Inr (nb, t\<lparr>k_rablock := ra\<rparr>) \<and>
    tree_of dev ip t \<union> set M = tree_of dev ip s \<union> set L \<and>
    (\<forall>bn'. 0 \<le> bn' \<longrightarrow> bn' < max_blocks \<longrightarrow> data_of dev ip t bn' = data_of dev ip s bn') \<and>
    (\<forall>b. b \<notin> tree_of dev ip s \<union> set L \<longrightarrow> k_blocks t dev b = k_blocks s dev b)"
proof -
  obtain nb t M where t: "bmap ip bn B_WRITE s = Inr (nb, t)" "nb \<noteq> 0" "grown dev i ip s L t M"
    "fblock (k_blocks t dev) (addr_of ip t) bn = nb"
    using bmap_write_ok [OF assms] by blast
  have inv: "file_inv dev i ip t M" using t(3) by (simp add: grown_def)
  obtain j p where l: "locate bn = (j, p)" by (cases "locate bn")
  have "nb \<in> tree_of dev ip t"
    using tree_blocksI [OF locate_vpos [OF assms(3,4) l]] t(2,4) l by (auto simp: fblock_def tree_of_def)
  then have "0 < nb"
    using inv fs_valid_nonzero [of dev t i M nb] by (auto simp: file_inv_def)
  moreover obtain ra where "bmap ip bn B_READ t = Inr (nb, t\<lparr>k_rablock := ra\<rparr>)"
    using bmap_read_ok [OF inv assms(3,4)] t(2,4) by (auto simp: Let_def)
  ultimately show ?thesis
    using t(1,3) inv by (auto simp: grown_def)
qed

definition demo_inode :: inode where
  "demo_inode = \<lparr>i_flag = {}, i_count = 1, i_dev = 0, i_number = 2, i_mode = IFREG, i_nlink = 1,
     i_uid = 0, i_gid = 0, i_size = 0, i_addr = replicate 13 0, i_lastr = 0\<rparr>"

definition demo_file :: kern where
  "demo_file = demo_fs\<lparr>k_inode := [demo_inode]\<rparr>"

lemma empty_tree: "j < 13 \<Longrightarrow> node blk (replicate 13 0) j k p = 0"
  by (induction k arbitrary: p) (simp_all add: node_Suc)

lemma demo_file_inv: "file_inv 0 0 0 demo_file [6, 8, 7, 5]"
proof -
  have "fs_free 0 demo_file 0 [6, 8, 7, 5]"
    using demo_fs_free by (simp add: demo_file_def fs_free_def super_def)
  moreover have "no_sharing blk (replicate 13 0)" "tree_blocks blk (replicate 13 0) = {}" for blk
    by (auto simp: no_sharing_def tree_blocks_def empty_tree vpos_def)
  ultimately show ?thesis
    by (simp add: file_inv_def tree_of_def)
      (simp add: demo_file_def demo_inode_def demo_fs_def kern0_def zero_block_def NADDR_def)
qed

theorem bmap_write_then_read_witness:
  "\<exists>nb t ra. bmap 0 20000 B_WRITE demo_file = Inr (nb, t) \<and> 0 < nb \<and>
     bmap 0 20000 B_READ t = Inr (nb, t\<lparr>k_rablock := ra\<rparr>)"
  using bmap_write_then_read [OF demo_file_inv, of 20000] by (auto simp: max_blocks_def)

text \<open>
  C4: \<open>bmap\<close> with \<open>B_READ\<close> returns the block that the tree of the file holds for the
  logical block, or -1 for a hole, and changes nothing but the read-ahead hint.
\<close>

theorem bmap_read_lookup:
  assumes "file_inv dev i ip s L" "0 \<le> bn" "bn < max_blocks"
  shows "\<exists>ra. bmap ip bn B_READ s =
    Inr (let b = fblock (k_blocks s dev) (addr_of ip s) bn in if b = 0 then -1 else b,
      s\<lparr>k_rablock := ra\<rparr>)"
  using bmap_read_ok [OF assms] .

theorem bmap_read_lookup_witness:
  "\<exists>ra. bmap 0 100 B_READ demo_file = Inr (-1, demo_file\<lparr>k_rablock := ra\<rparr>)"
proof -
  have "fblock (k_blocks demo_file 0) (addr_of 0 demo_file) 100 = 0"
    by (simp add: fblock_def locate_def demo_file_def demo_inode_def empty_tree)
  then show ?thesis
    using bmap_read_lookup [OF demo_file_inv, of 100] by (simp add: max_blocks_def)
qed

text \<open>
  A logical block number beyond triple indirection, or a negative one, gives 0 with
  \<open>EFBIG\<close>, and nothing is allocated: the result is not negative, so a caller that only
  tests for a negative block number takes it for block 0.
\<close>

theorem bmap_too_big:
  assumes "bn < 0 \<or> max_blocks \<le> bn"
  shows "\<exists>ra. bmap ip bn rwflg s = Inr (0, s\<lparr>k_rablock := ra, u_error := Some EFBIG\<rparr>)"
proof (cases "bn < 0")
  case True
  then show ?thesis by (auto simp: bmap_def set_error_def intro: exI [of _ "k_rablock s"])
next
  case False
  with assms bmap_level_none [of bn] show ?thesis
    by (cases "bmap_level 3 0 1 (bn - 10)") (auto simp: bmap_def NADDR_def set_error_def max_blocks_def)
qed

theorem bmap_too_big_witness:
  "\<exists>ra. bmap 0 3000000 B_WRITE demo_file = Inr (0, demo_file\<lparr>k_rablock := ra, u_error := Some EFBIG\<rparr>)"
  using bmap_too_big [of 3000000 0 B_WRITE demo_file] by (simp add: max_blocks_def)

end
