(* ===== verification/FileIO.thy ===== *)
theory FileIO
  imports Bmap
begin

section \<open>Reading and writing files (sys/rdwri.c, passc and cpass of sys/subr.c)\<close>

text \<open>
  \<open>readi\<close> and \<open>writei\<close> move bytes between the file of an inode and the process:
  the arguments are \<open>u_base\<close>, \<open>u_count\<close> and \<open>u_offset\<close> of the user structure.
  Bytes go one by one through \<open>passc\<close> and \<open>cpass\<close>, or by words through
  \<open>copyin\<close> and \<open>copyout\<close> when all addresses are even.  The theorems say that a write
  followed by a read gives back the bytes, that no other byte of the file changes, and that
  the loops end.

  The entries of the device switch are parameters of the model (record \<open>devsw\<close>).
\<close>

record devsw =
  nblkdev :: nat
  nchrdev :: nat
  b_open :: "nat \<Rightarrow> bool \<Rightarrow> kern \<Rightarrow> unit kres"
  b_close :: "nat \<Rightarrow> fflag set \<Rightarrow> kern \<Rightarrow> unit kres"
  c_open :: "nat \<Rightarrow> bool \<Rightarrow> kern \<Rightarrow> unit kres"
  c_close :: "nat \<Rightarrow> fflag set \<Rightarrow> kern \<Rightarrow> unit kres"
  c_read :: "nat \<Rightarrow> kern \<Rightarrow> unit kres"
  c_write :: "nat \<Rightarrow> kern \<Rightarrow> unit kres"

subsection \<open>Bytes between the kernel and the process\<close>

text \<open>A \<open>long\<close> after an addition.\<close>

definition wrap32 :: "int \<Rightarrow> int" where
  "wrap32 v = sgn32 (v mod 4294967296)"

lemma wrap32_id: "is_long v \<Longrightarrow> wrap32 v = v"
  by (simp add: wrap32_def is_long_def sgn32_mod)

text \<open>The user's parameters after \<open>n\<close> bytes.\<close>

definition advance :: "nat \<Rightarrow> kern \<Rightarrow> kern" where
  "advance n s = s\<lparr>u_base := u_base s + of_nat n, u_count := u_count s - of_nat n,
     u_offset := wrap32 (u_offset s + int n)\<rparr>"

definition store_byte :: "seg \<Rightarrow> u16 \<Rightarrow> u8 \<Rightarrow> kern \<Rightarrow> kern" where
  "store_byte sg a c s = s\<lparr>k_mem := (k_mem s)(sg := (k_mem s sg)(a := c))\<rparr>"

text \<open>The result is false when the C function returns -1.\<close>

definition passc :: "u8 \<Rightarrow> kern \<Rightarrow> bool \<times> kern" where
  "passc c s =
     (if u_segflg s = System then
        (let s = advance 1 (s\<lparr>u_dent := (u_dent s)[unat (u_base s) := c]\<rparr>) in (u_count s \<noteq> 0, s))
      else if \<not> k_memok s (u_segflg s) (u_base s) then (False, set_error EFAULT s)
      else
        (let s = advance 1 (store_byte (u_segflg s) (u_base s) c s) in (u_count s \<noteq> 0, s)))"

definition cpass :: "kern \<Rightarrow> u8 option \<times> kern" where
  "cpass s =
     (if u_count s = 0 then (None, s)
      else if u_segflg s = System then (Some (u_dent s ! unat (u_base s)), advance 1 s)
      else if \<not> k_memok s (u_segflg s) (u_base s) then (None, set_error EFAULT s)
      else (Some (k_mem s (u_segflg s) (u_base s)), advance 1 s))"

definition nodev :: "kern \<Rightarrow> kern" where
  "nodev s = set_error ENODEV s"

text \<open>
  \<open>copyin\<close> and \<open>copyout\<close> move words and stop at the first address that faults; the
  arguments are the address, the number of words, and the buffer with an offset.
\<close>

fun copyin :: "kern \<Rightarrow> seg \<Rightarrow> u16 \<Rightarrow> nat \<Rightarrow> block \<Rightarrow> nat \<Rightarrow> bool \<times> block" where
  "copyin s sg a 0 d off = (True, d)"
| "copyin s sg a (Suc n) d off =
     (if k_memok s sg a \<and> k_memok s sg (a + 1)
      then copyin s sg (a + 2) n (d[off := k_mem s sg a, off + 1 := k_mem s sg (a + 1)]) (off + 2)
      else (False, d))"

fun copyout :: "block \<Rightarrow> nat \<Rightarrow> seg \<Rightarrow> u16 \<Rightarrow> nat \<Rightarrow> kern \<Rightarrow> bool \<times> kern" where
  "copyout d off sg a 0 s = (True, s)"
| "copyout d off sg a (Suc n) s =
     (if k_memok s sg a \<and> k_memok s sg (a + 1)
      then copyout d (off + 2) sg (a + 2) n (store_byte sg (a + 1) (d ! (off + 1)) (store_byte sg a (d ! off) s))
      else (False, s))"

text \<open>The byte loops of \<open>iomove\<close>.\<close>

fun iomove_in :: "nat \<Rightarrow> block \<Rightarrow> nat \<Rightarrow> kern \<Rightarrow> block \<times> kern" where
  "iomove_in 0 d off s = (d, s)"
| "iomove_in (Suc n) d off s =
     (case cpass s of
        (None, s) \<Rightarrow> (d, s)
      | (Some t, s) \<Rightarrow> iomove_in n (d[off := t]) (off + 1) s)"

fun iomove_out :: "nat \<Rightarrow> block \<Rightarrow> nat \<Rightarrow> kern \<Rightarrow> kern" where
  "iomove_out 0 d off s = s"
| "iomove_out (Suc n) d off s =
     (case passc (d ! off) s of
        (False, s) \<Rightarrow> s
      | (True, s) \<Rightarrow> iomove_out n d (off + 1) s)"

text \<open>
  \<open>iomove\<close> at offset \<open>off\<close> of the buffer with the bytes \<open>d\<close>.  Buffers start at even
  addresses, so the address is even when the offset is.
\<close>

definition iomove :: "block \<Rightarrow> nat \<Rightarrow> nat \<Rightarrow> rw \<Rightarrow> kern \<Rightarrow> block \<times> kern" where
  "iomove d off n flag s =
     (if n = 0 then (d, s)
      else if u_segflg s \<noteq> System \<and> even n \<and> even off \<and> even (unat (u_base s)) then
        (case flag of
           B_WRITE \<Rightarrow>
             (case copyin s (u_segflg s) (u_base s) (n div 2) d off of
                (ok, d) \<Rightarrow> if ok then (d, advance n s) else (d, set_error EFAULT s))
         | B_READ \<Rightarrow>
             (case copyout d off (u_segflg s) (u_base s) (n div 2) s of
                (ok, s) \<Rightarrow> if ok then (d, advance n s) else (d, set_error EFAULT s)))
      else
        (case flag of
           B_WRITE \<Rightarrow> iomove_in n d off s
         | B_READ \<Rightarrow> (d, iomove_out n d off s)))"

subsection \<open>readi and writei\<close>

definition rdev :: "inode \<Rightarrow> nat" where
  "rdev ino = nat (i_addr ino ! 0 mod 65536)"

text \<open>
  The buffer the block is read into, the bytes transferred and whether there was an
  error; \<open>breada\<close> also starts a read of the next block, which is not visible here.
\<close>

definition bread_bytes :: "nat \<Rightarrow> int \<Rightarrow> kern \<Rightarrow> block \<times> nat \<times> kern" where
  "bread_bytes dev bn s =
     (case bread dev bn s of
        (None, s) \<Rightarrow> (k_junk s dev bn, k_resid s dev bn, s)
      | (Some (_, d), s) \<Rightarrow> (d, k_resid s dev bn, s))"

text \<open>The body of the loop of \<open>readi\<close> after \<open>bmap\<close>; the result says whether to go on.\<close>

definition readi_block :: "nat \<Rightarrow> nat \<Rightarrow> int \<Rightarrow> int \<Rightarrow> nat \<Rightarrow> nat \<Rightarrow> kern \<Rightarrow> bool \<times> kern" where
  "readi_block ip dev lbn bn on n s =
     (let (d, resid, s) = (if bn < 0 then (zero_block, 0, s) else bread_bytes dev bn s);
          s = upd_inode ip (\<lambda>m. m\<lparr>i_lastr := lbn\<rparr>) s;
          n = min n (BSIZE - resid);
          s = (if n \<noteq> 0 then snd (iomove d on n B_READ s) else s)
      in (u_error s = None \<and> u_count s \<noteq> 0 \<and> 0 < n, s))"

primrec readi_loop :: "nat \<Rightarrow> nat \<Rightarrow> nat \<Rightarrow> u16 \<Rightarrow> kern \<Rightarrow> unit kres" where
  "readi_loop 0 ip dev ty s = Inl (Unfinished, s)"
| "readi_loop (Suc f) ip dev ty s =
     (let lbn = u_offset s div int BSIZE;
          on = nat (u_offset s mod int BSIZE);
          n = min (BSIZE - on) (unat (u_count s)) in
      if ty \<noteq> IFBLK \<and> ty \<noteq> IFMPB then
        (let diff = i_size (k_inode s ! ip) - u_offset s in
         if diff \<le> 0 then Inr ((), s)
         else
           (let n = (if diff < int n then nat diff else n) in
            rbind (bmap ip lbn B_READ s) (\<lambda>(bn, s).
              if u_error s \<noteq> None then Inr ((), s)
              else case readi_block ip (i_dev (k_inode s ! ip)) lbn bn on n s of
                (go_on, s) \<Rightarrow> if go_on then readi_loop f ip dev ty s else Inr ((), s))))
      else
        (case readi_block ip dev lbn lbn on n (s\<lparr>k_rablock := lbn + 1\<rparr>) of
           (go_on, s) \<Rightarrow> if go_on then readi_loop f ip dev ty s else Inr ((), s)))"

definition readi :: "devsw \<Rightarrow> nat \<Rightarrow> kern \<Rightarrow> unit kres" where
  "readi dv ip s =
     (if u_count s = 0 then Inr ((), s)
      else if u_offset s < 0 then Inr ((), set_error EINVAL s)
      else
        (let s = upd_inode ip (add_flags {IACC}) s;
             dev = rdev (k_inode s ! ip);
             ty = and (i_mode (k_inode s ! ip)) IFMT
         in if ty = IFCHR \<or> ty = IFMPC then c_read dv dev s
            else readi_loop (Suc (unat (u_count s))) ip dev ty s))"

text \<open>The body of the loop of \<open>writei\<close> after \<open>bmap\<close>.\<close>

definition writei_block :: "nat \<Rightarrow> nat \<Rightarrow> int \<Rightarrow> nat \<Rightarrow> nat \<Rightarrow> u16 \<Rightarrow> kern \<Rightarrow> bool \<times> kern" where
  "writei_block ip dev bn on n ty s =
     (let (bp, s) = (if n = BSIZE then (Some (getblk dev bn s), s) else bread dev bn s);
          (d, s) = iomove (case bp of None \<Rightarrow> k_junk s dev bn | Some b \<Rightarrow> snd b) on n B_WRITE s;
          s = (if u_error s \<noteq> None then (if bp = None then s else brelse_dirty dev (bn, d) s)
               else bdwrite dev (bn, d) s);
          s = (if i_size (k_inode s ! ip) < u_offset s \<and> (ty = IFDIR \<or> ty = IFREG)
               then upd_inode ip (\<lambda>m. m\<lparr>i_size := u_offset s\<rparr>) s else s);
          s = upd_inode ip (add_flags {IUPD, ICHG}) s
      in (u_error s = None \<and> u_count s \<noteq> 0, s))"

primrec writei_loop :: "nat \<Rightarrow> nat \<Rightarrow> nat \<Rightarrow> u16 \<Rightarrow> kern \<Rightarrow> unit kres" where
  "writei_loop 0 ip dev ty s = Inl (Unfinished, s)"
| "writei_loop (Suc f) ip dev ty s =
     (let lbn = u_offset s div int BSIZE;
          on = nat (u_offset s mod int BSIZE);
          n = min (BSIZE - on) (unat (u_count s)) in
      if ty \<noteq> IFBLK \<and> ty \<noteq> IFMPB then
        rbind (bmap ip lbn B_WRITE s) (\<lambda>(bn, s).
          if bn < 0 then Inr ((), s)
          else case writei_block ip (i_dev (k_inode s ! ip)) bn on n ty s of
            (go_on, s) \<Rightarrow> if go_on then writei_loop f ip dev ty s else Inr ((), s))
      else
        (case writei_block ip dev lbn on n ty s of
           (go_on, s) \<Rightarrow> if go_on then writei_loop f ip dev ty s else Inr ((), s)))"

definition writei :: "devsw \<Rightarrow> nat \<Rightarrow> kern \<Rightarrow> unit kres" where
  "writei dv ip s =
     (if u_offset s < 0 then Inr ((), set_error EINVAL s)
      else
        (let dev = rdev (k_inode s ! ip); ty = and (i_mode (k_inode s ! ip)) IFMT in
         if ty = IFCHR \<or> ty = IFMPC then c_write dv dev (upd_inode ip (add_flags {IUPD, ICHG}) s)
         else if u_count s = 0 then Inr ((), s)
         else writei_loop (Suc (unat (u_count s))) ip dev ty s))"

subsection \<open>Moving bytes\<close>

lemma sgn32_mod_eq: "sgn32 v mod 4294967296 = v mod 4294967296"
  using minus_mod_self2 [of v 4294967296] by (simp add: sgn32_def)

lemma wrap32_add: "wrap32 (wrap32 a + b) = wrap32 (a + b)"
proof -
  have "(sgn32 (a mod 4294967296) + b) mod 4294967296 = (a + b) mod 4294967296"
    by (rule mod_add_cong) (simp_all add: sgn32_mod_eq)
  then show ?thesis by (simp add: wrap32_def)
qed

lemma advance_add: "advance m (advance n s) = advance (n + m) s"
  using wrap32_add [of "u_offset s + int n" "int m"] by (simp add: advance_def algebra_simps)

lemma advance_0: "is_long (u_offset s) \<Longrightarrow> advance 0 s = s"
  by (simp add: advance_def wrap32_id)

text \<open>The bytes the process writes, and whether they can be read.\<close>

definition src_byte :: "kern \<Rightarrow> u16 \<Rightarrow> u8" where
  "src_byte s a = (if u_segflg s = System then u_dent s ! unat a else k_mem s (u_segflg s) a)"

definition src_ok :: "kern \<Rightarrow> u16 \<Rightarrow> bool" where
  "src_ok s a \<longleftrightarrow> u_segflg s = System \<or> k_memok s (u_segflg s) a"

definition src_bytes :: "kern \<Rightarrow> nat \<Rightarrow> u8 list" where
  "src_bytes s n = map (\<lambda>i. src_byte s (u_base s + of_nat i)) [0..<n]"

lemma advance_sel [simp]:
  "u_segflg (advance n s) = u_segflg s" "k_mem (advance n s) = k_mem s" "k_memok (advance n s) = k_memok s"
  "u_dent (advance n s) = u_dent s" "u_error (advance n s) = u_error s"
  "u_base (advance n s) = u_base s + of_nat n" "u_count (advance n s) = u_count s - of_nat n"
  "u_offset (advance n s) = wrap32 (u_offset s + int n)"
  "k_inode (advance n s) = k_inode s" "k_blocks (advance n s) = k_blocks s"
  "k_mount (advance n s) = k_mount s" "k_bad (advance n s) = k_bad s" "k_junk (advance n s) = k_junk s"
  "k_resid (advance n s) = k_resid s" "k_keep (advance n s) = k_keep s"
  by (simp_all add: advance_def)

lemma src_byte_advance [simp]: "src_byte (advance n s) a = src_byte s a" "src_ok (advance n s) a = src_ok s a"
  by (simp_all add: src_byte_def src_ok_def)

lemma src_bytes_Suc: "src_bytes s (Suc n) = src_byte s (u_base s) # src_bytes (advance 1 s) n"
  by (simp add: src_bytes_def upt_conv_Cons map_Suc_upt [symmetric] algebra_simps del: upt_Suc)

definition put_list :: "block \<Rightarrow> nat \<Rightarrow> u8 list \<Rightarrow> block" where
  "put_list d off bs = take off d @ bs @ drop (off + length bs) d"

lemma put_list_Nil [simp]: "put_list d off [] = d"
  by (simp add: put_list_def)

lemma put_list_Cons:
  "off < length d \<Longrightarrow> put_list (d[off := b]) (Suc off) bs = put_list d off (b # bs)"
  by (simp add: put_list_def take_Suc_conv_app_nth)

lemma length_put_list [simp]: "off + length bs \<le> length d \<Longrightarrow> length (put_list d off bs) = length d"
  by (simp add: put_list_def)

lemma nth_put_list:
  "\<lbrakk>off + length bs \<le> length d; k < length d\<rbrakk> \<Longrightarrow>
     put_list d off bs ! k = (if off \<le> k \<and> k < off + length bs then bs ! (k - off) else d ! k)"
  by (auto simp: put_list_def nth_append min_def)

lemma cpass_ok:
  "\<lbrakk>u_count s \<noteq> 0; src_ok s (u_base s)\<rbrakk> \<Longrightarrow> cpass s = (Some (src_byte s (u_base s)), advance 1 s)"
  by (auto simp: cpass_def src_byte_def src_ok_def)

lemma iomove_in_ok:
  "\<lbrakk>n \<le> unat (u_count s); off + n \<le> length d; \<forall>i<n. src_ok s (u_base s + of_nat i); is_long (u_offset s)\<rbrakk> \<Longrightarrow>
   iomove_in n d off s = (put_list d off (src_bytes s n), advance n s)"
proof (induction n arbitrary: d off s)
  case 0
  then show ?case by (simp add: src_bytes_def advance_0)
next
  case (Suc n)
  have c: "u_count s \<noteq> 0" using Suc.prems(1) by auto
  have "src_ok s (u_base s)" using Suc.prems(3) [rule_format, of 0] by simp
  then have cp: "cpass s = (Some (src_byte s (u_base s)), advance 1 s)" using cpass_ok [OF c] by blast
  have "unat (u_count (advance 1 s)) = unat (u_count s) - 1"
    using c by (simp add: unat_minus_one)
  then have 1: "n \<le> unat (u_count (advance 1 s))" using Suc.prems(1) by simp
  have 2: "\<forall>i<n. src_ok (advance 1 s) (u_base (advance 1 s) + of_nat i)"
  proof (intro allI impI)
    fix i assume "i < n"
    with Suc.prems(3) have "src_ok s (u_base s + of_nat (Suc i))" by blast
    then show "src_ok (advance 1 s) (u_base (advance 1 s) + of_nat i)" by (simp add: add.assoc)
  qed
  have 3: "is_long (u_offset (advance 1 s))"
    by (auto simp: wrap32_def is_long_def sgn32_def)
  show ?case
    using Suc.IH [OF 1 _ 2 3, of "Suc off" "d[off := src_byte s (u_base s)]"] Suc.prems(2)
    by (simp add: cp put_list_Cons src_bytes_Suc advance_add)
qed

lemma copyin_ok:
  "\<lbrakk>\<forall>i<2 * n. k_memok s sg (a + of_nat i); off + 2 * n \<le> length d\<rbrakk> \<Longrightarrow>
   copyin s sg a n d off = (True, put_list d off (map (\<lambda>i. k_mem s sg (a + of_nat i)) [0..<2 * n]))"
proof (induction n arbitrary: a d off)
  case (Suc n)
  have ok: "k_memok s sg a" "k_memok s sg (a + 1)"
    using Suc.prems(1) [rule_format, of 0] Suc.prems(1) [rule_format, of 1] by simp_all
  have rest: "\<forall>i<2 * n. k_memok s sg (a + 2 + of_nat i)"
  proof (intro allI impI)
    fix i assume "i < 2 * n"
    with Suc.prems(1) [rule_format, of "i + 2"] show "k_memok s sg (a + 2 + of_nat i)"
      by (simp add: algebra_simps)
  qed
  let ?d = "d[off := k_mem s sg a, Suc off := k_mem s sg (a + 1)]"
  have "put_list ?d (Suc (Suc off)) bs = put_list d off (k_mem s sg a # k_mem s sg (a + 1) # bs)" for bs
    using Suc.prems(2) put_list_Cons [of "Suc off" "d[off := k_mem s sg a]"] put_list_Cons [of off d] by simp
  moreover have "map (\<lambda>i. k_mem s sg (a + of_nat i)) [0..<2 * Suc n] =
      k_mem s sg a # k_mem s sg (a + 1) # map (\<lambda>i. k_mem s sg (a + 2 + of_nat i)) [0..<2 * n]"
    by (simp add: upt_conv_Cons map_Suc_upt [symmetric] algebra_simps del: upt_Suc)
  ultimately show ?case
    using Suc.IH [OF rest, of "off + 2" ?d] ok Suc.prems(2) by simp
qed simp

fun store_bytes :: "seg \<Rightarrow> u16 \<Rightarrow> u8 list \<Rightarrow> kern \<Rightarrow> kern" where
  "store_bytes sg a [] s = s"
| "store_bytes sg a (c # cs) s = store_bytes sg (a + 1) cs (store_byte sg a c s)"

lemma store_byte_sel [simp]:
  "k_memok (store_byte sg a c s) = k_memok s" "u_segflg (store_byte sg a c s) = u_segflg s"
  "u_base (store_byte sg a c s) = u_base s" "u_count (store_byte sg a c s) = u_count s"
  "u_offset (store_byte sg a c s) = u_offset s" "u_error (store_byte sg a c s) = u_error s"
  by (simp_all add: store_byte_def)

lemma store_bytes_sel [simp]:
  "k_memok (store_bytes sg a cs s) = k_memok s" "u_segflg (store_bytes sg a cs s) = u_segflg s"
  "u_base (store_bytes sg a cs s) = u_base s" "u_count (store_bytes sg a cs s) = u_count s"
  "u_offset (store_bytes sg a cs s) = u_offset s" "u_error (store_bytes sg a cs s) = u_error s"
  by (induction cs arbitrary: a s) simp_all

lemma store_byte_advance: "store_byte sg a c (advance n s) = advance n (store_byte sg a c s)"
  by (simp add: store_byte_def advance_def)

lemma store_bytes_advance: "store_bytes sg a cs (advance n s) = advance n (store_bytes sg a cs s)"
  by (induction cs arbitrary: a s) (simp_all add: store_byte_advance)

lemma take_drop_Suc: "off < length d \<Longrightarrow> take (Suc n) (drop off d) = d ! off # take n (drop (Suc off) d)"
  by (metis Cons_nth_drop_Suc take_Suc_Cons)

lemma copyout_ok:
  "\<lbrakk>\<forall>i<2 * n. k_memok s sg (a + of_nat i); off + 2 * n \<le> length d\<rbrakk> \<Longrightarrow>
   copyout d off sg a n s = (True, store_bytes sg a (take (2 * n) (drop off d)) s)"
proof (induction n arbitrary: a off s)
  case (Suc n)
  have ok: "k_memok s sg a" "k_memok s sg (a + 1)"
    using Suc.prems(1) [rule_format, of 0] Suc.prems(1) [rule_format, of 1] by simp_all
  let ?s = "store_byte sg (a + 1) (d ! (off + 1)) (store_byte sg a (d ! off) s)"
  have rest: "\<forall>i<2 * n. k_memok ?s sg (a + 2 + of_nat i)"
  proof (intro allI impI)
    fix i assume "i < 2 * n"
    with Suc.prems(1) [rule_format, of "i + 2"] show "k_memok ?s sg (a + 2 + of_nat i)"
      by (simp add: algebra_simps)
  qed
  have "take (2 * Suc n) (drop off d) = d ! off # d ! Suc off # take (2 * n) (drop (off + 2) d)"
    using Suc.prems(2) by (simp add: take_drop_Suc)
  with Suc.IH [OF rest, of "off + 2"] ok Suc.prems(2) show ?case
    by (simp add: add.commute add.left_commute)
qed simp

lemma passc_ok:
  assumes "u_segflg s \<noteq> System" "k_memok s (u_segflg s) (u_base s)"
  shows "passc c s = (u_count s \<noteq> 1, advance 1 (store_byte (u_segflg s) (u_base s) c s))"
  using assms by (simp add: passc_def Let_def)

lemma iomove_out_ok:
  "\<lbrakk>u_segflg s \<noteq> System; n \<le> unat (u_count s); off + n \<le> length d;
    \<forall>i<n. k_memok s (u_segflg s) (u_base s + of_nat i); is_long (u_offset s)\<rbrakk> \<Longrightarrow>
   iomove_out n d off s = advance n (store_bytes (u_segflg s) (u_base s) (take n (drop off d)) s)"
proof (induction n arbitrary: off s)
  case 0
  then show ?case by (simp add: advance_0)
next
  case (Suc n)
  let ?s = "advance 1 (store_byte (u_segflg s) (u_base s) (d ! off) s)"
  have p: "passc (d ! off) s = (u_count s \<noteq> 1, ?s)"
    using passc_ok Suc.prems(1) Suc.prems(4) [rule_format, of 0] by simp
  have l: "is_long (u_offset ?s)" by (auto simp: wrap32_def is_long_def sgn32_def)
  have t: "take (Suc n) (drop off d) = d ! off # take n (drop (Suc off) d)"
    using Suc.prems(3) by (simp add: take_drop_Suc)
  show ?case
  proof (cases "u_count s = 1")
    case True
    then have "n = 0" using Suc.prems(2) by simp
    with True p t show ?thesis by simp
  next
    case False
    have "u_count s \<noteq> 0" using Suc.prems(2) by auto
    then have c: "n \<le> unat (u_count ?s)"
      using Suc.prems(2) by (simp add: unat_minus_one)
    have m: "\<forall>i<n. k_memok ?s (u_segflg ?s) (u_base ?s + of_nat i)"
    proof (intro allI impI)
      fix i assume "i < n"
      with Suc.prems(4) [rule_format, of "Suc i"] show "k_memok ?s (u_segflg ?s) (u_base ?s + of_nat i)"
        by (simp add: add.assoc)
    qed
    show ?thesis
      using Suc.IH [OF _ c _ m l, of "Suc off"] Suc.prems(1,3) False p t
      by (simp add: store_bytes_advance advance_add)
  qed
qed

lemma unat_of_nat_u16: "n < 65536 \<Longrightarrow> unat (of_nat n :: u16) = n"
  by (simp add: unsigned_of_nat take_bit_nat_eq_self)

lemma unat_u16_less: "unat (w :: u16) < 65536"
proof -
  have "unat w < 2 ^ LENGTH(16)" by (rule unsigned_less)
  then show ?thesis by simp
qed

lemma mem_store_bytes_other:
  "(\<And>i. i < length cs \<Longrightarrow> x \<noteq> a + of_nat i) \<Longrightarrow> k_mem (store_bytes sg a cs s) sg x = k_mem s sg x"
proof (induction cs arbitrary: a s)
  case (Cons c cs)
  have "x \<noteq> a" using Cons.prems [of 0] by simp
  moreover have "x \<noteq> a + 1 + of_nat i" if "i < length cs" for i
    using Cons.prems [of "Suc i"] that by (simp add: add.assoc)
  ultimately show ?case using Cons.IH [of "a + 1"] by (simp add: store_byte_def)
qed simp

lemma mem_store_bytes:
  "\<lbrakk>i < length cs; length cs \<le> 65536\<rbrakk> \<Longrightarrow> k_mem (store_bytes sg a cs s) sg (a + of_nat i) = cs ! i"
proof (induction cs arbitrary: a s i)
  case (Cons c cs)
  show ?case
  proof (cases i)
    case 0
    have "a \<noteq> a + 1 + of_nat k" if "k < length cs" for k
    proof
      assume "a = a + 1 + of_nat k"
      then have "(0 :: u16) = of_nat (Suc k)" by (simp add: add.assoc)
      moreover have "unat (of_nat (Suc k) :: u16) = Suc k"
        using that Cons.prems(2) by (intro unat_of_nat_u16) simp
      ultimately show False by (metis nat.distinct(1) unat_0)
    qed
    then have "k_mem (store_bytes sg (a + 1) cs (store_byte sg a c s)) sg a = k_mem (store_byte sg a c s) sg a"
      by (intro mem_store_bytes_other)
    with 0 show ?thesis by (simp add: store_byte_def)
  next
    case (Suc j)
    with Cons.IH [of j "a + 1"] Cons.prems show ?thesis by (simp add: add.assoc)
  qed
qed simp

lemma iomove_write_ok:
  assumes "0 < n" "n \<le> unat (u_count s)" "off + n \<le> length d"
    and ok: "\<forall>i<n. src_ok s (u_base s + of_nat i)" and "is_long (u_offset s)"
  shows "iomove d off n B_WRITE s = (put_list d off (src_bytes s n), advance n s)"
proof (cases "u_segflg s \<noteq> System \<and> even n \<and> even off \<and> even (unat (u_base s))")
  case True
  then have n: "2 * (n div 2) = n" by simp
  have "copyin s (u_segflg s) (u_base s) (n div 2) d off = (True, put_list d off (src_bytes s n))"
    using copyin_ok [of "n div 2" s "u_segflg s" "u_base s" off d] ok True assms(3)
    by (simp add: n src_bytes_def src_byte_def src_ok_def)
  with True assms(1) show ?thesis by (simp add: iomove_def)
next
  case False
  with iomove_in_ok [OF assms(2,3) ok assms(5)] assms(1) show ?thesis
    by (auto simp: iomove_def)
qed

lemma iomove_read_ok:
  assumes "0 < n" "n \<le> unat (u_count s)" "off + n \<le> length d" and seg: "u_segflg s \<noteq> System"
    and ok: "\<forall>i<n. k_memok s (u_segflg s) (u_base s + of_nat i)" and "is_long (u_offset s)"
  shows "iomove d off n B_READ s =
    (d, advance n (store_bytes (u_segflg s) (u_base s) (take n (drop off d)) s))"
proof (cases "even n \<and> even off \<and> even (unat (u_base s))")
  case True
  then have n: "2 * (n div 2) = n" by simp
  have "copyout d off (u_segflg s) (u_base s) (n div 2) s =
      (True, store_bytes (u_segflg s) (u_base s) (take n (drop off d)) s)"
    using copyout_ok [of "n div 2" s "u_segflg s" "u_base s" off d] ok assms(3) by (simp add: n)
  with True assms(1) seg show ?thesis by (simp add: iomove_def)
next
  case False
  with iomove_out_ok [OF seg assms(2,3) ok assms(6)] assms(1) show ?thesis
    by (auto simp: iomove_def)
qed

subsection \<open>The file as a sequence of bytes\<close>

text \<open>States that agree on the disk and on the addresses of the inode hold the same file.\<close>

definition same_file :: "nat \<Rightarrow> kern \<Rightarrow> kern \<Rightarrow> bool" where
  "same_file ip s t \<longleftrightarrow> k_blocks t = k_blocks s \<and> k_mount t = k_mount s \<and> k_bad t = k_bad s \<and>
     k_junk t = k_junk s \<and> length (k_inode t) = length (k_inode s) \<and>
     addr_of ip t = addr_of ip s \<and> i_dev (k_inode t ! ip) = i_dev (k_inode s ! ip)"

lemma same_file_inv: "same_file ip s t \<Longrightarrow> file_inv dev i ip t L = file_inv dev i ip s L"
  by (simp add: same_file_def file_inv_def fs_free_def fs_valid_def of_defs super_def)

lemma same_file_data: "same_file ip s t \<Longrightarrow> data_of dev ip t bn = data_of dev ip s bn"
  by (simp add: same_file_def of_defs)

lemma same_file_tree: "same_file ip s t \<Longrightarrow> tree_of dev ip t = tree_of dev ip s"
  by (simp add: same_file_def of_defs)

lemma same_file_sym: "same_file ip s t \<Longrightarrow> same_file ip t s"
  by (simp add: same_file_def)

definition fbyte :: "nat \<Rightarrow> nat \<Rightarrow> kern \<Rightarrow> int \<Rightarrow> u8" where
  "fbyte dev ip s k = data_of dev ip s (k div int BSIZE) ! nat (k mod int BSIZE)"

definition max_bytes :: int where
  "max_bytes = max_blocks * int BSIZE"

text \<open>Writing one data block.\<close>

lemma write_data_block:
  assumes inv: "file_inv dev i ip s L" and bn: "0 \<le> bn" "bn < max_blocks"
    and nb: "fblock (k_blocks s dev) (addr_of ip s) bn = nb" "nb \<noteq> 0" and d: "length d = BSIZE"
  shows "file_inv dev i ip (put_block dev (nb, d) s) L"
    and "tree_of dev ip (put_block dev (nb, d) s) = tree_of dev ip s"
    and "\<lbrakk>0 \<le> bn'; bn' < max_blocks\<rbrakk> \<Longrightarrow>
      data_of dev ip (put_block dev (nb, d) s) bn' = (if bn' = bn then d else data_of dev ip s bn')"
proof -
  let ?t = "put_block dev (nb, d) s"
  let ?blk = "(k_blocks s dev)(nb := d)"
  obtain j p where l: "locate bn = (j, p)" by (cases "locate bn")
  note v = locate_vpos [OF bn l]
  have n: "node (k_blocks s dev) (addr_of ip s) j (depth j) p = nb" using nb l by (simp add: fblock_def)
  have ns: "no_sharing (k_blocks s dev) (addr_of ip s)" using inv by (simp add: file_inv_def)
  have N: "node ?blk (addr_of ip s) j' k' p' = node (k_blocks s dev) (addr_of ip s) j' k' p'"
    if "vpos j' k' p'" for j' k' p'
    by (rule node_write_leaf [OF ns v n nb(2) that])
  have blk: "k_blocks ?t dev = ?blk" by (simp add: put_block_def)
  have "tree_blocks ?blk (addr_of ip s) = tree_blocks (k_blocks s dev) (addr_of ip s)"
    unfolding tree_blocks_def using N by metis
  then show tree: "tree_of dev ip ?t = tree_of dev ip s" by (simp add: tree_of_def blk)
  have "no_sharing ?blk (addr_of ip s)"
    using ns N unfolding no_sharing_def by (metis (no_types, lifting))
  moreover have "nb \<in> tree_of dev ip s" using tree_blocksI [OF v] n nb(2) by (auto simp: tree_of_def)
  then have "nb \<notin> set L" using inv by (auto simp: file_inv_def)
  then have "fs_free dev ?t i L" using inv by (simp add: file_inv_def fs_free_write)
  ultimately show "file_inv dev i ip ?t L"
    using inv d by (simp add: file_inv_def tree blk fs_valid_def)
  assume bn': "0 \<le> bn'" "bn' < max_blocks"
  obtain j' p' where l': "locate bn' = (j', p')" by (cases "locate bn'")
  note v' = locate_vpos [OF bn' l']
  have "bn' = bn" if "node (k_blocks s dev) (addr_of ip s) j' (depth j') p' = nb"
    using no_sharingD [OF ns v v'] that n nb(2) locate_inject [OF bn(1) bn'(1)] l l' by simp
  then show "data_of dev ip ?t bn' = (if bn' = bn then d else data_of dev ip s bn')"
    using N [OF v'] N [OF v] l l' n nb(2)
    by (auto simp: data_of_def fdata_def fblock_def blk Let_def)
qed

lemma bmap_eraseD:
  assumes E: "bmap_erase ip s = bmap_erase ip t" and ip: "ip < length (k_inode s)"
  shows "u_base t = u_base s" "u_count t = u_count s" "u_offset t = u_offset s" "u_segflg t = u_segflg s"
    "k_mem t = k_mem s" "k_memok t = k_memok s" "u_dent t = u_dent s" "u_error t = u_error s"
    "i_mode (k_inode t ! ip) = i_mode (k_inode s ! ip)" "i_size (k_inode t ! ip) = i_size (k_inode s ! ip)"
    "k_resid t = k_resid s"
proof -
  show "k_resid t = k_resid s" using arg_cong [OF E, of k_resid] by (simp add: bmap_erase_def)
  show "u_base t = u_base s" using arg_cong [OF E, of u_base] by (simp add: bmap_erase_def)
  show "u_count t = u_count s" using arg_cong [OF E, of u_count] by (simp add: bmap_erase_def)
  show "u_offset t = u_offset s" using arg_cong [OF E, of u_offset] by (simp add: bmap_erase_def)
  show "u_segflg t = u_segflg s" using arg_cong [OF E, of u_segflg] by (simp add: bmap_erase_def)
  show "k_mem t = k_mem s" using arg_cong [OF E, of k_mem] by (simp add: bmap_erase_def)
  show "k_memok t = k_memok s" using arg_cong [OF E, of k_memok] by (simp add: bmap_erase_def)
  show "u_dent t = u_dent s" using arg_cong [OF E, of u_dent] by (simp add: bmap_erase_def)
  show "u_error t = u_error s" using arg_cong [OF E, of u_error] by (simp add: bmap_erase_def)
  have I: "(k_inode s)[ip := (k_inode s ! ip)\<lparr>i_addr := [], i_flag := {}\<rparr>] =
      (k_inode t)[ip := (k_inode t ! ip)\<lparr>i_addr := [], i_flag := {}\<rparr>]"
    using arg_cong [OF E, of k_inode] by (simp add: bmap_erase_def)
  have len: "ip < length (k_inode t)" using arg_cong [OF I, of length] ip by simp
  have N: "(k_inode s ! ip)\<lparr>i_addr := [], i_flag := {}\<rparr> = (k_inode t ! ip)\<lparr>i_addr := [], i_flag := {}\<rparr>"
    using arg_cong [OF I, of "\<lambda>xs. xs ! ip"] ip len by simp
  show "i_mode (k_inode t ! ip) = i_mode (k_inode s ! ip)" using arg_cong [OF N, of i_mode] by simp
  show "i_size (k_inode t ! ip) = i_size (k_inode s ! ip)" using arg_cong [OF N, of i_size] by simp
qed

text \<open>The state \<open>t\<close> after \<open>n\<close> bytes of the process have been written to the file.\<close>

definition written :: "nat \<Rightarrow> nat \<Rightarrow> nat \<Rightarrow> kern \<Rightarrow> int list \<Rightarrow> nat \<Rightarrow> kern \<Rightarrow> int list \<Rightarrow> bool" where
  "written dev i ip s L n t M \<longleftrightarrow> file_inv dev i ip t M \<and>
     tree_of dev ip t \<union> set M = tree_of dev ip s \<union> set L \<and>
     (\<forall>b. b \<notin> tree_of dev ip s \<union> set L \<longrightarrow> k_blocks t dev b = k_blocks s dev b) \<and>
     u_base t = u_base s + of_nat n \<and> u_count t = u_count s - of_nat n \<and>
     u_offset t = u_offset s + int n \<and> u_segflg t = u_segflg s \<and> k_mem t = k_mem s \<and>
     k_memok t = k_memok s \<and> u_dent t = u_dent s \<and> u_error t = None \<and>
     k_resid t = k_resid s \<and> i_mode (k_inode t ! ip) = i_mode (k_inode s ! ip) \<and>
     i_size (k_inode t ! ip) = max (i_size (k_inode s ! ip)) (u_offset s + int n) \<and>
     (\<forall>k. 0 \<le> k \<longrightarrow> k < max_bytes \<longrightarrow> fbyte dev ip t k =
        (if u_offset s \<le> k \<and> k < u_offset s + int n
         then src_byte s (u_base s + of_nat (nat (k - u_offset s))) else fbyte dev ip s k))"

lemma written_src: "written dev i ip s L n t M \<Longrightarrow> src_byte t a = src_byte s a \<and> src_ok t a = src_ok s a"
  by (simp add: written_def src_byte_def src_ok_def)

lemma written_trans:
  assumes a: "written dev i ip s L n t M" and b: "written dev i ip t M m r N"
  shows "written dev i ip s L (n + m) r N"
proof -
  have "fbyte dev ip r k = (if u_offset s \<le> k \<and> k < u_offset s + int (n + m)
      then src_byte s (u_base s + of_nat (nat (k - u_offset s))) else fbyte dev ip s k)"
    if k: "0 \<le> k" "k < max_bytes" for k
  proof (cases "u_offset t \<le> k \<and> k < u_offset t + int m")
    case True
    have o: "u_offset t = u_offset s + int n" "u_base t = u_base s + of_nat n" using a by (simp_all add: written_def)
    have "nat (k - u_offset s) = n + nat (k - u_offset t)" using True o by linarith
    then have "u_base t + of_nat (nat (k - u_offset t)) = u_base s + of_nat (nat (k - u_offset s))"
      using o(2) by (simp add: add.assoc)
    moreover have "fbyte dev ip r k = src_byte s (u_base t + of_nat (nat (k - u_offset t)))"
      using b True k written_src [OF a] by (simp add: written_def)
    ultimately show ?thesis using True o by simp
  next
    case False
    then have "fbyte dev ip r k = fbyte dev ip t k" using b k by (auto simp: written_def)
    moreover have "u_offset t = u_offset s + int n" using a by (simp add: written_def)
    ultimately show ?thesis using a k False by (auto simp: written_def)
  qed
  moreover have "k_blocks r dev b = k_blocks s dev b" if "b \<notin> tree_of dev ip s \<union> set L" for b
    using a b that unfolding written_def by metis
  ultimately show ?thesis
    using a b unfolding written_def by (auto simp: max_def add.assoc)
qed

lemma fbyte_block:
  assumes "0 \<le> k" "k < max_bytes"
  shows "0 \<le> k div int BSIZE" "k div int BSIZE < max_blocks" "nat (k mod int BSIZE) < BSIZE"
  using assms by (auto simp: max_bytes_def max_blocks_def BSIZE_def pos_imp_zdiv_nonneg_iff nat_less_iff)

lemma data_of_length: "file_inv dev i ip s L \<Longrightarrow> length (data_of dev ip s bn) = BSIZE"
  by (auto simp: data_of_def fdata_def Let_def file_inv_def zero_block_def)

text \<open>The bytes of a block after one \<open>iomove\<close> into it.\<close>

lemma put_list_bytes:
  assumes o: "0 \<le> off" "on = nat (off mod int BSIZE)" "bn = off div int BSIZE"
    and n: "n \<le> BSIZE - on" and d: "length d = BSIZE"
    and k: "0 \<le> k" "k div int BSIZE = bn" and bs: "length bs = n"
  shows "put_list d on bs ! nat (k mod int BSIZE) =
    (if off \<le> k \<and> k < off + int n then bs ! nat (k - off) else d ! nat (k mod int BSIZE))"
proof -
  have e: "k = bn * int BSIZE + k mod int BSIZE" "off = bn * int BSIZE + off mod int BSIZE"
    using k o by (metis div_mult_mod_eq)+
  have m: "0 \<le> k mod int BSIZE" "0 \<le> off mod int BSIZE" "k mod int BSIZE < int BSIZE" "off mod int BSIZE < int BSIZE"
    by (simp_all add: BSIZE_def)
  define x y where "x = nat (k mod int BSIZE)" and "y = nat (off mod int BSIZE)"
  have xy: "k mod int BSIZE = int x" "off mod int BSIZE = int y" "x < BSIZE" "y < BSIZE"
    using m by (simp_all add: x_def y_def nat_less_iff)
  have "k - off = int x - int y" using e xy by linarith
  then have c: "(off \<le> k \<and> k < off + int n) = (y \<le> x \<and> x < y + n)" "y \<le> x \<Longrightarrow> nat (k - off) = x - y"
    by auto
  have "y + length bs \<le> length d" using n bs d xy(4) o(2) by (simp add: y_def)
  then have "put_list d y bs ! x = (if y \<le> x \<and> x < y + n then bs ! (x - y) else d ! x)"
    using nth_put_list [of y bs d x] bs d xy(3) by simp
  then show ?thesis
    unfolding o(2) x_def [symmetric] y_def [symmetric] c(1) using c(2) by auto
qed

lemma writei_block_ok:
  assumes inv: "file_inv dev i ip s L" and ty: "ty = IFREG \<or> ty = IFDIR"
    and off: "0 \<le> u_offset s" "u_offset s + int n \<le> max_bytes" and err: "u_error s = None"
    and on: "on = nat (u_offset s mod int BSIZE)" "bn = u_offset s div int BSIZE"
    and n: "0 < n" "n \<le> BSIZE - on" "n \<le> unat (u_count s)"
    and ok: "\<forall>i<n. src_ok s (u_base s + of_nat i)"
    and nb: "fblock (k_blocks s dev) (addr_of ip s) bn = nb" "nb \<noteq> 0"
  shows "\<exists>t. writei_block ip dev nb on n ty s = (u_count t \<noteq> 0, t) \<and> written dev i ip s L n t L"
proof -
  have bn: "0 \<le> bn" "bn < max_blocks"
    using fbyte_block [of "u_offset s"] off n(1) on(2) by simp_all
  have ip: "ip < length (k_inode s)" and len: "\<forall>b. length (k_blocks s dev b) = BSIZE" "length (k_junk s dev nb) = BSIZE"
    using inv by (auto simp: file_inv_def fs_free_def)
  obtain j p where l: "locate bn = (j, p)" by (cases "locate bn")
  have tree: "nb \<in> tree_of dev ip s"
    using tree_blocksI [OF locate_vpos [OF bn l]] nb l by (auto simp: fblock_def tree_of_def)
  then have good: "\<not> k_bad s dev nb" using inv by (auto simp: file_inv_def fs_valid_def)
  define d0 where "d0 = (if n = BSIZE then k_junk s dev nb else k_blocks s dev nb)"
  define d where "d = put_list d0 on (src_bytes s n)"
  have d0: "length d0 = BSIZE" using len by (simp add: d0_def)
  have onB: "on + n \<le> BSIZE" using n(1,2) by simp
  have long: "is_long (u_offset s)" "is_long (u_offset s + int n)"
    using off n(1) by (auto simp: is_long_def max_bytes_def max_blocks_def BSIZE_def)
  have io: "iomove d0 on n B_WRITE s = (d, advance n s)"
    using iomove_write_ok [OF n(1,3) _ ok long(1), of on d0] onB d0 by (simp add: d_def)
  define s1 where "s1 = put_block dev (nb, d) (advance n s)"
  define t where "t = upd_inode ip (add_flags {IUPD, ICHG})
    (if i_size (k_inode s1 ! ip) < u_offset s1 then upd_inode ip (\<lambda>m. m\<lparr>i_size := u_offset s1\<rparr>) s1 else s1)"
  have s1: "u_base s1 = u_base s + of_nat n" "u_count s1 = u_count s - of_nat n" "u_offset s1 = u_offset s + int n"
    "u_segflg s1 = u_segflg s" "k_mem s1 = k_mem s" "k_memok s1 = k_memok s" "u_dent s1 = u_dent s"
    "u_error s1 = None" "k_inode s1 = k_inode s" "k_resid s1 = k_resid s"
    using err long(2) by (simp_all add: s1_def put_block_def wrap32_id)
  have wb: "writei_block ip dev nb on n ty s = (u_count t \<noteq> 0, t)"
    using io good err ty
    by (auto simp: writei_block_def Let_def d0_def getblk_def bread_def t_def s1_def bdwrite_def upd_inode_def)
  have t: "same_file ip s1 t" "i_mode (k_inode t ! ip) = i_mode (k_inode s ! ip)"
    "i_size (k_inode t ! ip) = max (i_size (k_inode s ! ip)) (u_offset s + int n)"
    using ip s1 by (auto simp: t_def same_file_def max_def)
  have tu: "u_base t = u_base s1" "u_count t = u_count s1" "u_offset t = u_offset s1" "u_segflg t = u_segflg s1"
    "k_mem t = k_mem s1" "k_memok t = k_memok s1" "u_dent t = u_dent s1" "u_error t = u_error s1"
    "k_resid t = k_resid s1"
    by (simp_all add: t_def upd_inode_def)
  have sf: "same_file ip s (advance n s)" by (simp add: same_file_def)
  have inv': "file_inv dev i ip (advance n s) L" using same_file_inv [OF sf] inv by simp
  have nb': "fblock (k_blocks (advance n s) dev) (addr_of ip (advance n s)) bn = nb" using nb by simp
  have dlen: "length d = BSIZE" using onB d0 by (simp add: d_def src_bytes_def)
  note w = write_data_block [OF inv' bn nb' nb(2) dlen]
  have dat: "data_of dev ip t bn' = (if bn' = bn then d else data_of dev ip s bn')"
    if "0 \<le> bn'" "bn' < max_blocks" for bn'
    using w(3) [OF that] same_file_data [OF t(1)] same_file_data [OF sf] by (simp add: s1_def)
  have d0dat: "d0 ! x = data_of dev ip s bn ! x" if "n \<noteq> BSIZE" for x
    using that nb by (simp add: d0_def data_of_def fdata_def)
  have bytes: "fbyte dev ip t k = (if u_offset s \<le> k \<and> k < u_offset s + int n
      then src_byte s (u_base s + of_nat (nat (k - u_offset s))) else fbyte dev ip s k)"
    if k: "0 \<le> k" "k < max_bytes" for k
  proof (cases "k div int BSIZE = bn")
    case True
    have "d ! nat (k mod int BSIZE) = (if u_offset s \<le> k \<and> k < u_offset s + int n
        then src_bytes s n ! nat (k - u_offset s) else d0 ! nat (k mod int BSIZE))"
      unfolding d_def
      by (rule put_list_bytes [OF off(1) on n(2) d0 k(1) True]) (simp add: src_bytes_def)
    moreover have "u_offset s \<le> k \<and> k < u_offset s + int n" if "n = BSIZE"
    proof -
      have "on = 0" using n(2) that by (simp add: BSIZE_def)
      then have "u_offset s mod int BSIZE = 0" using on(1) by (simp add: BSIZE_def nat_eq_iff)
      then have "k = u_offset s + k mod int BSIZE"
        using True on(2) div_mult_mod_eq [of k "int BSIZE"] div_mult_mod_eq [of "u_offset s" "int BSIZE"] by simp
      moreover have "0 \<le> k mod int BSIZE" "k mod int BSIZE < int BSIZE" by (simp_all add: BSIZE_def)
      ultimately show ?thesis using that by linarith
    qed
    ultimately show ?thesis
      using True dat [of bn] bn d0dat by (auto simp: fbyte_def src_bytes_def)
  next
    case False
    have "\<not> (u_offset s \<le> k \<and> k < u_offset s + int n)"
    proof
      assume a: "u_offset s \<le> k \<and> k < u_offset s + int n"
      have "u_offset s mod int BSIZE = int on" using on(1) by (simp add: BSIZE_def)
      then have "u_offset s = bn * int BSIZE + int on" using on(2) by (metis div_mult_mod_eq)
      then have "bn * int BSIZE \<le> k" "k < bn * int BSIZE + int BSIZE" using a onB by linarith+
      then show False using False by (simp add: BSIZE_def)
    qed
    with False dat [of "k div int BSIZE"] fbyte_block [OF k] show ?thesis by (auto simp: fbyte_def)
  qed
  have "tree_of dev ip t = tree_of dev ip s"
    using w(2) same_file_tree [OF t(1)] same_file_tree [OF sf] by (simp add: s1_def)
  moreover have "k_blocks t dev b = k_blocks s dev b" if "b \<notin> tree_of dev ip s \<union> set L" for b
  proof -
    have "b \<noteq> nb" using that tree by auto
    then show ?thesis using t(1) by (simp add: same_file_def s1_def)
  qed
  moreover have "file_inv dev i ip t L" using w(1) same_file_inv [OF t(1)] by (simp add: s1_def)
  ultimately have "written dev i ip s L n t L"
    unfolding written_def using t(2,3) tu s1 bytes by simp
  with wb show ?thesis by blast
qed

text \<open>One round of the loop: \<open>bmap\<close> and the block.\<close>

lemma writei_round:
  assumes inv: "file_inv dev i ip s L" and L: "4 \<le> length L" and ty: "ty = IFREG \<or> ty = IFDIR"
    and off: "0 \<le> u_offset s" "u_offset s + int (unat (u_count s)) \<le> max_bytes"
    and err: "u_error s = None" and c: "u_count s \<noteq> 0"
    and ok: "\<forall>i<unat (u_count s). src_ok s (u_base s + of_nat i)"
  shows "\<exists>n t M. 0 < n \<and> n = min (BSIZE - nat (u_offset s mod int BSIZE)) (unat (u_count s)) \<and>
    writei_loop (Suc f) ip dv ty s = (if u_count t \<noteq> 0 then writei_loop f ip dv ty t else Inr ((), t)) \<and>
    written dev i ip s L n t M \<and> length L \<le> length M + 4"
proof -
  define bn on n where "bn = u_offset s div int BSIZE" and "on = nat (u_offset s mod int BSIZE)"
    and "n = min (BSIZE - on) (unat (u_count s))"
  have on: "on < BSIZE" by (simp add: on_def BSIZE_def nat_less_iff)
  have cpos: "0 < unat (u_count s)" using c by (simp add: unat_gt_0)
  then have n: "0 < n" "n \<le> BSIZE - on" "n \<le> unat (u_count s)" using on by (auto simp: n_def)
  have bn: "0 \<le> bn" "bn < max_blocks"
    using fbyte_block [of "u_offset s"] off cpos by (simp_all add: bn_def)
  have ip: "ip < length (k_inode s)" using inv by (simp add: file_inv_def)
  obtain nb s1 M where b: "bmap ip bn B_WRITE s = Inr (nb, s1)" "nb \<noteq> 0" "grown dev i ip s L s1 M"
    "fblock (k_blocks s1 dev) (addr_of ip s1) bn = nb" "length L \<le> length M + 4"
    using bmap_write_ok [OF inv L bn] by blast
  have inv1: "file_inv dev i ip s1 M" and dev: "i_dev (k_inode s1 ! ip) = dev"
    using b(3) by (auto simp: grown_def file_inv_def)
  have E: "bmap_erase ip s = bmap_erase ip s1" using b(3) by (simp add: grown_def)
  note u = bmap_eraseD [OF E ip]
  have src: "src_byte s1 a = src_byte s a" "src_ok s1 a = src_ok s a" for a
    using u by (simp_all add: src_byte_def src_ok_def)
  have ok1: "\<forall>i<n. src_ok s1 (u_base s1 + of_nat i)" using ok n(3) u(1) src by simp
  obtain t where t: "writei_block ip dev nb on n ty s1 = (u_count t \<noteq> 0, t)" "written dev i ip s1 M n t M"
    using writei_block_ok [OF inv1 ty _ _ _ _ _ n(1,2) _ ok1 b(4,2)] off n(3) err u
    by (auto simp: on_def bn_def)
  obtain j p where l: "locate bn = (j, p)" by (cases "locate bn")
  have "nb \<in> tree_of dev ip s1"
    using tree_blocksI [OF locate_vpos [OF bn l]] b(2,4) l by (auto simp: fblock_def tree_of_def)
  then have "0 < nb" using inv1 fs_valid_nonzero [of dev s1 i M nb] by (auto simp: file_inv_def)
  moreover have "ty \<noteq> IFBLK" "ty \<noteq> IFMPB" using ty by (auto simp: mode_consts)
  ultimately have "writei_loop (Suc f) ip dv ty s =
      (if u_count t \<noteq> 0 then writei_loop f ip dv ty t else Inr ((), t))"
    using b(1) t(1) dev by (simp add: Let_def bn_def [symmetric] on_def [symmetric] n_def [symmetric])
  moreover have g: "data_of dev ip s1 x = data_of dev ip s x" if "0 \<le> x" "x < max_blocks" for x
    using b(3) that by (simp add: grown_def)
  have "fbyte dev ip s1 k = fbyte dev ip s k" if "0 \<le> k" "k < max_bytes" for k
    using g fbyte_block [OF that] by (simp add: fbyte_def)
  then have "written dev i ip s L n t M"
    using t(2) b(3) u src unfolding written_def grown_def by auto
  ultimately show ?thesis using n(1) b(5) n_def on_def by blast
qed

text \<open>The number of blocks that a transfer touches.\<close>

definition rounds :: "kern \<Rightarrow> nat" where
  "rounds s = (nat (u_offset s mod int BSIZE) + unat (u_count s) + 511) div 512"

lemma rounds_pos: "u_count s \<noteq> 0 \<Longrightarrow> 0 < rounds s"
  using unat_gt_0 [of "u_count s"] by (simp add: rounds_def div_greater_zero_iff)

lemma rounds_step:
  assumes n: "n = min (BSIZE - nat (u_offset s mod int BSIZE)) (unat (u_count s))"
    and t: "u_offset t = u_offset s + int n" "unat (u_count t) = unat (u_count s) - n" "u_count t \<noteq> 0"
  shows "rounds s = Suc (rounds t)"
proof -
  define on where "on = nat (u_offset s mod int BSIZE)"
  have on: "on < 512" "u_offset s mod 512 = int on" by (simp_all add: on_def BSIZE_def nat_less_iff)
  have "0 < unat (u_count t)" using t(3) by (simp add: unat_gt_0)
  then have n': "n = 512 - on" using n t(2) by (auto simp: on_def BSIZE_def min_def split: if_splits)
  have "u_offset t mod 512 = (u_offset s mod 512 + int n) mod 512" using t(1) by (simp add: mod_add_left_eq)
  then have z: "u_offset t mod 512 = 0" using n' on by simp
  have "on + unat (u_count s) + 511 = unat (u_count t) + 511 + 512"
    using t(2) n' on(1) \<open>0 < unat (u_count t)\<close> by simp
  then show ?thesis using z by (simp add: rounds_def BSIZE_def on_def)
qed

lemma rounds_le: "rounds s \<le> unat (u_count s) div 512 + 2"
proof -
  have "nat (u_offset s mod int BSIZE) \<le> 511" by (simp add: BSIZE_def nat_le_iff)
  then show ?thesis by (simp add: rounds_def)
qed

lemma unat_sub_of_nat:
  assumes "n \<le> unat (c :: u16)"
  shows "unat (c - of_nat n) = unat c - n"
proof -
  have "unat (of_nat n :: u16) = n" using assms unat_u16_less [of c] by (intro unat_of_nat_u16) simp
  with assms show ?thesis by (simp add: unat_sub_nowrap)
qed

lemma writei_loop_ok:
  "\<lbrakk>file_inv dev i ip s L; 4 * rounds s \<le> length L; ty = IFREG \<or> ty = IFDIR;
    0 \<le> u_offset s; u_offset s + int (unat (u_count s)) \<le> max_bytes; u_error s = None; u_count s \<noteq> 0;
    \<forall>i<unat (u_count s). src_ok s (u_base s + of_nat i); unat (u_count s) \<le> f\<rbrakk> \<Longrightarrow>
   \<exists>t M. writei_loop f ip dv ty s = Inr ((), t) \<and> written dev i ip s L (unat (u_count s)) t M"
proof (induction f arbitrary: s L)
  case 0
  then show ?case by (simp add: unat_eq_0)
next
  case (Suc f)
  have L: "4 \<le> length L" using Suc.prems(2) rounds_pos [OF Suc.prems(7)] by linarith
  obtain n t M where t: "0 < n" "n = min (BSIZE - nat (u_offset s mod int BSIZE)) (unat (u_count s))"
    "writei_loop (Suc f) ip dv ty s = (if u_count t \<noteq> 0 then writei_loop f ip dv ty t else Inr ((), t))"
    "written dev i ip s L n t M" "length L \<le> length M + 4"
    using writei_round [OF Suc.prems(1) L Suc.prems(3-8)] by blast
  have n: "n \<le> unat (u_count s)" using t(2) by simp
  then have ct: "unat (u_count t) = unat (u_count s) - n"
    using t(4) unat_sub_of_nat by (simp add: written_def)
  show ?case
  proof (cases "u_count t = 0")
    case True
    then have "n = unat (u_count s)" using ct n by simp
    with True t(3,4) show ?thesis by auto
  next
    case False
    have inv: "file_inv dev i ip t M" and o: "u_offset t = u_offset s + int n" and e: "u_error t = None"
      and bs: "u_base t = u_base s + of_nat n"
      using t(4) by (simp_all add: written_def)
    have ok: "\<forall>j<unat (u_count t). src_ok t (u_base t + of_nat j)"
    proof (intro allI impI)
      fix j assume "j < unat (u_count t)"
      then have "n + j < unat (u_count s)" using ct by simp
      then have "src_ok s (u_base s + of_nat (n + j))" using Suc.prems(8) by blast
      then show "src_ok t (u_base t + of_nat j)" using written_src [OF t(4)] bs by (simp add: add.assoc)
    qed
    have r: "4 * rounds t \<le> length M" using rounds_step [OF t(2) o ct False] Suc.prems(2) t(5) by linarith
    have m: "u_offset t + int (unat (u_count t)) \<le> max_bytes" using Suc.prems(5) o ct n by simp
    have p: "0 \<le> u_offset t" "unat (u_count t) \<le> f" using Suc.prems(4,9) o ct t(1) n by linarith+
    obtain r N where "writei_loop f ip dv ty t = Inr ((), r)" "written dev i ip t M (unat (u_count t)) r N"
      using Suc.IH [OF inv r Suc.prems(3) p(1) m e False ok p(2)] by blast
    with written_trans [OF t(4)] False t(3) ct n show ?thesis by fastforce
  qed
qed

subsection \<open>Reading back\<close>

definition file_bytes :: "nat \<Rightarrow> nat \<Rightarrow> kern \<Rightarrow> int \<Rightarrow> nat \<Rightarrow> u8 list" where
  "file_bytes dev ip s off n = map (\<lambda>i. fbyte dev ip s (off + int i)) [0..<n]"

text \<open>The state \<open>t\<close> after \<open>n\<close> bytes of the file have been given to the process.\<close>

definition readout :: "nat \<Rightarrow> nat \<Rightarrow> kern \<Rightarrow> nat \<Rightarrow> kern \<Rightarrow> bool" where
  "readout dev ip s n t \<longleftrightarrow> same_file ip s t \<and> k_resid t = k_resid s \<and>
     i_size (k_inode t ! ip) = i_size (k_inode s ! ip) \<and> i_mode (k_inode t ! ip) = i_mode (k_inode s ! ip) \<and>
     u_base t = u_base s + of_nat n \<and> u_count t = u_count s - of_nat n \<and> u_offset t = u_offset s + int n \<and>
     u_segflg t = u_segflg s \<and> k_memok t = k_memok s \<and> u_error t = None \<and>
     k_mem t = k_mem (store_bytes (u_segflg s) (u_base s) (file_bytes dev ip s (u_offset s) n) s)"

lemma store_bytes_append:
  "store_bytes sg a (xs @ ys) s = store_bytes sg (a + of_nat (length xs)) ys (store_bytes sg a xs s)"
  by (induction xs arbitrary: a s) (simp_all add: add.assoc)

lemma k_mem_store_bytes_cong:
  "k_mem s = k_mem t \<Longrightarrow> k_mem (store_bytes sg a cs s) = k_mem (store_bytes sg a cs t)"
  by (induction cs arbitrary: a s t) (simp_all add: store_byte_def)

lemma same_file_fbyte: "same_file ip s t \<Longrightarrow> fbyte dev ip t k = fbyte dev ip s k"
  by (simp add: fbyte_def same_file_data)

lemma readout_trans:
  assumes a: "readout dev ip s n t" and b: "readout dev ip t m r"
  shows "readout dev ip s (n + m) r"
proof -
  have "file_bytes dev ip t (u_offset t) m = map (\<lambda>i. fbyte dev ip s (u_offset s + int n + int i)) [0..<m]"
    using a same_file_fbyte [of ip s t dev] by (simp add: readout_def file_bytes_def)
  moreover have "[0..<n + m] = [0..<n] @ map (\<lambda>i. i + n) [0..<m]"
    using map_add_upt [of n m] upt_add_eq_append [of 0 n m] by (simp add: add.commute)
  ultimately have "file_bytes dev ip s (u_offset s) (n + m) =
      file_bytes dev ip s (u_offset s) n @ file_bytes dev ip t (u_offset t) m"
    by (simp add: file_bytes_def add.assoc add.commute add.left_commute)
  then have "k_mem r = k_mem (store_bytes (u_segflg s) (u_base s) (file_bytes dev ip s (u_offset s) (n + m)) s)"
    using a b k_mem_store_bytes_cong [of t]
    by (simp add: store_bytes_append readout_def) (simp add: file_bytes_def)
  with a b show ?thesis by (auto simp: readout_def same_file_def add.assoc)
qed

lemma block_slice:
  assumes o: "0 \<le> off" "on = nat (off mod int BSIZE)" "bn = off div int BSIZE"
    and n: "n \<le> BSIZE - on" and d: "length (data_of dev ip s bn) = BSIZE"
  shows "take n (drop on (data_of dev ip s bn)) = file_bytes dev ip s off n"
proof (rule nth_equalityI)
  have on: "int on = off mod int BSIZE" "on < BSIZE" using o(2) by (simp_all add: BSIZE_def nat_less_iff)
  show "length (take n (drop on (data_of dev ip s bn))) = length (file_bytes dev ip s off n)"
    using n d by (simp add: file_bytes_def)
  fix i assume "i < length (take n (drop on (data_of dev ip s bn)))"
  then have i: "i < n" "on + i < BSIZE" using n d by auto
  have e: "off + int i = bn * int BSIZE + int (on + i)" using on(1) o(3) by (metis add.assoc div_mult_mod_eq of_nat_add)
  have "(off + int i) div int BSIZE = bn" "(off + int i) mod int BSIZE = int (on + i)"
    unfolding e using i(2) by (simp_all add: BSIZE_def)
  then have "fbyte dev ip s (off + int i) = data_of dev ip s bn ! (on + i)"
    by (simp add: fbyte_def nat_add_distrib)
  then show "take n (drop on (data_of dev ip s bn)) ! i = file_bytes dev ip s off n ! i"
    using i n d by (simp add: file_bytes_def)
qed

lemma store_bytes_sel2 [simp]:
  "k_inode (store_bytes sg a cs s) = k_inode s" "k_blocks (store_bytes sg a cs s) = k_blocks s"
  "k_mount (store_bytes sg a cs s) = k_mount s" "k_bad (store_bytes sg a cs s) = k_bad s"
  "k_junk (store_bytes sg a cs s) = k_junk s" "k_resid (store_bytes sg a cs s) = k_resid s"
  by (induction cs arbitrary: a s) (simp_all add: store_byte_def)

lemma readi_block_ok:
  assumes inv: "file_inv dev i ip s L" and off: "0 \<le> u_offset s" "u_offset s + int n \<le> max_bytes"
    and err: "u_error s = None" and on: "on = nat (u_offset s mod int BSIZE)" "lbn = u_offset s div int BSIZE"
    and n: "0 < n" "n \<le> BSIZE - on" "n \<le> unat (u_count s)"
    and seg: "u_segflg s \<noteq> System" and ok: "\<forall>i<n. k_memok s (u_segflg s) (u_base s + of_nat i)"
    and res: "\<forall>b. k_resid s dev b = 0"
    and bn: "bn = (let b = fblock (k_blocks s dev) (addr_of ip s) lbn in if b = 0 then -1 else b)"
  shows "\<exists>t. readi_block ip dev lbn bn on n s = (u_count t \<noteq> 0, t) \<and> readout dev ip s n t"
proof -
  have lbn: "0 \<le> lbn" "lbn < max_blocks"
    using fbyte_block [of "u_offset s"] off n(1) on(2) by simp_all
  have ip: "ip < length (k_inode s)" using inv by (simp add: file_inv_def)
  have dlen: "length (data_of dev ip s lbn) = BSIZE" by (rule data_of_length [OF inv])
  obtain j p where l: "locate lbn = (j, p)" by (cases "locate lbn")
  have rd: "(if bn < 0 then (zero_block, 0, s) else bread_bytes dev bn s) = (data_of dev ip s lbn, 0, s)"
  proof (cases "fblock (k_blocks s dev) (addr_of ip s) lbn = 0")
    case True
    then show ?thesis using bn by (simp add: data_of_def fdata_def)
  next
    case False
    then have "fblock (k_blocks s dev) (addr_of ip s) lbn \<in> tree_of dev ip s"
      using tree_blocksI [OF locate_vpos [OF lbn l]] l by (auto simp: fblock_def tree_of_def)
    then have "fs_valid dev i s bn" "bn = fblock (k_blocks s dev) (addr_of ip s) lbn"
      using inv bn False by (auto simp: file_inv_def)
    moreover have "0 < bn" using calculation(1) inv fs_valid_nonzero by (auto simp: file_inv_def)
    ultimately show ?thesis
      using False res by (simp add: bread_bytes_def bread_def fs_valid_def data_of_def fdata_def)
  qed
  define s1 where "s1 = upd_inode ip (\<lambda>m. m\<lparr>i_lastr := lbn\<rparr>) s"
  define t where "t = advance n (store_bytes (u_segflg s) (u_base s) (file_bytes dev ip s (u_offset s) n) s1)"
  have s1: "u_segflg s1 = u_segflg s" "u_base s1 = u_base s" "u_count s1 = u_count s" "u_offset s1 = u_offset s"
    "k_memok s1 = k_memok s" "u_error s1 = None" "k_mem s1 = k_mem s"
    using err by (simp_all add: s1_def upd_inode_def)
  have long: "is_long (u_offset s)" "is_long (u_offset s + int n)"
    using off n(1) by (auto simp: is_long_def max_bytes_def max_blocks_def BSIZE_def)
  have "iomove (data_of dev ip s lbn) on n B_READ s1 = (data_of dev ip s lbn, t)"
    using iomove_read_ok [of n s1 on "data_of dev ip s lbn"] n seg ok s1 dlen long(1)
      block_slice [OF off(1) on n(2), of dev ip s] dlen on(2)
    by (simp add: t_def)
  moreover have "n \<le> BSIZE" using n(2) by simp
  ultimately have "readi_block ip dev lbn bn on n s = (u_count t \<noteq> 0, t)"
    using rd n(1) err by (simp add: readi_block_def Let_def s1_def [symmetric] t_def s1(6))
  moreover have "same_file ip s t"
    using ip by (simp add: same_file_def t_def s1_def)
  then have "readout dev ip s n t"
    using long(2) ip s1 k_mem_store_bytes_cong [of s1 s]
    by (simp add: readout_def t_def wrap32_id) (simp add: s1_def upd_inode_def)
  ultimately show ?thesis by blast
qed

lemma readi_round:
  assumes inv: "file_inv dev i ip s L" and ty: "ty \<noteq> IFBLK" "ty \<noteq> IFMPB"
    and off: "0 \<le> u_offset s" "u_offset s < i_size (k_inode s ! ip)" "i_size (k_inode s ! ip) \<le> max_bytes"
    and err: "u_error s = None" and c: "u_count s \<noteq> 0" and seg: "u_segflg s \<noteq> System"
    and ok: "\<forall>i<unat (u_count s). k_memok s (u_segflg s) (u_base s + of_nat i)"
    and res: "\<forall>b. k_resid s dev b = 0"
  shows "\<exists>n t. 0 < n \<and> n \<le> unat (u_count s) \<and> u_offset s + int n \<le> i_size (k_inode s ! ip) \<and>
    readi_loop (Suc f) ip dv ty s = (if u_count t \<noteq> 0 then readi_loop f ip dv ty t else Inr ((), t)) \<and>
    readout dev ip s n t"
proof -
  define lbn on where "lbn = u_offset s div int BSIZE" and "on = nat (u_offset s mod int BSIZE)"
  define diff where "diff = i_size (k_inode s ! ip) - u_offset s"
  define n where "n = (if diff < int (min (BSIZE - on) (unat (u_count s))) then nat diff
    else min (BSIZE - on) (unat (u_count s)))"
  have on: "on < BSIZE" by (simp add: on_def BSIZE_def nat_less_iff)
  have "0 < unat (u_count s)" "0 < diff" using c off by (simp_all add: unat_gt_0 diff_def)
  then have n: "0 < n" "n \<le> BSIZE - on" "n \<le> unat (u_count s)" "int n \<le> diff"
    using on by (auto simp: n_def)
  have lbn: "0 \<le> lbn" "lbn < max_blocks"
    using fbyte_block [of "u_offset s"] off by (simp_all add: lbn_def)
  obtain ra where b: "bmap ip lbn B_READ s = Inr (let b = fblock (k_blocks s dev) (addr_of ip s) lbn in if b = 0 then -1 else b,
      s\<lparr>k_rablock := ra\<rparr>)"
    using bmap_read_ok [OF inv lbn] by blast
  let ?s = "s\<lparr>k_rablock := ra\<rparr>"
  have inv1: "file_inv dev i ip ?s L" using inv by simp
  have dev: "i_dev (k_inode s ! ip) = dev" using inv by (simp add: file_inv_def)
  have ok1: "\<forall>i<n. k_memok ?s (u_segflg ?s) (u_base ?s + of_nat i)" using ok n(3) by simp
  have offn: "u_offset s + int n \<le> max_bytes" using n(4) off(3) by (simp add: diff_def)
  define bn where "bn = (let b = fblock (k_blocks s dev) (addr_of ip s) lbn in if b = 0 then -1 else b)"
  obtain t where t: "readi_block ip dev lbn bn on n ?s = (u_count t \<noteq> 0, t)" "readout dev ip ?s n t"
    using readi_block_ok [OF inv1 _ _ _ _ _ n(1,2) _ _ ok1, of lbn bn] off(1) offn err n(3) seg res
    by (auto simp: on_def lbn_def bn_def)
  have "readi_loop (Suc f) ip dv ty s = (if u_count t \<noteq> 0 then readi_loop f ip dv ty t else Inr ((), t))"
    using b t(1) ty dev err \<open>0 < diff\<close>
    by (simp add: Let_def lbn_def [symmetric] on_def [symmetric] diff_def [symmetric] n_def [symmetric] bn_def)
  moreover have "readout dev ip s n t"
  proof -
    have "file_bytes dev ip ?s x n = file_bytes dev ip s x n" for x
      by (simp add: file_bytes_def fbyte_def of_defs)
    then show ?thesis using t(2) k_mem_store_bytes_cong [of ?s s]
      by (simp add: readout_def same_file_def)
  qed
  moreover have "u_offset s + int n \<le> i_size (k_inode s ! ip)" using n(4) by (simp add: diff_def)
  ultimately show ?thesis using n by blast
qed

lemma readi_loop_ok:
  "\<lbrakk>file_inv dev i ip s L; ty \<noteq> IFBLK; ty \<noteq> IFMPB; 0 \<le> u_offset s; i_size (k_inode s ! ip) \<le> max_bytes;
    u_error s = None; u_count s \<noteq> 0; u_segflg s \<noteq> System;
    \<forall>i<unat (u_count s). k_memok s (u_segflg s) (u_base s + of_nat i);
    \<forall>b. k_resid s dev b = 0; unat (u_count s) < f\<rbrakk> \<Longrightarrow>
   \<exists>t. readi_loop f ip dv ty s = Inr ((), t) \<and>
     readout dev ip s (min (unat (u_count s)) (nat (i_size (k_inode s ! ip) - u_offset s))) t"
proof (induction f arbitrary: s)
  case 0
  then show ?case by simp
next
  case (Suc f)
  show ?case
  proof (cases "u_offset s < i_size (k_inode s ! ip)")
    case False
    then have "readi_loop (Suc f) ip dv ty s = Inr ((), s)" using Suc.prems(2,3) by (simp add: Let_def)
    moreover have "readout dev ip s 0 s" using Suc.prems(6) by (simp add: readout_def same_file_def file_bytes_def)
    ultimately show ?thesis using False by auto
  next
    case True
    obtain n t where t: "0 < n" "n \<le> unat (u_count s)" "u_offset s + int n \<le> i_size (k_inode s ! ip)"
      "readi_loop (Suc f) ip dv ty s = (if u_count t \<noteq> 0 then readi_loop f ip dv ty t else Inr ((), t))"
      "readout dev ip s n t"
      using readi_round [OF Suc.prems(1-4) True Suc.prems(5-10)] by blast
    have ct: "unat (u_count t) = unat (u_count s) - n"
      using t(2,5) unat_sub_of_nat by (simp add: readout_def)
    show ?thesis
    proof (cases "u_count t = 0")
      case z: True
      then have "n = min (unat (u_count s)) (nat (i_size (k_inode s ! ip) - u_offset s))"
        using ct t(2,3) by simp
      with z t(4,5) show ?thesis by auto
    next
      case False
      have st: "same_file ip s t" and o: "u_offset t = u_offset s + int n" and bs: "u_base t = u_base s + of_nat n"
        and sz: "i_size (k_inode t ! ip) = i_size (k_inode s ! ip)" and mo: "k_memok t = k_memok s"
        and sg: "u_segflg t = u_segflg s" and rs: "k_resid t = k_resid s" and e: "u_error t = None"
        using t(5) by (simp_all add: readout_def)
      have inv: "file_inv dev i ip t L" using same_file_inv [OF st] Suc.prems(1) by simp
      have ok: "\<forall>j<unat (u_count t). k_memok t (u_segflg t) (u_base t + of_nat j)"
      proof (intro allI impI)
        fix j assume "j < unat (u_count t)"
        then have "n + j < unat (u_count s)" using ct by simp
        then have "k_memok s (u_segflg s) (u_base s + of_nat (n + j))" using Suc.prems(9) by blast
        then show "k_memok t (u_segflg t) (u_base t + of_nat j)" using bs mo sg by (simp add: add.assoc)
      qed
      have f: "unat (u_count t) < f" using Suc.prems(11) ct t(1,2) by linarith
      obtain r where r: "readi_loop f ip dv ty t = Inr ((), r)"
        "readout dev ip t (min (unat (u_count t)) (nat (i_size (k_inode t ! ip) - u_offset t))) r"
        using Suc.IH [OF inv Suc.prems(2,3) _ _ e False _ ok _ f] Suc.prems(4,5,8,10) o sz sg rs by auto
      have "n + min (unat (u_count t)) (nat (i_size (k_inode t ! ip) - u_offset t)) =
        min (unat (u_count s)) (nat (i_size (k_inode s ! ip) - u_offset s))"
        using ct sz o t(2,3) by linarith
      with readout_trans [OF t(5) r(2)] r(1) t(4) False show ?thesis by auto
    qed
  qed
qed

subsection \<open>Properties\<close>

text \<open>The type of the inode's file.\<close>

definition plain_file :: "nat \<Rightarrow> kern \<Rightarrow> bool" where
  "plain_file ip s \<longleftrightarrow> and (i_mode (k_inode s ! ip)) IFMT \<in> {IFREG, IFDIR}"

lemma writei_ok:
  assumes "file_inv dev i ip s L" "plain_file ip s" "u_error s = None" "u_count s \<noteq> 0"
    and "0 \<le> u_offset s" "u_offset s + int (unat (u_count s)) \<le> max_bytes"
    and "4 * rounds s \<le> length L" "\<forall>i<unat (u_count s). src_ok s (u_base s + of_nat i)"
  shows "\<exists>t M. writei dv ip s = Inr ((), t) \<and> written dev i ip s L (unat (u_count s)) t M"
proof -
  let ?ty = "and (i_mode (k_inode s ! ip)) IFMT"
  have "?ty \<noteq> IFCHR" "?ty \<noteq> IFMPC" and ty: "?ty = IFREG \<or> ?ty = IFDIR"
    using assms(2) by (auto simp: plain_file_def mode_consts)
  then have "writei dv ip s = writei_loop (Suc (unat (u_count s))) ip (rdev (k_inode s ! ip)) ?ty s"
    using assms(4,5) by (simp add: writei_def Let_def)
  moreover obtain t M where "writei_loop (Suc (unat (u_count s))) ip (rdev (k_inode s ! ip)) ?ty s = Inr ((), t)"
    "written dev i ip s L (unat (u_count s)) t M"
    using writei_loop_ok [OF assms(1,7) ty assms(5,6,3,4,8)] by (meson le_SucI order_refl)
  ultimately show ?thesis by metis
qed

lemma readi_ok:
  assumes "file_inv dev i ip s L" "plain_file ip s" "u_error s = None" "u_count s \<noteq> 0"
    and "0 \<le> u_offset s" "i_size (k_inode s ! ip) \<le> max_bytes" "u_segflg s \<noteq> System"
    and "\<forall>i<unat (u_count s). k_memok s (u_segflg s) (u_base s + of_nat i)" "\<forall>b. k_resid s dev b = 0"
  shows "\<exists>t. readi dv ip s = Inr ((), t) \<and>
    readout dev ip s (min (unat (u_count s)) (nat (i_size (k_inode s ! ip) - u_offset s))) t"
proof -
  let ?s = "upd_inode ip (add_flags {IACC}) s"
  let ?ty = "and (i_mode (k_inode s ! ip)) IFMT"
  let ?n = "min (unat (u_count s)) (nat (i_size (k_inode s ! ip) - u_offset s))"
  have ip: "ip < length (k_inode s)" using assms(1) by (simp add: file_inv_def)
  have ty: "?ty \<noteq> IFCHR" "?ty \<noteq> IFMPC" "?ty \<noteq> IFBLK" "?ty \<noteq> IFMPB"
    using assms(2) by (auto simp: plain_file_def mode_consts)
  have st: "same_file ip s ?s" using ip by (simp add: same_file_def)
  have u: "u_count ?s = u_count s" "u_offset ?s = u_offset s" "u_base ?s = u_base s" "u_segflg ?s = u_segflg s"
    "k_memok ?s = k_memok s" "k_resid ?s = k_resid s" "k_mem ?s = k_mem s"
    by (simp_all add: upd_inode_def)
  have inv: "file_inv dev i ip ?s L" using same_file_inv [OF st] assms(1) by simp
  obtain t where t: "readi_loop (Suc (unat (u_count s))) ip (rdev (k_inode s ! ip)) ?ty ?s = Inr ((), t)"
    "readout dev ip ?s ?n t"
    using readi_loop_ok [OF inv ty(3,4), of "Suc (unat (u_count s))" "rdev (k_inode s ! ip)"] assms(3-9) ip u
    by (auto simp: unat_gt_0)
  have "readi dv ip s = Inr ((), t)"
    using assms(4,5) ty t(1) ip u by (simp add: readi_def Let_def rdev_def)
  moreover have "readout dev ip s ?n t"
    using t(2) st u ip k_mem_store_bytes_cong [of ?s s]
    by (simp add: readout_def same_file_def file_bytes_def fbyte_def of_defs)
  ultimately show ?thesis by blast
qed

text \<open>
  C1: \<open>writei\<close> of a transfer that fits in a file and in the free space always ends
  without error, with the whole count used up.  Afterwards the bytes of the file at the
  offset are the bytes of the process, every other byte of the file is as it was, the size
  is the larger of the old size and the end of the transfer, no block outside the file and
  the free list has changed, and every block of the two is still in exactly one of them.
\<close>

theorem writei_correct:
  assumes "file_inv dev i ip s L" "plain_file ip s" "u_error s = None" "u_count s \<noteq> 0"
    and "0 \<le> u_offset s" "u_offset s + int (unat (u_count s)) \<le> max_bytes"
    and "4 * rounds s \<le> length L" "\<forall>i<unat (u_count s). src_ok s (u_base s + of_nat i)"
  shows "\<exists>t M. writei dv ip s = Inr ((), t) \<and> u_error t = None \<and> u_count t = 0 \<and>
    u_offset t = u_offset s + int (unat (u_count s)) \<and>
    i_size (k_inode t ! ip) = max (i_size (k_inode s ! ip)) (u_offset t) \<and>
    (\<forall>k. 0 \<le> k \<longrightarrow> k < max_bytes \<longrightarrow> fbyte dev ip t k =
       (if u_offset s \<le> k \<and> k < u_offset t
        then src_byte s (u_base s + of_nat (nat (k - u_offset s))) else fbyte dev ip s k)) \<and>
    file_inv dev i ip t M \<and> tree_of dev ip t \<union> set M = tree_of dev ip s \<union> set L \<and>
    (\<forall>b. b \<notin> tree_of dev ip s \<union> set L \<longrightarrow> k_blocks t dev b = k_blocks s dev b)"
proof -
  obtain t M where t: "writei dv ip s = Inr ((), t)" "written dev i ip s L (unat (u_count s)) t M"
    using writei_ok [OF assms] by blast
  then show ?thesis by (auto simp: written_def)
qed

text \<open>A process about to write 3 bytes at offset 600 of the empty file.\<close>

definition demo_write :: kern where
  "demo_write = demo_file\<lparr>u_count := 3, u_offset := 600, u_base := 1000,
     k_mem := \<lambda>_ a. ucast a\<rparr>"

lemma demo_write_facts:
  "file_inv 0 0 0 demo_write [6, 8, 7, 5]" "plain_file 0 demo_write" "u_error demo_write = None"
  "u_count demo_write = 3" "u_offset demo_write = 600" "u_base demo_write = 1000"
  "src_ok demo_write a" "rounds demo_write = 1" "u_segflg demo_write = UserD"
  "src_byte demo_write a = ucast a" "i_size (k_inode demo_write ! 0) = 0"
proof -
  have "same_file 0 demo_file demo_write" by (simp add: demo_write_def same_file_def)
  then show "file_inv 0 0 0 demo_write [6, 8, 7, 5]" using same_file_inv demo_file_inv by blast
qed (simp_all add: demo_write_def plain_file_def src_ok_def src_byte_def rounds_def BSIZE_def
  demo_file_def demo_inode_def demo_fs_def kern0_def mode_consts)

text \<open>A device switch whose entries do nothing.\<close>

definition demo_devsw :: devsw where
  "demo_devsw = \<lparr>nblkdev = 1, nchrdev = 1, b_open = (\<lambda>_ _ s. Inr ((), s)), b_close = (\<lambda>_ _ s. Inr ((), s)),
     c_open = (\<lambda>_ _ s. Inr ((), s)), c_close = (\<lambda>_ _ s. Inr ((), s)),
     c_read = (\<lambda>_ s. Inr ((), s)), c_write = (\<lambda>_ s. Inr ((), s))\<rparr>"

lemma demo_write_fits:
  "u_count demo_write \<noteq> 0" "0 \<le> u_offset demo_write"
  "u_offset demo_write + int (unat (u_count demo_write)) \<le> max_bytes"
  "4 * rounds demo_write \<le> length [6, 8, 7, 5 :: int]"
  "\<forall>i<unat (u_count demo_write). src_ok demo_write (u_base demo_write + of_nat i)"
  by (simp_all add: demo_write_facts max_bytes_def max_blocks_def BSIZE_def)

theorem writei_correct_witness:
  "\<exists>t. writei demo_devsw 0 demo_write = Inr ((), t) \<and> u_error t = None \<and> fbyte 0 0 t 601 = ucast (1001 :: u16)"
proof -
  obtain t M where t: "writei demo_devsw 0 demo_write = Inr ((), t)" "u_error t = None"
    "u_offset t = u_offset demo_write + int (unat (u_count demo_write))"
    and B: "\<forall>k. 0 \<le> k \<longrightarrow> k < max_bytes \<longrightarrow> fbyte 0 0 t k =
       (if u_offset demo_write \<le> k \<and> k < u_offset t
        then src_byte demo_write (u_base demo_write + of_nat (nat (k - u_offset demo_write)))
        else fbyte 0 0 demo_write k)"
    using writei_correct [OF demo_write_facts(1-3) demo_write_fits] by blast
  then show ?thesis
    using B [rule_format, of 601] by (simp add: demo_write_facts max_bytes_def max_blocks_def BSIZE_def)
qed

text \<open>
  C2: \<open>readi\<close> of a file always ends, and gives the process the bytes of the file from
  the offset on, as many as it asks for or as there are up to the end of the file; holes
  read as zeros, and the file is not changed.
\<close>

theorem readi_correct:
  assumes "file_inv dev i ip s L" "plain_file ip s" "u_error s = None" "u_count s \<noteq> 0"
    and "0 \<le> u_offset s" "i_size (k_inode s ! ip) \<le> max_bytes" "u_segflg s \<noteq> System"
    and "\<forall>i<unat (u_count s). k_memok s (u_segflg s) (u_base s + of_nat i)" "\<forall>b. k_resid s dev b = 0"
    and "n = min (unat (u_count s)) (nat (i_size (k_inode s ! ip) - u_offset s))"
  shows "\<exists>t. readi dv ip s = Inr ((), t) \<and> u_error t = None \<and> u_count t = u_count s - of_nat n \<and>
    u_offset t = u_offset s + int n \<and> same_file ip s t \<and>
    (\<forall>i<n. k_mem t (u_segflg s) (u_base s + of_nat i) = fbyte dev ip s (u_offset s + int i))"
proof -
  obtain t where t: "readi dv ip s = Inr ((), t)" "readout dev ip s n t"
    using readi_ok [OF assms(1-9)] assms(10) by blast
  have "n \<le> 65536" using assms(10) unat_u16_less [of "u_count s"] by simp
  then have "k_mem t (u_segflg s) (u_base s + of_nat i) = fbyte dev ip s (u_offset s + int i)" if "i < n" for i
    using t(2) mem_store_bytes [of i "file_bytes dev ip s (u_offset s) n"] that
    by (simp add: readout_def file_bytes_def)
  with t show ?thesis by (auto simp: readout_def)
qed

definition demo_read :: kern where
  "demo_read = demo_file\<lparr>k_inode := [demo_inode\<lparr>i_size := 1000\<rparr>], u_count := 8, u_offset := 996, u_base := 2000\<rparr>"

lemma demo_read_facts:
  "file_inv 0 0 0 demo_read [6, 8, 7, 5]" "plain_file 0 demo_read" "u_error demo_read = None"
  "u_count demo_read \<noteq> 0" "0 \<le> u_offset demo_read" "i_size (k_inode demo_read ! 0) \<le> max_bytes"
  "u_segflg demo_read \<noteq> System"
  "\<forall>i<unat (u_count demo_read). k_memok demo_read (u_segflg demo_read) (u_base demo_read + of_nat i)"
  "\<forall>b. k_resid demo_read 0 b = 0"
  "4 = min (unat (u_count demo_read)) (nat (i_size (k_inode demo_read ! 0) - u_offset demo_read))"
proof -
  have "same_file 0 demo_file demo_read" by (simp add: demo_read_def same_file_def demo_file_def)
  then show "file_inv 0 0 0 demo_read [6, 8, 7, 5]" using same_file_inv demo_file_inv by blast
qed (simp_all add: demo_read_def plain_file_def demo_file_def demo_inode_def demo_fs_def kern0_def
  mode_consts max_bytes_def max_blocks_def BSIZE_def)

theorem readi_correct_witness:
  "\<exists>t. readi demo_devsw 0 demo_read = Inr ((), t) \<and> u_error t = None \<and> u_count t = 4 \<and> u_offset t = 1000"
proof -
  have "u_count demo_read = 8" "u_offset demo_read = 996" by (simp_all add: demo_read_def)
  then show ?thesis using readi_correct [OF demo_read_facts, of demo_devsw] by auto
qed

text \<open>
  what has been written is read back.  After a successful \<open>writei\<close>, a \<open>readi\<close>
  from the same offset with the same count into any readable buffer of the process
  delivers exactly the bytes that were written.
\<close>

theorem writei_readi_roundtrip:
  assumes "file_inv dev i ip s L" "plain_file ip s" "u_error s = None" "u_count s \<noteq> 0"
    and "0 \<le> u_offset s" "u_offset s + int (unat (u_count s)) \<le> max_bytes"
    and "4 * rounds s \<le> length L" "\<forall>i<unat (u_count s). src_ok s (u_base s + of_nat i)"
    and "writei dv ip s = Inr ((), t)"
    and "r = t\<lparr>u_offset := u_offset s, u_count := u_count s, u_base := base, u_segflg := UserD\<rparr>"
    and "i_size (k_inode s ! ip) \<le> max_bytes" "\<forall>i<unat (u_count s). k_memok r UserD (base + of_nat i)"
    and "\<forall>b. k_resid r dev b = 0"
  shows "\<exists>t'. readi dv ip r = Inr ((), t') \<and> u_error t' = None \<and> u_count t' = 0 \<and>
    (\<forall>i<unat (u_count s). k_mem t' UserD (base + of_nat i) = src_byte s (u_base s + of_nat i))"
proof -
  obtain M where w: "written dev i ip s L (unat (u_count s)) t M"
    using writei_ok [OF assms(1-8), of dv] assms(9) by auto
  have st: "same_file ip t r" using assms(10) by (simp add: same_file_def)
  have r: "u_offset r = u_offset s" "u_count r = u_count s" "u_base r = base" "u_segflg r = UserD"
    "u_error r = None" "k_inode r = k_inode t"
    using w assms(10) by (simp_all add: written_def)
  have inv: "file_inv dev i ip r M" using same_file_inv [OF st] w by (simp add: written_def)
  have pl: "plain_file ip r" using assms(2) w r(6) by (simp add: plain_file_def written_def)
  have sz: "i_size (k_inode r ! ip) = max (i_size (k_inode s ! ip)) (u_offset s + int (unat (u_count s)))"
    using w r(6) by (simp add: written_def)
  then have szm: "i_size (k_inode r ! ip) \<le> max_bytes" using assms(6,11) by simp
  have n: "min (unat (u_count r)) (nat (i_size (k_inode r ! ip) - u_offset r)) = unat (u_count s)"
    unfolding r(1,2) sz by linarith
  obtain t' where t': "readi dv ip r = Inr ((), t')" "readout dev ip r (unat (u_count s)) t'"
    using readi_ok [OF inv pl _ _ _ szm, of dv] r assms(4,5,12,13) n by auto
  have "k_mem t' UserD (base + of_nat i) = src_byte s (u_base s + of_nat i)" if "i < unat (u_count s)" for i
  proof -
    have "k_mem t' UserD (base + of_nat i) = fbyte dev ip r (u_offset s + int i)"
      using t'(2) r that unat_u16_less [of "u_count s"]
        mem_store_bytes [of i "file_bytes dev ip r (u_offset s) (unat (u_count s))"]
      by (simp add: readout_def file_bytes_def)
    also have "\<dots> = fbyte dev ip t (u_offset s + int i)" using same_file_fbyte [OF st] .
    also have "\<dots> = src_byte s (u_base s + of_nat i)"
    proof -
      have k: "0 \<le> u_offset s + int i" "u_offset s + int i < max_bytes" using assms(5,6) that by linarith+
      then have "fbyte dev ip t (u_offset s + int i) = src_byte s (u_base s + of_nat (nat (u_offset s + int i - u_offset s)))"
        using w that by (simp add: written_def del: of_nat_unat)
      then show ?thesis by simp
    qed
    finally show ?thesis .
  qed
  moreover have "u_error t' = None" "u_count t' = 0" using t'(2) r by (simp_all add: readout_def)
  ultimately show ?thesis using t'(1) by blast
qed

theorem writei_readi_roundtrip_witness:
  "\<exists>t t'. writei demo_devsw 0 demo_write = Inr ((), t) \<and>
     readi demo_devsw 0 (t\<lparr>u_offset := 600, u_count := 3, u_base := 5000, u_segflg := UserD\<rparr>) = Inr ((), t') \<and>
     k_mem t' UserD 5002 = ucast (1002 :: u16)"
proof -
  obtain t M where t: "writei demo_devsw 0 demo_write = Inr ((), t)"
    "written 0 0 0 demo_write [6, 8, 7, 5] (unat (u_count demo_write)) t M"
    using writei_ok [OF demo_write_facts(1-3) demo_write_fits] by blast
  let ?r = "t\<lparr>u_offset := u_offset demo_write, u_count := u_count demo_write, u_base := 5000, u_segflg := UserD\<rparr>"
  have ok: "\<forall>i<unat (u_count demo_write). k_memok ?r UserD (5000 + of_nat i)"
    using t(2) by (simp add: written_def demo_write_def demo_file_def demo_fs_def kern0_def)
  have "k_resid t = k_resid demo_write" using t(2) by (simp add: written_def)
  then have res: "\<forall>b. k_resid ?r 0 b = 0"
    by (simp add: demo_write_def demo_file_def demo_fs_def kern0_def)
  have sz: "i_size (k_inode demo_write ! 0) \<le> max_bytes"
    by (simp add: demo_write_facts max_bytes_def max_blocks_def BSIZE_def)
  obtain t' where t': "readi demo_devsw 0 ?r = Inr ((), t')"
    "\<forall>i<unat (u_count demo_write). k_mem t' UserD (5000 + of_nat i) =
       src_byte demo_write (u_base demo_write + of_nat i)"
    using writei_readi_roundtrip [OF demo_write_facts(1-3) demo_write_fits t(1) refl sz ok res] by blast
  then have "k_mem t' UserD 5002 = ucast (1002 :: u16)"
    using t'(2) [rule_format, of 2] by (simp add: demo_write_facts)
  with t(1) t'(1) show ?thesis by (auto simp: demo_write_facts)
qed

text \<open>
  C5: a write at an offset beyond the largest file fails with \<open>EFBIG\<close>, but \<open>bmap\<close>
  answers 0 and \<open>writei\<close> only tests for a negative block: it goes on with block 0 of the
  device, consumes bytes of the process and moves the size of the file up to the new
  offset, so that the size covers data that has not been written.
\<close>

theorem writei_too_big_moves_size:
  assumes "ip < length (k_inode s)" "and (i_mode (k_inode s ! ip)) IFMT = IFREG"
    and "max_bytes \<le> u_offset s" "i_size (k_inode s ! ip) \<le> u_offset s" "u_count s \<noteq> 0"
    and "n = min (BSIZE - nat (u_offset s mod int BSIZE)) (unat (u_count s))" "is_long (u_offset s + int n)"
    and "\<forall>i<n. src_ok s (u_base s + of_nat i)" "\<not> k_bad s (i_dev (k_inode s ! ip)) 0"
    and "\<forall>b. length (k_blocks s (i_dev (k_inode s ! ip)) b) = BSIZE \<and> length (k_junk s (i_dev (k_inode s ! ip)) b) = BSIZE"
  shows "\<exists>t. writei dv ip s = Inr ((), t) \<and> u_error t = Some EFBIG \<and> 0 < n \<and>
    u_count t = u_count s - of_nat n \<and> i_size (k_inode t ! ip) = u_offset s + int n \<and>
    i_addr (k_inode t ! ip) = i_addr (k_inode s ! ip)"
proof -
  let ?dev = "i_dev (k_inode s ! ip)"
  define lbn on where "lbn = u_offset s div int BSIZE" and "on = nat (u_offset s mod int BSIZE)"
  have on: "on < BSIZE" by (simp add: on_def BSIZE_def nat_less_iff)
  have n: "0 < n" "n \<le> BSIZE - on" "n \<le> unat (u_count s)"
    using assms(5,6) on by (auto simp: on_def unat_gt_0)
  have "max_blocks \<le> lbn" using assms(3) by (simp add: lbn_def max_bytes_def BSIZE_def)
  then obtain ra where b: "bmap ip lbn B_WRITE s = Inr (0, s\<lparr>k_rablock := ra, u_error := Some EFBIG\<rparr>)"
    using bmap_level_none [of lbn]
    by (cases "bmap_level 3 0 1 (lbn - 10)") (auto simp: bmap_def NADDR_def set_error_def max_blocks_def)
  define s1 where "s1 = s\<lparr>k_rablock := ra, u_error := Some EFBIG\<rparr>"
  define d0 where "d0 = (if n = BSIZE then k_junk s ?dev 0 else k_blocks s ?dev 0)"
  have s1: "u_count s1 = u_count s" "u_offset s1 = u_offset s" "u_base s1 = u_base s"
    "src_ok s1 = src_ok s" "k_inode s1 = k_inode s"
    by (simp_all add: s1_def src_ok_def fun_eq_iff)
  have long: "is_long (u_offset s)"
    using assms(3,7) by (auto simp: is_long_def max_bytes_def max_blocks_def BSIZE_def)
  have io: "iomove d0 on n B_WRITE s1 = (put_list d0 on (src_bytes s1 n), advance n s1)"
    using n on assms(8,10) s1 long by (intro iomove_write_ok) (auto simp: d0_def)
  define s2 where "s2 = brelse_dirty ?dev (0, put_list d0 on (src_bytes s1 n)) (advance n s1)"
  have s2: "k_inode s2 = k_inode s" "u_error s2 = Some EFBIG" "u_offset s2 = u_offset s + int n"
    "u_count s2 = u_count s - of_nat n"
    using assms(7) by (simp_all add: s2_def brelse_dirty_def put_block_def s1_def wrap32_id)
  define t where "t = upd_inode ip (add_flags {IUPD, ICHG}) (upd_inode ip (\<lambda>m. m\<lparr>i_size := u_offset s2\<rparr>) s2)"
  have bd: "(if n = BSIZE then (Some (getblk ?dev 0 s1), s1) else bread ?dev 0 s1) = (Some (0, d0), s1)"
    using assms(9) by (simp add: getblk_def bread_def d0_def s1_def)
  have e1: "u_error (advance n s1) = Some EFBIG" by (simp add: s1_def)
  have "writei_block ip ?dev 0 on n IFREG s1 = (False, t)"
    unfolding writei_block_def bd using io e1 n(1) assms(4) s2
    by (simp add: Let_def s2_def [symmetric] t_def)
  moreover have "writei dv ip s = writei_loop (Suc (unat (u_count s))) ip (rdev (k_inode s ! ip)) IFREG s"
    using assms(2,3,5) by (simp add: writei_def Let_def mode_consts max_bytes_def max_blocks_def BSIZE_def)
  ultimately have "writei dv ip s = Inr ((), t)"
    using b s1(5) by (simp add: Let_def lbn_def [symmetric] on_def [symmetric] assms(6) [symmetric, folded on_def]
      s1_def [symmetric] mode_consts)
  moreover have "u_error t = Some EFBIG" "u_count t = u_count s - of_nat n"
    "i_size (k_inode t ! ip) = u_offset s + int n" "i_addr (k_inode t ! ip) = i_addr (k_inode s ! ip)"
    using assms(1) s2 by (simp_all add: t_def upd_inode_def)
  ultimately show ?thesis using n(1) by blast
qed

theorem writei_too_big_moves_size_witness:
  "\<exists>t. writei demo_devsw 0 (demo_write\<lparr>u_offset := 1082201088\<rparr>) = Inr ((), t) \<and> u_error t = Some EFBIG \<and>
     i_size (k_inode t ! 0) = 1082201091"
proof -
  let ?s = "demo_write\<lparr>u_offset := 1082201088\<rparr>"
  have "and (i_mode (k_inode ?s ! 0)) IFMT = IFREG" "\<not> k_bad ?s (i_dev (k_inode ?s ! 0)) 0"
    "3 = min (BSIZE - nat (u_offset ?s mod int BSIZE)) (unat (u_count ?s))"
    "\<forall>b. length (k_blocks ?s (i_dev (k_inode ?s ! 0)) b) = BSIZE \<and> length (k_junk ?s (i_dev (k_inode ?s ! 0)) b) = BSIZE"
    "\<forall>i<3. src_ok ?s (u_base ?s + of_nat i)" "0 < length (k_inode ?s)" "u_count ?s \<noteq> 0"
    by (simp_all add: demo_write_def demo_file_def demo_inode_def demo_fs_def kern0_def mode_consts BSIZE_def
      zero_block_def src_ok_def)
  then show ?thesis
    using writei_too_big_moves_size [of 0 ?s 3 demo_devsw]
    by (auto simp: max_bytes_def max_blocks_def BSIZE_def is_long_def demo_write_facts)
qed

end
