(* ===== verification/Namei.thy ===== *)
theory Namei
  imports FileIO
begin

section \<open>Path names (sys/nami.c, access and suser of sys/fio.c, xrele of sys/text.c)\<close>

text \<open>
  \<open>namei\<close> turns a path name into a locked inode, one component at a time: it gathers
  the component into \<open>u_dbuf\<close>, checks the search permission, and scans the directory
  entry by entry.  \<open>wdir\<close> and \<open>maknode\<close> (sys/iget.c) use what it leaves behind to
  make a new entry.  The theorems relate the scan to the list of entries of the directory,
  and \<open>access\<close> to the permission bits.
\<close>

subsection \<open>Shared text (sys/text.c)\<close>

definition upd_text :: "nat \<Rightarrow> (text_ent \<Rightarrow> text_ent) \<Rightarrow> kern \<Rightarrow> kern" where
  "upd_text xp f s = s\<lparr>k_text := (k_text s)[xp := f (k_text s ! xp)]\<rparr>"

definition xlock :: "nat \<Rightarrow> kern \<Rightarrow> unit kres" where
  "xlock xp s =
     (if XLOCK \<in> x_flag (k_text s ! xp)
      then Inl (Sleeping (ChText xp), upd_text xp (\<lambda>x. x\<lparr>x_flag := insert XWANT (x_flag x)\<rparr>) s)
      else Inr ((), upd_text xp (\<lambda>x. x\<lparr>x_flag := insert XLOCK (x_flag x)\<rparr>) s))"

definition xunlock :: "nat \<Rightarrow> kern \<Rightarrow> kern" where
  "xunlock xp s =
     (let s = (if XWANT \<in> x_flag (k_text s ! xp) then wakeup (ChText xp) s else s)
      in upd_text xp (\<lambda>x. x\<lparr>x_flag := x_flag x - {XLOCK, XWANT}\<rparr>) s)"

definition ctod :: "int \<Rightarrow> int" where
  "ctod x = (x + 7) div 8"

definition xuntext :: "nat \<Rightarrow> kern \<Rightarrow> unit kres" where
  "xuntext xp s =
     rbind (xlock xp s) (\<lambda>(_, s).
       let x = k_text s ! xp in
       if x_count x \<noteq> 0 then Inr ((), xunlock xp s)
       else
         (case x_iptr x of
            None \<Rightarrow> Inr ((), s)
          | Some ip \<Rightarrow>
              (let s = upd_text xp (\<lambda>x. x\<lparr>x_iptr := None, x_flag := x_flag x - {XLOCK}\<rparr>) s;
                   s = s\<lparr>k_swfree := k_swfree s @ [(ctod (x_size x), x_daddr x)]\<rparr>;
                   s = upd_inode ip (del_flags {ITEXT}) s
               in if ILOCK \<in> i_flag (k_inode s ! ip)
                  then Inr ((), upd_inode ip (\<lambda>m. m\<lparr>i_count := wrap8 (i_count m - 1)\<rparr>) s)
                  else iput ip s)))"

text \<open>
  The loops of \<open>xrele\<close> and \<open>xumount\<close> over the text table.  The test at the start of
  \<open>xrele\<close>, \<open>ip->i_flag&ITEXT==0\<close>, is \<open>i_flag & (ITEXT==0)\<close> in C and never
  returns.
\<close>

fun xrele_scan :: "(kern \<Rightarrow> text_ent \<Rightarrow> bool) \<Rightarrow> nat list \<Rightarrow> kern \<Rightarrow> unit kres" where
  "xrele_scan P [] s = Inr ((), s)"
| "xrele_scan P (xp # xps) s =
     (if P s (k_text s ! xp) then rbind (xuntext xp s) (\<lambda>(_, s). xrele_scan P xps s)
      else xrele_scan P xps s)"

definition xrele :: "nat \<Rightarrow> kern \<Rightarrow> unit kres" where
  "xrele ip s = xrele_scan (\<lambda>_ x. x_iptr x = Some ip) [0..<length (k_text s)] s"

definition xumount :: "nat \<Rightarrow> kern \<Rightarrow> unit kres" where
  "xumount dev s =
     xrele_scan (\<lambda>s x. case x_iptr x of None \<Rightarrow> False | Some ip \<Rightarrow> i_dev (k_inode s ! ip) = dev)
       [0..<length (k_text s)] s"

subsection \<open>Permissions\<close>

definition suser :: "kern \<Rightarrow> bool \<times> kern" where
  "suser s = (if u_uid s = 0 then (True, s\<lparr>u_asu := True\<rparr>) else (False, set_error EPERM s))"

text \<open>The permission bits: true when access is granted.\<close>

definition access_bits :: "nat \<Rightarrow> u16 \<Rightarrow> kern \<Rightarrow> bool" where
  "access_bits ip mode s =
     (let ino = k_inode s ! ip in
      if u_uid s = 0 then True
      else
        (let m = (if u_uid s \<noteq> i_uid ino
                  then (let m = drop_bit 3 mode in if u_gid s \<noteq> i_gid ino then drop_bit 3 m else m)
                  else mode)
         in and (i_mode ino) m \<noteq> 0))"

definition access_end :: "nat \<Rightarrow> u16 \<Rightarrow> kern \<Rightarrow> bool kres" where
  "access_end ip mode s = (if access_bits ip mode s then Inr (False, s) else Inr (True, set_error EACCES s))"

text \<open>\<open>access\<close>; the result is true when access is denied, as in C.\<close>

definition access :: "nat \<Rightarrow> u16 \<Rightarrow> kern \<Rightarrow> bool kres" where
  "access ip mode s =
     (if mode = IWRITE then
        rbind (getfs (i_dev (k_inode s ! ip)) s) (\<lambda>(i, s).
          if s_ronly (super s i) then Inr (True, set_error EROFS s)
          else rbind (if ITEXT \<in> i_flag (k_inode s ! ip) then xrele ip s else Inr ((), s)) (\<lambda>(_, s).
            if ITEXT \<in> i_flag (k_inode s ! ip) then Inr (True, set_error ETXTBSY s)
            else access_end ip mode s))
      else access_end ip mode s)"

subsection \<open>Path names\<close>

text \<open>The next character of the name: from the process, or (with \<open>schar\<close>) the system.\<close>

definition fubyte :: "u16 \<Rightarrow> kern \<Rightarrow> int" where
  "fubyte a s = (if k_memok s UserD a then uint (k_mem s UserD a) else -1)"

definition uchar :: "kern \<Rightarrow> int \<times> kern" where
  "uchar s =
     (let c = fubyte (u_dirp s) s; s = s\<lparr>u_dirp := u_dirp s + 1\<rparr>
      in (c, if c = -1 then set_error EFAULT s else s))"

primrec skip_slashes :: "nat \<Rightarrow> (kern \<Rightarrow> int \<times> kern) \<Rightarrow> int \<Rightarrow> kern \<Rightarrow> int kres" where
  "skip_slashes 0 g c s = Inl (Unfinished, s)"
| "skip_slashes (Suc n) g c s =
     (if c = 47 then (case g s of (c, s) \<Rightarrow> skip_slashes n g c s) else Inr (c, s))"

text \<open>The loop that gathers a component; \<open>buf\<close> are the characters stored so far.\<close>

primrec gather :: "nat \<Rightarrow> (kern \<Rightarrow> int \<times> kern) \<Rightarrow> int \<Rightarrow> u8 list \<Rightarrow> kern \<Rightarrow> (int \<times> u8 list) kres" where
  "gather 0 g c buf s = Inl (Unfinished, s)"
| "gather (Suc n) g c buf s =
     (if c \<noteq> 47 \<and> c \<noteq> 0 \<and> u_error s = None then
        (if k_mpxip s \<noteq> None \<and> c = 33 then Inr ((c, buf), s)
         else
           (let buf = (if length buf < DIRSIZ then buf @ [word_of_int c] else buf)
            in case g s of (c, s) \<Rightarrow> gather n g c buf s))
      else Inr ((c, buf), s))"

definition component :: "nat \<Rightarrow> (kern \<Rightarrow> int \<times> kern) \<Rightarrow> int \<Rightarrow> kern \<Rightarrow> int kres" where
  "component n g c s =
     rbind (gather n g c [] s) (\<lambda>((c, buf), s).
       skip_slashes n g c (s\<lparr>u_dbuf := buf @ replicate (DIRSIZ - length buf) 0\<rparr>))"

text \<open>\<open>u_dent\<close>: the i-number and the name of a directory entry.\<close>

definition d_ino :: "u8 list \<Rightarrow> nat" where
  "d_ino e = nat (get16 e 0)"

definition d_name :: "u8 list \<Rightarrow> u8 list" where
  "d_name e = drop 2 e"

datatype dirscan = Found | NotFound int | DirError

text \<open>
  The loop at \<open>eloop\<close>: \<open>eo\<close> is the offset after the first empty slot, \<open>bp\<close> the
  current block of the directory.
\<close>

primrec dirsearch :: "nat \<Rightarrow> nat \<Rightarrow> int \<Rightarrow> block option \<Rightarrow> kern \<Rightarrow> dirscan kres" where
  "dirsearch 0 dp eo bp s = Inl (Unfinished, s)"
| "dirsearch (Suc n) dp eo bp s =
     (if u_offset s \<ge> i_size (k_inode s ! dp) then Inr (NotFound eo, s)
      else
        rbind
          (if u_offset s mod int BSIZE = 0 then
             rbind (bmap dp (u_offset s div int BSIZE) B_READ s) (\<lambda>(bn, s).
               case bread (i_dev (k_inode s ! dp)) bn s of
                 (None, s) \<Rightarrow> Inr (None, s)
               | (Some (_, d), s) \<Rightarrow> Inr (Some d, s))
           else Inr (bp, s))
          (\<lambda>(bp, s).
            case bp of
              None \<Rightarrow> Inr (DirError, s)
            | Some d \<Rightarrow>
                (let off = nat (u_offset s mod int BSIZE);
                     s = s\<lparr>u_dent := take 16 (drop off d), u_offset := wrap32 (u_offset s + 16)\<rparr>
                 in if d_ino (u_dent s) = 0
                    then dirsearch n dp (if eo = 0 then u_offset s else eo) (Some d) s
                    else if u_dbuf s \<noteq> d_name (u_dent s) then dirsearch n dp eo (Some d) s
                    else Inr (Found, s))))"

definition namei_out :: "nat \<Rightarrow> kern \<Rightarrow> nat option kres" where
  "namei_out dp s = rbind (iput dp s) (\<lambda>(_, s). Inr (None, s))"

text \<open>What happens when the search fails; \<open>c\<close> is the character after the component.\<close>

definition namei_missing :: "nat \<Rightarrow> nat \<Rightarrow> int \<Rightarrow> int \<Rightarrow> kern \<Rightarrow> nat option kres" where
  "namei_missing flag dp c eo s =
     (if flag = 1 \<and> c = 0 then
        rbind (access dp IWRITE s) (\<lambda>(denied, s).
          if denied then namei_out dp s
          else
            (let s = s\<lparr>u_pdir := dp\<rparr>
             in Inr (None, if eo \<noteq> 0 then s\<lparr>u_offset := eo - 16\<rparr>
                           else upd_inode dp (add_flags {IUPD, ICHG}) s)))
      else namei_out dp (set_error ENOENT s))"

text \<open>The mount entry that ``..'' in the root of a mounted file system leads to.\<close>

definition mount_parent :: "nat \<Rightarrow> kern \<Rightarrow> nat option" where
  "mount_parent d s =
     find_first (\<lambda>m. m_bufp m \<noteq> None \<and> m_dev m = d) (drop 1 (k_mount s))"

text \<open>
  The loops at \<open>cloop\<close> (\<open>cl\<close> is true) and \<open>seloop\<close>.  \<open>f\<close> is the fuel of the
  inner loops.
\<close>

primrec namei_loop ::
  "nat \<Rightarrow> nat \<Rightarrow> (kern \<Rightarrow> int \<times> kern) \<Rightarrow> nat \<Rightarrow> bool \<Rightarrow> nat \<Rightarrow> int \<Rightarrow> kern \<Rightarrow> nat option kres" where
  "namei_loop 0 f g flag cl dp c s = Inl (Unfinished, s)"
| "namei_loop (Suc n) f g flag cl dp c s =
     (if cl \<and> u_error s \<noteq> None then namei_out dp s
      else if cl \<and> c = 0 then Inr (Some dp, s)
      else
        rbind (if cl then component f g c s else Inr (c, s)) (\<lambda>(c, s).
          if cl \<and> c = 33 \<and> k_mpxip s \<noteq> None then
            (let mp = the (k_mpxip s) in
             rbind (iput dp s) (\<lambda>(_, s). rbind (plock mp s) (\<lambda>(_, s).
               Inr (Some mp, upd_inode mp (\<lambda>m. m\<lparr>i_count := wrap8 (i_count m + 1)\<rparr>) s))))
          else
            (let s = (if and (i_mode (k_inode s ! dp)) IFMT \<noteq> IFDIR then set_error ENOTDIR s else s) in
             rbind (access dp IEXEC s) (\<lambda>(_, s).
               if u_error s \<noteq> None then namei_out dp s
               else
                 rbind (dirsearch f dp 0 None (s\<lparr>u_offset := 0, u_segflg := System\<rparr>)) (\<lambda>(r, s).
                   case r of
                     DirError \<Rightarrow> namei_out dp s
                   | NotFound eo \<Rightarrow> namei_missing flag dp c eo s
                   | Found \<Rightarrow>
                       if flag = 2 \<and> c = 0 then
                         rbind (access dp IWRITE s) (\<lambda>(denied, s).
                           if denied then namei_out dp s else Inr (Some dp, s))
                       else
                         (let d = i_dev (k_inode s ! dp) in
                          if d_ino (u_dent s) = ROOTINO \<and> i_number (k_inode s ! dp) = ROOTINO \<and>
                             d_name (u_dent s) ! 1 = 46 \<and> mount_parent d s \<noteq> None
                          then
                            rbind (iput dp s) (\<lambda>(_, s).
                              let mp = the (m_inodp (k_mount s ! Suc (the (mount_parent d s))));
                                  s = upd_inode mp (\<lambda>m. m\<lparr>i_count := wrap8 (i_count m + 1)\<rparr>) s
                              in rbind (plock mp s) (\<lambda>(_, s). namei_loop n f g flag False mp c s))
                          else
                            rbind (iput dp s) (\<lambda>(_, s).
                              rbind (iget d (d_ino (u_dent s)) s) (\<lambda>(r, s).
                                case r of
                                  None \<Rightarrow> Inr (None, s)
                                | Some dp \<Rightarrow> namei_loop n f g flag True dp c s))))))))"

text \<open>
  \<open>namei\<close>; \<open>n\<close> bounds every one of its loops (characters of the name, entries of a
  directory, components).
\<close>

definition namei :: "nat \<Rightarrow> (kern \<Rightarrow> int \<times> kern) \<Rightarrow> nat \<Rightarrow> kern \<Rightarrow> nat option kres" where
  "namei n g flag s =
     (case g s of
        (c, s) \<Rightarrow>
          (let dp = (if c = 47 then (case u_rdir s of None \<Rightarrow> k_rootdir s | Some d \<Rightarrow> d) else u_cdir s) in
           rbind (iget (i_dev (k_inode s ! dp)) (i_number (k_inode s ! dp)) s) (\<lambda>(_, s).
             rbind (skip_slashes n g c s) (\<lambda>(c, s).
               let s = (if c = 0 \<and> flag \<noteq> 0 then set_error ENOENT s else s)
               in namei_loop n n g flag True dp c s))))"

subsection \<open>New entries (wdir and maknode of sys/iget.c)\<close>

definition wdir :: "devsw \<Rightarrow> nat \<Rightarrow> kern \<Rightarrow> unit kres" where
  "wdir dv ip s =
     rbind
       (if i_nlink (k_inode s ! u_pdir s) \<le> 0 then Inr ((), set_error ENOTDIR s)
        else
          writei dv (u_pdir s) (s\<lparr>
            u_dent := take 2 (put16 (u_dent s) 0 (int (i_number (k_inode s ! ip)))) @ u_dbuf s,
            u_count := 16, u_segflg := System, u_base := 0\<rparr>))
       (\<lambda>(_, s). iput (u_pdir s) s)"

text \<open>\<open>n\<close> bounds the jumps of \<open>ialloc\<close> back to its label.\<close>

definition maknode :: "nat \<Rightarrow> devsw \<Rightarrow> u16 \<Rightarrow> kern \<Rightarrow> nat option kres" where
  "maknode n dv mode s =
     rbind (ialloc n (i_dev (k_inode s ! u_pdir s)) s) (\<lambda>(r, s).
       case r of
         None \<Rightarrow> rbind (iput (u_pdir s) s) (\<lambda>(_, s). Inr (None, s))
       | Some ip \<Rightarrow>
           (let mode = (if and mode IFMT = 0 then or mode IFREG else mode);
                s = upd_inode ip (\<lambda>m. add_flags {IACC, IUPD, ICHG}
                      (m\<lparr>i_mode := and mode (not (u_cmask s)), i_nlink := 1, i_uid := u_uid s, i_gid := u_gid s\<rparr>)) s
            in rbind (wdir dv ip s) (\<lambda>(_, s). Inr (Some ip, s))))"

subsection \<open>The search as a lookup in the list of entries\<close>

definition dir_entry :: "nat \<Rightarrow> nat \<Rightarrow> kern \<Rightarrow> nat \<Rightarrow> u8 list" where
  "dir_entry dev dp s j = file_bytes dev dp s (16 * int j) 16"

definition dir_length :: "nat \<Rightarrow> kern \<Rightarrow> nat" where
  "dir_length dp s = nat (i_size (k_inode s ! dp)) div 16"

definition dir_entries :: "nat \<Rightarrow> nat \<Rightarrow> kern \<Rightarrow> u8 list list" where
  "dir_entries dev dp s = map (dir_entry dev dp s) [0..<dir_length dp s]"

definition entry_for :: "u8 list \<Rightarrow> u8 list \<Rightarrow> bool" where
  "entry_for name e \<longleftrightarrow> d_ino e \<noteq> 0 \<and> d_name e = name"

text \<open>A directory is a file without holes that holds whole entries.\<close>

definition dir_inv :: "nat \<Rightarrow> nat \<Rightarrow> nat \<Rightarrow> kern \<Rightarrow> int list \<Rightarrow> bool" where
  "dir_inv dev i dp s L \<longleftrightarrow> file_inv dev i dp s L \<and> 0 \<le> i_size (k_inode s ! dp) \<and>
     i_size (k_inode s ! dp) mod 16 = 0 \<and> i_size (k_inode s ! dp) \<le> max_bytes \<and>
     (\<forall>bn. 0 \<le> bn \<longrightarrow> bn * int BSIZE < i_size (k_inode s ! dp) \<longrightarrow>
        fblock (k_blocks s dev) (addr_of dp s) bn \<noteq> 0)"

text \<open>The states of the scan differ from the first one in what \<open>namei\<close> records.\<close>

definition scan_at :: "kern \<Rightarrow> nat \<Rightarrow> u8 list \<Rightarrow> int \<Rightarrow> kern" where
  "scan_at s j e ra = s\<lparr>u_offset := 16 * int j, u_dent := e, k_rablock := ra\<rparr>"

lemma scan_at_sel [simp]:
  "k_inode (scan_at s j e ra) = k_inode s" "k_blocks (scan_at s j e ra) = k_blocks s"
  "u_dbuf (scan_at s j e ra) = u_dbuf s" "u_offset (scan_at s j e ra) = 16 * int j"
  "u_dent (scan_at s j e ra) = e" "k_bad (scan_at s j e ra) = k_bad s"
  by (simp_all add: scan_at_def)

lemma same_file_scan [simp]: "same_file dp s (scan_at s j e ra)"
  by (simp add: same_file_def scan_at_def)

lemma scan_at_next [simp]:
  "(scan_at s j e ra)\<lparr>u_dent := e', u_offset := 16 + 16 * int j\<rparr> = scan_at s (Suc j) e' ra"
  "(scan_at s j e ra)\<lparr>k_rablock := ra'\<rparr> = scan_at s j e ra'"
  by (simp_all add: scan_at_def)

lemma dir_read_block:
  assumes inv: "dir_inv dev i dp s L" and bn: "0 \<le> bn" "bn * int BSIZE < i_size (k_inode s ! dp)"
  shows "\<exists>b ra'. bmap dp bn B_READ (scan_at s j e ra) = Inr (b, scan_at s j e ra') \<and>
    bread dev b (scan_at s j e ra') = (Some (b, data_of dev dp s bn), scan_at s j e ra')"
proof -
  let ?s = "scan_at s j e ra" and ?b = "fblock (k_blocks s dev) (addr_of dp s) bn"
  have f: "file_inv dev i dp s L" using inv by (simp add: dir_inv_def)
  then have fs: "file_inv dev i dp ?s L" using same_file_inv [of dp s ?s] by simp
  have m: "bn < max_blocks"
    using inv bn(2) by (simp add: dir_inv_def max_bytes_def BSIZE_def)
  have nz: "?b \<noteq> 0" using inv bn by (simp add: dir_inv_def)
  obtain q p where l: "locate bn = (q, p)" by force
  have "?b \<in> tree_of dev dp s"
    using tree_blocksI [OF locate_vpos [OF bn(1) m l]] nz l by (simp add: fblock_def tree_of_def)
  then have "\<not> k_bad s dev ?b" using f by (auto simp: file_inv_def fs_valid_def)
  moreover obtain ra' where "bmap dp bn B_READ ?s = Inr (?b, scan_at s j e ra')"
    using bmap_read_ok [OF fs bn(1) m] nz by (auto simp: Let_def)
  ultimately show ?thesis
    using nz by (auto simp: bread_def data_of_def fdata_def)
qed

lemma dir_slot:
  assumes inv: "dir_inv dev i dp s L" and j: "j < dir_length dp s"
  shows "take 16 (drop (nat (16 * int j mod int BSIZE)) (data_of dev dp s (16 * int j div int BSIZE))) =
    dir_entry dev dp s j"
proof -
  have "length (data_of dev dp s (16 * int j div int BSIZE)) = BSIZE"
    using inv data_of_length by (auto simp: dir_inv_def)
  moreover have "16 \<le> BSIZE - nat (16 * int j mod int BSIZE)"
  proof -
    have "16 * int j mod (16 * 32) = 16 * (int j mod 32)" by (rule mod_mult_mult1)
    moreover have "int j mod 32 < 32" by simp
    ultimately have "16 * int j mod 512 \<le> 496" by simp
    then show ?thesis by (simp add: BSIZE_def)
  qed
  ultimately show ?thesis
    unfolding dir_entry_def by (intro block_slice) simp_all
qed

text \<open>One round of the scan.\<close>

lemma dirsearch_step:
  assumes inv: "dir_inv dev i dp s L" and j: "j < dir_length dp s"
    and bp: "j mod 32 \<noteq> 0 \<longrightarrow> bp = Some (data_of dev dp s (16 * int j div int BSIZE))"
  shows "\<exists>ra'. dirsearch (Suc n) dp eo bp (scan_at s j e ra) =
    (let e' = dir_entry dev dp s j; t = scan_at s (Suc j) e' ra';
         d = Some (data_of dev dp s (16 * int j div int BSIZE))
     in if d_ino e' = 0 then dirsearch n dp (if eo = 0 then 16 * int (Suc j) else eo) d t
        else if d_name e' \<noteq> u_dbuf s then dirsearch n dp eo d t
        else Inr (Found, t))"
proof -
  have dev: "i_dev (k_inode s ! dp) = dev" using inv by (simp add: dir_inv_def file_inv_def)
  have sz: "16 * int j < i_size (k_inode s ! dp)" using j by (simp add: dir_length_def)
  have long: "is_long (16 * int j + 16)"
    using sz inv by (simp add: is_long_def dir_inv_def max_bytes_def max_blocks_def BSIZE_def)
  let ?bn = "16 * int j div int BSIZE"
  have bn: "0 \<le> ?bn" "?bn * int BSIZE < i_size (k_inode s ! dp)"
    using sz by (simp_all add: BSIZE_def)
  have "16 * int j mod int BSIZE = 16 * int (j mod 32)"
    using mod_mult_mult1 [of 16 "int j" 32] by (simp add: BSIZE_def zmod_int)
  then have "(16 * int j mod int BSIZE = 0) = (j mod 32 = 0)" by simp
  then show ?thesis
    using dir_read_block [OF inv bn, of j e ra] bp sz dev wrap32_id [OF long] dir_slot [OF inv j]
    by (cases "j mod 32 = 0") (auto simp: Let_def add.commute intro: exI [of _ ra])
qed

lemma same_dir_block:
  assumes "Suc j mod 32 \<noteq> 0"
  shows "16 * int (Suc j) div int BSIZE = 16 * int j div int BSIZE"
proof -
  have "16 * int k div int BSIZE = int (k div 32)" for k
    using div_mult_mult1 [of 16 "int k" 32] by (simp add: BSIZE_def zdiv_int)
  moreover have "Suc j div 32 = j div 32" using assms by (simp add: div_Suc)
  ultimately show ?thesis by presburger
qed

lemma dir_length_size: "dir_inv dev i dp s L \<Longrightarrow> 16 * int (dir_length dp s) = i_size (k_inode s ! dp)"
  by (auto simp: dir_inv_def dir_length_def zdiv_int)

text \<open>What the rest of the scan finds, from entry \<open>j\<close> on.\<close>

fun scan_result :: "nat \<Rightarrow> nat \<Rightarrow> kern \<Rightarrow> nat list \<Rightarrow> int \<Rightarrow> dirscan \<times> nat" where
  "scan_result dev dp s [] eo = (NotFound eo, dir_length dp s)"
| "scan_result dev dp s (j # js) eo =
     (let e = dir_entry dev dp s j in
      if d_ino e = 0 then scan_result dev dp s js (if eo = 0 then 16 * int (Suc j) else eo)
      else if d_name e = u_dbuf s then (Found, Suc j)
      else scan_result dev dp s js eo)"

lemma dirsearch_run:
  assumes inv: "dir_inv dev i dp s L"
  shows "\<lbrakk>j \<le> dir_length dp s; dir_length dp s - j < n;
      j mod 32 \<noteq> 0 \<longrightarrow> bp = Some (data_of dev dp s (16 * int j div int BSIZE));
      0 < j \<longrightarrow> e = dir_entry dev dp s (j - 1)\<rbrakk> \<Longrightarrow>
    \<exists>ra' e'. dirsearch n dp eo bp (scan_at s j e ra) =
      (case scan_result dev dp s [j..<dir_length dp s] eo of
         (r, j') \<Rightarrow> Inr (r, scan_at s j' e' ra')) \<and>
      (0 < snd (scan_result dev dp s [j..<dir_length dp s] eo) \<longrightarrow>
         e' = dir_entry dev dp s (snd (scan_result dev dp s [j..<dir_length dp s] eo) - 1))"
proof (induction n arbitrary: j eo bp e ra)
  case (Suc n)
  show ?case
  proof (cases "j < dir_length dp s")
    case False
    moreover have "i_size (k_inode s ! dp) \<le> 16 * int (dir_length dp s)"
      using dir_length_size [OF inv] by simp
    ultimately show ?thesis using Suc.prems
      by (intro exI [of _ ra] exI [of _ e]) simp
  next
    case True
    let ?e = "dir_entry dev dp s j" and ?d = "Some (data_of dev dp s (16 * int j div int BSIZE))"
    obtain ra1 where st: "dirsearch (Suc n) dp eo bp (scan_at s j e ra) =
      (let t = scan_at s (Suc j) ?e ra1
       in if d_ino ?e = 0 then dirsearch n dp (if eo = 0 then 16 * int (Suc j) else eo) ?d t
          else if d_name ?e \<noteq> u_dbuf s then dirsearch n dp eo ?d t else Inr (Found, t))"
      using dirsearch_step [OF inv True Suc.prems(3), of n eo e ra] by (auto simp: Let_def)
    have u: "[j..<dir_length dp s] = j # [Suc j..<dir_length dp s]" using True by (rule upt_conv_Cons)
    have IH: "\<exists>ra' e'. dirsearch n dp eo' ?d (scan_at s (Suc j) ?e ra1) =
      (case scan_result dev dp s [Suc j..<dir_length dp s] eo' of
         (r, j') \<Rightarrow> Inr (r, scan_at s j' e' ra')) \<and>
      (0 < snd (scan_result dev dp s [Suc j..<dir_length dp s] eo') \<longrightarrow>
         e' = dir_entry dev dp s (snd (scan_result dev dp s [Suc j..<dir_length dp s] eo') - 1))" for eo'
      using Suc.IH [of "Suc j" ?d ?e eo' ra1] True Suc.prems(2) same_dir_block [of j] by simp
    show ?thesis
    proof (cases "d_ino ?e \<noteq> 0 \<and> d_name ?e = u_dbuf s")
      case True
      then show ?thesis using st u by (auto simp: Let_def intro: exI [of _ ra1])
    next
      case False
      then show ?thesis
        using st u IH [of "if eo = 0 then 16 * int (Suc j) else eo"] IH [of eo]
        by (auto simp: Let_def simp del: of_nat_Suc dirsearch.simps)
    qed
  qed
qed simp

lemma find_first_Some: "find_first P xs = Some k \<Longrightarrow> k < length xs \<and> P (xs ! k)"
  by (induction xs arbitrary: k) (auto split: if_splits)

lemma scan_result_lookup:
  "scan_result dev dp s js eo =
    (case find_first (entry_for (u_dbuf s)) (map (dir_entry dev dp s) js) of
       Some k \<Rightarrow> (Found, Suc (js ! k))
     | None \<Rightarrow>
         (NotFound (if eo \<noteq> 0 then eo
            else case find_first (\<lambda>e. d_ino e = 0) (map (dir_entry dev dp s) js) of
              None \<Rightarrow> 0 | Some k \<Rightarrow> 16 * int (Suc (js ! k))),
          dir_length dp s))"
  by (induction js arbitrary: eo) (auto simp: Let_def entry_for_def split: option.splits)

text \<open>
  C21: the scan of a directory by \<open>namei\<close> ends and is the lookup of the component in the
  list of the directory's 16-byte entries.  If an entry in use has the name, the scan stops
  at the first one, with that entry in \<open>u_dent\<close> and \<open>u_offset\<close> just after it, which is
  what \<open>unlink\<close> relies on.  Otherwise it reports the offset after the first empty slot,
  0 when the directory has none, which is where a new entry goes.  Nothing but
  \<open>u_dent\<close>, \<open>u_offset\<close> and the read-ahead hint changes.
\<close>

theorem dirsearch_is_lookup:
  assumes "dir_inv dev i dp s L" "dir_length dp s < n"
  shows "case find_first (entry_for (u_dbuf s)) (dir_entries dev dp s) of
     Some j \<Rightarrow> \<exists>ra. dirsearch n dp 0 None (s\<lparr>u_offset := 0\<rparr>) =
       Inr (Found, s\<lparr>u_offset := 16 * int (Suc j), u_dent := dir_entries dev dp s ! j, k_rablock := ra\<rparr>)
   | None \<Rightarrow> \<exists>ra e. dirsearch n dp 0 None (s\<lparr>u_offset := 0\<rparr>) =
       Inr (NotFound (case find_first (\<lambda>e. d_ino e = 0) (dir_entries dev dp s) of
              None \<Rightarrow> 0 | Some j \<Rightarrow> 16 * int (Suc j)),
         s\<lparr>u_offset := i_size (k_inode s ! dp), u_dent := e, k_rablock := ra\<rparr>)"
proof -
  let ?R = "scan_result dev dp s [0..<dir_length dp s] 0"
  have s0: "s\<lparr>u_offset := 0\<rparr> = scan_at s 0 (u_dent s) (k_rablock s)" by (simp add: scan_at_def)
  have len: "16 * int (dir_length dp s) = i_size (k_inode s ! dp)"
    using dir_length_size [OF assms(1)] .
  obtain ra e where r: "dirsearch n dp 0 None (s\<lparr>u_offset := 0\<rparr>) =
      (case ?R of (r, j) \<Rightarrow> Inr (r, scan_at s j e ra))"
    and e: "0 < snd ?R \<longrightarrow> e = dir_entry dev dp s (snd ?R - 1)"
    unfolding s0 using dirsearch_run [OF assms(1), of 0 n None "u_dent s" 0 "k_rablock s"] assms(2) by auto
  have ff: "k < dir_length dp s"
    if "find_first P (map (dir_entry dev dp s) [0..<dir_length dp s]) = Some k" for P k
    using find_first_Some [OF that] by simp
  show ?thesis
    using r e len ff unfolding dir_entries_def
    by (auto simp: scan_result_lookup scan_at_def split: option.splits)
qed

definition demo_dent :: "nat \<Rightarrow> string \<Rightarrow> u8 list" where
  "demo_dent ino name = [of_nat ino, 0] @ map (\<lambda>c. of_nat (of_char c)) name @ replicate (DIRSIZ - length name) 0"

definition demo_dir :: kern where
  "demo_dir = demo_file\<lparr>
     k_inode := [demo_inode\<lparr>i_mode := 0x41ED, i_size := 48, i_addr := (replicate 13 0)[0 := 4]\<rparr>],
     k_blocks := (\<lambda>dev b. if b = 4 then concat [demo_dent 2 ''.'', demo_dent 0 ''gone'', demo_dent 3 ''etc''] @ replicate 464 0
       else k_blocks demo_file dev b),
     u_dbuf := d_name (demo_dent 3 ''etc'')\<rparr>"

lemma demo_dir_node:
  assumes "vpos j k p" shows "node blk ((replicate 13 0)[0 := x]) j k p = (if j = 0 then x else 0)"
proof (cases "j = 0")
  case True
  with assms show ?thesis by (cases k) (auto simp: vpos_def depth_def)
next
  case False
  have "node blk ((replicate 13 0)[0 := x]) j k p = 0" if "0 < j" "j < 13" for p
    using that by (induction k arbitrary: p) (simp_all add: node_Suc nth_list_update)
  with False assms show ?thesis by (auto simp: vpos_def NADDR_def)
qed

lemma demo_dir_inode: "k_inode demo_dir = [demo_inode\<lparr>i_mode := 0x41ED, i_size := 48, i_addr := (replicate 13 0)[0 := 4]\<rparr>]"
  by (simp add: demo_dir_def)

lemma demo_dir_file: "file_inv 0 0 0 demo_dir [6, 8, 7, 5]"
proof -
  have addr: "addr_of 0 demo_dir = (replicate 13 0)[0 := 4]" by (simp add: demo_dir_inode)
  have free: "fs_free 0 demo_file 0 [6, 8, 7, 5]" "\<forall>b. length (k_blocks demo_file 0 b) = BSIZE"
    using demo_file_inv by (auto simp: file_inv_def)
  have chain: "free_chain blk 5 (s_free demo_super) [6, 8, 7, 5]" for blk
  proof -
    have "upper 5 (s_free demo_super) = [6, 8, 7, 5]"
      by (simp add: upper_def demo_super_def eval_nat_numeral)
    moreover have "free_chain blk 5 (s_free demo_super) (upper 5 (s_free demo_super))"
      by (rule chain_end) (simp_all add: demo_super_def NICFREE_def)
    ultimately show ?thesis by simp
  qed
  have sup: "super demo_dir 0 = demo_super" "super demo_file 0 = demo_super"
    by (simp_all add: super_def demo_dir_def demo_file_def demo_fs_def)
  have "fs_free 0 demo_dir 0 [6, 8, 7, 5]"
    using free(1) chain by (simp add: fs_free_def sup) (simp add: demo_dir_def demo_super_def)
  moreover have "length (k_blocks demo_dir 0 b) = BSIZE" for b
    using free(2) by (simp add: demo_dir_def demo_dent_def DIRSIZ_def BSIZE_def)
  moreover have "no_sharing blk ((replicate 13 0)[0 := 4])" "tree_blocks blk ((replicate 13 0)[0 := 4]) \<subseteq> {4}" for blk
  proof -
    show "no_sharing blk ((replicate 13 0)[0 := 4])"
      by (auto simp: no_sharing_def demo_dir_node vpos_def depth_def split: if_splits)
    show "tree_blocks blk ((replicate 13 0)[0 := 4]) \<subseteq> {4}"
      by (auto simp: tree_blocks_def demo_dir_node split: if_splits)
  qed
  moreover have "fs_valid 0 0 demo_dir 4"
    by (simp add: fs_valid_def bad_range_def sup)
      (simp add: demo_super_def demo_dir_def demo_file_def demo_fs_def kern0_def)
  ultimately show ?thesis
    unfolding file_inv_def tree_of_def addr by (force simp: demo_dir_inode demo_inode_def NADDR_def)
qed

lemma demo_dir_inv: "dir_inv 0 0 0 demo_dir [6, 8, 7, 5]"
proof -
  have "fblock blk ((replicate 13 0)[0 := 4]) 0 = 4" for blk
    by (simp add: fblock_def locate_def depth_def)
  moreover have "bn = 0" if "0 \<le> bn" "bn * int BSIZE < 48" for bn
    using that by (simp add: BSIZE_def)
  moreover have "(48 :: int) \<le> max_bytes" by (simp add: max_bytes_def max_blocks_def BSIZE_def)
  ultimately show ?thesis
    using demo_dir_file by (force simp: dir_inv_def demo_dir_inode)
qed

lemma demo_dir_entries: "dir_entries 0 0 demo_dir = [demo_dent 2 ''.'', demo_dent 0 ''gone'', demo_dent 3 ''etc'']"
proof -
  have l: "dir_length 0 demo_dir = 3" by (simp add: dir_length_def demo_dir_inode)
  have d: "data_of 0 0 demo_dir 0 = concat [demo_dent 2 ''.'', demo_dent 0 ''gone'', demo_dent 3 ''etc''] @ replicate 464 0"
    by (simp add: data_of_def fdata_def fblock_def locate_def depth_def demo_dir_inode) (simp add: demo_dir_def)
  have e: "dir_entry 0 0 demo_dir j = take 16 (drop (16 * j) (data_of 0 0 demo_dir 0))" if "j < 3" for j
    using dir_slot [OF demo_dir_inv, of j] that l by (simp add: BSIZE_def nat_mult_distrib)
  show ?thesis
    by (simp add: dir_entries_def l upt_conv_Cons e d) (simp add: demo_dent_def DIRSIZ_def)
qed

theorem dirsearch_is_lookup_witness:
  "\<exists>ra. dirsearch 5 0 0 None (demo_dir\<lparr>u_offset := 0\<rparr>) =
     Inr (Found, demo_dir\<lparr>u_offset := 48, u_dent := demo_dent 3 ''etc'', k_rablock := ra\<rparr>)"
proof -
  have "find_first (entry_for (u_dbuf demo_dir)) (dir_entries 0 0 demo_dir) = Some 2"
    by (simp add: demo_dir_entries entry_for_def) (simp add: demo_dir_def d_name_def d_ino_def demo_dent_def get16_def DIRSIZ_def)
  moreover have "dir_length 0 demo_dir < 5" by (simp add: dir_length_def demo_dir_inode)
  ultimately show ?thesis
    using dirsearch_is_lookup [OF demo_dir_inv, of 5] by (auto simp: demo_dir_entries)
qed

subsection \<open>Permissions as mode bits\<close>

definition rwx_class :: "nat \<Rightarrow> kern \<Rightarrow> nat" where
  "rwx_class ip s =
     (if u_uid s = i_uid (k_inode s ! ip) then 2 else if u_gid s = i_gid (k_inode s ! ip) then 1 else 0)"

lemma access_bits_bit:
  assumes "p < 3"
  shows "access_bits ip (2 ^ (6 + p)) s \<longleftrightarrow>
     u_uid s = 0 \<or> bit (i_mode (k_inode s ! ip)) (p + 3 * rwx_class ip s)"
proof -
  have d: "drop_bit 3 (2 ^ (p + 6) :: u16) = 2 ^ (p + 3)" "drop_bit 6 (2 ^ (p + 6) :: u16) = 2 ^ p"
    "drop_bit 3 (2 ^ (p + 3) :: u16) = 2 ^ p"
    using assms by (simp_all add: drop_bit_exp_eq add.commute)
  show ?thesis
    by (simp add: access_bits_def Let_def and_exp_eq_0_iff_not_bit rwx_class_def add.commute [of 6] d
      del: power_add drop_bit_exp_eq)
qed

text \<open>
  The entry \<open>xp\<close> of the text table is the one of the inode \<open>ip\<close>; it is wanted only while
  it is locked.
\<close>

definition text_of :: "nat \<Rightarrow> nat \<Rightarrow> kern \<Rightarrow> bool" where
  "text_of xp ip s \<longleftrightarrow> xp < length (k_text s) \<and>
     (\<forall>j < length (k_text s). x_iptr (k_text s ! j) = Some ip \<longleftrightarrow> j = xp) \<and>
     (XWANT \<in> x_flag (k_text s ! xp) \<longrightarrow> XLOCK \<in> x_flag (k_text s ! xp))"

text \<open>The state after an unused text has been given up: its swap space and its inode reference are returned.\<close>

definition text_released :: "nat \<Rightarrow> nat \<Rightarrow> kern \<Rightarrow> kern" where
  "text_released xp ip s = s\<lparr>
     k_text := (k_text s)[xp := (k_text s ! xp)\<lparr>x_iptr := None\<rparr>],
     k_swfree := k_swfree s @ [(ctod (x_size (k_text s ! xp)), x_daddr (k_text s ! xp))],
     k_inode := (k_inode s)[ip := (k_inode s ! ip)\<lparr>
       i_flag := i_flag (k_inode s ! ip) - {ITEXT}, i_count := wrap8 (i_count (k_inode s ! ip) - 1)\<rparr>]\<rparr>"

lemma xrele_scan_append:
  "xrele_scan P (xs @ ys) s = rbind (xrele_scan P xs s) (\<lambda>(_, s). xrele_scan P ys s)"
  by (induction P xs s rule: xrele_scan.induct) (auto simp: rbind_def split: sum.split)

lemma xrele_scan_none:
  "\<forall>j\<in>set xs. \<not> P s (k_text s ! j) \<Longrightarrow> xrele_scan P xs s = Inr ((), s)"
  by (induction xs) auto

lemma xuntext_cases:
  assumes "text_of xp ip s" "ILOCK \<in> i_flag (k_inode s ! ip)" "ip < length (k_inode s)"
  shows "xuntext xp s =
    (if XLOCK \<in> x_flag (k_text s ! xp)
     then Inl (Sleeping (ChText xp), upd_text xp (\<lambda>x. x\<lparr>x_flag := insert XWANT (x_flag x)\<rparr>) s)
     else if x_count (k_text s ! xp) \<noteq> 0 then Inr ((), s)
     else Inr ((), text_released xp ip s))"
proof -
  have xp: "xp < length (k_text s)" "x_iptr (k_text s ! xp) = Some ip"
    "XLOCK \<notin> x_flag (k_text s ! xp) \<Longrightarrow> XWANT \<notin> x_flag (k_text s ! xp)"
    using assms(1) by (auto simp: text_of_def)
  have same: "insert XLOCK F - {XLOCK, XWANT} = F" "insert XLOCK F - {XLOCK} = F" if "XLOCK \<notin> F" "XWANT \<notin> F" for F
    using that by auto
  show ?thesis
    using xp assms(2,3) same [of "x_flag (k_text s ! xp)"]
    by (auto simp: xuntext_def xlock_def xunlock_def upd_text_def upd_inode_def Let_def del_flags_def text_released_def)
qed

text \<open>With one entry for the inode, \<open>xrele\<close> is one \<open>xuntext\<close>.\<close>

lemma xrele_one:
  assumes "text_of xp ip s" "ILOCK \<in> i_flag (k_inode s ! ip)" "ip < length (k_inode s)"
  shows "xrele ip s = xuntext xp s"
proof -
  let ?P = "\<lambda>_ x. x_iptr x = Some ip"
  have xp: "xp < length (k_text s)" "x_iptr (k_text s ! xp) = Some ip"
    and only: "\<And>j. j < length (k_text s) \<Longrightarrow> j \<noteq> xp \<Longrightarrow> x_iptr (k_text s ! j) \<noteq> Some ip"
    using assms(1) by (auto simp: text_of_def)
  have split: "[0..<length (k_text s)] = [0..<xp] @ xp # [Suc xp..<length (k_text s)]"
    using xp(1) by (metis upt_conv_Cons upt_add_eq_append le_add_diff_inverse less_or_eq_imp_le zero_le)
  have before: "xrele_scan ?P [0..<xp] s = Inr ((), s)"
    using only xp(1) by (intro xrele_scan_none) auto
  have after: "xrele_scan ?P [Suc xp..<length (k_text s)] t = Inr ((), t)" if "xuntext xp s = Inr (y, t)" for y t
    using that xuntext_cases [OF assms] only
    by (intro xrele_scan_none) (auto simp: text_released_def split: if_splits)
  show ?thesis
    unfolding xrele_def split xrele_scan_append before
    using xp(2) after by (cases "xuntext xp s") auto
qed

text \<open>
  C22: \<open>access\<close> decides by the nine permission bits.  For \<open>p\<close> = 2, 1, 0 (read, write,
  execute) the super user passes, and everybody else passes exactly when bit \<open>p\<close> of the
  triple for the owner, the group or the others is set, the first of the three that applies; a
  refusal is \<open>EACCES\<close>.  A write is first refused to everybody, the super user too, with
  \<open>EROFS\<close> on a read-only file system and with \<open>ETXTBSY\<close> on the file of a shared text
  that is in use; it waits while the text is locked; an unused text is given up before the bits
  decide.  Nothing else changes.  The inode is locked, as in every call, and when it is flagged
  as a text it has one entry in the text table.
\<close>

theorem access_decides:
  assumes "find_mount (k_mount s) (i_dev (k_inode s ! ip)) = Some i"
    and "s_nfree (super s i) \<le> int NICFREE" "s_ninode (super s i) \<le> int NICINOD"
    and "ip < length (k_inode s)" "ILOCK \<in> i_flag (k_inode s ! ip)"
    and "ITEXT \<in> i_flag (k_inode s ! ip) \<Longrightarrow> text_of xp ip s" "p < 3"
  shows "access ip (2 ^ (6 + p)) s =
    (let x = k_text s ! xp;
         t = (if p = 1 \<and> ITEXT \<in> i_flag (k_inode s ! ip) then text_released xp ip s else s) in
     if p = 1 \<and> s_ronly (super s i) then Inr (True, set_error EROFS s)
     else if p = 1 \<and> ITEXT \<in> i_flag (k_inode s ! ip) \<and> XLOCK \<in> x_flag x
       then Inl (Sleeping (ChText xp), upd_text xp (\<lambda>x. x\<lparr>x_flag := insert XWANT (x_flag x)\<rparr>) s)
     else if p = 1 \<and> ITEXT \<in> i_flag (k_inode s ! ip) \<and> x_count x \<noteq> 0 then Inr (True, set_error ETXTBSY s)
     else if u_uid s = 0 \<or> bit (i_mode (k_inode s ! ip)) (p + 3 * rwx_class ip s) then Inr (False, t)
     else Inr (True, set_error EACCES t))"
proof -
  have w: "(2 ^ (6 + p) :: u16) = IWRITE \<longleftrightarrow> p = 1"
    using assms(7) by (auto simp: IWRITE_def less_Suc_eq numeral_3_eq_3)
  have r: "xrele ip s = xuntext xp s" and c: "xuntext xp s = (if XLOCK \<in> x_flag (k_text s ! xp)
     then Inl (Sleeping (ChText xp), upd_text xp (\<lambda>x. x\<lparr>x_flag := insert XWANT (x_flag x)\<rparr>) s)
     else if x_count (k_text s ! xp) \<noteq> 0 then Inr ((), s)
     else Inr ((), text_released xp ip s))" if "ITEXT \<in> i_flag (k_inode s ! ip)"
    using that assms(4-6) by (simp_all add: xrele_one xuntext_cases del: power_add)
  have k: "u_uid (text_released xp ip s) = u_uid s" "ITEXT \<notin> i_flag (k_inode (text_released xp ip s) ! ip)"
    "i_mode (k_inode (text_released xp ip s) ! ip) = i_mode (k_inode s ! ip)"
    "rwx_class ip (text_released xp ip s) = rwx_class ip s"
    using assms(4) by (simp_all add: text_released_def rwx_class_def)
  note a = access_bits_bit [OF assms(7)]
  show ?thesis
  proof (cases "p = 1 \<and> ITEXT \<in> i_flag (k_inode s ! ip)")
    case True
    then show ?thesis
      using assms(1-3) w r c k a by (simp add: access_def access_end_def getfs_def Let_def)
  next
    case False
    then show ?thesis
      using assms(1-3) w a by (auto simp: access_def access_end_def getfs_def Let_def)
  qed
qed

definition demo_busy_text :: kern where
  "demo_busy_text = demo_dir\<lparr>k_inode := [(k_inode demo_dir ! 0)\<lparr>i_flag := {ILOCK, ITEXT}\<rparr>],
     k_text := [\<lparr>x_daddr = 100, x_caddr = 0, x_size = 8, x_iptr = Some 0, x_count = 1, x_ccount = 1, x_flag = {}\<rparr>]\<rparr>"

definition demo_locked_dir :: kern where
  "demo_locked_dir = demo_dir\<lparr>k_inode := [(k_inode demo_dir ! 0)\<lparr>i_flag := {ILOCK}\<rparr>], u_uid := 7\<rparr>"

definition demo_idle_text :: kern where
  "demo_idle_text = demo_busy_text\<lparr>k_text := [(k_text demo_busy_text ! 0)\<lparr>x_count := 0\<rparr>]\<rparr>"

text \<open>
  A group member may not write the directory, and nobody may write the text in use; when it is
  no longer used the super user may.
\<close>

theorem access_decides_witness:
  "access 0 (2 ^ (6 + 1)) demo_locked_dir = Inr (True, set_error EACCES demo_locked_dir) \<and>
    access 0 (2 ^ (6 + 1)) demo_busy_text = Inr (True, set_error ETXTBSY demo_busy_text) \<and>
    access 0 (2 ^ (6 + 1)) demo_idle_text = Inr (False, text_released 0 0 demo_idle_text)"
proof -
  note d = demo_busy_text_def demo_dir_def demo_file_def demo_fs_def kern0_def demo_inode_def demo_super_def
    demo_locked_dir_def demo_idle_text_def super_def rwx_class_def NICFREE_def NICINOD_def text_of_def
  have "access 0 (2 ^ (6 + 1)) demo_locked_dir = Inr (True, set_error EACCES demo_locked_dir)"
    using access_decides [of demo_locked_dir 0 0 0 1] by (simp add: d)
  moreover have "access 0 (2 ^ (6 + 1)) demo_busy_text = Inr (True, set_error ETXTBSY demo_busy_text)"
    using access_decides [of demo_busy_text 0 0 0 1] by (simp add: d)
  moreover have "access 0 (2 ^ (6 + 1)) demo_idle_text = Inr (False, text_released 0 0 demo_idle_text)"
    using access_decides [of demo_idle_text 0 0 0 1] by (simp add: d)
  ultimately show ?thesis by blast
qed

end
