(* ===== verification/Frames.thy ===== *)
theory Frames
  imports Namei
begin

section \<open>What the file system leaves alone\<close>

text \<open>
  A view is a part of the kernel state that the routines on inodes, blocks and directories
  do not touch, such as the table of open files.  The locales name the updates these
  routines are made of; the lemmas say that whole routines keep the view, however they end.
\<close>

definition final :: "'a kres \<Rightarrow> kern" where
  "final m = (case m of Inl (_, t) \<Rightarrow> t | Inr (_, t) \<Rightarrow> t)"

lemma final_simps [simp]: "final (Inl (e, t)) = t" "final (Inr (x, t)) = t"
  by (simp_all add: final_def)

text \<open>Functions that give the next character of a name, and device routines, that keep a view.\<close>

definition reader :: "(kern \<Rightarrow> 'v) \<Rightarrow> (kern \<Rightarrow> int \<times> kern) \<Rightarrow> bool" where
  "reader view g \<longleftrightarrow> (\<forall>s. view (snd (g s)) = view s)"

definition dev_keeps :: "(kern \<Rightarrow> 'v) \<Rightarrow> devsw \<Rightarrow> bool" where
  "dev_keeps view dv \<longleftrightarrow>
     (\<forall>dev rw s. view (final (b_open dv dev rw s)) = view s \<and> view (final (c_open dv dev rw s)) = view s) \<and>
     (\<forall>dev fl s. view (final (b_close dv dev fl s)) = view s \<and> view (final (c_close dv dev fl s)) = view s) \<and>
     (\<forall>dev s. view (final (c_read dv dev s)) = view s \<and> view (final (c_write dv dev s)) = view s)"

locale kern_view =
  fixes view :: "kern \<Rightarrow> 'v"
  assumes v_blocks: "view (s\<lparr>k_blocks := b\<rparr>) = view s"
    and v_mount: "view (s\<lparr>k_mount := ms\<rparr>) = view s"
    and v_log: "view (s\<lparr>k_log := l\<rparr>) = view s"
    and v_wakeups: "view (s\<lparr>k_wakeups := w\<rparr>) = view s"
    and v_error: "view (s\<lparr>u_error := e\<rparr>) = view s"
    and v_inode: "view (s\<lparr>k_inode := is\<rparr>) = view s"
    and v_rablock: "view (s\<lparr>k_rablock := r\<rparr>) = view s"
    and v_text: "view (s\<lparr>k_text := x\<rparr>) = view s"
    and v_swfree: "view (s\<lparr>k_swfree := m\<rparr>) = view s"
    and v_updlock: "view (s\<lparr>k_updlock := q\<rparr>) = view s"
begin

lemma view_ops [simp]:
  "view (put_block dev bp s) = view s" "view (prdev m dev s) = view s" "view (printf m s) = view s"
  "view (wakeup c s) = view s" "view (set_super i fp s) = view s" "view (set_error x s) = view s"
  "view (bdwrite dev bp s) = view s" "view (upd_inode ip f s) = view s" "view (upd_text xp g s) = view s"
  "view (s\<lparr>u_error := e\<rparr>) = view s" "view (s\<lparr>k_rablock := r\<rparr>) = view s" "view (s\<lparr>k_swfree := m'\<rparr>) = view s"
  "view (s\<lparr>k_updlock := q\<rparr>) = view s" "view (s\<lparr>k_mount := ms\<rparr>) = view s"
  by (simp_all add: put_block_def prdev_def printf_def wakeup_def set_super_def set_error_def bdwrite_def
    upd_inode_def upd_text_def v_blocks v_mount v_log v_wakeups v_error v_inode v_rablock v_text v_swfree v_updlock)

lemma view_bwrite [simp]: "view (bwrite dev bp s) = view s"
  by (simp add: bwrite_def Let_def)

lemma view_bread [simp]: "view (snd (bread dev bno s)) = view s"
  by (simp add: bread_def)

lemma view_rbind:
  assumes "view (final m) = view s" and "\<And>x t. m = Inr (x, t) \<Longrightarrow> view (final (g (x, t))) = view t"
  shows "view (final (rbind m g)) = view s"
  using assms by (cases m) (auto simp: final_def split: sum.splits prod.splits)

lemma view_getfs [simp]: "view (final (getfs dev s)) = view s"
  by (simp add: getfs_def Let_def split: option.split)

lemma view_alloc_loop: "view (snd (snd (alloc_loop dev fp s))) = view s"
proof (induction dev fp s rule: alloc_loop.induct)
  case (1 dev fp s)
  then show ?case by (subst alloc_loop.simps) (auto simp: badblock_def Let_def split: prod.splits)
qed

lemma view_free_store [simp]: "view (free_store dev i bno fp s) = view s"
  by (simp add: free_store_def Let_def getblk_def split: prod.splits)

lemma view_free [simp]: "view (final (free dev bno s)) = view s"
  unfolding free_def by (rule view_rbind) (auto simp: Let_def badblock_def)

lemma view_nospace [simp]: "view (snd (nospace dev i fp s)) = view s"
  by (simp add: nospace_def)

lemma view_alloc [simp]: "view (final (alloc dev s)) = view s"
  unfolding alloc_def
proof (rule view_rbind)
  fix i t
  show "view (final (case (i, t) of (i, s) \<Rightarrow>
    if s_flock (super s i) \<noteq> 0 then Inl (Sleeping (ChFlock dev), s)
    else case alloc_loop dev (super s i) s of
         (None, fp, s) \<Rightarrow> Inr (nospace dev i fp s)
       | (Some bno, fp, s) \<Rightarrow>
           if s_nfree fp \<le> 0 then
             (let (bp, s) = bread dev bno s;
                  fp = (case bp of
                          None \<Rightarrow> fp
                        | Some (_, d) \<Rightarrow> fp\<lparr>s_nfree := df_nfree d, s_free := df_free d\<rparr>);
                  s = wakeup (ChFlock dev) s
              in if s_nfree fp \<le> 0 then Inr (nospace dev i fp s)
                 else Inr (Some (bno, zero_block), set_super i (fp\<lparr>s_fmod := True\<rparr>) s))
           else Inr (Some (bno, zero_block), set_super i (fp\<lparr>s_fmod := True\<rparr>) s))) = view t"
    using view_alloc_loop [of dev "super t i" t]
    by (auto simp: Let_def nospace_def bread_def split: option.split prod.splits)
qed simp

lemma view_plock [simp]: "view (final (plock ip s)) = view s"
  by (simp add: plock_def)

lemma view_prele [simp]: "view (prele ip s) = view s"
  by (simp add: prele_def Let_def)

lemma view_big_addrs [simp]: "view (big_addrs mode as s) = view s"
  by (induction as arbitrary: s) simp_all

lemma view_iupdat [simp]: "view (final (iupdat ip ta tm s)) = view s"
  unfolding iupdat_def Let_def
  by (auto intro!: view_rbind simp: bread_def)

lemma view_tloop_entries:
  assumes "\<And>f nb t. inner = Some f \<Longrightarrow> view (final (f nb t)) = view t"
  shows "view (final (tloop_entries inner dev bn n bp s)) = view s"
proof (induction n arbitrary: bp s)
  case (Suc n)
  have b: "view (final (free dev nb t)) = view t" for nb t by simp
  show ?case
    using assms Suc.IH
    by (auto simp: Let_def bread_def split: option.splits intro!: view_rbind)
qed simp

lemma view_tloop [simp]: "view (final (tloop n dev bn s)) = view s"
proof (induction n arbitrary: bn s)
  case 0
  show ?case by (auto simp: tloop_body_def intro!: view_rbind view_tloop_entries)
next
  case (Suc n)
  then show ?case by (auto simp: tloop_body_def intro!: view_rbind view_tloop_entries)
qed

lemma view_itrunc_addrs [simp]: "view (final (itrunc_addrs ip dev n s)) = view s"
proof (induction n arbitrary: s)
  case (Suc n)
  then show ?case by (auto simp: Let_def simp del: tloop.simps intro!: view_rbind)
qed simp

lemma view_itrunc [simp]: "view (final (itrunc ip s)) = view s"
  by (auto simp: itrunc_def Let_def intro!: view_rbind)

lemma view_ifree [simp]: "view (final (ifree dev ino s)) = view s"
  by (auto simp: ifree_def Let_def intro!: view_rbind)

lemma view_iput_last [simp]: "view (final (iput_last ip s)) = view s"
  by (auto simp: iput_last_def Let_def intro!: view_rbind)

lemma view_iput [simp]: "view (final (iput ip s)) = view s"
  by (auto simp: iput_def intro!: view_rbind)

lemma view_iget_read [simp]: "view (final (iget_read dev ino ip s)) = view s"
  by (auto simp: iget_read_def bread_def Let_def intro!: view_rbind)

lemma view_iget_fuel [simp]: "view (final (iget_fuel n dev ino s)) = view s"
  by (induction n arbitrary: dev ino s) (auto simp: Let_def split: option.split)

lemma view_iget [simp]: "view (final (iget dev ino s)) = view s"
  by (simp add: iget_def del: iget_fuel.simps)

lemma view_ialloc_block: "view (snd (ialloc_block dev i d js ino s)) = view s"
  by (induction js arbitrary: ino s) (simp_all add: Let_def)

lemma view_ialloc_scan [simp]: "view (ialloc_scan dev i adrs ino s) = view s"
proof (induction adrs arbitrary: ino s)
  case (Cons adr adrs)
  then show ?case
    using view_ialloc_block [of dev i "k_blocks s dev adr" "[0..<INOPB]" ino s] by (auto simp: bread_def split: prod.splits)
qed simp

lemma view_ialloc_loop [simp]: "view (final (ialloc_loop n dev i s)) = view s"
  by (induction n arbitrary: s) (auto simp: Let_def split: option.split intro!: view_rbind)

lemma view_ialloc [simp]: "view (final (ialloc n dev s)) = view s"
  by (auto simp: ialloc_def intro!: view_rbind)

lemma view_update_supers [simp]: "view (update_supers is s) = view s"
  by (induction "is" arbitrary: s) (auto simp: Let_def getblk_def split: option.split)

lemma view_update_inodes [simp]: "view (final (update_inodes ips s)) = view s"
  by (induction ips arbitrary: s) (auto simp: Let_def intro!: view_rbind)

lemma view_update [simp]: "view (final (update s)) = view s"
  by (auto simp: update_def Let_def intro!: view_rbind)

lemma view_xlock [simp]: "view (final (xlock xp s)) = view s"
  by (simp add: xlock_def)

lemma view_xunlock [simp]: "view (xunlock xp s) = view s"
  by (simp add: xunlock_def Let_def)

lemma view_xuntext [simp]: "view (final (xuntext xp s)) = view s"
  by (auto simp: xuntext_def Let_def split: option.split intro!: view_rbind)

lemma view_xrele_scan [simp]: "view (final (xrele_scan P xps s)) = view s"
  by (induction xps arbitrary: s) (auto intro!: view_rbind)

lemma view_xrele [simp]: "view (final (xrele ip s)) = view s" "view (final (xumount dev s)) = view s"
  by (simp_all add: xrele_def xumount_def)

lemma view_access [simp]: "view (final (access ip mode s)) = view s"
  by (auto simp: access_def access_end_def intro!: view_rbind)

lemma view_bmap_new [simp]: "view (final (bmap_new dev rw s)) = view s"
  by (cases rw) (auto simp: bmap_new_def split: option.split intro!: view_rbind)

lemma view_bmap_addr [simp]: "view (final (bmap_addr ip i rw s)) = view s"
  by (auto simp: bmap_addr_def Let_def split: option.split intro!: view_rbind)

lemma view_bmap_indirect [simp]: "view (final (bmap_indirect k dev bn nb rw s)) = view s"
  by (induction k arbitrary: nb s) (auto simp: Let_def bread_def split: option.split intro!: view_rbind)

lemma view_bmap [simp]: "view (final (bmap ip bn rw s)) = view s"
  by (auto simp: bmap_def Let_def simp del: bmap_indirect.simps split: option.split prod.splits intro!: view_rbind)

end

text \<open>Views that survive a transfer and the lookup of a path name as well.\<close>

locale path_view = kern_view view for view :: "kern \<Rightarrow> 'v" +
  assumes v_dent: "view (s\<lparr>u_dent := d\<rparr>) = view s"
    and v_dbuf: "view (s\<lparr>u_dbuf := d\<rparr>) = view s"
    and v_offset: "view (s\<lparr>u_offset := off\<rparr>) = view s"
    and v_segflg: "view (s\<lparr>u_segflg := sg\<rparr>) = view s"
    and v_dirp: "view (s\<lparr>u_dirp := a\<rparr>) = view s"
    and v_pdir: "view (s\<lparr>u_pdir := ip\<rparr>) = view s"
    and v_base: "view (s\<lparr>u_base := a\<rparr>) = view s"
    and v_count: "view (s\<lparr>u_count := a\<rparr>) = view s"
    and v_mem: "view (s\<lparr>k_mem := mm\<rparr>) = view s"
begin

lemmas view_upd [simp] = v_dent v_dbuf v_offset v_segflg v_dirp v_pdir v_base v_count v_mem

lemma view_uchar [simp]: "view (snd (uchar s)) = view s"
  by (simp add: uchar_def Let_def)

lemma reader_uchar [simp]: "reader view uchar"
  by (simp add: reader_def)

lemma view_skip_slashes: "reader view g \<Longrightarrow> view (final (skip_slashes n g c s)) = view s"
  by (induction n arbitrary: c s) (auto simp: reader_def split: prod.splits, metis snd_conv)

lemma view_gather: "reader view g \<Longrightarrow> view (final (gather n g c buf s)) = view s"
  by (induction n arbitrary: c buf s) (auto simp: reader_def Let_def split: prod.splits, (metis snd_conv)+)

lemma view_component: "reader view g \<Longrightarrow> view (final (component n g c s)) = view s"
  by (auto simp: component_def view_skip_slashes view_gather intro!: view_rbind)

lemma view_dirsearch [simp]: "view (final (dirsearch n dp eo bp s)) = view s"
proof (induction n arbitrary: eo bp s)
  case (Suc n)
  then show ?case by (auto simp: Let_def bread_def split: option.splits intro!: view_rbind)
qed simp

lemma view_namei_out [simp]: "view (final (namei_out dp s)) = view s"
  by (auto simp: namei_out_def intro!: view_rbind)

lemma view_namei_missing [simp]: "view (final (namei_missing flag dp c eo s)) = view s"
  by (auto simp: namei_missing_def Let_def intro!: view_rbind)

lemma view_namei_loop: "reader view g \<Longrightarrow> view (final (namei_loop n f g flag cl dp c s)) = view s"
proof (induction n arbitrary: cl dp c s)
  case (Suc n)
  have R: "reader view g" and IH: "\<And>cl dp c s. view (final (namei_loop n f g flag cl dp c s)) = view s"
    using Suc by simp_all
  show ?case
    by (auto simp: Let_def IH view_component [OF R] split: dirscan.split option.split intro!: view_rbind)
qed simp

lemma view_namei:
  assumes "reader view g" shows "view (final (namei n g flag s)) = view s"
proof -
  have "view (snd (g s)) = view s" using assms by (simp add: reader_def)
  then show ?thesis
    by (cases "g s")
      (auto simp: namei_def Let_def view_skip_slashes [OF assms] view_namei_loop [OF assms] intro!: view_rbind)
qed

lemma view_namei_uchar [simp]: "view (final (namei n uchar flag s)) = view s"
  by (rule view_namei) simp

lemma view_advance [simp]: "view (advance n s) = view s"
  by (simp add: advance_def)

lemma view_store_byte [simp]: "view (store_byte sg a c s) = view s"
  by (simp add: store_byte_def)

lemma view_copyout [simp]: "view (snd (copyout d off sg a n s)) = view s"
  by (induction n arbitrary: off a s) simp_all

lemma view_iomove_in [simp]: "view (snd (iomove_in n d off s)) = view s"
  by (induction n arbitrary: d off s) (simp_all add: cpass_def)

lemma view_iomove_out [simp]: "view (iomove_out n d off s) = view s"
  by (induction n arbitrary: off s) (auto simp: passc_def Let_def split: bool.split)

lemma view_iomove [simp]: "view (snd (iomove d off n rw s)) = view s"
proof (cases rw)
  case B_READ
  then show ?thesis
    using view_copyout [of d off "u_segflg s" "u_base s" "n div 2" s]
    by (auto simp: iomove_def split: prod.splits bool.splits simp del: view_copyout)
next
  case B_WRITE
  then show ?thesis by (auto simp: iomove_def split: prod.splits)
qed

lemma view_bread_bytes [simp]: "view (snd (snd (bread_bytes dev bn s))) = view s"
  by (simp add: bread_bytes_def bread_def)

lemma view_readi_block [simp]: "view (snd (readi_block ip dev lbn bn on n s)) = view s"
  using view_bread_bytes [of dev bn s]
  by (auto simp: readi_block_def Let_def split: prod.splits simp del: view_bread_bytes)

lemma view_brelse_dirty [simp]: "view (brelse_dirty dev bp s) = view s"
  by (simp add: brelse_dirty_def)

lemma view_writei_block [simp]: "view (snd (writei_block ip dev bn on n ty s)) = view s"
proof -
  obtain bp t where bp: "(if n = BSIZE then (Some (getblk dev bn s), s) else bread dev bn s) = (bp, t)"
    by (cases "if n = BSIZE then (Some (getblk dev bn s), s) else bread dev bn s")
  obtain d r where r: "iomove (case bp of None \<Rightarrow> k_junk t dev bn | Some b \<Rightarrow> snd b) on n B_WRITE t = (d, r)"
    by (cases "iomove (case bp of None \<Rightarrow> k_junk t dev bn | Some b \<Rightarrow> snd b) on n B_WRITE t")
  have "view t = view s" using bp view_bread [of dev bn s] by (auto split: if_splits simp del: view_bread)
  moreover have "view r = view t"
    using view_iomove [of "case bp of None \<Rightarrow> k_junk t dev bn | Some b \<Rightarrow> snd b" on n B_WRITE t] r by simp
  ultimately show ?thesis by (simp add: writei_block_def Let_def bp r)
qed

lemma view_readi_loop [simp]: "view (final (readi_loop f ip dev ty s)) = view s"
proof (induction f arbitrary: s ty)
  case (Suc f)
  have blk: "view t = view r" if "readi_block ip dev' lbn bn on n r = (g, t)" for dev' lbn bn on n r g t
    using view_readi_block [of ip dev' lbn bn on n r] that by simp
  show ?case
    by (auto simp: Let_def Suc.IH simp del: view_readi_block split: prod.split intro!: view_rbind dest!: blk)
qed simp

lemma view_writei_loop [simp]: "view (final (writei_loop f ip dev ty s)) = view s"
proof (induction f arbitrary: s ty)
  case (Suc f)
  have blk: "view t = view r" if "writei_block ip dev' bn on n ty' r = (g, t)" for dev' bn on n ty' r g t
    using view_writei_block [of ip dev' bn on n ty' r] that by simp
  show ?case
    by (auto simp: Let_def Suc.IH simp del: view_writei_block split: prod.split intro!: view_rbind dest!: blk)
qed simp

lemma view_readi [simp]: "dev_keeps view dv \<Longrightarrow> view (final (readi dv ip s)) = view s"
  by (simp add: readi_def Let_def dev_keeps_def del: readi_loop.simps)

lemma view_writei [simp]: "dev_keeps view dv \<Longrightarrow> view (final (writei dv ip s)) = view s"
  by (simp add: writei_def Let_def dev_keeps_def del: writei_loop.simps)

lemma view_wdir [simp]: "dev_keeps view dv \<Longrightarrow> view (final (wdir dv ip s)) = view s"
  by (auto simp: wdir_def intro!: view_rbind)

lemma view_maknode [simp]: "dev_keeps view dv \<Longrightarrow> view (final (maknode n dv mode s)) = view s"
  by (auto simp: maknode_def Let_def split: option.split intro!: view_rbind)

end

text \<open>The open files of the process are such a view.\<close>

definition open_files :: "kern \<Rightarrow> file_ent list \<times> nat option list \<times> u8 list" where
  "open_files s = (k_file s, u_ofile s, u_pofile s)"

interpretation of: path_view open_files
  by unfold_locales (simp_all add: open_files_def)

text \<open>So is the identity of the process.\<close>

definition identity :: "kern \<Rightarrow> int \<times> int \<times> int \<times> int" where
  "identity s = (u_uid s, u_gid s, u_ruid s, u_rgid s)"

interpretation id: path_view identity
  by unfold_locales (simp_all add: identity_def)

end
