(* ===== verification/Files.thy ===== *)
theory Files
  imports Frames
begin

section \<open>Open files (sys/fio.c)\<close>

text \<open>
  File descriptors of the process (\<open>u_ofile\<close>), the table of open files, and the routines
  that allocate, look up and close them.  The invariant says that the reference count of an
  open file is the number of descriptors that name it; the process of the model is the only
  one, so a count may also contain references held elsewhere, which is the parameter
  \<open>other\<close> of the invariant.
\<close>

definition upd_file :: "nat \<Rightarrow> (file_ent \<Rightarrow> file_ent) \<Rightarrow> kern \<Rightarrow> kern" where
  "upd_file fp f s = s\<lparr>k_file := (k_file s)[fp := f (k_file s ! fp)]\<rparr>"

definition getf :: "int \<Rightarrow> kern \<Rightarrow> nat option \<times> kern" where
  "getf f s =
     (if 0 \<le> f \<and> f < int NOFILE \<and> u_ofile s ! nat f \<noteq> None then (u_ofile s ! nat f, s)
      else (None, set_error EBADF s))"

text \<open>The close routine of the device of an inode with this mode, when it has one.\<close>

definition dev_close :: "devsw \<Rightarrow> u16 \<Rightarrow> nat \<Rightarrow> fflag set \<Rightarrow> (kern \<Rightarrow> unit kres) option" where
  "dev_close dv mode dev flag =
     (let ty = and mode IFMT in
      if ty = IFCHR \<or> ty = IFMPC then Some (c_close dv dev flag)
      else if ty = IFBLK \<or> ty = IFMPB then Some (b_close dv dev flag)
      else None)"

definition closef :: "devsw \<Rightarrow> nat \<Rightarrow> kern \<Rightarrow> unit kres" where
  "closef dv fp s =
     (if f_count (k_file s ! fp) > 1
      then Inr ((), upd_file fp (\<lambda>f. f\<lparr>f_count := wrap8 (f_count f - 1)\<rparr>) s)
      else
        (let ip = f_inode (k_file s ! fp); flag = f_flag (k_file s ! fp);
             dev = rdev (k_inode s ! ip); mode = i_mode (k_inode s ! ip)
         in rbind (plock ip s) (\<lambda>(_, s).
           let s = upd_file fp (\<lambda>f. f\<lparr>f_count := 0\<rparr>) s;
               s = (if FPIPE \<in> flag then
                      wakeup (ChInode2 ip) (wakeup (ChInode1 ip)
                        (upd_inode ip (\<lambda>m. m\<lparr>i_mode := and (i_mode m) (not (or IREAD IWRITE))\<rparr>) s))
                    else s)
           in rbind (iput ip s) (\<lambda>(_, s).
                case dev_close dv mode dev flag of
                  None \<Rightarrow> Inr ((), s)
                | Some cfunc \<Rightarrow>
                    if flag \<inter> {FMPX, FMPY} = {} \<and>
                       list_ex (\<lambda>f. f_count f \<noteq> 0 \<and> f_inode f = ip) (k_file s)
                    then Inr ((), s) else cfunc s))))"

definition openi :: "devsw \<Rightarrow> nat \<Rightarrow> bool \<Rightarrow> kern \<Rightarrow> unit kres" where
  "openi dv ip rw s =
     (let dev = rdev (k_inode s ! ip); maj = major dev; ty = and (i_mode (k_inode s ! ip)) IFMT in
      if ty = IFCHR \<or> ty = IFMPC then
        (if maj \<ge> nchrdev dv then Inr ((), set_error ENXIO s) else c_open dv dev rw s)
      else if ty = IFBLK \<or> ty = IFMPB then
        (if maj \<ge> nblkdev dv then Inr ((), set_error ENXIO s) else b_open dv dev rw s)
      else Inr ((), s))"

definition owner :: "nat \<Rightarrow> kern \<Rightarrow> nat option kres" where
  "owner n s =
     rbind (namei n uchar 0 s) (\<lambda>(r, s).
       case r of
         None \<Rightarrow> Inr (None, s)
       | Some ip \<Rightarrow>
           if u_uid s = i_uid (k_inode s ! ip) then Inr (Some ip, s)
           else case suser s of
             (True, s) \<Rightarrow> Inr (Some ip, s)
           | (False, s) \<Rightarrow> rbind (iput ip s) (\<lambda>(_, s). Inr (None, s)))"

definition ufalloc :: "kern \<Rightarrow> nat option \<times> kern" where
  "ufalloc s =
     (case find_first (\<lambda>f. f = None) (take NOFILE (u_ofile s)) of
        Some i \<Rightarrow> (Some i, s\<lparr>u_rval1 := int i, u_pofile := (u_pofile s)[i := 0]\<rparr>)
      | None \<Rightarrow> (None, set_error EMFILE s))"

definition falloc :: "kern \<Rightarrow> nat option \<times> kern" where
  "falloc s =
     (case ufalloc s of
        (None, s) \<Rightarrow> (None, s)
      | (Some i, s) \<Rightarrow>
          (case find_first (\<lambda>f. f_count f = 0) (k_file s) of
             Some fp \<Rightarrow>
               (Some fp, upd_file fp (\<lambda>f. f\<lparr>f_count := wrap8 (f_count f + 1), f_offset := 0\<rparr>)
                  (s\<lparr>u_ofile := (u_ofile s)[i := Some fp]\<rparr>))
           | None \<Rightarrow> (None, set_error ENFILE (printf ''no file'' s))))"

subsection \<open>Reference counts of open files\<close>

text \<open>
  The count of every open file is the number of descriptors that name it and \<open>d\<close> more.
\<close>

definition refs :: "(nat \<Rightarrow> int) \<Rightarrow> kern \<Rightarrow> bool" where
  "refs d s \<longleftrightarrow> length (u_ofile s) = NOFILE \<and> length (u_pofile s) = NOFILE \<and>
     (\<forall>fp. Some fp \<in> set (u_ofile s) \<longrightarrow> fp < length (k_file s)) \<and>
     (\<forall>fp<length (k_file s). f_count (k_file s ! fp) = int (count_list (u_ofile s) (Some fp)) + d fp)"

text \<open>
  \<open>other\<close> counts the references to each open file that are not descriptors of this
  process (those of other processes).
\<close>

definition file_refs :: "(nat \<Rightarrow> nat) \<Rightarrow> kern \<Rightarrow> bool" where
  "file_refs other s \<longleftrightarrow> refs (\<lambda>fp. int (other fp)) s"

definition returns :: "(kern \<Rightarrow> bool) \<Rightarrow> 'a kres \<Rightarrow> bool" where
  "returns P m \<longleftrightarrow> (\<forall>x t. m = Inr (x, t) \<longrightarrow> P t)"

lemma returns_simps [simp]: "returns P (Inl e)" "returns P (Inr (x, t)) = P t"
  by (simp_all add: returns_def)

lemma returns_rbind:
  "\<lbrakk>returns Q m; \<And>x t. Q t \<Longrightarrow> returns P (g (x, t))\<rbrakk> \<Longrightarrow> returns P (rbind m g)"
  by (cases m) (auto simp: returns_def)

lemma find_first_None: "find_first P xs = None \<longleftrightarrow> (\<forall>x\<in>set xs. \<not> P x)"
  by (induction xs) auto

lemma find_first_least: "\<lbrakk>find_first P xs = Some k; j < k\<rbrakk> \<Longrightarrow> \<not> P (xs ! j)"
proof (induction xs arbitrary: k j)
  case (Cons x xs)
  then show ?case by (cases j) (auto split: if_splits)
qed simp

lemma count_list_update:
  "i < length xs \<Longrightarrow> int (count_list (xs[i := v]) x) =
     int (count_list xs x) - of_bool (xs ! i = x) + of_bool (v = x)"
proof (induction xs arbitrary: i)
  case (Cons a xs)
  then show ?case by (cases i) auto
qed simp

lemma refs_view: "open_files t = open_files s \<Longrightarrow> refs d t = refs d s"
  by (simp add: refs_def open_files_def)

lemma refs_ofile:
  assumes "refs d s" "i < NOFILE" "\<And>fp. v = Some fp \<Longrightarrow> fp < length (k_file s)"
  shows "refs (\<lambda>g. d g + of_bool (u_ofile s ! i = Some g) - of_bool (v = Some g))
    (s\<lparr>u_ofile := (u_ofile s)[i := v]\<rparr>)"
  using assms set_update_subset_insert [of "u_ofile s" i v]
  by (auto simp: refs_def count_list_update)

lemma refs_count:
  "refs d s \<Longrightarrow> refs (\<lambda>g. d g + (if g = fp then f_count (f (k_file s ! fp)) - f_count (k_file s ! fp) else 0))
     (upd_file fp f s)"
  by (auto simp: refs_def upd_file_def nth_list_update)

lemma refs_bound:
  assumes "refs d s" "fp < length (k_file s)"
  shows "d fp \<le> f_count (k_file s ! fp)" "f_count (k_file s ! fp) \<le> 20 + d fp"
  using assms count_le_length [of "u_ofile s" "Some fp"] by (auto simp: refs_def NOFILE_def)

lemma refs_cong: "\<lbrakk>refs d s; \<And>g. d' g = d g\<rbrakk> \<Longrightarrow> refs d' s"
  by (simp add: refs_def)

lemma refs_upd_other: "\<lbrakk>refs d s; \<And>x. f_count (f x) = f_count x\<rbrakk> \<Longrightarrow> refs d (upd_file fp f s)"
  by (rule refs_cong [OF refs_count [of d]]) simp_all

lemma refs_pofile: "refs d s \<Longrightarrow> refs d (s\<lparr>u_pofile := (u_pofile s)[i := b]\<rparr>)"
  by (simp add: refs_def)

text \<open>Routines that keep the open files keep the counts.\<close>

lemma returns_view:
  assumes "open_files (final m) = open_files s" "refs d s"
  shows "returns (refs d) m"
proof -
  have "refs d (final m)" using refs_view [OF assms(1)] assms(2) by simp
  then show ?thesis by (auto simp: returns_def)
qed

lemma open_files_upd [simp]:
  "k_file (s\<lparr>u_ofile := x\<rparr>) = k_file s" "open_files (s\<lparr>u_rval1 := v\<rparr>) = open_files s"
  "open_files (s\<lparr>u_rval2 := v\<rparr>) = open_files s" "open_files (s\<lparr>u_asu := b\<rparr>) = open_files s"
  by (simp_all add: open_files_def)

lemma open_files_D:
  assumes "open_files t = open_files s"
  shows "k_file t = k_file s" "u_ofile t = u_ofile s" "u_pofile t = u_pofile s"
  using assms by (simp_all add: open_files_def)

text \<open>\<open>closef\<close> takes one reference away.\<close>

lemma closef_refs:
  assumes r: "refs d s" and dv: "dev_keeps open_files dv" and c: "1 \<le> f_count (k_file s ! fp)" "f_count (k_file s ! fp) \<le> 128"
    and fp: "fp < length (k_file s)"
  shows "returns (refs (\<lambda>g. d g - of_bool (g = fp))) (closef dv fp s)"
proof (cases "f_count (k_file s ! fp) > 1")
  case True
  have "refs (\<lambda>g. d g - of_bool (g = fp)) (upd_file fp (\<lambda>f. f\<lparr>f_count := wrap8 (f_count f - 1)\<rparr>) s)"
    by (rule refs_cong [OF refs_count [OF r]]) (use True c(2) in \<open>simp add: wrap8_id\<close>)
  with True show ?thesis by (simp add: closef_def)
next
  case False
  then have c1: "f_count (k_file s ! fp) = 1" using c by simp
  let ?d = "\<lambda>g. d g - of_bool (g = fp)" and ?ip = "f_inode (k_file s ! fp)"
  have z: "refs ?d (upd_file fp (\<lambda>f. f\<lparr>f_count := 0\<rparr>) t)" if "open_files t = open_files s" for t
  proof -
    have "refs d t" using refs_view [OF that] r by simp
    from refs_count [OF this, of fp "\<lambda>f. f\<lparr>f_count := 0\<rparr>"] show ?thesis
      by (rule refs_cong) (simp add: open_files_D [OF that] c1)
  qed
  have p: "returns (\<lambda>t. open_files t = open_files s) (plock ?ip s)"
    by (simp add: plock_def)
  have cl: "returns (refs ?d) (case dev_close dv mode dev fl of None \<Rightarrow> Inr ((), t)
      | Some cfunc \<Rightarrow> if b then Inr ((), t) else cfunc t)" if "refs ?d t" for mode dev fl b t
    using dv that by (auto simp: dev_close_def Let_def dev_keeps_def intro: returns_view)
  have main: "returns (refs ?d) (rbind (iput ?ip t) (\<lambda>(_, s'). case dev_close dv mode dev fl of None \<Rightarrow> Inr ((), s')
      | Some cfunc \<Rightarrow> if b s' then Inr ((), s') else cfunc s'))" if "refs ?d t" for mode dev fl b t
    by (rule returns_rbind [OF returns_view [OF of.view_iput that]]) (simp add: cl)
  have w: "refs ?d (wakeup c (wakeup c' (upd_inode ip f t)))" if "refs ?d t" for c c' ip f t
    using refs_view [of "wakeup c (wakeup c' (upd_inode ip f t))" t] that by simp
  show ?thesis
    unfolding closef_def Let_def
    using False by (simp only: if_False) (rule returns_rbind [OF p], auto intro!: main w z)
qed

lemma closef_frame:
  assumes dv: "dev_keeps open_files dv"
  shows "returns (\<lambda>t. u_ofile t = u_ofile s \<and> length (k_file t) = length (k_file s)) (closef dv fp s)"
proof -
  let ?P = "\<lambda>t. u_ofile t = u_ofile s \<and> length (k_file t) = length (k_file s)"
  have v: "returns ?P m" if "open_files (final m) = open_files t" "?P t" for m :: "unit kres" and t
    using that by (auto simp: returns_def dest: open_files_D)
  have o: "?P t" if "open_files t = open_files t'" "?P t'" for t t'
    using open_files_D [OF that(1)] that(2) by simp
  have cl: "returns ?P (case dev_close dv mode dev fl of None \<Rightarrow> Inr ((), t)
      | Some cfunc \<Rightarrow> if b then Inr ((), t) else cfunc t)" if "?P t" for mode dev fl b t
    using dv that by (auto simp: dev_close_def Let_def dev_keeps_def intro: v)
  have main: "returns ?P (rbind (iput ip t) (\<lambda>(_, s'). case dev_close dv mode dev fl of None \<Rightarrow> Inr ((), s')
      | Some cfunc \<Rightarrow> if b s' then Inr ((), s') else cfunc s'))" if "?P t" for ip mode dev fl b t
    by (rule returns_rbind [OF v [OF of.view_iput that]]) (simp add: cl)
  have u: "?P (upd_file fp f t)" if "?P t" for f t
    using that by (simp add: upd_file_def)
  have p: "returns ?P (plock (f_inode (k_file s ! fp)) s)"
    by (rule v [OF of.view_plock]) simp
  have w: "?P (wakeup c (wakeup c' (upd_inode ip f t)))" if "?P t" for c c' ip f t
    by (rule o [of _ t]) (use that in simp_all)
  show ?thesis
  proof (cases "f_count (k_file s ! fp) > 1")
    case True
    then show ?thesis by (simp add: closef_def upd_file_def)
  next
    case False
    then show ?thesis
      unfolding closef_def Let_def
      by (simp only: if_False) (rule returns_rbind [OF p], simp only: split_conv,
        intro main, simp only: w u split: if_split, simp add: w u)
  qed
qed

lemma openi_view: "dev_keeps open_files dv \<Longrightarrow> open_files (final (openi dv ip rw s)) = open_files s"
  by (simp add: openi_def Let_def dev_keeps_def)

lemma suser_view [simp]: "open_files (snd (suser s)) = open_files s"
  by (simp add: suser_def)

lemma owner_view [simp]: "open_files (final (owner n s)) = open_files s"
  unfolding owner_def
  by (rule of.view_rbind) (auto simp: suser_def split: option.split intro!: of.view_rbind)

subsection \<open>Allocation of descriptors\<close>

lemma ufalloc_Some:
  assumes "refs d s" "ufalloc s = (Some i, t)"
  shows "i < NOFILE \<and> u_ofile s ! i = None \<and> (\<forall>j<i. u_ofile s ! j \<noteq> None) \<and> u_rval1 t = int i \<and>
    k_file t = k_file s \<and> u_ofile t = u_ofile s \<and> u_error t = u_error s \<and> refs d t"
proof -
  have len: "length (u_ofile s) = NOFILE" using assms(1) by (simp add: refs_def)
  obtain F: "find_first (\<lambda>f. f = None) (u_ofile s) = Some i"
    and t: "t = s\<lparr>u_rval1 := int i, u_pofile := (u_pofile s)[i := 0]\<rparr>"
    using assms(2) len by (auto simp: ufalloc_def split: option.splits)
  have "refs d t" using assms(1) t by (simp add: refs_def)
  then show ?thesis
    using find_first_Some [OF F] find_first_least [OF F] len t by auto
qed

lemma ufalloc_None:
  assumes "refs d s" "ufalloc s = (None, t)"
  shows "t = set_error EMFILE s \<and> None \<notin> set (u_ofile s)"
proof -
  have "length (u_ofile s) = NOFILE" using assms(1) by (simp add: refs_def)
  then show ?thesis
    using assms(2) by (auto simp: ufalloc_def find_first_None split: option.splits)
qed

lemma refs_zero:
  assumes "refs d s" "fp < length (k_file s)" "f_count (k_file s ! fp) = 0" "0 \<le> d fp"
  shows "d fp = 0"
  using assms by (simp add: refs_def)

lemma falloc_Some:
  assumes r: "refs d s" and f: "falloc s = (Some fp, t)"
  shows "\<exists>i. i < NOFILE \<and> u_ofile s ! i = None \<and> (\<forall>j<i. u_ofile s ! j \<noteq> None) \<and> u_rval1 t = int i \<and>
    u_ofile t = (u_ofile s)[i := Some fp] \<and> fp < length (k_file s) \<and> f_count (k_file s ! fp) = 0 \<and>
    k_file t = (k_file s)[fp := (k_file s ! fp)\<lparr>f_count := 1, f_offset := 0\<rparr>] \<and> u_error t = u_error s \<and> refs d t"
proof -
  obtain i s1 where u: "ufalloc s = (Some i, s1)" and F: "find_first (\<lambda>f. f_count f = 0) (k_file s1) = Some fp"
    and t: "t = upd_file fp (\<lambda>f. f\<lparr>f_count := wrap8 (f_count f + 1), f_offset := 0\<rparr>) (s1\<lparr>u_ofile := (u_ofile s1)[i := Some fp]\<rparr>)"
    using f by (auto simp: falloc_def split: prod.splits option.splits)
  note i = ufalloc_Some [OF r u]
  have fp: "fp < length (k_file s1)" "f_count (k_file s1 ! fp) = 0" using find_first_Some [OF F] by auto
  have r1: "refs d s1" using i by blast
  let ?s2 = "s1\<lparr>u_ofile := (u_ofile s1)[i := Some fp]\<rparr>"
  have r2: "refs (\<lambda>g. d g + of_bool (u_ofile s1 ! i = Some g) - of_bool (Some fp = Some g)) ?s2"
    using refs_ofile [OF r1, of i "Some fp"] i fp by simp
  have "refs d t" unfolding t
    by (rule refs_cong [OF refs_count [OF r2]]) (use i fp in \<open>auto simp: wrap8_id\<close>)
  with i fp t show ?thesis by (auto simp: upd_file_def wrap8_id)
qed

lemma falloc_None:
  assumes r: "refs d s" and f: "falloc s = (None, t)"
  shows "refs d t \<and> k_file t = k_file s \<and> u_ofile t = u_ofile s \<and>
    (if None \<in> set (u_ofile s) then u_error t = Some ENFILE \<and> (\<forall>g\<in>set (k_file s). f_count g \<noteq> 0)
     else u_error t = Some EMFILE)"
proof (cases "ufalloc s")
  case (Pair x s1)
  show ?thesis
  proof (cases x)
    case None
    with Pair f ufalloc_None [OF r, of t] r show ?thesis
      by (auto simp: falloc_def set_error_def refs_def)
  next
    case (Some i)
    note i = ufalloc_Some [OF r Pair [unfolded Some]]
    have F: "find_first (\<lambda>f. f_count f = 0) (k_file s1) = None" "t = set_error ENFILE (printf ''no file'' s1)"
      using f Pair Some by (auto simp: falloc_def split: option.splits)
    have "None \<in> set (u_ofile s)" using i r by (metis nth_mem refs_def)
    moreover have "refs d t" using i refs_view [of t s1 d] F(2) by simp
    ultimately show ?thesis
      using i F by (auto simp: find_first_None set_error_def printf_def)
  qed
qed

text \<open>
  C25: \<open>falloc\<close> takes the lowest free descriptor and an unused entry of the file table,
  whose count becomes 1 and whose offset 0.  It fails with \<open>EMFILE\<close> exactly when every
  descriptor is in use, and otherwise with \<open>ENFILE\<close> exactly when every entry of the table
  is; a failure changes neither table.  The count of every open file remains the number
  of references to it.
\<close>

theorem falloc_allocates:
  assumes "file_refs other s"
  shows "case falloc s of
    (Some fp, t) \<Rightarrow> \<exists>i<NOFILE. u_ofile s ! i = None \<and> (\<forall>j<i. u_ofile s ! j \<noteq> None) \<and> u_rval1 t = int i \<and>
       u_ofile t = (u_ofile s)[i := Some fp] \<and> fp < length (k_file s) \<and> f_count (k_file s ! fp) = 0 \<and>
       k_file t = (k_file s)[fp := (k_file s ! fp)\<lparr>f_count := 1, f_offset := 0\<rparr>] \<and>
       u_error t = u_error s \<and> file_refs other t
  | (None, t) \<Rightarrow> k_file t = k_file s \<and> u_ofile t = u_ofile s \<and> file_refs other t \<and>
       (if None \<in> set (u_ofile s) then u_error t = Some ENFILE \<and> (\<forall>g\<in>set (k_file s). f_count g \<noteq> 0)
        else u_error t = Some EMFILE)"
proof -
  have r: "refs (\<lambda>fp. int (other fp)) s" using assms by (simp add: file_refs_def)
  obtain x t where f: "falloc s = (x, t)" by (cases "falloc s")
  show ?thesis
  proof (cases x)
    case None
    with f falloc_None [OF r, of t] show ?thesis by (simp add: file_refs_def)
  next
    case (Some fp)
    with f falloc_Some [OF r, of fp t] show ?thesis by (auto simp: file_refs_def)
  qed
qed

definition demo_fds :: kern where
  "demo_fds = kern0\<lparr>k_file := [\<lparr>f_flag = {FREAD}, f_count = 2, f_inode = 0, f_offset = 5\<rparr>,
     \<lparr>f_flag = {}, f_count = 0, f_inode = 0, f_offset = 0\<rparr>], u_ofile := Some 0 # replicate 19 None\<rparr>"

lemma demo_fds_refs: "file_refs (\<lambda>fp. if fp = 0 then 1 else 0) demo_fds"
proof -
  have "count_list (replicate n None) (Some (fp :: nat)) = 0" for n fp by (induction n) simp_all
  then show ?thesis
    by (auto simp: file_refs_def refs_def demo_fds_def kern0_def NOFILE_def less_Suc_eq)
qed

theorem falloc_allocates_witness:
  "\<exists>t. falloc demo_fds = (Some 1, t) \<and> u_rval1 t = 1 \<and> u_ofile t = [Some 0, Some 1] @ replicate 18 None"
proof -
  have o: "u_ofile demo_fds = Some 0 # None # replicate 18 None" "None \<in> set (u_ofile demo_fds)"
    by (simp_all add: demo_fds_def eval_nat_numeral)
  have f: "\<exists>g\<in>set (k_file demo_fds). f_count g = 0" by (simp add: demo_fds_def)
  obtain fp t where t: "falloc demo_fds = (Some fp, t)"
    using falloc_allocates [OF demo_fds_refs] o(2) f by (auto split: prod.splits option.splits)
  obtain i where i: "i < NOFILE" "u_ofile demo_fds ! i = None" "\<forall>j<i. u_ofile demo_fds ! j \<noteq> None"
    "u_rval1 t = int i" "u_ofile t = (u_ofile demo_fds)[i := Some fp]" "fp < length (k_file demo_fds)"
    "f_count (k_file demo_fds ! fp) = 0"
    using falloc_allocates [OF demo_fds_refs] t by auto
  have "i = 1" using i(2,3) o(1) by (cases i; cases "i - 1") auto
  moreover have "fp = 1" using i(6,7) by (auto simp: demo_fds_def less_Suc_eq)
  ultimately show ?thesis using t i(4,5) o(1) by simp
qed

end
