(* ===== verification/Pipe.thy ===== *)
theory Pipe
  imports Files
begin

section \<open>Pipes (sys/pipe.c)\<close>

text \<open>
  A pipe is an inode without a name: \<open>writep\<close> appends to the file, \<open>readp\<close> reads
  behind it and resets both offsets when it has caught up.  The refinement theorem says
  that the bytes between the reader's offset and the size of the file are a first-in
  first-out queue.
\<close>

definition PIPSIZ :: nat where "PIPSIZ = 4096"
definition SIGPIPE :: nat where "SIGPIPE = 13"

text \<open>A signal for the current process.\<close>

definition psignal_self :: "nat \<Rightarrow> kern \<Rightarrow> kern" where
  "psignal_self sig s = s\<lparr>k_signals := k_signals s @ [sig]\<rparr>"

definition pipe :: "nat \<Rightarrow> kern \<Rightarrow> unit kres" where
  "pipe n s =
     rbind (ialloc n (k_pipedev s) s) (\<lambda>(r, s).
       case r of
         None \<Rightarrow> Inr ((), s)
       | Some ip \<Rightarrow>
           (case falloc s of
              (None, s) \<Rightarrow> iput ip s
            | (Some rf, s) \<Rightarrow>
                (let r = u_rval1 s in
                 case falloc s of
                   (None, s) \<Rightarrow>
                     iput ip (upd_file rf (\<lambda>f. f\<lparr>f_count := 0\<rparr>)
                       (s\<lparr>u_ofile := (u_ofile s)[nat r := None]\<rparr>))
                 | (Some wrf, s) \<Rightarrow>
                     (let s = s\<lparr>u_rval2 := u_rval1 s, u_rval1 := r\<rparr>;
                          s = upd_file wrf (\<lambda>f. f\<lparr>f_flag := {FWRITE, FPIPE}, f_inode := ip\<rparr>) s;
                          s = upd_file rf (\<lambda>f. f\<lparr>f_flag := {FREAD, FPIPE}, f_inode := ip\<rparr>) s
                      in Inr ((), upd_inode ip (\<lambda>m. m\<lparr>i_count := 2, i_mode := IFREG,
                           i_flag := {IACC, IUPD, ICHG}\<rparr>) s)))))"

text \<open>
  \<open>readp\<close>; a reader that sleeps starts again at the label \<open>loop\<close>, which is the start
  of the routine.
\<close>

definition readp :: "devsw \<Rightarrow> nat \<Rightarrow> kern \<Rightarrow> unit kres" where
  "readp dv fp s =
     (let ip = f_inode (k_file s ! fp) in
      rbind (plock ip s) (\<lambda>(_, s).
        if i_size (k_inode s ! ip) = 0 then
          (let s = prele ip s in
           if i_count (k_inode s ! ip) < 2 then Inr ((), s)
           else Inl (Sleeping (ChInode2 ip), upd_inode ip (\<lambda>m. m\<lparr>i_mode := or (i_mode m) IREAD\<rparr>) s))
        else
          rbind (readi dv ip (s\<lparr>u_offset := f_offset (k_file s ! fp)\<rparr>)) (\<lambda>(_, s).
            let s = upd_file fp (\<lambda>f. f\<lparr>f_offset := u_offset s\<rparr>) s;
                s = (if f_offset (k_file s ! fp) = i_size (k_inode s ! ip) then
                       (let s = upd_file fp (\<lambda>f. f\<lparr>f_offset := 0\<rparr>) s;
                            s = upd_inode ip (\<lambda>m. m\<lparr>i_size := 0\<rparr>) s
                        in if and (i_mode (k_inode s ! ip)) IWRITE \<noteq> 0
                           then wakeup (ChInode1 ip)
                             (upd_inode ip (\<lambda>m. m\<lparr>i_mode := and (i_mode m) (not IWRITE)\<rparr>) s)
                           else s)
                     else s)
            in Inr ((), prele ip s))))"

text \<open>
  The loop of \<open>writep\<close>; \<open>c\<close> is the number of bytes still to be written.  A writer that
  sleeps starts again at the label with this \<open>c\<close>.  Every round writes at least one of
  at most 65535 bytes, and all but the last one write 4096, so 17 rounds and the final
  test are enough.
\<close>

primrec writep_loop :: "nat \<Rightarrow> devsw \<Rightarrow> nat \<Rightarrow> u16 \<Rightarrow> kern \<Rightarrow> unit kres" where
  "writep_loop 0 dv ip c s = Inl (Unfinished, s)"
| "writep_loop (Suc n) dv ip c s =
     rbind (plock ip s) (\<lambda>(_, s).
       if c = 0 then Inr ((), (prele ip s)\<lparr>u_count := 0\<rparr>)
       else if i_count (k_inode s ! ip) < 2
       then Inr ((), psignal_self SIGPIPE (set_error EPIPE (prele ip s)))
       else if i_size (k_inode s ! ip) \<ge> int PIPSIZ
       then Inl (Sleeping (ChInode1 ip),
         prele ip (upd_inode ip (\<lambda>m. m\<lparr>i_mode := or (i_mode m) IWRITE\<rparr>) s))
       else
         (let s = s\<lparr>u_offset := i_size (k_inode s ! ip), u_count := min c (of_nat PIPSIZ)\<rparr>;
              c = c - u_count s
          in rbind (writei dv ip s) (\<lambda>(_, s).
               let s = prele ip s;
                   s = (if and (i_mode (k_inode s ! ip)) IREAD \<noteq> 0
                        then wakeup (ChInode2 ip)
                          (upd_inode ip (\<lambda>m. m\<lparr>i_mode := and (i_mode m) (not IREAD)\<rparr>) s)
                        else s)
               in writep_loop n dv ip c s)))"

definition writep :: "devsw \<Rightarrow> nat \<Rightarrow> kern \<Rightarrow> unit kres" where
  "writep dv fp s = writep_loop 18 dv (f_inode (k_file s ! fp)) (u_count s) s"

subsection \<open>The queue\<close>

text \<open>The bytes in the pipe: from the offset of the reading end to the end of the file.\<close>

definition pipe_queue :: "nat \<Rightarrow> nat \<Rightarrow> nat \<Rightarrow> kern \<Rightarrow> u8 list" where
  "pipe_queue dev ip rf s =
     file_bytes dev ip s (f_offset (k_file s ! rf)) (nat (i_size (k_inode s ! ip) - f_offset (k_file s ! rf)))"

text \<open>An unlocked inode of a pipe, with a file system in order.\<close>

definition pipe_ok :: "nat \<Rightarrow> nat \<Rightarrow> nat \<Rightarrow> kern \<Rightarrow> int list \<Rightarrow> bool" where
  "pipe_ok dev i ip s L \<longleftrightarrow>
     file_inv dev i ip s L \<and> plain_file ip s \<and> u_error s = None \<and> ILOCK \<notin> i_flag (k_inode s ! ip) \<and>
     0 \<le> i_size (k_inode s ! ip) \<and> i_size (k_inode s ! ip) \<le> 8192"

text \<open>Two states that differ in the flags and the permission bits of the inode only, as far as a pipe goes.\<close>

definition alike :: "nat \<Rightarrow> kern \<Rightarrow> kern \<Rightarrow> bool" where
  "alike ip s t \<longleftrightarrow>
     same_file ip s t \<and> i_size (k_inode t ! ip) = i_size (k_inode s ! ip) \<and> i_count (k_inode t ! ip) = i_count (k_inode s ! ip) \<and>
     and (i_mode (k_inode t ! ip)) IFMT = and (i_mode (k_inode s ! ip)) IFMT \<and>
     u_error t = u_error s \<and> u_base t = u_base s \<and> u_count t = u_count s \<and> u_offset t = u_offset s \<and>
     u_segflg t = u_segflg s \<and> u_dent t = u_dent s \<and> k_mem t = k_mem s \<and> k_memok t = k_memok s \<and>
     k_resid t = k_resid s \<and> k_file t = k_file s"

lemma alike_refl: "alike ip s s"
  by (simp add: alike_def same_file_def)

lemma alike_trans: "alike ip s t \<Longrightarrow> alike ip t r \<Longrightarrow> alike ip s r"
  by (simp add: alike_def same_file_def)

lemma alike_upd:
  assumes "i_size (f (k_inode s ! ip)) = i_size (k_inode s ! ip)" "i_count (f (k_inode s ! ip)) = i_count (k_inode s ! ip)"
    "and (i_mode (f (k_inode s ! ip))) IFMT = and (i_mode (k_inode s ! ip)) IFMT"
    "i_addr (f (k_inode s ! ip)) = i_addr (k_inode s ! ip)" "i_dev (f (k_inode s ! ip)) = i_dev (k_inode s ! ip)"
  shows "alike ip s (upd_inode ip f s)"
  using assms by (cases "ip < length (k_inode s)") (simp_all add: alike_def same_file_def upd_inode_def list_update_beyond)

lemma alike_wakeup: "alike ip s (wakeup c s)"
  by (simp add: alike_def same_file_def wakeup_def)

lemma IFMT_perm [simp]:
  "and (and m (not IREAD)) IFMT = and m IFMT" "and (and m (not IWRITE)) IFMT = and m IFMT"
proof -
  have "and (not IREAD) IFMT = IFMT" "and (not IWRITE) IFMT = IFMT" by (simp_all add: mode_consts)
  then show "and (and m (not IREAD)) IFMT = and m IFMT" "and (and m (not IWRITE)) IFMT = and m IFMT"
    by (simp_all add: and.assoc)
qed

lemma plock_alike:
  assumes "ILOCK \<notin> i_flag (k_inode s ! ip)"
  shows "plock ip s = Inr ((), upd_inode ip (add_flags {ILOCK}) s)" "alike ip s (upd_inode ip (add_flags {ILOCK}) s)"
  using assms by (auto simp: plock_def add_flags_def intro!: alike_upd)

lemma prele_alike: "alike ip s (prele ip s)"
proof -
  have d: "alike ip r (upd_inode ip (del_flags F) r)" for r F by (rule alike_upd) (simp_all add: del_flags_def)
  show ?thesis using alike_trans [OF d d] alike_trans [OF alike_trans [OF d d] alike_wakeup] d
    by (auto simp: prele_def Let_def)
qed

lemma prele_unlocked: "ip < length (k_inode s) \<Longrightarrow> ILOCK \<notin> i_flag (k_inode (prele ip s) ! ip)"
  by (simp add: prele_def Let_def wakeup_def upd_inode_def del_flags_def)

lemma alike_queue: "alike ip s t \<Longrightarrow> pipe_queue dev ip rf t = pipe_queue dev ip rf s"
  by (simp add: alike_def pipe_queue_def file_bytes_def same_file_fbyte)

text \<open>Regular files do not need the device switch, so their transfers keep the table of open files.\<close>

lemma demo_devsw_keeps: "dev_keeps view demo_devsw"
  by (simp add: dev_keeps_def demo_devsw_def)

lemma plain_dv:
  "plain_file ip s \<Longrightarrow> writei dv ip s = writei demo_devsw ip s" "plain_file ip s \<Longrightarrow> readi dv ip s = readi demo_devsw ip s"
proof -
  have "i_mode (k_inode (upd_inode ip (add_flags F) s) ! ip) = i_mode (k_inode s ! ip)" for F
    by (cases "ip < length (k_inode s)") (simp_all add: upd_inode_def add_flags_def list_update_beyond)
  moreover have "IFREG \<noteq> IFCHR" "IFREG \<noteq> IFMPC" "IFDIR \<noteq> IFCHR" "IFDIR \<noteq> IFMPC" by (simp_all add: mode_consts)
  ultimately show "plain_file ip s \<Longrightarrow> writei dv ip s = writei demo_devsw ip s"
    "plain_file ip s \<Longrightarrow> readi dv ip s = readi demo_devsw ip s"
    by (auto simp: plain_file_def writei_def readi_def Let_def)
qed

lemma writei_file: "plain_file ip s \<Longrightarrow> writei dv ip s = Inr ((), t) \<Longrightarrow> k_file t = k_file s"
  using of.view_writei [OF demo_devsw_keeps, of ip s] by (simp add: plain_dv(1) [of ip s dv] open_files_def)

lemma readi_file: "plain_file ip s \<Longrightarrow> readi dv ip s = Inr ((), t) \<Longrightarrow> k_file t = k_file s"
  using of.view_readi [OF demo_devsw_keeps, of ip s] by (simp add: plain_dv(2) [of ip s dv] open_files_def)

lemma writep_appends:
  assumes ok: "pipe_ok dev i ip s L" and wrf: "f_inode (k_file s ! wrf) = ip"
    and c: "u_count s \<noteq> 0" "unat (u_count s) \<le> PIPSIZ" "2 \<le> i_count (k_inode s ! ip)" "i_size (k_inode s ! ip) < int PIPSIZ"
    and L: "4 * ((nat (i_size (k_inode s ! ip) mod int BSIZE) + unat (u_count s) + 511) div 512) \<le> length L"
    and src: "\<forall>j<unat (u_count s). src_ok s (u_base s + of_nat j)"
  obtains t M where "writep dv wrf s = Inr ((), t)" "pipe_ok dev i ip t M" "k_file t = k_file s"
    "i_size (k_inode t ! ip) = i_size (k_inode s ! ip) + int (unat (u_count s))"
    "\<And>k. 0 \<le> k \<Longrightarrow> k < i_size (k_inode s ! ip) \<Longrightarrow> fbyte dev ip t k = fbyte dev ip s k"
    "\<And>j. j < unat (u_count s) \<Longrightarrow>
       fbyte dev ip t (i_size (k_inode s ! ip) + int j) = src_byte s (u_base s + of_nat j)"
    "k_memok t = k_memok s" "k_resid t = k_resid s" "k_mem t = k_mem s"
proof -
  define n where "n = unat (u_count s)"
  define s1 where "s1 = upd_inode ip (add_flags {ILOCK}) s"
  have a1: "alike ip s s1" and p1: "plock ip s = Inr ((), s1)"
    using plock_alike [of s ip] ok by (auto simp: s1_def pipe_ok_def)
  define s2 where "s2 = s1\<lparr>u_offset := i_size (k_inode s ! ip), u_count := u_count s\<rparr>"
  have sf: "same_file ip s s2" using a1 by (simp add: s2_def alike_def same_file_def)
  have inv: "file_inv dev i ip s2 L" using same_file_inv [OF sf] ok by (simp add: pipe_ok_def)
  have pl: "plain_file ip s2" using ok a1 by (simp add: pipe_ok_def plain_file_def s2_def alike_def)
  have e2: "u_error s2 = None" "u_count s2 = u_count s" "u_offset s2 = i_size (k_inode s ! ip)" "u_base s2 = u_base s"
    "i_size (k_inode s2 ! ip) = i_size (k_inode s ! ip)" "k_file s2 = k_file s" "k_memok s2 = k_memok s"
    "k_resid s2 = k_resid s" "k_mem s2 = k_mem s" "\<And>a. src_ok s2 a = src_ok s a" "\<And>a. src_byte s2 a = src_byte s a"
    using ok a1 by (simp_all add: pipe_ok_def s2_def alike_def src_ok_def src_byte_def)
  have off: "0 \<le> u_offset s2" "u_offset s2 + int (unat (u_count s2)) \<le> max_bytes"
    using ok c by (simp_all add: e2 pipe_ok_def PIPSIZ_def max_bytes_def max_blocks_def BSIZE_def del: of_nat_unat)
  have rn: "4 * rounds s2 \<le> length L" using L by (simp add: rounds_def e2)
  obtain t M where t: "writei dv ip s2 = Inr ((), t)" "written dev i ip s2 L n t M"
    using writei_ok [OF inv pl e2(1) _ off rn, of dv] c(1) src by (auto simp: e2 n_def)
  have kf: "k_file t = k_file s" using writei_file [OF pl t(1)] by (simp add: e2)
  have sz: "i_size (k_inode t ! ip) = i_size (k_inode s ! ip) + int n" using t(2) by (simp add: written_def e2)
  define t1 where "t1 = prele ip t"
  define t2 where "t2 = (if and (i_mode (k_inode t1 ! ip)) IREAD \<noteq> 0 then wakeup (ChInode2 ip)
      (upd_inode ip (\<lambda>m. m\<lparr>i_mode := and (i_mode m) (not IREAD)\<rparr>) t1) else t1)"
  have a2: "alike ip t t2"
  proof -
    have "alike ip t1 (upd_inode ip (\<lambda>m. m\<lparr>i_mode := and (i_mode m) (not IREAD)\<rparr>) t1)" by (rule alike_upd) simp_all
    then have "alike ip t1 t2" using alike_trans [OF _ alike_wakeup] alike_refl by (simp add: t2_def)
    then show ?thesis using alike_trans [OF prele_alike] by (simp add: t1_def)
  qed
  have ipl: "ip < length (k_inode t)" using t(2) by (simp add: written_def file_inv_def)
  have "ip < length (k_inode t1)" using ipl prele_alike [of ip t] by (simp add: t1_def alike_def same_file_def)
  then have "ILOCK \<notin> i_flag (k_inode t2 ! ip)"
    using prele_unlocked [OF ipl]
    by (auto simp: t2_def t1_def wakeup_def upd_inode_def nth_list_update)
  then have p2: "plock ip t2 = Inr ((), upd_inode ip (add_flags {ILOCK}) t2)"
    and a3: "alike ip t2 (upd_inode ip (add_flags {ILOCK}) t2)" by (rule plock_alike)+
  define u where "u = (prele ip (upd_inode ip (add_flags {ILOCK}) t2))\<lparr>u_count := 0\<rparr>"
  have al: "alike ip t (prele ip (upd_inode ip (add_flags {ILOCK}) t2))"
    using alike_trans [OF alike_trans [OF a2 a3] prele_alike] .
  have "i_count (k_inode s1 ! ip) = i_count (k_inode s ! ip)" "i_size (k_inode s1 ! ip) = i_size (k_inode s ! ip)"
    using a1 by (simp_all add: alike_def)
  moreover have "min (u_count s) (of_nat PIPSIZ) = u_count s"
    using c(2) by (simp add: PIPSIZ_def min_def word_le_nat_alt)
  ultimately have first: "writep_loop (Suc m) dv ip (u_count s) s = writep_loop m dv ip 0 t2" for m
    using p1 c t(1) [unfolded s2_def] by (simp add: t1_def t2_def Let_def)
  have second: "writep_loop (Suc m) dv ip 0 t2 = Inr ((), u)" for m by (simp add: p2 u_def)
  have "writep_loop 18 dv ip (u_count s) s = writep_loop (Suc (Suc 16)) dv ip (u_count s) s" by simp
  also have "\<dots> = Inr ((), u)" by (simp only: first second)
  finally have w: "writep dv wrf s = Inr ((), u)" by (simp add: writep_def wrf)
  have au: "same_file ip t u" "i_size (k_inode u ! ip) = i_size (k_inode t ! ip)" "k_file u = k_file t"
    "and (i_mode (k_inode u ! ip)) IFMT = and (i_mode (k_inode t ! ip)) IFMT" "u_error u = u_error t"
    "k_memok u = k_memok t" "k_resid u = k_resid t" "k_mem u = k_mem t"
    using al by (simp_all add: u_def alike_def same_file_def)
  have len: "ip < length (k_inode (upd_inode ip (add_flags {ILOCK}) t2))"
    using ipl alike_trans [OF a2 a3] by (simp add: alike_def same_file_def)
  have "pipe_ok dev i ip u M"
    unfolding pipe_ok_def
  proof (intro conjI)
    show "file_inv dev i ip u M" using same_file_inv [OF au(1)] t(2) by (simp add: written_def)
    show "plain_file ip u" using pl t(2) by (simp add: plain_file_def au written_def)
    show "u_error u = None" using t(2) by (simp add: au written_def)
    show "ILOCK \<notin> i_flag (k_inode u ! ip)" using prele_unlocked [OF len] by (simp add: u_def)
    show "0 \<le> i_size (k_inode u ! ip)" "i_size (k_inode u ! ip) \<le> 8192"
      using ok c(2,4) by (auto simp: au sz pipe_ok_def n_def PIPSIZ_def simp del: of_nat_unat)
  qed
  then show ?thesis
  proof (rule that [OF w, where M = M])
    have B: "fbyte dev ip t k = (if u_offset s2 \<le> k \<and> k < u_offset s2 + int n
         then src_byte s2 (u_base s2 + of_nat (nat (k - u_offset s2))) else fbyte dev ip s2 k)"
      if "0 \<le> k" "k < max_bytes" for k using t(2) that by (simp add: written_def)
    have mb: "16384 \<le> max_bytes" by (simp add: max_bytes_def max_blocks_def BSIZE_def)
    show "fbyte dev ip u k = fbyte dev ip s k" if "0 \<le> k" "k < i_size (k_inode s ! ip)" for k
      using that B [of k] c(4) mb same_file_fbyte [OF sf] by (simp add: same_file_fbyte [OF au(1)] e2 PIPSIZ_def)
    show "fbyte dev ip u (i_size (k_inode s ! ip) + int j) = src_byte s (u_base s + of_nat j)" if "j < unat (u_count s)" for j
      using that B [of "i_size (k_inode s ! ip) + int j"] c(2,4) ok mb
      by (simp add: same_file_fbyte [OF au(1)] e2 PIPSIZ_def n_def pipe_ok_def del: of_nat_unat)
    show "i_size (k_inode u ! ip) = i_size (k_inode s ! ip) + int (unat (u_count s))"
      by (simp add: au sz n_def del: of_nat_unat)
    show "k_memok u = k_memok s" "k_resid u = k_resid s" "k_mem u = k_mem s" "k_file u = k_file s"
      using t(2) kf by (simp_all add: au written_def e2)
  qed
qed

lemma file_bytes_drop: "drop n (file_bytes dev ip s off m) = file_bytes dev ip s (off + int n) (m - n)"
  by (rule nth_equalityI) (auto simp: file_bytes_def less_diff_conv ac_simps)

lemma readp_removes:
  assumes ok: "pipe_ok dev i ip s L" and rf: "f_inode (k_file s ! rf) = ip" "rf < length (k_file s)"
    and off: "0 \<le> f_offset (k_file s ! rf)" "f_offset (k_file s ! rf) \<le> i_size (k_inode s ! ip)" "i_size (k_inode s ! ip) \<noteq> 0"
    and u: "u_count s \<noteq> 0" "u_segflg s \<noteq> System" "\<forall>j<unat (u_count s). k_memok s (u_segflg s) (u_base s + of_nat j)"
      "\<forall>b. k_resid s dev b = 0"
    and n: "n = min (unat (u_count s)) (length (pipe_queue dev ip rf s))"
  obtains t where "readp dv rf s = Inr ((), t)" "pipe_ok dev i ip t L" "u_count t = u_count s - of_nat n"
    "\<And>j. j < n \<Longrightarrow> k_mem t (u_segflg s) (u_base s + of_nat j) = pipe_queue dev ip rf s ! j"
    "pipe_queue dev ip rf t = drop n (pipe_queue dev ip rf s)"
proof -
  let ?o = "f_offset (k_file s ! rf)"
  define s1 where "s1 = upd_inode ip (add_flags {ILOCK}) s"
  have a1: "alike ip s s1" and p1: "plock ip s = Inr ((), s1)"
    using plock_alike [of s ip] ok by (auto simp: s1_def pipe_ok_def)
  define s2 where "s2 = s1\<lparr>u_offset := ?o\<rparr>"
  have sf: "same_file ip s s2" using a1 by (simp add: s2_def alike_def same_file_def)
  have inv: "file_inv dev i ip s2 L" using same_file_inv [OF sf] ok by (simp add: pipe_ok_def)
  have pl: "plain_file ip s2" using ok a1 by (simp add: pipe_ok_def plain_file_def s2_def alike_def)
  have e2: "u_error s2 = None" "u_count s2 = u_count s" "u_offset s2 = ?o" "u_base s2 = u_base s"
    "i_size (k_inode s2 ! ip) = i_size (k_inode s ! ip)" "k_file s2 = k_file s" "k_memok s2 = k_memok s"
    "k_resid s2 = k_resid s" "u_segflg s2 = u_segflg s"
    using ok a1 by (simp_all add: pipe_ok_def s2_def alike_def)
  have lq: "length (pipe_queue dev ip rf s) = nat (i_size (k_inode s ! ip) - ?o)" by (simp add: pipe_queue_def file_bytes_def)
  have mb: "i_size (k_inode s2 ! ip) \<le> max_bytes"
    using ok by (simp add: e2 pipe_ok_def max_bytes_def max_blocks_def BSIZE_def)
  obtain t where t: "readi dv ip s2 = Inr ((), t)" "readout dev ip s2 n t"
    using readi_ok [OF inv pl e2(1) _ _ mb, of dv] u off by (auto simp: e2 n lq)
  have kf: "k_file t = k_file s" using readi_file [OF pl t(1)] by (simp add: e2)
  have r: "same_file ip s2 t" "i_size (k_inode t ! ip) = i_size (k_inode s ! ip)" "u_offset t = ?o + int n"
    "u_count t = u_count s - of_nat n" "u_error t = None" "i_mode (k_inode t ! ip) = i_mode (k_inode s2 ! ip)"
    using t(2) by (simp_all add: readout_def e2)
  have st: "same_file ip s t" using sf r(1) by (simp add: same_file_def)
  have ipl: "ip < length (k_inode t)" using inv r(1) by (simp add: file_inv_def same_file_def)
  define t1 where "t1 = upd_file rf (\<lambda>f. f\<lparr>f_offset := u_offset t\<rparr>) t"
  define t2 where "t2 = upd_inode ip (\<lambda>m. m\<lparr>i_size := 0\<rparr>) (upd_file rf (\<lambda>f. f\<lparr>f_offset := 0\<rparr>) t1)"
  define t3 where "t3 = (if f_offset (k_file t1 ! rf) = i_size (k_inode t1 ! ip) then
      (if and (i_mode (k_inode t2 ! ip)) IWRITE \<noteq> 0
       then wakeup (ChInode1 ip) (upd_inode ip (\<lambda>m. m\<lparr>i_mode := and (i_mode m) (not IWRITE)\<rparr>) t2) else t2) else t1)"
  have o1: "f_offset (k_file t1 ! rf) = ?o + int n" "f_inode (k_file t1 ! rf) = ip"
    using rf kf by (simp_all add: t1_def upd_file_def r)
  have "readp dv rf s = Inr ((), prele ip t3)"
  proof -
    have "i_size (k_inode s1 ! ip) = i_size (k_inode s ! ip)" "k_file s1 = k_file s" using a1 by (simp_all add: alike_def)
    then show ?thesis
      using p1 off(3) t(1) [unfolded s2_def] rf(1) unfolding t3_def t2_def t1_def by (simp add: readp_def Let_def)
  qed
  have i1: "i_size (k_inode t1 ! ip) = i_size (k_inode s ! ip)" "k_inode t1 = k_inode t" using r by (simp_all add: t1_def upd_file_def)
  have full: "f_offset (k_file t1 ! rf) = i_size (k_inode t1 ! ip) \<longleftrightarrow> n = nat (i_size (k_inode s ! ip) - ?o)"
    using off r(2) by (auto simp: o1 i1)
  have s1t: "same_file ip s t1" using st by (simp add: same_file_def t1_def upd_file_def)
  have t2f: "same_file ip s t2" "i_size (k_inode t2 ! ip) = 0" "f_offset (k_file t2 ! rf) = 0"
    "i_mode (k_inode t2 ! ip) = i_mode (k_inode t ! ip)"
    using st ipl rf kf by (simp_all add: same_file_def t2_def t1_def upd_file_def upd_inode_def)
  have "alike ip t2 (upd_inode ip (\<lambda>m. m\<lparr>i_mode := and (i_mode m) (not IWRITE)\<rparr>) t2)" by (rule alike_upd) simp_all
  note a2 = this alike_trans [OF this alike_wakeup [of ip _ "ChInode1 ip"]]
  have t3: "same_file ip s t3" "u_error t3 = None" "and (i_mode (k_inode t3 ! ip)) IFMT = and (i_mode (k_inode s ! ip)) IFMT"
    "k_mem t3 = k_mem t" "u_count t3 = u_count t"
  proof -
    have m: "and (i_mode (k_inode t ! ip)) IFMT = and (i_mode (k_inode s ! ip)) IFMT" using a1 r(6) by (simp add: s2_def alike_def)
    have k: "k_mem t2 = k_mem t" "u_count t2 = u_count t" "u_error t2 = u_error t" "k_mem t1 = k_mem t" "u_count t1 = u_count t" "u_error t1 = u_error t"
      by (simp_all add: t2_def t1_def upd_inode_def upd_file_def)
    show "same_file ip s t3" "u_error t3 = None" "and (i_mode (k_inode t3 ! ip)) IFMT = and (i_mode (k_inode s ! ip)) IFMT"
      "k_mem t3 = k_mem t" "u_count t3 = u_count t"
      using a2(2) t2f s1t r(5) m k by (auto simp: t3_def alike_def same_file_def i1)
  qed
  have sz: "i_size (k_inode t3 ! ip) = (if n = nat (i_size (k_inode s ! ip) - ?o) then 0 else i_size (k_inode s ! ip))"
    "f_offset (k_file t3 ! rf) = (if n = nat (i_size (k_inode s ! ip) - ?o) then 0 else ?o + int n)"
    using a2(2) t2f i1 o1 full by (auto simp: t3_def alike_def)
  have len: "ip < length (k_inode t3)" using ipl st t3(1) by (simp add: same_file_def)
  note pr = prele_alike [of ip t3]
  show ?thesis
  proof (rule that)
    show "readp dv rf s = Inr ((), prele ip t3)" by fact
    show "pipe_ok dev i ip (prele ip t3) L"
    proof -
      have "same_file ip s (prele ip t3)" using t3(1) pr by (simp add: alike_def same_file_def)
      then show ?thesis
        using ok sz(1) pr prele_unlocked [OF len] t3 same_file_inv [of ip s "prele ip t3"]
        by (auto simp: pipe_ok_def plain_file_def alike_def)
    qed
    show "u_count (prele ip t3) = u_count s - of_nat n" using pr by (simp add: alike_def t3 r)
    show "k_mem (prele ip t3) (u_segflg s) (u_base s + of_nat j) = pipe_queue dev ip rf s ! j" if "j < n" for j
    proof -
      have "n \<le> 65536" using n unat_u16_less [of "u_count s"] by simp
      then have "k_mem t (u_segflg s) (u_base s + of_nat j) = fbyte dev ip s2 (?o + int j)"
        using t(2) mem_store_bytes [of j "file_bytes dev ip s2 (u_offset s2) n"] that
        by (simp add: readout_def file_bytes_def e2)
      also have "\<dots> = pipe_queue dev ip rf s ! j"
        using that n lq by (simp add: same_file_fbyte [OF sf] pipe_queue_def file_bytes_def)
      finally show ?thesis using pr by (simp add: alike_def t3)
    qed
    show "pipe_queue dev ip rf (prele ip t3) = drop n (pipe_queue dev ip rf s)"
    proof (cases "n = nat (i_size (k_inode s ! ip) - ?o)")
      case True
      then have "drop n (pipe_queue dev ip rf s) = []" using lq by simp
      moreover have "pipe_queue dev ip rf t3 = []" using sz True by (simp add: pipe_queue_def file_bytes_def)
      ultimately show ?thesis by (simp add: alike_queue [OF pr])
    next
      case False
      then have "n < nat (i_size (k_inode s ! ip) - ?o)" using n lq by simp
      then have "nat (i_size (k_inode s ! ip) - (?o + int n)) = nat (i_size (k_inode s ! ip) - ?o) - n" by simp
      then have "pipe_queue dev ip rf t3 = drop n (pipe_queue dev ip rf s)"
        using False sz by (simp add: pipe_queue_def file_bytes_drop) (simp add: file_bytes_def same_file_fbyte [OF t3(1)])
      then show ?thesis by (simp add: alike_queue [OF pr])
    qed
  qed
qed

text \<open>Bytes stored at the end of the file are at the end of the queue.\<close>

lemma pipe_queue_extended:
  assumes off: "0 \<le> f_offset (k_file s ! rf)" "f_offset (k_file s ! rf) \<le> i_size (k_inode s ! ip)"
    and t: "k_file t = k_file s" "i_size (k_inode t ! ip) = i_size (k_inode s ! ip) + int m"
      "\<And>k. 0 \<le> k \<Longrightarrow> k < i_size (k_inode s ! ip) \<Longrightarrow> fbyte dev ip t k = fbyte dev ip s k"
      "\<And>j. j < m \<Longrightarrow> fbyte dev ip t (i_size (k_inode s ! ip) + int j) = g j"
  shows "pipe_queue dev ip rf t = pipe_queue dev ip rf s @ map g [0..<m]"
proof (rule nth_equalityI)
  let ?o = "f_offset (k_file s ! rf)"
  show "length (pipe_queue dev ip rf t) = length (pipe_queue dev ip rf s @ map g [0..<m])"
    using off t(1,2) by (simp add: pipe_queue_def file_bytes_def del: of_nat_unat)
  fix j assume j: "j < length (pipe_queue dev ip rf t)"
  let ?l = "nat (i_size (k_inode s ! ip) - ?o)"
  have jl: "j < ?l + m" using j off t(1,2) by (simp add: pipe_queue_def file_bytes_def del: of_nat_unat)
  have "pipe_queue dev ip rf t ! j = fbyte dev ip t (?o + int j)"
    using j t(1) by (simp add: pipe_queue_def file_bytes_def)
  also have "\<dots> = (pipe_queue dev ip rf s @ map g [0..<m]) ! j"
  proof (cases "j < ?l")
    case True
    then show ?thesis using t(3) [of "?o + int j"] off by (simp add: pipe_queue_def file_bytes_def nth_append)
  next
    case False
    define k where "k = j - ?l"
    have k: "?o + int j = i_size (k_inode s ! ip) + int k" "k < m" using False jl off by (auto simp: k_def)
    have "(pipe_queue dev ip rf s @ map g [0..<m]) ! j = g k"
      using False k(2) by (simp add: pipe_queue_def file_bytes_def nth_append k_def del: of_nat_diff)
    then show ?thesis unfolding k(1) using t(4) [OF k(2)] by simp
  qed
  finally show "pipe_queue dev ip rf t ! j = (pipe_queue dev ip rf s @ map g [0..<m]) ! j" .
qed

text \<open>
  C14: A pipe is a first-in first-out queue of bytes.  A write of up to 4096 bytes to a pipe
  that has a reader and is not full always ends and appends exactly the bytes of the process
  to the queue; a read that follows always ends, gives the process the first bytes of the
  queue, as many as it asks for or as there are, and leaves the rest, also when it catches up
  and the file starts again at offset 0.
\<close>

theorem pipe_fifo:
  assumes ok: "pipe_ok dev i ip s L" "f_inode (k_file s ! wrf) = ip" "f_inode (k_file s ! rf) = ip" "rf < length (k_file s)"
    and off: "0 \<le> f_offset (k_file s ! rf)" "f_offset (k_file s ! rf) \<le> i_size (k_inode s ! ip)"
    and wr: "u_count s \<noteq> 0" "unat (u_count s) \<le> PIPSIZ" "2 \<le> i_count (k_inode s ! ip)"
      "i_size (k_inode s ! ip) < int PIPSIZ" "4 * ((nat (i_size (k_inode s ! ip) mod int BSIZE) + unat (u_count s) + 511) div 512) \<le> length L" "\<forall>j<unat (u_count s). src_ok s (u_base s + of_nat j)"
    and rd: "count \<noteq> 0" "sg \<noteq> System" "\<forall>j<unat count. k_memok s sg (base + of_nat j)" "\<forall>b. k_resid s dev b = 0"
  shows "\<exists>t. writep dv wrf s = Inr ((), t) \<and> u_error t = None \<and>
    (let q = pipe_queue dev ip rf s @ map (\<lambda>j. src_byte s (u_base s + of_nat j)) [0..<unat (u_count s)];
         n = min (unat count) (length q) in
     pipe_queue dev ip rf t = q \<and>
     (\<exists>r. readp dv rf (t\<lparr>u_count := count, u_base := base, u_segflg := sg\<rparr>) = Inr ((), r) \<and> u_error r = None \<and>
        u_count r = count - of_nat n \<and> (\<forall>j<n. k_mem r sg (base + of_nat j) = q ! j) \<and>
        pipe_queue dev ip rf r = drop n q))"
proof -
  let ?m = "unat (u_count s)"
  obtain t M where t: "writep dv wrf s = Inr ((), t)" "pipe_ok dev i ip t M" "k_file t = k_file s"
    "i_size (k_inode t ! ip) = i_size (k_inode s ! ip) + int ?m"
    "\<And>k. 0 \<le> k \<Longrightarrow> k < i_size (k_inode s ! ip) \<Longrightarrow> fbyte dev ip t k = fbyte dev ip s k"
    "\<And>j. j < ?m \<Longrightarrow> fbyte dev ip t (i_size (k_inode s ! ip) + int j) = src_byte s (u_base s + of_nat j)"
    "k_memok t = k_memok s" "k_resid t = k_resid s" "k_mem t = k_mem s"
    using writep_appends [OF ok(1,2) wr, of dv thesis] by blast
  let ?o = "f_offset (k_file s ! rf)"
  define q where "q = pipe_queue dev ip rf s @ map (\<lambda>j. src_byte s (u_base s + of_nat j)) [0..<?m]"
  have "pipe_queue dev ip rf t = q" unfolding q_def using off t by (intro pipe_queue_extended) auto
  moreover have "\<exists>r. readp dv rf (t\<lparr>u_count := count, u_base := base, u_segflg := sg\<rparr>) = Inr ((), r) \<and> u_error r = None \<and>
        u_count r = count - of_nat (min (unat count) (length q)) \<and>
        (\<forall>j<min (unat count) (length q). k_mem r sg (base + of_nat j) = q ! j) \<and>
        pipe_queue dev ip rf r = drop (min (unat count) (length q)) q"
  proof -
    let ?r = "t\<lparr>u_count := count, u_base := base, u_segflg := sg\<rparr>"
    have same: "same_file ip t ?r" by (simp add: same_file_def)
    have okr: "pipe_ok dev i ip ?r M" using t(2) same_file_inv [OF same] by (simp add: pipe_ok_def plain_file_def)
    have qr: "pipe_queue dev ip rf ?r = q"
      using \<open>pipe_queue dev ip rf t = q\<close> by (simp add: pipe_queue_def file_bytes_def same_file_fbyte [OF same])
    have m: "0 < ?m" using wr(1) by (simp add: unat_gt_0)
    obtain r where "readp dv rf ?r = Inr ((), r)" "pipe_ok dev i ip r M"
      "u_count r = u_count ?r - of_nat (min (unat count) (length q))"
      "\<And>j. j < min (unat count) (length q) \<Longrightarrow> k_mem r (u_segflg ?r) (u_base ?r + of_nat j) = pipe_queue dev ip rf ?r ! j"
      "pipe_queue dev ip rf r = drop (min (unat count) (length q)) (pipe_queue dev ip rf ?r)"
      by (rule readp_removes [OF okr, of rf "min (unat count) (length q)" dv])
        (use ok off t m rd wr(4) qr in \<open>auto simp del: of_nat_unat\<close>)
    then show ?thesis by (auto simp: qr pipe_ok_def)
  qed
  ultimately show ?thesis using t(1,2) by (auto simp: Let_def q_def pipe_ok_def)
qed

text \<open>A pipe with nothing in it, and a process about to write 3 bytes.\<close>

definition demo_pipe :: kern where
  "demo_pipe = demo_file\<lparr>k_inode := [demo_inode\<lparr>i_count := 2\<rparr>],
     k_file := [\<lparr>f_flag = {FREAD, FPIPE}, f_count = 1, f_inode = 0, f_offset = 0\<rparr>,
                \<lparr>f_flag = {FWRITE, FPIPE}, f_count = 1, f_inode = 0, f_offset = 0\<rparr>],
     u_count := 3, u_base := 1000, k_mem := \<lambda>_ a. ucast a\<rparr>"

lemma demo_pipe_facts:
  "pipe_ok 0 0 0 demo_pipe [6, 8, 7, 5]" "f_inode (k_file demo_pipe ! 1) = 0" "f_inode (k_file demo_pipe ! 0) = 0"
  "0 < length (k_file demo_pipe)" "0 \<le> f_offset (k_file demo_pipe ! 0)"
  "f_offset (k_file demo_pipe ! 0) \<le> i_size (k_inode demo_pipe ! 0)" "u_count demo_pipe \<noteq> 0"
  "unat (u_count demo_pipe) \<le> PIPSIZ" "2 \<le> i_count (k_inode demo_pipe ! 0)" "i_size (k_inode demo_pipe ! 0) < int PIPSIZ"
  "4 * ((nat (i_size (k_inode demo_pipe ! 0) mod int BSIZE) + unat (u_count demo_pipe) + 511) div 512) \<le> length [6, 8, 7, 5 :: int]"
  "\<forall>j<unat (u_count demo_pipe). src_ok demo_pipe (u_base demo_pipe + of_nat j)"
  "2 \<noteq> (0 :: u16)" "UserD \<noteq> System" "\<forall>j<unat 2. k_memok demo_pipe UserD (2000 + of_nat j)"
  "\<forall>b. k_resid demo_pipe 0 b = 0"
proof -
  have "same_file 0 demo_file demo_pipe" by (simp add: demo_pipe_def same_file_def demo_file_def)
  then have "file_inv 0 0 0 demo_pipe [6, 8, 7, 5]" using same_file_inv demo_file_inv by blast
  then show "pipe_ok 0 0 0 demo_pipe [6, 8, 7, 5]"
    by (simp add: pipe_ok_def plain_file_def demo_pipe_def demo_file_def demo_inode_def demo_fs_def kern0_def mode_consts)
qed (simp_all add: demo_pipe_def demo_file_def demo_inode_def demo_fs_def kern0_def src_ok_def PIPSIZ_def BSIZE_def)

theorem pipe_fifo_witness:
  "\<exists>t r. writep demo_devsw 1 demo_pipe = Inr ((), t) \<and>
    readp demo_devsw 0 (t\<lparr>u_count := 2, u_base := 2000, u_segflg := UserD\<rparr>) = Inr ((), r) \<and> u_count r = 0 \<and>
    pipe_queue 0 0 0 r = [ucast (1002 :: u16)]"
proof -
  have c: "unat (u_count demo_pipe) = 3" "[0..<3] = [0, 1, 2 :: nat]" by (simp_all add: demo_pipe_def upt_rec)
  have q: "pipe_queue 0 0 0 demo_pipe = []" "map (\<lambda>j. src_byte demo_pipe (u_base demo_pipe + of_nat j)) [0..<unat (u_count demo_pipe)] =
      [ucast (1000 :: u16), ucast (1001 :: u16), ucast (1002 :: u16)]" unfolding c
    by (simp_all add: pipe_queue_def file_bytes_def src_byte_def demo_pipe_def demo_file_def demo_inode_def
        demo_fs_def kern0_def)
  show ?thesis
    using pipe_fifo [OF demo_pipe_facts, of demo_devsw] unfolding q by (auto simp: Let_def)
qed

end
