(* ===== verification/Syscalls.thy ===== *)
theory Syscalls
  imports Pipe
begin

section \<open>File system calls (sys/sys2.c and sys/sys3.c)\<close>

text \<open>
  One definition per system call; the fields of the argument structure \<open>u_ap\<close> are the
  arguments of the definition, except the first path name, which \<open>trap\<close> has put into
  \<open>u_dirp\<close>.  The natural number \<open>n\<close> is the fuel of \<open>namei\<close> and \<open>ialloc\<close>, and
  \<open>dv\<close> the device switch.
\<close>

subsection \<open>read and write\<close>

text \<open>\<open>IFCHR&IFBLK\<close>: set for character and block devices, multiplexed or not.\<close>

definition is_special :: "nat \<Rightarrow> kern \<Rightarrow> bool" where
  "is_special ip s \<longleftrightarrow> and (i_mode (k_inode s ! ip)) (and IFCHR IFBLK) \<noteq> 0"

text \<open>\<open>mode\<close> is \<open>FREAD\<close> or \<open>FWRITE\<close>.  The file's offset is a \<open>long\<close>.\<close>

definition rdwr :: "devsw \<Rightarrow> fflag \<Rightarrow> int \<Rightarrow> u16 \<Rightarrow> u16 \<Rightarrow> kern \<Rightarrow> unit kres" where
  "rdwr dv mode fdes cbuf count s =
     (case getf fdes s of
        (None, s) \<Rightarrow> Inr ((), s)
      | (Some fp, s) \<Rightarrow>
          (let flag = f_flag (k_file s ! fp) in
           if mode \<notin> flag then Inr ((), set_error EBADF s)
           else
             (let s = s\<lparr>u_base := cbuf, u_count := count, u_segflg := UserD\<rparr>;
                  mp = (flag \<inter> {FMPX, FMPY} \<noteq> {}) in
              rbind
                (if FPIPE \<in> flag then (if mode = FREAD then readp dv fp s else writep dv fp s)
                 else
                   (let ip = f_inode (k_file s ! fp);
                        s = s\<lparr>u_offset := (if mp then 0 else f_offset (k_file s ! fp))\<rparr> in
                    rbind (if is_special ip s then Inr ((), s) else plock ip s) (\<lambda>(_, s).
                      rbind (if mode = FREAD then readi dv ip s else writei dv ip s) (\<lambda>(_, s).
                        let s = (if is_special ip s then s else prele ip s)
                        in Inr ((), if mp then s
                             else upd_file fp (\<lambda>f. f\<lparr>f_offset :=
                               wrap32 (f_offset f + int (unat (count - u_count s)))\<rparr>) s)))))
                (\<lambda>(_, s). Inr ((), s\<lparr>u_rval1 := sint (count - u_count s)\<rparr>)))))"

definition read_call :: "devsw \<Rightarrow> int \<Rightarrow> u16 \<Rightarrow> u16 \<Rightarrow> kern \<Rightarrow> unit kres" where
  "read_call dv = rdwr dv FREAD"

definition write_call :: "devsw \<Rightarrow> int \<Rightarrow> u16 \<Rightarrow> u16 \<Rightarrow> kern \<Rightarrow> unit kres" where
  "write_call dv = rdwr dv FWRITE"

subsection \<open>open, creat and close\<close>

definition open1_perm :: "nat \<Rightarrow> u16 \<Rightarrow> kern \<Rightarrow> unit kres" where
  "open1_perm ip mode s =
     rbind (if bit mode 0 then access ip IREAD s else Inr (False, s)) (\<lambda>(_, s).
       if bit mode 1 then
         rbind (access ip IWRITE s) (\<lambda>(_, s).
           Inr ((), if and (i_mode (k_inode s ! ip)) IFMT = IFDIR then set_error EISDIR s else s))
       else Inr ((), s))"

definition open1 :: "devsw \<Rightarrow> nat \<Rightarrow> u16 \<Rightarrow> nat \<Rightarrow> kern \<Rightarrow> unit kres" where
  "open1 dv ip mode trf s =
     rbind (if trf \<noteq> 2 then open1_perm ip mode s else Inr ((), s)) (\<lambda>(_, s).
       if u_error s \<noteq> None then iput ip s
       else
         rbind (if trf = 1 then itrunc ip s else Inr ((), s)) (\<lambda>(_, s).
           case falloc (prele ip s) of
             (None, s) \<Rightarrow> iput ip s
           | (Some fp, s) \<Rightarrow>
               (let s = upd_file fp (\<lambda>f. f\<lparr>f_flag := (if bit mode 0 then {FREAD} else {}) \<union>
                      (if bit mode 1 then {FWRITE} else {}), f_inode := ip\<rparr>) s;
                    i = u_rval1 s
                in rbind (openi dv ip (bit mode 1) s) (\<lambda>(_, s).
                     if u_error s = None then Inr ((), s)
                     else iput ip (upd_file fp (\<lambda>f. f\<lparr>f_count := wrap8 (f_count f - 1)\<rparr>)
                       (s\<lparr>u_ofile := (u_ofile s)[nat i := None]\<rparr>))))))"

definition open_call :: "nat \<Rightarrow> devsw \<Rightarrow> u16 \<Rightarrow> kern \<Rightarrow> unit kres" where
  "open_call n dv rwmode s =
     rbind (namei n uchar 0 s) (\<lambda>(r, s).
       case r of None \<Rightarrow> Inr ((), s) | Some ip \<Rightarrow> open1 dv ip (rwmode + 1) 0 s)"

definition creat :: "nat \<Rightarrow> devsw \<Rightarrow> u16 \<Rightarrow> kern \<Rightarrow> unit kres" where
  "creat n dv fmode s =
     rbind (namei n uchar 1 s) (\<lambda>(r, s).
       case r of
         None \<Rightarrow>
           if u_error s \<noteq> None then Inr ((), s)
           else rbind (maknode n dv (and (and fmode 0xFFF) (not ISVTX)) s) (\<lambda>(r, s).
             case r of None \<Rightarrow> Inr ((), s) | Some ip \<Rightarrow> open1 dv ip 2 2 s)
       | Some ip \<Rightarrow> open1 dv ip 2 1 s)"

definition close :: "devsw \<Rightarrow> int \<Rightarrow> kern \<Rightarrow> unit kres" where
  "close dv fdes s =
     (case getf fdes s of
        (None, s) \<Rightarrow> Inr ((), s)
      | (Some fp, s) \<Rightarrow> closef dv fp (s\<lparr>u_ofile := (u_ofile s)[nat fdes := None]\<rparr>))"

text \<open>A \<open>long\<close> result lies over the two result words, the high word first.\<close>

definition set_rlong :: "int \<Rightarrow> kern \<Rightarrow> kern" where
  "set_rlong v s = s\<lparr>u_rval1 := sgn16 (v div 65536 mod 65536), u_rval2 := sgn16 (v mod 65536)\<rparr>"

definition seek :: "int \<Rightarrow> int \<Rightarrow> int \<Rightarrow> kern \<Rightarrow> unit kres" where
  "seek fdes off sbase s =
     (case getf fdes s of
        (None, s) \<Rightarrow> Inr ((), s)
      | (Some fp, s) \<Rightarrow>
          if f_flag (k_file s ! fp) \<inter> {FPIPE, FMPX, FMPY} \<noteq> {} then Inr ((), set_error ESPIPE s)
          else
            (let off = (if sbase = 1 then wrap32 (off + f_offset (k_file s ! fp))
                        else if sbase = 2
                        then wrap32 (off + i_size (k_inode s ! f_inode (k_file s ! fp)))
                        else off)
             in Inr ((), set_rlong off (upd_file fp (\<lambda>f. f\<lparr>f_offset := off\<rparr>) s))))"

subsection \<open>link, mknod and access\<close>

definition link :: "nat \<Rightarrow> devsw \<Rightarrow> u16 \<Rightarrow> kern \<Rightarrow> unit kres" where
  "link n dv linkname s =
     rbind (namei n uchar 0 s) (\<lambda>(r, s).
       case r of
         None \<Rightarrow> Inr ((), s)
       | Some ip \<Rightarrow>
           (case (if and (i_mode (k_inode s ! ip)) IFMT = IFDIR then suser s else (True, s)) of
              (False, s) \<Rightarrow> iput ip s
            | (True, s) \<Rightarrow>
                rbind (namei n uchar 1 ((prele ip s)\<lparr>u_dirp := linkname\<rparr>)) (\<lambda>(r, s).
                  case r of
                    Some xp \<Rightarrow> rbind (iput xp (set_error EEXIST s)) (\<lambda>(_, s). iput ip s)
                  | None \<Rightarrow>
                      if u_error s \<noteq> None then iput ip s
                      else if i_dev (k_inode s ! u_pdir s) \<noteq> i_dev (k_inode s ! ip) then
                        rbind (iput (u_pdir s) s) (\<lambda>(_, s). iput ip (set_error EXDEV s))
                      else
                        rbind (wdir dv ip s) (\<lambda>(_, s).
                          iput ip (if u_error s = None
                            then upd_inode ip (\<lambda>m. add_flags {ICHG} (m\<lparr>i_nlink := i_nlink m + 1\<rparr>)) s
                            else s)))))"

text \<open>The device number shares its place with the first address of the inode.\<close>

definition mknod :: "nat \<Rightarrow> devsw \<Rightarrow> u16 \<Rightarrow> nat \<Rightarrow> kern \<Rightarrow> unit kres" where
  "mknod n dv fmode dev s =
     rbind
       (case suser s of
          (True, s) \<Rightarrow> namei n uchar 1 s
        | (False, s) \<Rightarrow> Inr (None, s))
       (\<lambda>(r, s).
         case r of
           Some ip \<Rightarrow> iput ip (set_error EEXIST s)
         | None \<Rightarrow>
             if u_error s \<noteq> None then Inr ((), s)
             else rbind (maknode n dv fmode s) (\<lambda>(r, s).
               case r of
                 None \<Rightarrow> Inr ((), s)
               | Some ip \<Rightarrow> iput ip (upd_inode ip (\<lambda>m. m\<lparr>i_addr := (i_addr m)[0 := int dev]\<rparr>) s)))"

definition access_if :: "bool \<Rightarrow> nat \<Rightarrow> u16 \<Rightarrow> kern \<Rightarrow> unit kres" where
  "access_if b ip mode s = (if b then rbind (access ip mode s) (\<lambda>(_, s). Inr ((), s)) else Inr ((), s))"

definition saccess :: "nat \<Rightarrow> u16 \<Rightarrow> kern \<Rightarrow> unit kres" where
  "saccess n fmode s =
     (let svuid = u_uid s; svgid = u_gid s; s = s\<lparr>u_uid := u_ruid s, u_gid := u_rgid s\<rparr> in
      rbind (namei n uchar 0 s) (\<lambda>(r, s).
        rbind
          (case r of
             None \<Rightarrow> Inr ((), s)
           | Some ip \<Rightarrow>
               rbind (access_if (bit fmode 2) ip IREAD s) (\<lambda>(_, s).
                 rbind (access_if (bit fmode 1) ip IWRITE s) (\<lambda>(_, s).
                   rbind (access_if (bit fmode 0) ip IEXEC s) (\<lambda>(_, s). iput ip s))))
          (\<lambda>(_, s). Inr ((), s\<lparr>u_uid := svuid, u_gid := svgid\<rparr>))))"

end
