(* ===== verification/Syscalls2.thy ===== *)
theory Syscalls2
  imports Syscalls
begin

section \<open>More system calls (sys/sys3.c and sys/sys4.c)\<close>

text \<open>
  Status, duplicated descriptors, mounting, the identity and the time of the process, and
  the calls that change directories and inodes.  \<open>ssig\<close> and \<open>kill\<close> are with the process
  table.
\<close>

subsection \<open>stat and dup (sys/sys3.c)\<close>

text \<open>\<open>struct stat\<close>, 30 bytes.\<close>

definition stat_struct :: "inode \<Rightarrow> int \<Rightarrow> block \<Rightarrow> u8 list" where
  "stat_struct ip pipeadj d =
     (let k = dinode_at (i_number ip);
          b = put16 (replicate 30 0) 0 (int (i_dev ip));
          b = put16 b 2 (int (i_number ip));
          b = put16 b 4 (uint (i_mode ip));
          b = put16 b 6 (i_nlink ip);
          b = put16 b 8 (i_uid ip);
          b = put16 b 10 (i_gid ip);
          b = put16 b 12 (int (rdev ip));
          b = put32 b 14 (i_size ip - pipeadj);
          b = put32 b 18 (getl d (k + 52));
          b = put32 b 22 (getl d (k + 56))
      in put32 b 26 (getl d (k + 60)))"

text \<open>\<open>stat1\<close> does not look at the error flag of the buffer.\<close>

definition stat1 :: "nat \<Rightarrow> u16 \<Rightarrow> int \<Rightarrow> kern \<Rightarrow> unit kres" where
  "stat1 ip ub pipeadj s =
     rbind (iupdat ip (k_time s) (k_time s) s) (\<lambda>(_, s).
       let ino = k_inode s ! ip;
           (bp, s) = bread (i_dev ino) (itod (i_number ino)) s;
           d = (case bp of Some (_, d) \<Rightarrow> d | None \<Rightarrow> k_junk s (i_dev ino) (itod (i_number ino)))
       in case copyout (stat_struct ino pipeadj d) 0 UserD ub 15 s of
            (ok, s) \<Rightarrow> Inr ((), if ok then s else set_error EFAULT s))"

definition fstat :: "int \<Rightarrow> u16 \<Rightarrow> kern \<Rightarrow> unit kres" where
  "fstat fdes sb s =
     (case getf fdes s of
        (None, s) \<Rightarrow> Inr ((), s)
      | (Some fp, s) \<Rightarrow>
          stat1 (f_inode (k_file s ! fp)) sb
            (if FPIPE \<in> f_flag (k_file s ! fp) then f_offset (k_file s ! fp) else 0) s)"

definition stat :: "nat \<Rightarrow> u16 \<Rightarrow> kern \<Rightarrow> unit kres" where
  "stat n sb s =
     rbind (namei n uchar 0 s) (\<lambda>(r, s).
       case r of
         None \<Rightarrow> Inr ((), s)
       | Some ip \<Rightarrow> rbind (stat1 ip sb 0 s) (\<lambda>(_, s). iput ip s))"

text \<open>The last part of \<open>dup\<close>: descriptor \<open>i\<close> becomes a copy of \<open>fdes\<close>.\<close>

definition dup_to :: "devsw \<Rightarrow> int \<Rightarrow> nat \<Rightarrow> nat \<Rightarrow> kern \<Rightarrow> unit kres" where
  "dup_to dv fdes fp i s =
     (if int i \<noteq> fdes then
        rbind (case u_ofile s ! i of None \<Rightarrow> Inr ((), s) | Some fp' \<Rightarrow> closef dv fp' s) (\<lambda>(_, s).
          Inr ((), upd_file fp (\<lambda>f. f\<lparr>f_count := wrap8 (f_count f + 1)\<rparr>)
            (s\<lparr>u_ofile := (u_ofile s)[i := Some fp]\<rparr>)))
      else Inr ((), s))"

definition dup :: "devsw \<Rightarrow> u16 \<Rightarrow> int \<Rightarrow> kern \<Rightarrow> unit kres" where
  "dup dv fdes fdes2 s =
     (let m = and fdes (not 0x3F); fdes = uint (and fdes 0x3F) in
      case getf fdes s of
        (None, s) \<Rightarrow> Inr ((), s)
      | (Some fp, s) \<Rightarrow>
          if and m 0x40 = 0 then
            (case ufalloc s of
               (None, s) \<Rightarrow> Inr ((), s)
             | (Some i, s) \<Rightarrow> dup_to dv fdes fp i s)
          else if fdes2 < 0 \<or> fdes2 \<ge> int NOFILE then Inr ((), set_error EBADF s)
          else dup_to dv fdes fp (nat fdes2) (s\<lparr>u_rval1 := fdes2\<rparr>))"

subsection \<open>mount and umount (sys/sys3.c)\<close>

definition getmdev :: "nat \<Rightarrow> devsw \<Rightarrow> kern \<Rightarrow> nat kres" where
  "getmdev n dv s =
     rbind (namei n uchar 0 s) (\<lambda>(r, s).
       case r of
         None \<Rightarrow> Inr (NODEV, s)
       | Some ip \<Rightarrow>
           (let s = (if and (i_mode (k_inode s ! ip)) IFMT \<noteq> IFBLK then set_error ENOTBLK s else s);
                dev = rdev (k_inode s ! ip);
                s = (if major dev \<ge> nblkdev dv then set_error ENXIO s else s)
            in rbind (iput ip s) (\<lambda>(_, s). Inr (dev, s))))"

text \<open>\<open>struct filsys\<close> read from its block.\<close>

definition get_filsys :: "block \<Rightarrow> filsys" where
  "get_filsys d = \<lparr>
     s_isize = get16 d 0, s_fsize = getl d 2, s_nfree = sgn16 (get16 d 6), s_free = getls d 8 NICFREE,
     s_ninode = sgn16 (get16 d 208),
     s_inode = map (\<lambda>i. nat (get16 d (210 + 2 * i))) [0..<NICINOD],
     s_flock = unat (d ! 410), s_ilock = unat (d ! 411), s_fmod = (d ! 412 \<noteq> 0), s_ronly = (d ! 413 \<noteq> 0),
     s_time = getl d 414, s_rest = drop 418 d\<rparr>"

text \<open>The entry of the mount table to use: none when the device is mounted or the table full.\<close>

definition mount_slot :: "nat \<Rightarrow> mount list \<Rightarrow> nat option" where
  "mount_slot dev ms =
     (if list_ex (\<lambda>m. m_bufp m \<noteq> None \<and> m_dev m = dev) ms then None
      else find_first (\<lambda>m. m_bufp m = None) ms)"

definition smount_busy :: "nat \<Rightarrow> kern \<Rightarrow> unit kres" where
  "smount_busy ip s = iput ip (set_error EBUSY s)"

definition smount :: "nat \<Rightarrow> devsw \<Rightarrow> u16 \<Rightarrow> u16 \<Rightarrow> kern \<Rightarrow> unit kres" where
  "smount n dv freg ronly s =
     rbind (getmdev n dv s) (\<lambda>(dev, s).
       if u_error s \<noteq> None then Inr ((), s)
       else rbind (namei n uchar 0 (s\<lparr>u_dirp := freg\<rparr>)) (\<lambda>(r, s).
         case r of
           None \<Rightarrow> Inr ((), s)
         | Some ip \<Rightarrow>
             if i_count (k_inode s ! ip) \<noteq> 1 \<or> is_special ip s then smount_busy ip s
             else (case mount_slot dev (k_mount s) of
               None \<Rightarrow> smount_busy ip s
             | Some mp \<Rightarrow>
                 rbind (b_open dv dev (ronly = 0) s) (\<lambda>(_, s).
                   if u_error s \<noteq> None then smount_busy ip s
                   else (case bread dev SUPERB s of
                     (None, s) \<Rightarrow> iput ip s
                   | (Some (_, d), s) \<Rightarrow>
                       (let fp = (get_filsys d)\<lparr>s_ilock := 0, s_flock := 0, s_ronly := bit ronly 0\<rparr>;
                            s = s\<lparr>k_mount := (k_mount s)[mp := \<lparr>m_dev = dev, m_bufp = Some fp, m_inodp = Some ip\<rparr>]\<rparr>
                        in Inr ((), prele ip (upd_inode ip (add_flags {IMOUNT}) s))))))))"

definition sumount :: "nat \<Rightarrow> devsw \<Rightarrow> kern \<Rightarrow> unit kres" where
  "sumount n dv s =
     rbind (getmdev n dv s) (\<lambda>(dev, s).
       if u_error s \<noteq> None then Inr ((), s)
       else rbind (xumount dev s) (\<lambda>(_, s). rbind (update s) (\<lambda>(_, s).
         case find_mount (k_mount s) dev of
           None \<Rightarrow> Inr ((), set_error EINVAL s)
         | Some mp \<Rightarrow>
             if list_ex (\<lambda>m. i_number m \<noteq> 0 \<and> i_dev m = dev) (k_inode s)
             then Inr ((), set_error EBUSY s)
             else rbind (b_close dv dev {} s) (\<lambda>(_, s).
               let ip = the (m_inodp (k_mount s ! mp)); s = upd_inode ip (del_flags {IMOUNT}) s in
               rbind (plock ip s) (\<lambda>(_, s). rbind (iput ip s) (\<lambda>(_, s).
                 Inr ((), s\<lparr>k_mount := (k_mount s)[mp := (k_mount s ! mp)\<lparr>m_bufp := None\<rparr>]\<rparr>)))))))"

subsection \<open>Time and identity (sys/sys4.c)\<close>

definition gtime :: "kern \<Rightarrow> unit kres" where
  "gtime s = Inr ((), set_rlong (k_time s) s)"

definition HZ :: u16 where "HZ = 60"
definition TIMEZONE :: int where "TIMEZONE = 300"
definition DSTFLAG :: int where "DSTFLAG = 1"

text \<open>The seconds and milliseconds that \<open>ftime\<close> reports; unsigned arithmetic.\<close>

definition ftime_value :: "kern \<Rightarrow> int \<times> u16" where
  "ftime_value s =
     (let t = k_time s; ms = k_lbolt s;
          (t, ms) = (if ms > HZ then (wrap32 (t + 1), ms - HZ) else (t, ms))
      in (t, (1000 * ms) div HZ))"

text \<open>\<open>struct timeb\<close>, 10 bytes.\<close>

definition ftime :: "u16 \<Rightarrow> kern \<Rightarrow> unit kres" where
  "ftime tp s =
     (let (t, ms) = ftime_value s;
          b = put32 (replicate 10 0) 0 t;
          b = put16 b 4 (uint ms);
          b = put16 b 6 TIMEZONE;
          b = put16 b 8 DSTFLAG
      in case copyout b 0 UserD tp 5 s of (ok, s) \<Rightarrow> Inr ((), if ok then s else set_error EFAULT s))"

definition stime :: "int \<Rightarrow> kern \<Rightarrow> unit kres" where
  "stime t s = (case suser s of (True, s) \<Rightarrow> Inr ((), s\<lparr>k_time := t\<rparr>) | (False, s) \<Rightarrow> Inr ((), s))"

definition setuid :: "int \<Rightarrow> kern \<Rightarrow> unit kres" where
  "setuid uid s =
     (case (if u_ruid s = uid then (True, s) else suser s) of
        (True, s) \<Rightarrow> Inr ((), s\<lparr>u_uid := uid, p_uid := uid, u_ruid := uid\<rparr>)
      | (False, s) \<Rightarrow> Inr ((), s))"

definition getuid :: "kern \<Rightarrow> unit kres" where
  "getuid s = Inr ((), s\<lparr>u_rval1 := u_ruid s, u_rval2 := u_uid s\<rparr>)"

definition setgid :: "int \<Rightarrow> kern \<Rightarrow> unit kres" where
  "setgid gid s =
     (case (if u_rgid s = gid then (True, s) else suser s) of
        (True, s) \<Rightarrow> Inr ((), s\<lparr>u_gid := gid, u_rgid := gid\<rparr>)
      | (False, s) \<Rightarrow> Inr ((), s))"

definition getgid :: "kern \<Rightarrow> unit kres" where
  "getgid s = Inr ((), s\<lparr>u_rval1 := u_rgid s, u_rval2 := u_gid s\<rparr>)"

definition getpid :: "kern \<Rightarrow> unit kres" where
  "getpid s = Inr ((), s\<lparr>u_rval1 := p_pid s, u_rval2 := p_ppid s\<rparr>)"

definition sync :: "kern \<Rightarrow> unit kres" where
  "sync s = update s"

definition NZERO :: int where "NZERO = 20"

text \<open>\<open>n\<close> is an \<open>int\<close> of 16 bits, and the sum wraps around.\<close>

definition nice :: "int \<Rightarrow> kern \<Rightarrow> unit kres" where
  "nice niceness s =
     (let (ok, s) = (if niceness < 0 then suser s else (True, s));
          n = (if ok then niceness else 0);
          n = sgn16 ((n + p_nice s) mod 65536);
          n = (if n \<ge> 2 * NZERO then 2 * NZERO - 1 else n);
          n = (if n < 0 then 0 else n)
      in Inr ((), s\<lparr>p_nice := n\<rparr>))"

definition times :: "u16 \<Rightarrow> kern \<Rightarrow> unit kres" where
  "times tp s =
     (case copyout (putls (replicate 16 0) 0 (u_times s)) 0 UserD tp 8 s of
        (ok, s) \<Rightarrow> Inr ((), if ok then s else set_error EFAULT s))"

definition profil :: "u16 \<Rightarrow> u16 \<Rightarrow> u16 \<Rightarrow> u16 \<Rightarrow> kern \<Rightarrow> unit kres" where
  "profil bufbase bufsize pcoffset pcscale s = Inr ((), s\<lparr>u_prof := [bufbase, bufsize, pcoffset, pcscale]\<rparr>)"

definition alarm :: "int \<Rightarrow> kern \<Rightarrow> unit kres" where
  "alarm deltat s = Inr ((), s\<lparr>p_clktim := deltat, u_rval1 := p_clktim s\<rparr>)"

text \<open>\<open>pause\<close> sleeps again whenever it is woken up.\<close>

definition pause :: "kern \<Rightarrow> unit kres" where
  "pause s = Inl (Sleeping ChUser, s)"

definition umask :: "u16 \<Rightarrow> kern \<Rightarrow> unit kres" where
  "umask msk s = Inr ((), s\<lparr>u_cmask := and msk 0x1FF, u_rval1 := sint (u_cmask s)\<rparr>)"

subsection \<open>Directories and inodes (sys/sys4.c)\<close>

text \<open>The part of \<open>unlink\<close> once the inode \<open>ip\<close> of the entry in \<open>pp\<close> is there.\<close>

definition unlink_entry :: "devsw \<Rightarrow> nat \<Rightarrow> nat \<Rightarrow> kern \<Rightarrow> unit kres" where
  "unlink_entry dv pp ip s =
     (case (if and (i_mode (k_inode s ! ip)) IFMT = IFDIR then suser s else (True, s)) of
        (False, s) \<Rightarrow> Inr ((), s)
      | (True, s) \<Rightarrow>
          if i_dev (k_inode s ! ip) \<noteq> i_dev (k_inode s ! pp) then Inr ((), set_error EBUSY s)
          else rbind (if ITEXT \<in> i_flag (k_inode s ! ip) then xrele ip s else Inr ((), s)) (\<lambda>(_, s).
            if ITEXT \<in> i_flag (k_inode s ! ip) \<and> i_nlink (k_inode s ! ip) = 1
            then Inr ((), set_error ETXTBSY s)
            else
              rbind (writei dv pp (s\<lparr>u_offset := wrap32 (u_offset s - 16), u_base := 0, u_count := 16,
                  u_dent := put16 (u_dent s) 0 0\<rparr>)) (\<lambda>(_, s).
                Inr ((), upd_inode ip (\<lambda>m. add_flags {ICHG} (m\<lparr>i_nlink := i_nlink m - 1\<rparr>)) s))))"

definition unlink :: "nat \<Rightarrow> devsw \<Rightarrow> kern \<Rightarrow> unit kres" where
  "unlink n dv s =
     rbind (namei n uchar 2 s) (\<lambda>(r, s).
       case r of
         None \<Rightarrow> Inr ((), s)
       | Some pp \<Rightarrow>
           rbind
             (if i_number (k_inode s ! pp) = d_ino (u_dent s)
              then Inr (Some pp, upd_inode pp (\<lambda>m. m\<lparr>i_count := wrap8 (i_count m + 1)\<rparr>) s)
              else iget (i_dev (k_inode s ! pp)) (d_ino (u_dent s)) s)
             (\<lambda>(r, s).
               case r of
                 None \<Rightarrow> iput pp s
               | Some ip \<Rightarrow>
                   rbind (unlink_entry dv pp ip s) (\<lambda>(_, s).
                     rbind (iput ip s) (\<lambda>(_, s). iput pp s))))"

text \<open>\<open>chdirec\<close> works on a pointer; \<open>get\<close> and \<open>put\<close> read and set what it points to.\<close>

definition chdirec :: "nat \<Rightarrow> (kern \<Rightarrow> nat option) \<Rightarrow> (nat \<Rightarrow> kern \<Rightarrow> kern) \<Rightarrow> kern \<Rightarrow> unit kres" where
  "chdirec n get put s =
     rbind (namei n uchar 0 s) (\<lambda>(r, s).
       case r of
         None \<Rightarrow> Inr ((), s)
       | Some ip \<Rightarrow>
           if and (i_mode (k_inode s ! ip)) IFMT \<noteq> IFDIR then iput ip (set_error ENOTDIR s)
           else rbind (access ip IEXEC s) (\<lambda>(denied, s).
             if denied then iput ip s
             else
               (let s = prele ip s in
                rbind
                  (case get s of
                     None \<Rightarrow> Inr ((), s)
                   | Some old \<Rightarrow> rbind (plock old s) (\<lambda>(_, s). iput old s))
                  (\<lambda>(_, s). Inr ((), put ip s)))))"

definition chdir :: "nat \<Rightarrow> kern \<Rightarrow> unit kres" where
  "chdir n = chdirec n (\<lambda>s. Some (u_cdir s)) (\<lambda>ip s. s\<lparr>u_cdir := ip\<rparr>)"

definition chroot :: "nat \<Rightarrow> kern \<Rightarrow> unit kres" where
  "chroot n s =
     (case suser s of
        (True, s) \<Rightarrow> chdirec n u_rdir (\<lambda>ip s. s\<lparr>u_rdir := Some ip\<rparr>) s
      | (False, s) \<Rightarrow> Inr ((), s))"

definition chmod :: "nat \<Rightarrow> u16 \<Rightarrow> kern \<Rightarrow> unit kres" where
  "chmod n fmode s =
     rbind (owner n s) (\<lambda>(r, s).
       case r of
         None \<Rightarrow> Inr ((), s)
       | Some ip \<Rightarrow>
           (let fmode = (if u_uid s \<noteq> 0 then and fmode (not ISVTX) else fmode);
                s = upd_inode ip (\<lambda>m. add_flags {ICHG}
                      (m\<lparr>i_mode := or (and (i_mode m) (not 0xFFF)) (and fmode 0xFFF)\<rparr>)) s
            in rbind
                 (if ITEXT \<in> i_flag (k_inode s ! ip) \<and> and (i_mode (k_inode s ! ip)) ISVTX = 0
                  then xrele ip s else Inr ((), s))
                 (\<lambda>(_, s). iput ip s)))"

definition chown :: "nat \<Rightarrow> int \<Rightarrow> int \<Rightarrow> kern \<Rightarrow> unit kres" where
  "chown n uid gid s =
     (case suser s of
        (False, s) \<Rightarrow> Inr ((), s)
      | (True, s) \<Rightarrow>
          rbind (owner n s) (\<lambda>(r, s).
            case r of
              None \<Rightarrow> Inr ((), s)
            | Some ip \<Rightarrow> iput ip (upd_inode ip (\<lambda>m. add_flags {ICHG} (m\<lparr>i_uid := uid, i_gid := gid\<rparr>)) s)))"

definition utime :: "nat \<Rightarrow> u16 \<Rightarrow> kern \<Rightarrow> unit kres" where
  "utime n tptr s =
     rbind (owner n s) (\<lambda>(r, s).
       case r of
         None \<Rightarrow> Inr ((), s)
       | Some ip \<Rightarrow>
           (case copyin s UserD tptr 4 (replicate 8 0) 0 of
              (False, _) \<Rightarrow> Inr ((), set_error EFAULT s)
            | (True, tv) \<Rightarrow>
                rbind (iupdat ip (getl tv 0) (getl tv 4) (upd_inode ip (add_flags {IACC, IUPD, ICHG}) s))
                  (\<lambda>(_, s). iput ip s)))"

subsection \<open>Properties of time and priority\<close>



text \<open>
  the unsigned arithmetic of \<open>ftime\<close> does not wrap around: as long as \<open>lbolt\<close> is at
  most two seconds of ticks, the milliseconds are at most 1000 and together with the
  seconds they are the time of day to the tick.  The value 1000 is reported when
  \<open>lbolt\<close> is exactly \<open>HZ\<close>, because the test is \<open>>\<close> and not \<open>>=\<close>.
\<close>

theorem ftime_milliseconds:
  assumes "unat (k_lbolt s) \<le> 120" "is_long (k_time s + 1)"
  shows "case ftime_value s of (t, ms) \<Rightarrow> unat ms \<le> 1000 \<and>
    (unat ms = 1000 \<longleftrightarrow> unat (k_lbolt s) = 60 \<or> unat (k_lbolt s) = 120) \<and>
    1000 * t + int (unat ms) = 1000 * k_time s + int (1000 * unat (k_lbolt s) div 60)"
proof -
  have m: "unat ((1000 * x) div HZ) = 1000 * unat x div 60" if "unat x \<le> 60" for x :: u16
  proof -
    have "unat (1000 * x) = 1000 * unat x"
      using that by (simp add: unat_word_ariths)
    then show ?thesis by (simp add: unat_div HZ_def)
  qed
  have b: "1000 * q div 60 \<le> 1000 \<and> (1000 * q div 60 = 1000 \<longleftrightarrow> q = 60)" if "q \<le> 60" for q :: nat
  proof (cases "q = 60")
    case False
    then have "1000 * q div 60 \<le> 59000 div 60" using that by (intro div_le_mono) simp
    with False show ?thesis by simp
  qed simp
  show ?thesis
  proof (cases "k_lbolt s > HZ")
    case True
    define q where "q = unat (k_lbolt s) - 60"
    have g: "unat (k_lbolt s) = q + 60" "0 < q" "q \<le> 60"
      using True assms(1) by (simp_all add: HZ_def word_less_nat_alt q_def)
    then have u: "unat (k_lbolt s - HZ) = q"
      by (simp add: unat_sub_nowrap HZ_def)
    have "1000 * (q + 60) div 60 = 1000 * q div 60 + 1000" by (simp add: distrib_left div_add1_eq)
    then show ?thesis
      using True g u m [of "k_lbolt s - HZ"] b [OF g(3)] wrap32_id [OF assms(2)]
      by (simp add: ftime_value_def del: of_nat_unat of_nat_div of_nat_mult)
  next
    case False
    then have g: "unat (k_lbolt s) \<le> 60" by (simp add: HZ_def word_less_nat_alt)
    then show ?thesis
      using False m [OF g] b [OF g] by (simp add: ftime_value_def del: of_nat_unat of_nat_div of_nat_mult)
  qed
qed

theorem ftime_milliseconds_witness: "\<exists>ms. ftime_value (kern0\<lparr>k_lbolt := 90\<rparr>) = (1, ms) \<and> unat ms = 500"
proof -
  obtain t ms where f: "ftime_value (kern0\<lparr>k_lbolt := 90\<rparr>) = (t, ms)" by force
  have "t = 1" using f by (simp add: ftime_value_def HZ_def kern0_def wrap32_def sgn32_def)
  then show ?thesis
    using ftime_milliseconds [of "kern0\<lparr>k_lbolt := 90\<rparr>"] f
    by (simp add: kern0_def is_long_def del: of_nat_unat)
qed

end
