(* ===== verification/CallViews.thy ===== *)
theory CallViews
  imports Syscalls2
begin

section \<open>What system calls leave alone\<close>

text \<open>
  The views of theory Frames carried on to whole system calls: those that work on path
  names, and those that work on descriptors.  The open files of the process are kept by
  the first group, its identity by both.
\<close>

locale name_view = path_view view for view :: "kern \<Rightarrow> 'v" +
  assumes v_asu: "view (s\<lparr>u_asu := b\<rparr>) = view s"
    and v_cdir: "view (s\<lparr>u_cdir := ip\<rparr>) = view s"
    and v_rdir: "view (s\<lparr>u_rdir := dp\<rparr>) = view s"
    and v_signals: "view (s\<lparr>k_signals := sg\<rparr>) = view s"
begin

lemmas view_name_upd [simp] = v_asu v_cdir v_rdir v_signals

lemma suser_keeps [simp]: "view (snd (suser s)) = view s"
  by (simp add: suser_def)

lemma owner_keeps [simp]: "view (final (owner n s)) = view s"
  unfolding owner_def
  by (rule view_rbind) (auto simp: suser_def split: option.split intro!: view_rbind)

lemma openi_keeps: "dev_keeps view dv \<Longrightarrow> view (final (openi dv ip rw s)) = view s"
  by (simp add: openi_def Let_def dev_keeps_def)

lemma open1_perm_view [simp]: "view (final (open1_perm ip mode s)) = view s"
  by (auto simp: open1_perm_def intro!: view_rbind)

lemma access_if_view [simp]: "view (final (access_if b ip mode s)) = view s"
  by (auto simp: access_if_def intro!: view_rbind)

lemma stat1_view [simp]: "view (final (stat1 ip ub adj s)) = view s"
  unfolding stat1_def
  by (rule view_rbind, simp) (auto simp: Let_def bread_def split: prod.split dest!: arg_cong [of _ _ snd]
    dest: arg_cong [of _ _ view])

lemma fstat_view: "view (final (fstat fdes sb s)) = view s"
  by (auto simp: fstat_def getf_def)

lemma stat_view: "view (final (stat n sb s)) = view s"
  by (auto simp: stat_def split: option.split intro!: view_rbind)

lemma link_view: "dev_keeps view dv \<Longrightarrow> view (final (link n dv ln s)) = view s"
  by (auto simp: link_def suser_def split: option.split intro!: view_rbind)

lemma getmdev_view [simp]: "view (final (getmdev n dv s)) = view s"
  by (auto simp: getmdev_def Let_def split: option.split intro!: view_rbind)

lemma unlink_entry_view [simp]:
  "dev_keeps view dv \<Longrightarrow> view (final (unlink_entry dv pp ip s)) = view s"
  by (auto simp: unlink_entry_def suser_def intro!: view_rbind)

lemma unlink_view: "dev_keeps view dv \<Longrightarrow> view (final (unlink n dv s)) = view s"
  by (auto simp: unlink_def split: option.split intro!: view_rbind)

lemma chdirec_view:
  "\<lbrakk>\<And>ip s. view (put ip s) = view s\<rbrakk> \<Longrightarrow> view (final (chdirec n get put s)) = view s"
  by (auto simp: chdirec_def Let_def split: option.split intro!: view_rbind)

lemma chdir_view: "view (final (chdir n s)) = view s"
  unfolding chdir_def by (rule chdirec_view) simp

lemma chroot_view: "view (final (chroot n s)) = view s"
  by (auto simp: chroot_def suser_def chdirec_view)

lemma chmod_view: "view (final (chmod n fmode s)) = view s"
  by (auto simp: chmod_def Let_def split: option.split intro!: view_rbind)

lemma chown_view: "view (final (chown n uid gid s)) = view s"
  by (auto simp: chown_def suser_def split: option.split intro!: view_rbind)

lemma utime_view: "view (final (utime n tptr s)) = view s"
  by (auto simp: utime_def split: option.split prod.split bool.split intro!: view_rbind)

lemma smount_view: "dev_keeps view dv \<Longrightarrow> view (final (smount n dv freg ro s)) = view s"
  by (auto simp: smount_def smount_busy_def Let_def bread_def dev_keeps_def split: option.split intro!: view_rbind)

lemma sumount_view: "dev_keeps view dv \<Longrightarrow> view (final (sumount n dv s)) = view s"
  by (auto simp: sumount_def Let_def dev_keeps_def split: option.split intro!: view_rbind)

lemma mknod_view:
  assumes "dev_keeps view dv" shows "view (final (mknod n dv fmode dev s)) = view s"
  unfolding mknod_def
proof (rule view_rbind)
  show "view (final (case suser s of (True, s) \<Rightarrow> namei n uchar 1 s | (False, s) \<Rightarrow> Inr (None, s))) = view s"
    by (simp add: suser_def)
qed (use assms in \<open>auto split: option.split intro!: view_rbind\<close>)

lemma writep_loop_view:
  "dev_keeps view dv \<Longrightarrow> view (final (writep_loop m dv ip c s)) = view s"
proof (induction m arbitrary: c s)
  case (Suc m)
  have p: "view (psignal_self sig t) = view t" "view (t\<lparr>u_count := x\<rparr>) = view t" for sig t x
    by (simp_all add: psignal_self_def v_signals)
  show ?case using Suc by (auto simp: Let_def p intro!: view_rbind)
qed simp

lemmas view_calls = stat_view fstat_view link_view unlink_view mknod_view chdir_view chroot_view
  chmod_view chown_view utime_view smount_view sumount_view

end

interpretation ofn: name_view open_files
  by unfold_locales (simp_all add: open_files_def)

lemma open_files_ids [simp]: "open_files (s\<lparr>u_uid := a, u_gid := b\<rparr>) = open_files s"
  by (simp add: open_files_def)

lemma saccess_view: "open_files (final (saccess n fmode s)) = open_files s"
proof -
  let ?s = "s\<lparr>u_uid := u_ruid s, u_gid := u_rgid s\<rparr>"
  have "open_files (final (saccess n fmode s)) = open_files ?s"
    unfolding saccess_def Let_def by (auto split: option.split intro!: of.view_rbind)
  then show ?thesis by simp
qed


subsection \<open>Calls on descriptors\<close>

locale fd_view = name_view view for view :: "kern \<Rightarrow> 'v" +
  assumes v_file: "view (s\<lparr>k_file := fs\<rparr>) = view s"
    and v_ofile: "view (s\<lparr>u_ofile := ofl\<rparr>) = view s"
    and v_pofile: "view (s\<lparr>u_pofile := p\<rparr>) = view s"
    and v_rval1: "view (s\<lparr>u_rval1 := r\<rparr>) = view s"
    and v_rval2: "view (s\<lparr>u_rval2 := r\<rparr>) = view s"
begin

lemmas view_fd_upd [simp] = v_file v_ofile v_pofile v_rval1 v_rval2

lemma upd_file_keeps [simp]: "view (upd_file fp f s) = view s"
  by (simp add: upd_file_def)

lemma getf_keeps [simp]: "view (snd (getf f s)) = view s"
  by (simp add: getf_def)

lemma ufalloc_keeps [simp]: "view (snd (ufalloc s)) = view s"
  by (simp add: ufalloc_def split: option.split)

lemma falloc_keeps: "falloc s = (x, t) \<Longrightarrow> view t = view s"
proof -
  assume f: "falloc s = (x, t)"
  obtain y u where u: "ufalloc s = (y, u)" by (cases "ufalloc s")
  then have "view u = view s" using ufalloc_keeps [of s] by simp
  with f u show ?thesis by (auto simp: falloc_def split: option.splits)
qed

lemma closef_keeps [simp]: "dev_keeps view dv \<Longrightarrow> view (final (closef dv fp s)) = view s"
  by (auto simp: closef_def dev_close_def Let_def dev_keeps_def intro!: view_rbind)

lemma close_keeps: "dev_keeps view dv \<Longrightarrow> view (final (close dv fdes s)) = view s"
  by (auto simp: close_def getf_def)

lemma readp_keeps [simp]: "dev_keeps view dv \<Longrightarrow> view (final (readp dv fp s)) = view s"
  by (auto simp: readp_def Let_def intro!: view_rbind)

lemma writep_keeps [simp]: "dev_keeps view dv \<Longrightarrow> view (final (writep dv fp s)) = view s"
  by (simp add: writep_def writep_loop_view)

lemma rdwr_keeps: "dev_keeps view dv \<Longrightarrow> view (final (rdwr dv mode fdes cbuf count s)) = view s"
  by (auto simp: rdwr_def getf_def Let_def intro!: view_rbind)

lemma open1_keeps [simp]: "dev_keeps view dv \<Longrightarrow> view (final (open1 dv ip mode trf s)) = view s"
  by (auto simp: open1_def Let_def openi_keeps split: prod.split option.split intro!: view_rbind
    dest!: falloc_keeps)

lemma open_call_keeps: "dev_keeps view dv \<Longrightarrow> view (final (open_call n dv m s)) = view s"
  by (auto simp: open_call_def split: option.split intro!: view_rbind)

lemma creat_keeps: "dev_keeps view dv \<Longrightarrow> view (final (creat n dv m s)) = view s"
  by (auto simp: creat_def split: option.split intro!: view_rbind)

lemma dup_to_keeps [simp]: "dev_keeps view dv \<Longrightarrow> view (final (dup_to dv fdes fp i s)) = view s"
  by (auto simp: dup_to_def split: option.split intro!: view_rbind)

lemma ufalloc_keeps': "ufalloc s = (x, t) \<Longrightarrow> view t = view s"
  using ufalloc_keeps [of s] by simp

lemma dup_keeps: "dev_keeps view dv \<Longrightarrow> view (final (dup dv fdes fdes2 s)) = view s"
  by (auto simp: dup_def getf_def Let_def split: prod.split option.split dest!: ufalloc_keeps')

lemma pipe_keeps: "view (final (pipe n s)) = view s"
  by (auto simp: pipe_def Let_def split: prod.split option.split intro!: view_rbind dest!: falloc_keeps)

lemma seek_keeps: "view (final (seek fdes off sbase s)) = view s"
  by (auto simp: seek_def getf_def set_rlong_def Let_def)

lemmas fd_calls = rdwr_keeps open_call_keeps creat_keeps close_keeps dup_keeps pipe_keeps seek_keeps

end

interpretation idf: fd_view identity
  by unfold_locales (simp_all add: identity_def)

end
