(* ===== verification/Descriptors.thy ===== *)
theory Descriptors
  imports CallViews
begin

section \<open>File descriptors over any sequence of system calls\<close>

text \<open>
  Every system call of sys2.c, sys3.c and sys4.c on files keeps the counts of open files
  exact.  The calls are the steps of a transition system, an instance of the interface
  for inductive invariants.
\<close>

subsection \<open>Calls on descriptors\<close>

lemma refs_simps [simp]:
  "refs d (prele ip s) = refs d s" "refs d (wakeup c s) = refs d s" "refs d (upd_inode ip f s) = refs d s"
  "refs d (set_error e s) = refs d s" "refs d (printf m s) = refs d s"
  "refs d (s\<lparr>u_offset := off\<rparr>) = refs d s" "refs d (s\<lparr>u_rval1 := v\<rparr>) = refs d s"
  "refs d (s\<lparr>u_rval2 := v\<rparr>) = refs d s" "refs d (s\<lparr>u_base := a\<rparr>) = refs d s"
  "refs d (s\<lparr>u_count := a\<rparr>) = refs d s" "refs d (s\<lparr>u_segflg := sg\<rparr>) = refs d s"
  by (rule refs_view, simp)+

lemma refs_upd_same:
  assumes "\<And>x. f_count (f x) = f_count x" shows "refs d (upd_file fp f s) = refs d s"
proof -
  have "f_count ((k_file s)[fp := f (k_file s ! fp)] ! g) = f_count (k_file s ! g)" for g
    using assms by (cases "fp < length (k_file s)"; cases "g = fp") (simp_all add: list_update_beyond)
  then show ?thesis by (simp add: refs_def upd_file_def)
qed

lemma refs_upd_file [simp]:
  "refs d (upd_file fp (\<lambda>f. f\<lparr>f_offset := g f\<rparr>) s) = refs d s"
  "refs d (upd_file fp (\<lambda>f. f\<lparr>f_flag := h f, f_inode := i f\<rparr>) s) = refs d s"
  by (rule refs_upd_same, simp)+

lemma readp_refs:
  assumes r: "refs d s" and dv: "dev_keeps open_files dv"
  shows "returns (refs d) (readp dv fp s)"
proof -
  have rd: "returns (refs d) (readi dv ip t)" if "refs d t" for ip t
    using returns_view [OF of.view_readi [OF dv] that] .
  show ?thesis
    unfolding readp_def Let_def
    by (auto intro!: returns_rbind [OF returns_view [OF of.view_plock r]] returns_rbind [OF rd])
qed

lemma writep_refs: "\<lbrakk>refs d s; dev_keeps open_files dv\<rbrakk> \<Longrightarrow> returns (refs d) (writep dv fp s)"
  unfolding writep_def by (rule returns_view [OF ofn.writep_loop_view])

lemma getf_cases:
  obtains "getf fdes s = (None, set_error EBADF s)"
  | fp where "getf fdes s = (Some fp, s)" "0 \<le> fdes" "fdes < int NOFILE" "u_ofile s ! nat fdes = Some fp"
  by (cases "0 \<le> fdes \<and> fdes < int NOFILE \<and> u_ofile s ! nat fdes \<noteq> None") (auto simp: getf_def)

lemma rdwr_refs:
  assumes r: "refs d s" and dv: "dev_keeps open_files dv"
  shows "returns (refs d) (rdwr dv mode fdes cbuf count s)"
proof -
  have io: "returns (refs d) (readi dv ip t)" "returns (refs d) (writei dv ip t)" "returns (refs d) (plock ip t)"
    "returns (refs d) (readp dv fp t)" "returns (refs d) (writep dv fp t)" if "refs d t" for ip fp t
    using that dv by (auto intro: returns_view readp_refs writep_refs)
  show ?thesis
  proof (rule getf_cases [of fdes s])
    assume "getf fdes s = (None, set_error EBADF s)"
    then show ?thesis using r by (simp add: rdwr_def)
  next
    fix fp assume g: "getf fdes s = (Some fp, s)"
    show ?thesis
      unfolding rdwr_def g Let_def
      by (auto simp: r intro!: returns_rbind [where Q = "refs d"] io)
  qed
qed

text \<open>Undoing an allocation: the descriptor and its reference go away together.\<close>

lemma refs_drop:
  assumes r: "refs d s" and i: "i < NOFILE" "u_ofile s ! i = Some fp" and c: "\<And>x. f_count x = f_count (k_file s ! fp) \<Longrightarrow> f_count (f x) = f_count x - 1"
  shows "refs d (upd_file fp f (s\<lparr>u_ofile := (u_ofile s)[i := None]\<rparr>))"
proof -
  have r1: "refs (\<lambda>g. d g + of_bool (u_ofile s ! i = Some g) - of_bool (None = Some g)) (s\<lparr>u_ofile := (u_ofile s)[i := None]\<rparr>)"
    using refs_ofile [OF r i(1), of None] by simp
  show ?thesis by (rule refs_cong [OF refs_count [OF r1]]) (use i(2) c in auto)
qed

text \<open>Counts that fit into a \<open>char\<close> together with the descriptors of this process.\<close>

definition few :: "(nat \<Rightarrow> int) \<Rightarrow> bool" where
  "few d \<longleftrightarrow> (\<forall>g. 0 \<le> d g \<and> d g \<le> 107)"

lemma open1_refs:
  assumes r: "refs d s" and dv: "dev_keeps open_files dv" and few: "few d"
  shows "returns (refs d) (open1 dv ip mode trf s)"
proof -
  have v: "returns (refs d) (open1_perm ip mode t)" "returns (refs d) (itrunc ip t)" "returns (refs d) (iput ip t)"
    if "refs d t" for t
    using that by (auto intro: returns_view)
  have fa: "returns (refs d) (case falloc t of
       (None, s) \<Rightarrow> iput ip s
     | (Some fp, s) \<Rightarrow>
         (let s = upd_file fp (\<lambda>f. f\<lparr>f_flag := fl, f_inode := ip\<rparr>) s; i = u_rval1 s
          in rbind (openi dv ip b s) (\<lambda>(_, s).
               if u_error s = None then Inr ((), s)
               else iput ip (upd_file fp (\<lambda>f. f\<lparr>f_count := wrap8 (f_count f - 1)\<rparr>)
                 (s\<lparr>u_ofile := (u_ofile s)[nat i := None]\<rparr>)))))" if t: "refs d t" for t fl b
  proof (cases "falloc t")
    case (Pair x t1)
    show ?thesis
    proof (cases x)
      case None
      then show ?thesis using falloc_None [OF t, of t1] Pair v by auto
    next
      case (Some fp)
      obtain i where i: "i < NOFILE" "u_rval1 t1 = int i" "u_ofile t1 = (u_ofile t)[i := Some fp]" "refs d t1"
        using falloc_Some [OF t, of fp t1] Pair Some by blast
      let ?t2 = "upd_file fp (\<lambda>f. f\<lparr>f_flag := fl, f_inode := ip\<rparr>) t1"
      have r2: "refs d ?t2" using i by simp
      have r3: "u_rval1 ?t2 = int i" "u_ofile ?t2 ! i = Some fp"
        using i t by (simp_all add: upd_file_def refs_def)
      have drop: "refs d (upd_file fp (\<lambda>f. f\<lparr>f_count := wrap8 (f_count f - 1)\<rparr>) (u\<lparr>u_ofile := (u_ofile u)[i := None]\<rparr>))"
        if u: "refs d u \<and> u_ofile u ! i = Some fp" for u
      proof (rule refs_drop)
        have "fp < length (k_file u)" using u i(1) by (metis nth_mem refs_def)
        then have "0 \<le> f_count (k_file u ! fp)" "f_count (k_file u ! fp) \<le> 127"
          using refs_bound [of d u fp] u few [unfolded few_def, rule_format, of fp] by linarith+
        then show "f_count (x\<lparr>f_count := wrap8 (f_count x - 1)\<rparr>) = f_count x - 1" if "f_count x = f_count (k_file u ! fp)" for x
          using that by (simp add: wrap8_id)
      qed (use u i(1) in auto)
      have op: "returns (\<lambda>u. refs d u \<and> u_ofile u ! i = Some fp) (openi dv ip b ?t2)"
        unfolding returns_def
      proof (intro allI impI)
        fix y u assume "openi dv ip b ?t2 = Inr (y, u)"
        then have "open_files u = open_files ?t2" using openi_view [OF dv, of ip b ?t2] by simp
        then show "refs d u \<and> u_ofile u ! i = Some fp"
          using refs_view [of u ?t2 d] r2 r3 open_files_D(2) [of u ?t2] by simp
      qed
      show ?thesis
        using Pair Some i(1) r3(1)
        by (auto simp: Let_def intro!: returns_rbind [OF op] v drop)
    qed
  qed
  show ?thesis
    unfolding open1_def
    by (auto simp: r intro!: returns_rbind [where Q = "refs d"] v fa)
qed

lemma open_call_refs: "\<lbrakk>refs d s; dev_keeps open_files dv; few d\<rbrakk> \<Longrightarrow> returns (refs d) (open_call n dv m s)"
  unfolding open_call_def
  by (rule returns_rbind [OF returns_view [OF of.view_namei_uchar]]) (auto intro: open1_refs split: option.split)

lemma creat_refs:
  assumes "refs d s" "dev_keeps open_files dv" "few d" shows "returns (refs d) (creat n dv m s)"
proof -
  have mk: "returns (refs d) (maknode n dv mo t)" if "refs d t" for mo t
    using that assms(2) by (auto intro: returns_view)
  show ?thesis
    unfolding creat_def
    by (rule returns_rbind [OF returns_view [OF of.view_namei_uchar assms(1)]])
      (auto intro!: open1_refs assms(2,3) returns_rbind [OF mk] split: option.split)
qed

lemma count_pos:
  assumes "refs (\<lambda>g. int (other g)) s" "i < NOFILE" "u_ofile s ! i = Some fp"
  shows "1 \<le> f_count (k_file s ! fp) \<and> f_count (k_file s ! fp) \<le> 20 + int (other fp) \<and> fp < length (k_file s)"
proof -
  have m: "Some fp \<in> set (u_ofile s)" using assms by (metis nth_mem refs_def)
  then have "count_list (u_ofile s) (Some fp) \<noteq> 0" by (simp add: count_list_0_iff)
  moreover have "fp < length (k_file s)" using m assms(1) by (auto simp: refs_def)
  ultimately show ?thesis using assms(1) refs_bound(2) [OF assms(1), of fp] by (auto simp: refs_def)
qed

lemma close_refs:
  assumes r: "refs (\<lambda>g. int (other g)) s" and dv: "dev_keeps open_files dv" and few: "few (\<lambda>g. int (other g))"
  shows "returns (refs (\<lambda>g. int (other g))) (close dv fdes s)"
proof (rule getf_cases [of fdes s])
  assume "getf fdes s = (None, set_error EBADF s)"
  then show ?thesis using r by (simp add: close_def)
next
  fix fp assume g: "getf fdes s = (Some fp, s)" "0 \<le> fdes" "fdes < int NOFILE" "u_ofile s ! nat fdes = Some fp"
  let ?t = "s\<lparr>u_ofile := (u_ofile s)[nat fdes := None]\<rparr>"
  have i: "nat fdes < NOFILE" using g by simp
  have r1: "refs (\<lambda>h. int (other h) + of_bool (u_ofile s ! nat fdes = Some h) - of_bool (None = Some h)) ?t"
    using refs_ofile [OF r i, of None] by simp
  have "returns (refs (\<lambda>h. int (other h) + of_bool (u_ofile s ! nat fdes = Some h) - of_bool (None = Some h) - of_bool (h = fp)))
      (closef dv fp ?t)"
    using count_pos [OF r i g(4)] few [unfolded few_def, rule_format, of fp] by (intro closef_refs [OF r1 dv]) simp_all
  moreover have "(\<lambda>h. int (other h) + of_bool (u_ofile s ! nat fdes = Some h) - of_bool (None = Some h) - of_bool (h = fp))
      = (\<lambda>h. int (other h))"
    using g(4) by (auto simp: fun_eq_iff)
  ultimately show ?thesis using g(1) by (simp add: close_def)
qed

lemma dup_to_refs:
  assumes r: "refs (\<lambda>g. int (other g)) s" and dv: "dev_keeps open_files dv"
    and fd: "0 \<le> fdes" "fdes < int NOFILE" "u_ofile s ! nat fdes = Some fp" and i: "i < NOFILE"
    and few: "few (\<lambda>g. int (other g))"
  shows "returns (refs (\<lambda>g. int (other g))) (dup_to dv fdes fp i s)"
proof -
  let ?o = "\<lambda>g. int (other g)" and ?old = "\<lambda>g. u_ofile s ! i = Some g"
  let ?d = "\<lambda>g. ?o g - of_bool (?old g)"
  have fp: "fp < length (k_file s)" using count_pos [OF r _ fd(3)] fd by simp
  have cl: "returns (\<lambda>t. refs ?d t \<and> u_ofile t ! i = u_ofile s ! i \<and> fp < length (k_file t))
      (case u_ofile s ! i of None \<Rightarrow> Inr ((), s) | Some fp' \<Rightarrow> closef dv fp' s)"
  proof (cases "u_ofile s ! i")
    case None
    then show ?thesis using r fp by simp
  next
    case (Some g)
    note c = count_pos [OF r i Some]
    have q: "(\<lambda>h. ?o h - of_bool (h = g)) = ?d" using Some by (auto simp: fun_eq_iff)
    have a: "returns (refs ?d) (closef dv g s)"
      using closef_refs [OF r dv, of g] c q few [unfolded few_def, rule_format, of g] by simp
    have b: "returns (\<lambda>t. u_ofile t = u_ofile s \<and> length (k_file t) = length (k_file s)) (closef dv g s)"
      using closef_frame [OF dv] .
    show ?thesis using a b fp Some by (auto simp: returns_def)
  qed
  have fin: "refs ?o (upd_file fp (\<lambda>f. f\<lparr>f_count := wrap8 (f_count f + 1)\<rparr>) (t\<lparr>u_ofile := (u_ofile t)[i := Some fp]\<rparr>))"
    if t: "refs ?d t" "u_ofile t ! i = u_ofile s ! i" "fp < length (k_file t)" for t
  proof -
    have "refs (\<lambda>g. ?d g + of_bool (u_ofile t ! i = Some g) - of_bool (Some fp = Some g)) (t\<lparr>u_ofile := (u_ofile t)[i := Some fp]\<rparr>)"
      by (rule refs_ofile [OF t(1) i]) (use t(3) in simp)
    note n = this
    have "f_count (k_file t ! fp) = int (count_list ((u_ofile t)[i := Some fp]) (Some fp)) + int (other fp) - 1"
      using n t(2,3) by (auto simp: refs_def)
    moreover have "count_list ((u_ofile t)[i := Some fp]) (Some fp) \<le> 20"
      using count_le_length [of "(u_ofile t)[i := Some fp]" "Some fp"] t(1) by (simp add: refs_def NOFILE_def)
    ultimately have "wrap8 (f_count (k_file t ! fp) + 1) = f_count (k_file t ! fp) + 1"
      using few [unfolded few_def, rule_format, of fp] by (intro wrap8_id) simp_all
    with refs_count [OF n, of fp "\<lambda>f. f\<lparr>f_count := wrap8 (f_count f + 1)\<rparr>"] show ?thesis
      by (intro refs_cong [OF refs_count [OF n]]) (use t(2) in auto)
  qed
  show ?thesis
    unfolding dup_to_def using r
    by (auto intro!: returns_rbind [OF cl] fin)
qed

lemma dup_refs:
  assumes r: "refs (\<lambda>g. int (other g)) s" and dv: "dev_keeps open_files dv" and few: "few (\<lambda>g. int (other g))"
  shows "returns (refs (\<lambda>g. int (other g))) (dup dv fdes fdes2 s)"
proof -
  let ?fd = "uint (and fdes 0x3F)"
  show ?thesis
  proof (rule getf_cases [of ?fd s])
    assume "getf ?fd s = (None, set_error EBADF s)"
    then show ?thesis using r by (simp add: dup_def Let_def)
  next
    fix fp assume g: "getf ?fd s = (Some fp, s)" "0 \<le> ?fd" "?fd < int NOFILE" "u_ofile s ! nat ?fd = Some fp"
    show ?thesis
    proof (cases "and (and fdes (not 0x3F)) 0x40 = 0")
      case True
      show ?thesis
      proof (cases "ufalloc s")
        case (Pair x t)
        show ?thesis
        proof (cases x)
          case None
          then show ?thesis using True g Pair r ufalloc_None [OF r, of t] by (simp add: dup_def Let_def)
        next
          case (Some i)
          have "i < NOFILE" "u_ofile t = u_ofile s" "refs (\<lambda>g. int (other g)) t"
            using ufalloc_Some [OF r, of i t] Pair Some by simp_all
          then show ?thesis
            using dup_to_refs [of other t dv ?fd fp i] g dv few True Pair Some by (simp add: dup_def Let_def)
        qed
      qed
    next
      case False
      then show ?thesis
        using dup_to_refs [of other "s\<lparr>u_rval1 := fdes2\<rparr>" dv ?fd fp "nat fdes2"] g dv few r
        by (auto simp: dup_def Let_def nat_less_iff)
    qed
  qed
qed

lemma pipe_refs:
  assumes r: "refs (\<lambda>g. int (other g)) s"
  shows "returns (refs (\<lambda>g. int (other g))) (pipe n s)"
proof -
  let ?d = "\<lambda>g. int (other g)"
  have v: "returns (refs ?d) (ialloc n (k_pipedev s) s)" "\<And>ip t. refs ?d t \<Longrightarrow> returns (refs ?d) (iput ip t)"
    using r by (auto intro: returns_view)
  have two: "returns (refs ?d) (case falloc t1 of
       (None, s) \<Rightarrow> iput ip (upd_file rf (\<lambda>f. f\<lparr>f_count := 0\<rparr>) (s\<lparr>u_ofile := (u_ofile s)[nat (u_rval1 t1) := None]\<rparr>))
     | (Some wrf, s) \<Rightarrow>
         (let s = s\<lparr>u_rval2 := u_rval1 s, u_rval1 := u_rval1 t1\<rparr>;
              s = upd_file wrf (\<lambda>f. f\<lparr>f_flag := {FWRITE, FPIPE}, f_inode := ip\<rparr>) s;
              s = upd_file rf (\<lambda>f. f\<lparr>f_flag := {FREAD, FPIPE}, f_inode := ip\<rparr>) s
          in Inr ((), upd_inode ip (\<lambda>m. m\<lparr>i_count := 2, i_mode := IFREG, i_flag := {IACC, IUPD, ICHG}\<rparr>) s)))"
    if t: "refs ?d t" "falloc t = (Some rf, t1)" for t rf t1 ip
  proof -
    obtain i where i: "i < NOFILE" "u_rval1 t1 = int i" "u_ofile t1 = (u_ofile t)[i := Some rf]" "refs ?d t1"
      "k_file t1 = (k_file t)[rf := (k_file t ! rf)\<lparr>f_count := 1, f_offset := 0\<rparr>]" "rf < length (k_file t)"
      using falloc_Some [OF t] by blast
    show ?thesis
    proof (cases "falloc t1")
      case (Pair x t2)
      show ?thesis
      proof (cases x)
        case None
        have t2: "refs ?d t2" "k_file t2 = k_file t1" "u_ofile t2 = u_ofile t1"
          using falloc_None [OF i(4), of t2] Pair None by auto
        have "f_count (k_file t2 ! rf) = 1" "u_ofile t2 ! i = Some rf"
          using t2 i t(1) by (simp_all add: refs_def)
        then have "refs ?d (upd_file rf (\<lambda>f. f\<lparr>f_count := 0\<rparr>) (t2\<lparr>u_ofile := (u_ofile t2)[i := None]\<rparr>))"
          by (intro refs_drop [OF t2(1) i(1)]) simp_all
        then show ?thesis using Pair None i(2) v by simp
      next
        case (Some wrf)
        then show ?thesis using falloc_Some [OF i(4), of wrf t2] Pair by (auto simp: Let_def)
      qed
    qed
  qed
  have one: "returns (refs ?d) (case falloc t of
        (None, s) \<Rightarrow> iput ip s
      | (Some rf, s) \<Rightarrow> (let r = u_rval1 s in g r rf s))"
    if "refs ?d t" "\<And>rf t1. falloc t = (Some rf, t1) \<Longrightarrow> returns (refs ?d) (g (u_rval1 t1) rf t1)" for t g ip
    using that falloc_None [OF that(1)] v by (auto split: prod.split option.split)
  show ?thesis
    unfolding pipe_def
    by (rule returns_rbind [OF v(1)]) (auto split: option.split intro!: one two)
qed

lemma seek_refs: "refs d s \<Longrightarrow> returns (refs d) (seek fdes off sbase s)"
  by (rule getf_cases [of fdes s]) (simp_all add: seek_def set_rlong_def Let_def)

subsection \<open>Any sequence of calls\<close>

text \<open>One system call of the process that returns; fuel and arguments are arbitrary.\<close>

inductive fd_call :: "devsw \<Rightarrow> kern \<Rightarrow> kern \<Rightarrow> bool" for dv :: devsw where
  fd_rdwr: "rdwr dv mode fdes cbuf count s = Inr ((), t) \<Longrightarrow> fd_call dv s t"
| fd_open: "open_call n dv m s = Inr ((), t) \<Longrightarrow> fd_call dv s t"
| fd_creat: "creat n dv m s = Inr ((), t) \<Longrightarrow> fd_call dv s t"
| fd_close: "close dv fdes s = Inr ((), t) \<Longrightarrow> fd_call dv s t"
| fd_dup: "dup dv fd fd2 s = Inr ((), t) \<Longrightarrow> fd_call dv s t"
| fd_pipe: "pipe n s = Inr ((), t) \<Longrightarrow> fd_call dv s t"
| fd_seek: "seek fdes off sbase s = Inr ((), t) \<Longrightarrow> fd_call dv s t"
| fd_stat: "stat n sb s = Inr ((), t) \<Longrightarrow> fd_call dv s t"
| fd_fstat: "fstat fdes sb s = Inr ((), t) \<Longrightarrow> fd_call dv s t"
| fd_link: "link n dv ln s = Inr ((), t) \<Longrightarrow> fd_call dv s t"
| fd_unlink: "unlink n dv s = Inr ((), t) \<Longrightarrow> fd_call dv s t"
| fd_mknod: "mknod n dv m dev s = Inr ((), t) \<Longrightarrow> fd_call dv s t"
| fd_saccess: "saccess n m s = Inr ((), t) \<Longrightarrow> fd_call dv s t"
| fd_chdir: "chdir n s = Inr ((), t) \<Longrightarrow> fd_call dv s t"
| fd_chroot: "chroot n s = Inr ((), t) \<Longrightarrow> fd_call dv s t"
| fd_chmod: "chmod n m s = Inr ((), t) \<Longrightarrow> fd_call dv s t"
| fd_chown: "chown n uid gid s = Inr ((), t) \<Longrightarrow> fd_call dv s t"
| fd_utime: "utime n a s = Inr ((), t) \<Longrightarrow> fd_call dv s t"
| fd_smount: "smount n dv freg ro s = Inr ((), t) \<Longrightarrow> fd_call dv s t"
| fd_sumount: "sumount n dv s = Inr ((), t) \<Longrightarrow> fd_call dv s t"

lemma returnsD: "\<lbrakk>returns P m; m = Inr (x, t)\<rbrakk> \<Longrightarrow> P t"
  by (simp add: returns_def)

lemmas refs_calls = rdwr_refs open_call_refs creat_refs close_refs dup_refs pipe_refs seek_refs

lemma fd_call_refs:
  assumes dv: "dev_keeps open_files dv" and r: "file_refs other s" and n: "\<forall>fp. other fp \<le> 107" and c: "fd_call dv s t"
  shows "file_refs other t"
proof -
  have k: "file_refs other t" if "m = Inr ((), t)" "open_files (final m) = open_files s" for m :: "unit kres"
    using returnsD [OF returns_view [OF that(2)] that(1)] r by (simp add: file_refs_def)
  have q: "file_refs other t" if "m = Inr ((), t)" "returns (refs (\<lambda>fp. int (other fp))) m" for m :: "unit kres"
    using returnsD [OF that(2,1)] by (simp add: file_refs_def)
  have r': "refs (\<lambda>fp. int (other fp)) s" using r by (simp add: file_refs_def)
  have few: "few (\<lambda>fp. int (other fp))" using n by (simp add: few_def)
  show ?thesis
    using c by cases (blast intro: k q refs_calls ofn.view_calls saccess_view r' dv few)+
qed

text \<open>Started with exact counts, the calls are a system with an invariant.\<close>

interpretation fds: safe_system "\<lambda>s. dev_keeps open_files dv \<and> (\<forall>fp. other fp \<le> 107) \<and> file_refs other s" "fd_call dv"
  "\<lambda>s. dev_keeps open_files dv \<and> (\<forall>fp. other fp \<le> 107) \<and> file_refs other s" for dv other
  by unfold_locales (auto intro: fd_call_refs)



subsection \<open>The identity of the process\<close>

lemma saccess_identity: "saccess n m s = Inr ((), t) \<Longrightarrow> identity t = identity s"
proof -
  let ?s = "s\<lparr>u_uid := u_ruid s, u_gid := u_rgid s\<rparr>"
  assume t: "saccess n m s = Inr ((), t)"
  let ?body = "rbind (namei n uchar 0 ?s) (\<lambda>(r, s).
          (case r of
             None \<Rightarrow> Inr ((), s)
           | Some ip \<Rightarrow>
               rbind (access_if (bit m 2) ip IREAD s) (\<lambda>(_, s).
                 rbind (access_if (bit m 1) ip IWRITE s) (\<lambda>(_, s).
                   rbind (access_if (bit m 0) ip IEXEC s) (\<lambda>(_, s). iput ip s)))))"
  have v: "identity (final ?body) = identity ?s"
    by (auto split: option.split intro!: id.view_rbind)
  have "saccess n m s = rbind ?body (\<lambda>(_, u). Inr ((), u\<lparr>u_uid := u_uid s, u_gid := u_gid s\<rparr>))"
    by (cases "namei n uchar 0 ?s") (simp_all add: saccess_def Let_def split_beta)
  then have r: "rbind ?body (\<lambda>(_, u). Inr ((), u\<lparr>u_uid := u_uid s, u_gid := u_gid s\<rparr>)) = Inr ((), t)"
    using t by simp
  show ?thesis
  proof (cases ?body)
    case (Inr p)
    obtain u where "p = ((), u)" by (cases p) simp
    with Inr r v show ?thesis by (auto simp: identity_def)
  qed (use r in simp)
qed

lemma fd_call_identity:
  assumes dv: "dev_keeps identity dv" and c: "fd_call dv s t"
  shows "identity t = identity s"
proof -
  have k: "identity t = identity s" if "m = Inr ((), t)" "identity (final m) = identity s" for m :: "unit kres"
    using that by simp
  show ?thesis
    using c by cases (blast intro: k idf.fd_calls idf.view_calls saccess_identity dv)+
qed

text \<open>
  What \<open>exec\<close> does to the identity: the end of \<open>getxfile\<close> (sys/sys1.c), for a process that is traced or not.
\<close>

definition SIGTRC :: nat where "SIGTRC = 5"

definition getxfile_ids :: "nat \<Rightarrow> bool \<Rightarrow> kern \<Rightarrow> kern" where
  "getxfile_ids ip traced s =
     (let n = k_inode s ! ip in
      if traced then s\<lparr>k_signals := k_signals s @ [SIGTRC]\<rparr>
      else
        let s = (if and (i_mode n) ISUID \<noteq> 0 \<and> u_uid s \<noteq> 0 then s\<lparr>u_uid := i_uid n, p_uid := i_uid n\<rparr> else s)
        in if and (i_mode n) ISGID \<noteq> 0 then s\<lparr>u_gid := i_gid n\<rparr> else s)"

text \<open>
  The calls on files, those of sys4.c that need no path name, and the execution of a file that
  is not a set-user-id file of the super user.
\<close>

inductive id_call :: "devsw \<Rightarrow> kern \<Rightarrow> kern \<Rightarrow> bool" for dv :: devsw where
  id_fd: "fd_call dv s t \<Longrightarrow> id_call dv s t"
| id_setuid: "setuid uid s = Inr ((), t) \<Longrightarrow> id_call dv s t"
| id_setgid: "setgid gid s = Inr ((), t) \<Longrightarrow> id_call dv s t"
| id_stime: "stime tm s = Inr ((), t) \<Longrightarrow> id_call dv s t"
| id_ftime: "ftime a s = Inr ((), t) \<Longrightarrow> id_call dv s t"
| id_times: "times a s = Inr ((), t) \<Longrightarrow> id_call dv s t"
| id_nice: "nice k s = Inr ((), t) \<Longrightarrow> id_call dv s t"
| id_umask: "umask m s = Inr ((), t) \<Longrightarrow> id_call dv s t"
| id_alarm: "alarm k s = Inr ((), t) \<Longrightarrow> id_call dv s t"
| id_profil: "profil a b c d s = Inr ((), t) \<Longrightarrow> id_call dv s t"
| id_sync: "sync s = Inr ((), t) \<Longrightarrow> id_call dv s t"
| id_exec: "and (i_mode (k_inode s ! ip)) ISUID = 0 \<or> i_uid (k_inode s ! ip) \<noteq> 0 \<Longrightarrow> id_call dv s (getxfile_ids ip traced s)"
| id_get: "\<lbrakk>f \<in> {gtime, getuid, getgid, getpid}; f s = Inr ((), t)\<rbrakk> \<Longrightarrow> id_call dv s t"

definition unprivileged :: "kern \<Rightarrow> bool" where
  "unprivileged s \<longleftrightarrow> u_uid s \<noteq> 0 \<and> u_ruid s \<noteq> 0"

lemma unprivileged_identity: "identity t = identity s \<Longrightarrow> unprivileged t = unprivileged s"
  by (simp add: identity_def unprivileged_def)

lemma id_call_unprivileged:
  assumes dv: "dev_keeps identity dv" and u: "unprivileged s" and c: "id_call dv s t"
  shows "unprivileged t"
proof -
  have k: "unprivileged t" if "m = Inr ((), t)" "identity (final m) = identity s" for m :: "unit kres"
    using that u unprivileged_identity [of t s] by simp
  have co: "identity r' = identity r" if "copyout b off sg a n r = (x, r')" for b off sg a n r x r'
    using id.view_copyout [of b off sg a n r] that by simp
  show ?thesis
    using c
  proof cases
    case id_fd
    then show ?thesis using fd_call_identity [OF dv] unprivileged_identity u by blast
  next
    case id_ftime
    show ?thesis by (rule k [OF id_ftime]) (auto simp: ftime_def Let_def split: prod.splits dest!: co)
  next
    case id_times
    show ?thesis by (rule k [OF id_times]) (auto simp: times_def split: prod.splits dest!: co)
  next
    case id_sync
    show ?thesis by (rule k [OF id_sync]) (simp add: sync_def)
  qed (use u in \<open>auto simp: setuid_def setgid_def stime_def nice_def umask_def alarm_def profil_def suser_def
    getxfile_ids_def set_error_def unprivileged_def gtime_def getuid_def getgid_def getpid_def set_rlong_def Let_def split: if_splits prod.splits\<close>)
qed

interpretation ids: safe_system "\<lambda>s. dev_keeps identity dv \<and> unprivileged s" "id_call dv"
  "\<lambda>s. dev_keeps identity dv \<and> unprivileged s" for dv
  by unfold_locales (auto intro: id_call_unprivileged)


text \<open>User 7 executes a set-user-id file of user 9 and gives up the borrowed identity again.\<close>

definition demo_user :: kern where
  "demo_user = kern0\<lparr>u_uid := 7, u_ruid := 7, k_inode := [demo_inode\<lparr>i_mode := 0x89ED, i_uid := 9\<rparr>]\<rparr>"


end
