(* ===== verification/Clist.thy ===== *)
theory Clist
  imports Prelude
begin

section \<open>Character lists (sys/prim.c)\<close>

text \<open>
  Terminal queues are chains of 16-byte blocks taken from a common pool: two bytes for
  the link and 14 characters.  The code finds the block of a character pointer by its
  alignment, so a pointer is modelled as the byte address it is, 0 being \<open>NULL\<close>: a block
  at address \<open>a\<close> (a multiple of 16) has its characters at \<open>a+2\<close> to \<open>a+15\<close>.  The
  routines raise the interrupt priority with \<open>spl6\<close> and put it back with \<open>splx\<close>, so every routine is one
  step; the priority is part of the state.

  The theorems show that the routines implement byte queues: each list is a first-in
  first-out queue, lists do not disturb each other, and no block is lost; the routines
  that move many characters are equal to the ones that move one, except that \<open>q_to_b\<close> of an empty list leaves
  the priority raised.
\<close>

definition CBSIZE :: nat where "CBSIZE = 14"
definition NCLIST :: nat where "NCLIST = 100"

record clist =
  c_cc :: int
  c_cf :: nat
  c_cl :: nat

text \<open>The pool: characters, links (by the address of the block), free list, error count; the interrupt priority.\<close>

record cpool =
  c_info :: "nat \<Rightarrow> u8"
  c_next :: "nat \<Rightarrow> nat"
  cfreelist :: nat
  cbad :: int
  cpri :: nat

text \<open>\<open>spl6\<close> returns the old priority, \<open>splx\<close> takes it.\<close>

definition spl6 :: "cpool \<Rightarrow> nat \<times> cpool" where
  "spl6 s = (cpri s, s\<lparr>cpri := 6\<rparr>)"

definition splx :: "nat \<Rightarrow> cpool \<Rightarrow> cpool" where
  "splx n s = s\<lparr>cpri := n\<rparr>"

text \<open>\<open>x & ~CROUND\<close>.\<close>

definition cblock_of :: "nat \<Rightarrow> nat" where
  "cblock_of x = 16 * (x div 16)"

definition put_free :: "nat \<Rightarrow> cpool \<Rightarrow> cpool" where
  "put_free bp s = s\<lparr>c_next := (c_next s)(bp := cfreelist s), cfreelist := bp\<rparr>"

subsection \<open>Taking characters\<close>

definition null_clist :: clist where
  "null_clist = \<lparr>c_cc = 0, c_cf = 0, c_cl = 0\<rparr>"

text \<open>The common step of \<open>getc\<close> and \<open>q_to_b\<close>: one character of a list that is not empty.\<close>

definition take_char :: "clist \<Rightarrow> cpool \<Rightarrow> u8 \<times> clist \<times> cpool" where
  "take_char p s =
     (let c = c_info s (c_cf p); p = p\<lparr>c_cf := c_cf p + 1, c_cc := c_cc p - 1\<rparr> in
      if c_cc p \<le> 0 then
        (c, p\<lparr>c_cf := 0, c_cl := 0\<rparr>, put_free (cblock_of (c_cf p - 1)) s)
      else if c_cf p mod 16 = 0 then
        (let bp = c_cf p - 16 in (c, p\<lparr>c_cf := c_next s bp + 2\<rparr>, put_free bp s))
      else (c, p, s))"

definition getc :: "clist \<Rightarrow> cpool \<Rightarrow> int \<times> clist \<times> cpool" where
  "getc p s =
     (case spl6 s of (old, s) \<Rightarrow>
        if c_cc p \<le> 0 then (-1, null_clist, splx old s)
        else case take_char p s of (c, p, s) \<Rightarrow> (uint c, p, splx old s))"

text \<open>The loop of \<open>q_to_b\<close>; \<open>buf\<close> are the characters moved so far.\<close>

fun q_to_b_loop :: "nat \<Rightarrow> u8 list \<Rightarrow> clist \<Rightarrow> cpool \<Rightarrow> u8 list \<times> clist \<times> cpool" where
  "q_to_b_loop 0 buf q s = (buf, q, s)"
| "q_to_b_loop (Suc cc) buf q s =
     (case take_char q s of
        (c, q', s') \<Rightarrow>
          if c_cc q' \<le> 0 then (buf @ [c], q', s') else q_to_b_loop cc (buf @ [c]) q' s')"

text \<open>The return for an empty list leaves out \<open>splx\<close>.\<close>

definition q_to_b :: "clist \<Rightarrow> int \<Rightarrow> cpool \<Rightarrow> u8 list \<times> clist \<times> cpool" where
  "q_to_b q cc s =
     (if cc \<le> 0 then ([], q, s)
      else
        case spl6 s of (old, s) \<Rightarrow>
          if c_cc q \<le> 0 then ([], null_clist, s)
          else case q_to_b_loop (nat cc) [] q s of (buf, q, s) \<Rightarrow> (buf, q, splx old s))"

text \<open>The scan of \<open>ndqb\<close> for a character with a bit of \<open>flag\<close>; \<open>ndqb\<close> changes nothing.\<close>

fun ndqb_scan :: "cpool \<Rightarrow> u8 \<Rightarrow> nat \<Rightarrow> nat \<Rightarrow> nat option" where
  "ndqb_scan s flag p 0 = None"
| "ndqb_scan s flag p (Suc n) =
     (if and (c_info s p) flag \<noteq> 0 then Some p else ndqb_scan s flag (p + 1) n)"

definition ndqb :: "clist \<Rightarrow> u8 \<Rightarrow> cpool \<Rightarrow> int" where
  "ndqb q flag s =
     (if c_cc q \<le> 0 then - c_cc q
      else
        (let cc = int (cblock_of (c_cf q + CBSIZE)) - int (c_cf q);
             cc = (if c_cc q < cc then c_cc q else cc)
         in if flag = 0 then cc
            else case ndqb_scan s flag (c_cf q) (nat cc) of
              None \<Rightarrow> cc
            | Some p \<Rightarrow> int p - int (c_cf q)))"

definition ndflush :: "clist \<Rightarrow> int \<Rightarrow> cpool \<Rightarrow> clist \<times> cpool" where
  "ndflush q cc s =
     (case spl6 s of (old, s) \<Rightarrow>
      if c_cc q < 0 then
        (if c_cf q \<noteq> 0 then (q\<lparr>c_cc := c_cc q + cc, c_cf := nat (int (c_cf q) + cc)\<rparr>, splx old s)
         else (q\<lparr>c_cc := 0\<rparr>, splx old s))
      else if c_cc q = 0 then (q, splx old s)
      else if cc > int CBSIZE \<or> cc \<le> 0 then (q, splx old (s\<lparr>cbad := cbad s + 1\<rparr>))
      else
        (let q = q\<lparr>c_cc := c_cc q - cc, c_cf := c_cf q + nat cc\<rparr> in
         if c_cf q mod 16 = 0 then
           (let bp = c_cf q - 16;
                q = (if c_next s bp \<noteq> 0 then q\<lparr>c_cf := c_next s bp + 2\<rparr> else q\<lparr>c_cf := 0, c_cl := 0\<rparr>)
            in (q, splx old (put_free bp s)))
         else if c_cc q = 0 then (q\<lparr>c_cf := 0, c_cl := 0\<rparr>, splx old (put_free (cblock_of (c_cf q)) s))
         else (q, splx old s)))"

subsection \<open>Putting characters\<close>

text \<open>
  A new block for the end of a list: \<open>None\<close> when the pool is empty.  With a last block
  \<open>bp\<close> the link is set first, as in the code.
\<close>

definition new_block :: "nat option \<Rightarrow> cpool \<Rightarrow> nat option \<times> cpool" where
  "new_block prev s =
     (let s = (case prev of None \<Rightarrow> s | Some bp \<Rightarrow> s\<lparr>c_next := (c_next s)(bp := cfreelist s)\<rparr>);
          bp = cfreelist s
      in if bp = 0 then (None, s)
         else (Some bp, s\<lparr>cfreelist := c_next s bp, c_next := (c_next s)(bp := 0)\<rparr>))"

definition putc :: "u8 \<Rightarrow> clist \<Rightarrow> cpool \<Rightarrow> int \<times> clist \<times> cpool" where
  "putc c p s =
     (case spl6 s of (old, s) \<Rightarrow>
      let store = (\<lambda>cp p s. (0, p\<lparr>c_cc := c_cc p + 1, c_cl := cp + 1\<rparr>, splx old (s\<lparr>c_info := (c_info s)(cp := c)\<rparr>))) in
      if c_cl p = 0 \<or> c_cc p < 0 then
        (case new_block None s of
           (None, s) \<Rightarrow> (-1, p, splx old s)
         | (Some bp, s) \<Rightarrow> store (bp + 2) (p\<lparr>c_cf := bp + 2\<rparr>) s)
      else if c_cl p mod 16 = 0 then
        (case new_block (Some (c_cl p - 16)) s of
           (None, s) \<Rightarrow> (-1, p, splx old s)
         | (Some bp, s) \<Rightarrow> store (bp + 2) p s)
      else store (c_cl p) p s)"

text \<open>The loop of \<open>b_to_q\<close>: what is left of the buffer, and \<open>cq\<close>.\<close>

fun b_to_q_loop :: "u8 list \<Rightarrow> nat \<Rightarrow> cpool \<Rightarrow> u8 list \<times> nat \<times> cpool" where
  "b_to_q_loop [] cq s = ([], cq, s)"
| "b_to_q_loop (c # cs) cq s =
     (if cq mod 16 = 0 then
        (case new_block (Some (cq - 16)) s of
           (None, s) \<Rightarrow> (c # cs, cq, s)
         | (Some bp, s) \<Rightarrow> b_to_q_loop cs (bp + 3) (s\<lparr>c_info := (c_info s)(bp + 2 := c)\<rparr>))
      else b_to_q_loop cs (cq + 1) (s\<lparr>c_info := (c_info s)(cq := c)\<rparr>))"

text \<open>The result is the list of characters that were not transferred.\<close>

definition b_to_q :: "u8 list \<Rightarrow> clist \<Rightarrow> cpool \<Rightarrow> u8 list \<times> clist \<times> cpool" where
  "b_to_q cs q s =
     (if cs = [] then ([], q, s)
      else
        case spl6 s of (old, s) \<Rightarrow>
        (let out = (\<lambda>(rest, cq, s) q. (rest, q\<lparr>c_cl := cq, c_cc := c_cc q + int (length cs - length rest)\<rparr>, splx old s)) in
         if c_cl q = 0 \<or> c_cc q < 0 then
           (case new_block None s of
              (None, s) \<Rightarrow> out (cs, c_cl q, s) q
            | (Some bp, s) \<Rightarrow> out (b_to_q_loop cs (bp + 2) s) (q\<lparr>c_cf := bp + 2\<rparr>))
         else out (b_to_q_loop cs (c_cl q) s) q))"

subsection \<open>Words, and the initial pool\<close>

definition getw :: "clist \<Rightarrow> cpool \<Rightarrow> int \<times> clist \<times> cpool" where
  "getw p s =
     (if c_cc p \<le> 1 then (-1, p, s)
      else case getc p s of (x, p, s) \<Rightarrow> case getc p s of (y, p, s) \<Rightarrow> (or x (y * 256), p, s))"

text \<open>The results of the two calls of \<open>putc\<close> are ignored.\<close>

definition putw :: "u16 \<Rightarrow> clist \<Rightarrow> cpool \<Rightarrow> int \<times> clist \<times> cpool" where
  "putw c p s =
     (case spl6 s of (old, s) \<Rightarrow>
      if cfreelist s = 0 then (-1, p, splx old s)
      else case putc (ucast c) p s of (_, p, s) \<Rightarrow>
        case putc (ucast (drop_bit 8 c)) p s of (_, p, s) \<Rightarrow> (0, p, splx old s))"

text \<open>
  \<open>cinit\<close> links the aligned blocks of the array \<open>cfree\<close>, which starts at address
  \<open>base\<close>, into the free list; counting the character devices is left out.
\<close>

fun cinit_loop :: "nat list \<Rightarrow> cpool \<Rightarrow> cpool" where
  "cinit_loop [] s = s"
| "cinit_loop (bp # bps) s = cinit_loop bps (put_free bp s)"

definition cinit :: "nat \<Rightarrow> cpool \<Rightarrow> cpool" where
  "cinit base s =
     (let first = cblock_of (base + 15)
      in cinit_loop (filter (\<lambda>bp. bp \<le> base + 16 * (NCLIST - 1)) (map (\<lambda>i. first + 16 * i) [0..<NCLIST])) s)"

subsection \<open>The interrupt priority\<close>

text \<open>
  The priority does not matter to the blocks, so the routines behave as if they left it
  alone, but for \<open>q_to_b\<close> of an empty list.
\<close>

lemma cpri_same: "cpri s = n \<Longrightarrow> s\<lparr>cpri := n\<rparr> = s"
  by (cases s) simp

lemma put_free_pri: "put_free bp (s\<lparr>cpri := n\<rparr>) = (put_free bp s)\<lparr>cpri := n\<rparr>" "cpri (put_free bp s) = cpri s"
  by (simp_all add: put_free_def)

lemma take_char_pri:
  "take_char p (s\<lparr>cpri := n\<rparr>) = (case take_char p s of (c, p, t) \<Rightarrow> (c, p, t\<lparr>cpri := n\<rparr>))"
  "take_char p s = (c, p', t) \<Longrightarrow> cpri t = cpri s"
  by (auto simp: take_char_def put_free_pri Let_def split: if_splits)

lemma new_block_pri:
  "new_block prev (s\<lparr>cpri := n\<rparr>) = (case new_block prev s of (b, t) \<Rightarrow> (b, t\<lparr>cpri := n\<rparr>))"
  "new_block prev s = (b, t) \<Longrightarrow> cpri t = cpri s"
  by (auto simp: new_block_def Let_def split: option.splits if_splits)

lemma q_to_b_loop_pri:
  "q_to_b_loop k buf q (s\<lparr>cpri := n\<rparr>) = (case q_to_b_loop k buf q s of (b, q, t) \<Rightarrow> (b, q, t\<lparr>cpri := n\<rparr>))"
  "q_to_b_loop k buf q s = (b, q', t) \<Longrightarrow> cpri t = cpri s"
  by (induction k arbitrary: buf q s b q' t)
    (auto simp: take_char_pri(1) dest: take_char_pri(2) split: prod.splits if_splits)

lemma b_to_q_loop_pri:
  "b_to_q_loop cs cq (s\<lparr>cpri := n\<rparr>) = (case b_to_q_loop cs cq s of (r, cq, t) \<Rightarrow> (r, cq, t\<lparr>cpri := n\<rparr>))"
  "b_to_q_loop cs cq s = (r, cq', t) \<Longrightarrow> cpri t = cpri s"
proof -
  have ins: "(s\<lparr>cpri := n\<rparr>)\<lparr>c_info := f\<rparr> = (s\<lparr>c_info := f\<rparr>)\<lparr>cpri := n\<rparr>" for s f by simp
  show "b_to_q_loop cs cq (s\<lparr>cpri := n\<rparr>) = (case b_to_q_loop cs cq s of (r, cq, t) \<Rightarrow> (r, cq, t\<lparr>cpri := n\<rparr>))"
  proof (induction cs arbitrary: cq s)
    case (Cons c cs)
    then show ?case by (auto simp: new_block_pri(1) ins split: prod.splits option.splits)
  qed simp
  show "b_to_q_loop cs cq s = (r, cq', t) \<Longrightarrow> cpri t = cpri s"
    by (induction cs arbitrary: cq s) (fastforce dest: new_block_pri(2) split: prod.splits option.splits if_splits)+
qed

lemma getc_simp:
  "getc p s = (if c_cc p \<le> 0 then (-1, null_clist, s) else case take_char p s of (c, p, s) \<Rightarrow> (uint c, p, s))"
  by (auto simp: getc_def spl6_def splx_def take_char_pri(1) cpri_same dest: take_char_pri(2) split: prod.split)

lemma q_to_b_simp:
  "q_to_b q cc s =
     (if cc \<le> 0 then ([], q, s) else if c_cc q \<le> 0 then ([], null_clist, s\<lparr>cpri := 6\<rparr>) else q_to_b_loop (nat cc) [] q s)"
  by (auto simp: q_to_b_def spl6_def splx_def q_to_b_loop_pri(1) cpri_same dest: q_to_b_loop_pri(2) split: prod.split)

lemma putc_simp:
  "putc c p s =
     (let store = (\<lambda>cp p s. (0, p\<lparr>c_cc := c_cc p + 1, c_cl := cp + 1\<rparr>, s\<lparr>c_info := (c_info s)(cp := c)\<rparr>)) in
      if c_cl p = 0 \<or> c_cc p < 0 then
        (case new_block None s of
           (None, s) \<Rightarrow> (-1, p, s)
         | (Some bp, s) \<Rightarrow> store (bp + 2) (p\<lparr>c_cf := bp + 2\<rparr>) s)
      else if c_cl p mod 16 = 0 then
        (case new_block (Some (c_cl p - 16)) s of
           (None, s) \<Rightarrow> (-1, p, s)
         | (Some bp, s) \<Rightarrow> store (bp + 2) p s)
      else store (c_cl p) p s)"
  by (auto simp: putc_def spl6_def splx_def new_block_pri(1) cpri_same Let_def dest: new_block_pri(2) split: prod.split option.split)

lemma b_to_q_simp:
  "b_to_q cs q s =
     (if cs = [] then ([], q, s)
      else
        (let out = (\<lambda>(rest, cq, s) q. (rest, q\<lparr>c_cl := cq, c_cc := c_cc q + int (length cs - length rest)\<rparr>, s)) in
         if c_cl q = 0 \<or> c_cc q < 0 then
           (case new_block None s of
              (None, s) \<Rightarrow> out (cs, c_cl q, s) q
            | (Some bp, s) \<Rightarrow> out (b_to_q_loop cs (bp + 2) s) (q\<lparr>c_cf := bp + 2\<rparr>))
         else out (b_to_q_loop cs (c_cl q) s) q))"
  by (auto simp: b_to_q_def spl6_def splx_def new_block_pri(1) b_to_q_loop_pri(1) cpri_same Let_def
    dest!: new_block_pri(2) b_to_q_loop_pri(2) split: prod.split option.split)

subsection \<open>Lists as queues of bytes\<close>

text \<open>Position \<open>p\<close> in a chain of blocks, and chains that end with a null link.\<close>

definition caddr :: "nat list \<Rightarrow> nat \<Rightarrow> nat" where
  "caddr bs p = bs ! (p div 14) + 2 + p mod 14"

definition linked :: "cpool \<Rightarrow> nat list \<Rightarrow> bool" where
  "linked s bs \<longleftrightarrow> (\<forall>i. Suc i < length bs \<longrightarrow> c_next s (bs ! i) = bs ! Suc i) \<and>
     (bs \<noteq> [] \<longrightarrow> c_next s (last bs) = 0)"

definition aligned :: "nat list \<Rightarrow> bool" where
  "aligned bs \<longleftrightarrow> (\<forall>b\<in>set bs. b mod 16 = 0 \<and> 0 < b)"

text \<open>The list \<open>q\<close> holds the bytes \<open>xs\<close> in the blocks \<open>bs\<close>, from position \<open>f\<close> on.\<close>

definition clist_rep :: "cpool \<Rightarrow> clist \<Rightarrow> nat list \<Rightarrow> nat \<Rightarrow> u8 list \<Rightarrow> bool" where
  "clist_rep s q bs f xs \<longleftrightarrow>
     (if xs = [] then q = null_clist \<and> bs = []
      else f < 14 \<and> c_cc q = int (length xs) \<and> length bs = (f + length xs - 1) div 14 + 1 \<and> linked s bs \<and>
        c_cf q = caddr bs f \<and> c_cl q = caddr bs (f + length xs - 1) + 1 \<and>
        (\<forall>i<length xs. c_info s (caddr bs (f + i)) = xs ! i))"

definition free_rep :: "cpool \<Rightarrow> nat list \<Rightarrow> bool" where
  "free_rep s fl \<longleftrightarrow> linked s fl \<and> cfreelist s = (case fl of [] \<Rightarrow> 0 | b # _ \<Rightarrow> b)"

lemma linked_simps [simp]:
  "linked s []" "linked s [b] \<longleftrightarrow> c_next s b = 0"
  "linked s (b # b' # bs) \<longleftrightarrow> c_next s b = b' \<and> linked s (b' # bs)"
proof -
  show "linked s (b # b' # bs) \<longleftrightarrow> c_next s b = b' \<and> linked s (b' # bs)"
    unfolding linked_def
    by (auto simp: nth_Cons split: nat.splits)
qed (simp_all add: linked_def)

lemma linked_cong: "(\<And>b. b \<in> set bs \<Longrightarrow> c_next t b = c_next s b) \<Longrightarrow> linked t bs = linked s bs"
  by (induction bs rule: induct_list012) auto

lemma linked_snoc:
  "linked s (bs @ [b]) \<longleftrightarrow> c_next s b = 0 \<and> (bs \<noteq> [] \<longrightarrow> c_next s (last bs) = b) \<and>
     (\<forall>i. Suc i < length bs \<longrightarrow> c_next s (bs ! i) = bs ! Suc i)"
proof (cases bs rule: rev_cases)
  case (snoc as a)
  then show ?thesis unfolding linked_def by (auto simp: nth_append less_Suc_eq)
qed simp

lemma cblock_caddr:
  assumes "aligned bs" "p div 14 < length bs"
  shows "cblock_of (caddr bs p) = bs ! (p div 14)" "caddr bs p mod 16 = 2 + p mod 14" "0 < caddr bs p"
proof -
  have "bs ! (p div 14) mod 16 = 0" using assms by (simp add: aligned_def)
  then obtain k where k: "bs ! (p div 14) = 16 * k" by (auto simp: mod_eq_0_iff_dvd)
  have m: "2 + p mod 14 < 16" using mod_less_divisor [of 14 p] by simp
  have e: "caddr bs p = 16 * k + (2 + p mod 14)" by (simp add: caddr_def k)
  show "cblock_of (caddr bs p) = bs ! (p div 14)"
    unfolding cblock_of_def e k using m by simp
  show "caddr bs p mod 16 = 2 + p mod 14"
    unfolding e mod_mult_self4 using m by simp
qed (simp add: caddr_def)

lemma caddr_inj:
  assumes "aligned bs" "distinct bs" "p div 14 < length bs" "q div 14 < length bs" "caddr bs p = caddr bs q"
  shows "p = q"
proof -
  have "bs ! (p div 14) = bs ! (q div 14)" "p mod 14 = q mod 14"
    using cblock_caddr [OF assms(1,3)] cblock_caddr [OF assms(1,4)] assms(5) by auto
  then have "p div 14 = q div 14" using assms(2-4) nth_eq_iff_index_eq by blast
  with \<open>p mod 14 = q mod 14\<close> show ?thesis by (metis div_mult_mod_eq)
qed

text \<open>A representation only depends on the links and characters of its own blocks.\<close>

lemma clist_rep_frame:
  assumes "clist_rep s q bs f xs" "aligned bs"
    and "\<And>b. b \<in> set bs \<Longrightarrow> c_next t b = c_next s b" "\<And>a. cblock_of a \<in> set bs \<Longrightarrow> c_info t a = c_info s a"
  shows "clist_rep t q bs f xs"
proof (cases "xs = []")
  case False
  have "c_info t (caddr bs (f + i)) = c_info s (caddr bs (f + i))" if "i < length xs" for i
  proof -
    have "f + i \<le> f + length xs - 1" using that by simp
    then have "(f + i) div 14 < length bs"
      using assms(1) False div_le_mono [of "f + i" "f + length xs - 1" 14] by (simp add: clist_rep_def)
    then show ?thesis using assms(4) cblock_caddr [OF assms(2)] by (metis nth_mem)
  qed
  then show ?thesis using assms(1) False linked_cong [of bs t s] assms(3) by (simp add: clist_rep_def)
qed (use assms in \<open>simp add: clist_rep_def\<close>)

lemma caddr_snoc: "p div 14 < length bs \<Longrightarrow> caddr (bs @ [b]) p = caddr bs p"
  by (simp add: caddr_def nth_append)

text \<open>Where the next character goes.\<close>

lemma clist_rep_end:
  assumes r: "clist_rep s q bs f xs" "xs \<noteq> []" and a: "aligned bs"
  shows "c_cl q mod 16 = 0 \<longleftrightarrow> (f + length xs) mod 14 = 0" "c_cl q \<noteq> 0" "0 \<le> c_cc q" "bs \<noteq> []"
    "(f + length xs) mod 14 = 0 \<Longrightarrow> (f + length xs) div 14 = length bs \<and> c_cl q = last bs + 16"
    "(f + length xs) mod 14 \<noteq> 0 \<Longrightarrow> (f + length xs) div 14 < length bs \<and> c_cl q = caddr bs (f + length xs) \<and>
       length bs = (f + length xs) div 14 + 1"
proof -
  let ?n = "f + length xs"
  define p where "p = ?n - 1"
  have n: "?n = Suc p" using r(2) by (cases xs) (simp_all add: p_def)
  have l: "length bs = p div 14 + 1" and cl: "c_cl q = caddr bs p + 1"
    using r by (simp_all add: clist_rep_def p_def)
  have m: "caddr bs p mod 16 = 2 + p mod 14" using cblock_caddr [OF a, of p] l by simp
  have b14: "p mod 14 < 14" by simp
  have S: "Suc p mod 14 = (if p mod 14 = 13 then 0 else Suc (p mod 14))" by (simp add: mod_Suc)
  have D: "Suc p div 14 = (if p mod 14 = 13 then Suc (p div 14) else p div 14)" by (simp add: div_Suc S)
  have "c_cl q mod 16 = Suc (2 + p mod 14) mod 16" using cl m by (metis Suc_eq_plus1 mod_Suc_eq)
  also have "\<dots> = 0 \<longleftrightarrow> p mod 14 = 13"
  proof (cases "p mod 14 = 13")
    case False
    then have "Suc (2 + p mod 14) < 16" using b14 by linarith
    with False show ?thesis by simp
  qed simp
  finally show "c_cl q mod 16 = 0 \<longleftrightarrow> ?n mod 14 = 0" using S n by auto
  show "c_cl q \<noteq> 0" using cl by simp
  show "0 \<le> c_cc q" using r by (simp add: clist_rep_def)
  show bs: "bs \<noteq> []" using l by auto
  show "?n div 14 = length bs \<and> c_cl q = last bs + 16" if "?n mod 14 = 0"
  proof -
    have "p mod 14 = 13" using that n S by (simp split: if_splits)
    then show ?thesis using D n l cl bs by (simp add: caddr_def last_conv_nth)
  qed
  show "?n div 14 < length bs \<and> c_cl q = caddr bs ?n \<and> length bs = ?n div 14 + 1" if "?n mod 14 \<noteq> 0"
  proof -
    have "p mod 14 \<noteq> 13" using that n S by (simp split: if_splits)
    then show ?thesis using D S n l cl by (simp add: caddr_def)
  qed
qed

text \<open>Storing a character at the end, in a block that is there.\<close>

lemma clist_rep_store:
  assumes r: "clist_rep s q bs f xs" "xs \<noteq> []" and a: "aligned bs'" "distinct bs'"
    and bs': "length bs' = (f + length xs) div 14 + 1" "linked t bs'" "\<And>p. p div 14 < length bs \<Longrightarrow> caddr bs' p = caddr bs p"
    and t: "c_info t = (c_info s)(caddr bs' (f + length xs) := c)"
    and q': "q' = q\<lparr>c_cc := c_cc q + 1, c_cl := caddr bs' (f + length xs) + 1\<rparr>"
  shows "clist_rep t q' bs' f (xs @ [c])"
proof -
  have l: "length bs = (f + length xs - 1) div 14 + 1" using r by (simp add: clist_rep_def)
  have old: "c_info t (caddr bs' (f + i)) = xs ! i" if "i < length xs" for i
  proof -
    have le: "(f + i) div 14 < length bs" using that l div_le_mono [of "f + i" "f + length xs - 1" 14] by simp
    have lt: "(f + i) div 14 < length bs'" using that bs'(1) div_le_mono [of "f + i" "f + length xs" 14] by simp
    have "caddr bs' (f + i) \<noteq> caddr bs' (f + length xs)"
      using caddr_inj [OF a lt, of "f + length xs"] bs'(1) that by auto
    then show ?thesis using t bs'(3) [OF le] r that by (simp add: clist_rep_def)
  qed
  have "c_info t (caddr bs' (f + i)) = (xs @ [c]) ! i" if "i < Suc (length xs)" for i
    using that old [of i] t by (cases "i = length xs") (auto simp: nth_append)
  moreover have "f div 14 < length bs" using r l by (simp add: clist_rep_def)
  ultimately show ?thesis
    using r bs' q' by (simp add: clist_rep_def)
qed

text \<open>The states \<open>s\<close> and \<open>t\<close> differ at most in the blocks \<open>B\<close>.\<close>

definition same_outside :: "nat set \<Rightarrow> cpool \<Rightarrow> cpool \<Rightarrow> bool" where
  "same_outside B s t \<longleftrightarrow> (\<forall>b. b \<notin> B \<longrightarrow> c_next t b = c_next s b) \<and> (\<forall>a. cblock_of a \<notin> B \<longrightarrow> c_info t a = c_info s a)"

text \<open>One list and the free list: \<open>B\<close> are all their blocks.\<close>

definition queue_rep :: "nat set \<Rightarrow> cpool \<Rightarrow> clist \<Rightarrow> u8 list \<Rightarrow> nat list \<Rightarrow> nat list \<Rightarrow> bool" where
  "queue_rep B s q xs bs fl \<longleftrightarrow> (\<exists>f. clist_rep s q bs f xs) \<and> free_rep s fl \<and> distinct (fl @ bs) \<and>
     aligned (fl @ bs) \<and> set fl \<union> set bs = B"

lemma aligned_append [simp]: "aligned (as @ bs) \<longleftrightarrow> aligned as \<and> aligned bs"
  by (auto simp: aligned_def)

lemma aligned_Cons [simp]: "aligned (b # bs) \<longleftrightarrow> b mod 16 = 0 \<and> 0 < b \<and> aligned bs"
  by (auto simp: aligned_def)

lemma aligned_Nil [simp]: "aligned []"
  by (simp add: aligned_def)

lemma free_rep_Cons:
  "free_rep s (b # fl) \<longleftrightarrow> cfreelist s = b \<and> linked s (b # fl)"
  by (auto simp: free_rep_def)

lemma linked_tail: "linked s (b # fl) \<Longrightarrow> linked s fl \<and> c_next s b = (case fl of [] \<Rightarrow> 0 | b' # _ \<Rightarrow> b')"
  by (cases fl) auto

lemma free_rep_pop:
  assumes "free_rep s (b # fl)" "distinct (b # fl)"
    and "cfreelist t = c_next s b" "\<And>x. x \<in> set fl \<Longrightarrow> c_next t x = c_next s x"
  shows "free_rep t fl"
  using assms linked_tail [of s b fl] linked_cong [of fl t s] by (simp add: free_rep_def split: list.split)

lemma cblock_info: "b mod 16 = 0 \<Longrightarrow> cblock_of (b + 2) = b"
  using cblock_caddr(1) [of "[b]" 0] by (cases "b = 0") (simp_all add: caddr_def cblock_of_def)

lemma putc_empty:
  assumes r: "queue_rep B s q [] bs (b # fl)"
  shows "\<exists>t. putc c q s = (0, \<lparr>c_cc = 1, c_cf = b + 2, c_cl = b + 3\<rparr>, t) \<and>
    queue_rep B t \<lparr>c_cc = 1, c_cf = b + 2, c_cl = b + 3\<rparr> [c] [b] fl \<and> same_outside B s t"
proof -
  have q: "q = null_clist" "bs = []" and f: "free_rep s (b # fl)" "distinct (b # fl)" "aligned (b # fl)"
    "B = set (b # fl)"
    using r by (auto simp: queue_rep_def clist_rep_def)
  let ?t = "s\<lparr>cfreelist := c_next s b, c_next := (c_next s)(b := 0), c_info := (c_info s)(b + 2 := c)\<rparr>"
  have "putc c q s = (0, \<lparr>c_cc = 1, c_cf = b + 2, c_cl = b + 3\<rparr>, ?t)"
    using f by (simp add: putc_simp new_block_def q null_clist_def free_rep_def Let_def)
  moreover have "clist_rep ?t \<lparr>c_cc = 1, c_cf = b + 2, c_cl = b + 3\<rparr> [b] 0 [c]"
    by (simp add: clist_rep_def caddr_def)
  moreover have "free_rep ?t fl" by (rule free_rep_pop [OF f(1,2)]) (use f(2) in auto)
  moreover have "same_outside B s ?t"
    using f cblock_info [of b] by (auto simp: same_outside_def)
  ultimately show ?thesis using f by (auto simp: queue_rep_def)
qed

lemma putc_room:
  assumes r: "queue_rep B s q xs bs fl" "clist_rep s q bs f xs" "xs \<noteq> []" and m: "(f + length xs) mod 14 \<noteq> 0"
  shows "\<exists>q' t. putc c q s = (0, q', t) \<and> queue_rep B t q' (xs @ [c]) bs fl \<and> same_outside B s t"
proof -
  have d: "free_rep s fl" "distinct (fl @ bs)" "aligned (fl @ bs)" "B = set fl \<union> set bs"
    using r(1) by (auto simp: queue_rep_def)
  then have a: "aligned bs" by simp
  note e = clist_rep_end [OF r(2,3) a]
  let ?t = "s\<lparr>c_info := (c_info s)(c_cl q := c)\<rparr>" and ?q = "q\<lparr>c_cc := c_cc q + 1, c_cl := c_cl q + 1\<rparr>"
  have p: "putc c q s = (0, ?q, ?t)" using e(1-3) m by (simp add: putc_simp Let_def)
  have c: "c_cl q = caddr bs (f + length xs)" "(f + length xs) div 14 < length bs" "length bs = (f + length xs) div 14 + 1"
    using e(6) [OF m] by auto
  have L: "linked ?t bs" using r(2,3) linked_cong [of bs ?t s] by (simp add: clist_rep_def)
  have "clist_rep ?t ?q bs f (xs @ [c])"
    using d(2) by (intro clist_rep_store [OF r(2,3) a _ c(3) L]) (simp_all add: c(1))
  moreover have "free_rep ?t fl" using d(1) linked_cong [of fl ?t s] by (simp add: free_rep_def)
  moreover have "same_outside B s ?t"
    using cblock_caddr(1) [OF a c(2)] c d(4) by (auto simp: same_outside_def)
  ultimately show ?thesis using p d by (auto simp: queue_rep_def)
qed

lemma putc_grow:
  assumes r: "queue_rep B s q xs bs (b # fl)" "clist_rep s q bs f xs" "xs \<noteq> []" and m: "(f + length xs) mod 14 = 0"
  shows "\<exists>q' t. putc c q s = (0, q', t) \<and> queue_rep B t q' (xs @ [c]) (bs @ [b]) fl \<and> same_outside B s t"
proof -
  have d: "free_rep s (b # fl)" "distinct (b # fl @ bs)" "aligned (b # fl @ bs)" "B = insert b (set fl \<union> set bs)"
    using r(1) by (auto simp: queue_rep_def)
  then have a: "aligned bs" by simp
  note e = clist_rep_end [OF r(2,3) a]
  have k: "(f + length xs) div 14 = length bs" "c_cl q - 16 = last bs" using e(5) [OF m] by auto
  have lb: "last bs \<in> set bs" "last bs \<noteq> b" "last bs \<notin> set fl" using e(4) d(2) by auto
  let ?s = "s\<lparr>c_next := (c_next s)(last bs := b)\<rparr>"
  let ?t = "?s\<lparr>cfreelist := c_next s b, c_next := (c_next s)(last bs := b, b := 0), c_info := (c_info s)(b + 2 := c)\<rparr>"
  let ?q = "q\<lparr>c_cc := c_cc q + 1, c_cl := b + 3\<rparr>"
  have p: "putc c q s = (0, ?q, ?t)"
    using e(1-3) m k d lb by (simp add: putc_simp new_block_def free_rep_Cons Let_def)
  have c: "caddr (bs @ [b]) (f + length xs) = b + 2" using k m by (simp add: caddr_def)
  have L0: "linked s bs" using r(2,3) by (simp add: clist_rep_def)
  have ni: "c_next ?t (bs ! i) = c_next s (bs ! i)" if "Suc i < length bs" for i
  proof -
    have "bs ! i \<noteq> last bs" using that d(2) e(4) nth_eq_iff_index_eq [of bs i "length bs - 1"] by (simp add: last_conv_nth)
    moreover have "bs ! i \<noteq> b" using that d(2) nth_mem [of i bs] by (auto simp del: nth_mem)
    ultimately show ?thesis by simp
  qed
  have "linked ?t (bs @ [b])"
    unfolding linked_snoc using ni L0 lb by (auto simp: linked_def)
  moreover have "caddr (bs @ [b]) p = caddr bs p" if "p div 14 < length bs" for p using that by (rule caddr_snoc)
  ultimately have "clist_rep ?t ?q (bs @ [b]) f (xs @ [c])"
    using d k c by (intro clist_rep_store [OF r(2,3), of "bs @ [b]"]) simp_all
  moreover have "free_rep ?t fl"
    using d(2) lb by (intro free_rep_pop [OF d(1)]) auto
  moreover have "same_outside B s ?t"
    using cblock_info [of b] d lb by (auto simp: same_outside_def)
  ultimately show ?thesis using p d by (auto simp: queue_rep_def)
qed

lemma putc_none:
  assumes r: "queue_rep B s q xs bs []" "clist_rep s q bs f xs" and m: "xs \<noteq> [] \<longrightarrow> (f + length xs) mod 14 = 0"
  shows "\<exists>t. putc c q s = (-1, q, t) \<and> queue_rep B t q xs bs [] \<and> same_outside B s t"
proof -
  have d: "cfreelist s = 0" "aligned bs" using r(1) by (auto simp: queue_rep_def free_rep_def)
  show ?thesis
  proof (cases "xs = []")
    case True
    then have "q = null_clist" using r(2) by (simp add: clist_rep_def)
    then have "putc c q s = (-1, q, s)" using d by (simp add: putc_simp new_block_def null_clist_def)
    then show ?thesis using r(1) by (simp add: same_outside_def)
  next
    case False
    note e = clist_rep_end [OF r(2) False d(2)]
    have k: "c_cl q - 16 = last bs" using e(5) m False by auto
    have "c_next s (last bs) = 0" using r(2) False e(4) by (simp add: clist_rep_def linked_def)
    then have s: "s\<lparr>c_next := (c_next s)(last bs := 0)\<rparr> = s" by (simp add: fun_upd_idem)
    have "putc c q s = (-1, q, s)"
      using e(1-3) m False k d(1) s by (simp add: putc_simp new_block_def Let_def)
    then show ?thesis using r(1) by (simp add: same_outside_def)
  qed
qed

lemma linked_put_free: "b \<notin> set bs \<Longrightarrow> linked (put_free b s) bs = linked s bs"
  by (rule linked_cong) (auto simp: put_free_def)

lemma free_rep_push:
  assumes "free_rep s fl" "b \<notin> set fl"
  shows "free_rep (put_free b s) (b # fl)"
proof -
  have "linked (put_free b s) fl" using assms by (simp add: free_rep_def linked_put_free)
  moreover have "c_next (put_free b s) b = cfreelist s" "cfreelist (put_free b s) = b"
    by (simp_all add: put_free_def)
  ultimately show ?thesis using assms by (cases fl) (auto simp: free_rep_def)
qed

lemma caddr_Cons: "caddr (b # bs) (14 + p) = caddr bs p"
proof -
  have "(14 + p) div 14 = Suc (p div 14)" by simp
  then show ?thesis by (simp add: caddr_def del: div_add_self1)
qed

text \<open>\<open>take_char\<close> removes the first byte.\<close>

lemma take_char_last:
  assumes r: "queue_rep B s q [x] bs fl"
  shows "\<exists>t. take_char q s = (x, null_clist, t) \<and> queue_rep B t null_clist [] [] (hd bs # fl) \<and> same_outside B s t"
proof -
  obtain f where c: "clist_rep s q bs f [x]" using r by (auto simp: queue_rep_def)
  then obtain b where b: "bs = [b]" "f < 14" by (auto simp: clist_rep_def length_Suc_conv)
  have d: "free_rep s fl" "b \<notin> set fl" "aligned [b]" "B = insert b (set fl)" "distinct fl" "aligned fl"
    using r b by (auto simp: queue_rep_def)
  have cf: "c_cf q = caddr [b] f" "c_info s (c_cf q) = x" "c_cc q = 1"
    using c b by (auto simp: clist_rep_def)
  have "cblock_of (c_cf q) = b" using cblock_caddr(1) [OF d(3), of f] cf b by simp
  then have "take_char q s = (x, null_clist, put_free b s)"
    using cf by (simp add: take_char_def null_clist_def)
  moreover have "same_outside B s (put_free b s)" using d(4) by (auto simp: same_outside_def put_free_def)
  ultimately show ?thesis
    using d b free_rep_push [OF d(1,2)] by (auto simp: queue_rep_def clist_rep_def)
qed

lemma take_char_more:
  assumes r: "queue_rep B s q (x # xs) bs fl" and ne: "xs \<noteq> []"
  shows "\<exists>q' t bs' fl'. take_char q s = (x, q', t) \<and> queue_rep B t q' xs bs' fl' \<and> same_outside B s t \<and>
    length bs' + length fl' = length bs + length fl"
proof -
  obtain f where c: "clist_rep s q bs f (x # xs)" using r by (auto simp: queue_rep_def)
  have d: "free_rep s fl" "distinct (fl @ bs)" "aligned (fl @ bs)" "B = set fl \<union> set bs"
    using r by (auto simp: queue_rep_def)
  then have a: "aligned bs" by simp
  have f: "f < 14" "c_cc q = 1 + int (length xs)" "length bs = (f + length xs) div 14 + 1" "linked s bs"
    "c_cf q = caddr bs f" "c_cl q = caddr bs (f + length xs) + 1"
    and v: "\<And>i. i < Suc (length xs) \<Longrightarrow> c_info s (caddr bs (f + i)) = (x # xs) ! i"
    using c by (auto simp: clist_rep_def)
  have bs: "f div 14 < length bs" "0 < length xs" "0 < c_cc q - 1" using f ne by (auto simp: less_Suc_eq_0_disj)
  have vx: "c_info s (c_cf q) = x" using v [of 0] f(5) by simp
  have cf1: "c_cf q + 1 = bs ! 0 + 3 + f" using f(1,5) by (simp add: caddr_def)
  have m: "(c_cf q + 1) mod 16 = 0 \<longleftrightarrow> f = 13"
  proof -
    have "c_cf q mod 16 = 2 + f" using cblock_caddr(2) [OF a bs(1)] f by simp
    then have "(c_cf q + 1) mod 16 = Suc (2 + f) mod 16" by (metis Suc_eq_plus1 mod_Suc_eq)
    also have "\<dots> = 0 \<longleftrightarrow> f = 13"
    proof (cases "f = 13")
      case False
      then have "Suc (2 + f) < 16" using f(1) by linarith
      with False show ?thesis by simp
    qed simp
    finally show ?thesis .
  qed
  show ?thesis
  proof (cases "f = 13")
    case True
    then obtain b b' bs' where B: "bs = b # b' # bs'"
      using f(3) bs(2) by (cases bs; cases "tl bs") (auto simp: div_eq_0_iff)
    have nb: "b \<notin> set fl" "c_next s b = b'" using B d(2) f(4) by auto
    let ?q = "q\<lparr>c_cf := b' + 2, c_cc := c_cc q - 1\<rparr>" and ?t = "put_free b s"
    have "take_char q s = (x, ?q, ?t)"
      using m True vx cf1 bs(3) B nb by (simp add: take_char_def Let_def)
    moreover have "clist_rep ?t ?q (b' # bs') 0 xs"
    proof -
      have s: "caddr (b # b' # bs') (13 + Suc p) = caddr (b' # bs') p" for p
        using caddr_Cons [of b "b' # bs'" p] by simp
      have L: "linked ?t (b' # bs')"
        using f(4) B d(2) by (simp add: linked_put_free)
      have n: "13 + length xs = 14 + (length xs - 1)" using bs(2) by simp
      have "Suc (Suc (length bs')) = (14 + (length xs - 1)) div 14 + 1" using f(3) B True n by (metis length_Cons)
      then have "length (b' # bs') = (length xs - 1) div 14 + 1" by simp
      moreover have "c_cl q = caddr (b' # bs') (length xs - 1) + 1"
        using f(6) B True s [of "length xs - 1"] bs(2) by simp
      moreover have "c_info ?t (caddr (b' # bs') i) = xs ! i" if "i < length xs" for i
        using v [of "Suc i"] that B True s [of i] by (simp add: put_free_def)
      ultimately show ?thesis using ne f(2) L by (simp add: clist_rep_def caddr_def)
    qed
    moreover have "free_rep ?t (b # fl)" using free_rep_push [OF d(1) nb(1)] .
    moreover have "same_outside B s ?t" using d(4) B by (auto simp: same_outside_def put_free_def)
    moreover have "distinct ((b # fl) @ b' # bs')" "aligned ((b # fl) @ b' # bs')" "set (b # fl) \<union> set (b' # bs') = B"
      using d B by auto
    ultimately have "queue_rep B ?t ?q xs (b' # bs') (b # fl)" "same_outside B s ?t" "take_char q s = (x, ?q, ?t)"
      unfolding queue_rep_def by blast+
    moreover have "length (b' # bs') + length (b # fl) = length bs + length fl" using B by simp
    ultimately show ?thesis by blast
  next
    case False
    let ?q = "q\<lparr>c_cf := c_cf q + 1, c_cc := c_cc q - 1\<rparr>"
    have "take_char q s = (x, ?q, s)" using m False vx bs(3) by (simp add: take_char_def Let_def)
    have "clist_rep s ?q bs (Suc f) xs"
      using f v [of "Suc _"] ne False by (auto simp: clist_rep_def caddr_def)
    then have "queue_rep B s ?q xs bs fl" using r unfolding queue_rep_def by blast
    moreover have "same_outside B s s" by (simp add: same_outside_def)
    ultimately show ?thesis using \<open>take_char q s = (x, ?q, s)\<close> by blast
  qed
qed

subsection \<open>Queues of bytes as an interface\<close>

text \<open>
  What happens at the interface: a byte is offered to a list and accepted or not, a byte
  is taken from a list or the list is found empty.
\<close>

datatype qevent = Sent nat u8 bool | Received nat "u8 option"

inductive qrun :: "(u8 \<Rightarrow> nat \<Rightarrow> 's \<Rightarrow> bool \<times> 's) \<Rightarrow> (nat \<Rightarrow> 's \<Rightarrow> u8 option \<times> 's) \<Rightarrow> nat set \<Rightarrow>
    's \<Rightarrow> qevent list \<Rightarrow> 's \<Rightarrow> bool" for putq getq lists where
  qrun_nil: "qrun putq getq lists s [] s"
| qrun_put: "\<lbrakk>qrun putq getq lists s es t; i \<in> lists; putq c i t = (ok, r)\<rbrakk> \<Longrightarrow>
    qrun putq getq lists s (es @ [Sent i c ok]) r"
| qrun_get: "\<lbrakk>qrun putq getq lists s es t; i \<in> lists; getq i t = (x, r)\<rbrakk> \<Longrightarrow>
    qrun putq getq lists s (es @ [Received i x]) r"

definition accepted :: "nat \<Rightarrow> qevent list \<Rightarrow> u8 list" where
  "accepted i es = concat (map (\<lambda>e. case e of Sent j c ok \<Rightarrow> if j = i \<and> ok then [c] else [] | _ \<Rightarrow> []) es)"

definition delivered :: "nat \<Rightarrow> qevent list \<Rightarrow> u8 list" where
  "delivered i es = concat (map (\<lambda>e. case e of Received j (Some c) \<Rightarrow> if j = i then [c] else [] | _ \<Rightarrow> []) es)"

lemma events_simps [simp]:
  "accepted i [] = []" "delivered i [] = []"
  "accepted i (es @ [Sent j c ok]) = accepted i es @ (if j = i \<and> ok then [c] else [])"
  "accepted i (es @ [Received j x]) = accepted i es"
  "delivered i (es @ [Sent j c ok]) = delivered i es"
  "delivered i (es @ [Received j x]) = delivered i es @ (case x of Some c \<Rightarrow> if j = i then [c] else [] | None \<Rightarrow> [])"
  by (simp_all add: accepted_def delivered_def split: option.split)

locale byte_queues =
  fixes putq :: "u8 \<Rightarrow> nat \<Rightarrow> 's \<Rightarrow> bool \<times> 's"
    and getq :: "nat \<Rightarrow> 's \<Rightarrow> u8 option \<times> 's"
    and lists :: "nat set"
    and world :: "(nat \<Rightarrow> u8 list) \<Rightarrow> 's \<Rightarrow> bool"
  assumes put_law: "\<lbrakk>world A s; i \<in> lists; putq c i s = (ok, t)\<rbrakk> \<Longrightarrow>
      world (if ok then A(i := A i @ [c]) else A) t"
    and get_law: "\<lbrakk>world A s; i \<in> lists; getq i s = (x, t)\<rbrakk> \<Longrightarrow>
      (case A i of [] \<Rightarrow> x = None \<and> world A t | c # cs \<Rightarrow> x = Some c \<and> world (A(i := cs)) t)"
begin

lemma run_fifo:
  "qrun putq getq lists s es t \<Longrightarrow> world (\<lambda>_. []) s \<Longrightarrow>
     \<exists>A. world A t \<and> (\<forall>i. delivered i es @ A i = accepted i es)"
proof (induction rule: qrun.induct)
  case (qrun_put s es t i c ok r)
  then obtain A where A: "world A t" "\<forall>i. delivered i es @ A i = accepted i es" by auto
  have "world (if ok then A(i := A i @ [c]) else A) r" using put_law [OF A(1) qrun_put.hyps(2,3)] .
  with A(2) show ?case by (intro exI [of _ "if ok then A(i := A i @ [c]) else A"]) (auto simp flip: append_assoc)
next
  case (qrun_get s es t i x r)
  then obtain A where A: "world A t" "\<forall>i. delivered i es @ A i = accepted i es" by auto
  note g = get_law [OF A(1) qrun_get.hyps(2,3)]
  show ?case
  proof (cases "A i")
    case Nil
    with g A(2) show ?thesis by auto
  next
    case (Cons c cs)
    then have "world (A(i := cs)) r" "x = Some c" using g by auto
    moreover have "delivered i es @ c # cs = accepted i es" using A(2) Cons by metis
    ultimately have "\<forall>j. delivered j (es @ [Received i x]) @ (A(i := cs)) j = accepted j (es @ [Received i x])"
      using A(2) by auto
    with \<open>world (A(i := cs)) r\<close> show ?thesis by blast
  qed
qed auto

end

text \<open>Several lists in one pool; \<open>T\<close> is the number of blocks.\<close>

definition clist_world :: "nat \<Rightarrow> nat \<Rightarrow> (nat \<Rightarrow> u8 list) \<Rightarrow> cpool \<times> (nat \<Rightarrow> clist) \<Rightarrow> bool" where
  "clist_world T N A = (\<lambda>(s, q). \<exists>bs fl. (\<forall>i<N. \<exists>f. clist_rep s (q i) (bs i) f (A i)) \<and> free_rep s fl \<and>
     (\<forall>i<N. distinct (bs i) \<and> set (bs i) \<inter> set fl = {} \<and> (\<forall>j<N. i \<noteq> j \<longrightarrow> set (bs i) \<inter> set (bs j) = {})) \<and>
     distinct fl \<and> aligned fl \<and> (\<forall>i<N. aligned (bs i)) \<and> length fl + (\<Sum>i<N. length (bs i)) = T)"

definition putq :: "u8 \<Rightarrow> nat \<Rightarrow> cpool \<times> (nat \<Rightarrow> clist) \<Rightarrow> bool \<times> cpool \<times> (nat \<Rightarrow> clist)" where
  "putq c i w = (case putc c (snd w i) (fst w) of (r, p, s) \<Rightarrow> (r = 0, s, (snd w)(i := p)))"

definition getq :: "nat \<Rightarrow> cpool \<times> (nat \<Rightarrow> clist) \<Rightarrow> u8 option \<times> cpool \<times> (nat \<Rightarrow> clist)" where
  "getq i w = (case getc (snd w i) (fst w) of (r, p, s) \<Rightarrow>
     (if r = -1 then None else Some (word_of_int r), s, (snd w)(i := p)))"

text \<open>An operation on one list is an operation on the world.\<close>

lemma world_step:
  assumes i: "i < N"
    and bs: "\<forall>i<N. \<exists>f. clist_rep s (q i) (bs i) f (A i)" "free_rep s fl"
      "\<forall>i<N. distinct (bs i) \<and> set (bs i) \<inter> set fl = {} \<and> (\<forall>j<N. i \<noteq> j \<longrightarrow> set (bs i) \<inter> set (bs j) = {})"
      "distinct fl" "aligned fl" "\<forall>i<N. aligned (bs i)" "length fl + (\<Sum>i<N. length (bs i)) = T"
    and st: "queue_rep (set fl \<union> set (bs i)) t p xs bs' fl'" "same_outside (set fl \<union> set (bs i)) s t"
  shows "clist_world T N (A(i := xs)) (t, q(i := p))"
proof -
  let ?B = "set fl \<union> set (bs i)"
  have st': "free_rep t fl'" "distinct (fl' @ bs')" "aligned (fl' @ bs')" "set fl' \<union> set bs' = ?B"
    "\<exists>f. clist_rep t p bs' f xs"
    using st(1) by (auto simp: queue_rep_def)
  have other: "\<exists>f. clist_rep t (q j) (bs j) f (A j)" if j: "j < N" "j \<noteq> i" for j
  proof -
    obtain f where f: "clist_rep s (q j) (bs j) f (A j)" using bs(1) j(1) by blast
    have "set (bs j) \<inter> ?B = {}" using bs(3) j i by blast
    then have "clist_rep t (q j) (bs j) f (A j)"
      using st(2) by (intro clist_rep_frame [OF f]) (use bs(6) j in \<open>auto simp: same_outside_def\<close>)
    then show ?thesis by blast
  qed
  have len: "length fl' + length bs' = length fl + length (bs i)"
  proof -
    have "distinct (fl @ bs i)" using bs(3,4) i by auto
    then have "card ?B = length fl + length (bs i)" using distinct_card [of "fl @ bs i"] by simp
    moreover have "card ?B = length fl' + length bs'" using distinct_card [OF st'(2)] st'(4) by simp
    ultimately show ?thesis by simp
  qed
  have sum: "(\<Sum>j<N. length ((bs(i := bs')) j)) + length (bs i) = (\<Sum>j<N. length (bs j)) + length bs'"
    using i by (simp add: sum.remove [of "{..<N}" i])
  have dj: "set (bs j) \<inter> set fl' = {} \<and> set (bs j) \<inter> set bs' = {}" if "j < N" "j \<noteq> i" for j
    using bs(3) that i st'(4) by blast
  show ?thesis
    unfolding clist_world_def split_conv
  proof (intro exI [of _ "bs(i := bs')"] exI [of _ fl'] conjI)
    show "\<forall>j<N. \<exists>f. clist_rep t ((q(i := p)) j) ((bs(i := bs')) j) f ((A(i := xs)) j)"
      using other st'(5) by simp
    show "\<forall>j<N. distinct ((bs(i := bs')) j) \<and> set ((bs(i := bs')) j) \<inter> set fl' = {} \<and>
       (\<forall>k<N. j \<noteq> k \<longrightarrow> set ((bs(i := bs')) j) \<inter> set ((bs(i := bs')) k) = {})"
      using dj bs(3) st'(2) by (auto simp: fun_upd_def)
    show "length fl' + (\<Sum>j<N. length ((bs(i := bs')) j)) = T" using sum len bs(7) by linarith
  qed (use st' bs(6) in auto)
qed

lemma queue_of_world:
  assumes "i < N" "\<forall>i<N. \<exists>f. clist_rep s (q i) (bs i) f (A i)" "free_rep s fl"
      "\<forall>i<N. distinct (bs i) \<and> set (bs i) \<inter> set fl = {} \<and> (\<forall>j<N. i \<noteq> j \<longrightarrow> set (bs i) \<inter> set (bs j) = {})"
      "distinct fl" "aligned fl" "\<forall>i<N. aligned (bs i)"
  shows "queue_rep (set fl \<union> set (bs i)) s (q i) (A i) (bs i) fl"
  using assms by (auto simp: queue_rep_def)

lemma putc_queue:
  assumes r: "queue_rep B s q xs bs fl"
  shows "\<exists>r q' t bs' fl'. putc c q s = (r, q', t) \<and> same_outside B s t \<and>
    queue_rep B t q' (if r = 0 then xs @ [c] else xs) bs' fl' \<and>
    (r \<noteq> 0 \<longrightarrow> r = -1 \<and> fl = [])"
proof -
  obtain f where f: "clist_rep s q bs f xs" using r by (auto simp: queue_rep_def)
  consider (room) "xs \<noteq> []" "(f + length xs) mod 14 \<noteq> 0" | (none) "xs \<noteq> [] \<longrightarrow> (f + length xs) mod 14 = 0" "fl = []"
    | (empty) b fl' where "xs = []" "fl = b # fl'"
    | (grow) b fl' where "xs \<noteq> []" "(f + length xs) mod 14 = 0" "fl = b # fl'"
    by (cases "xs = []"; cases fl; cases "(f + length xs) mod 14 = 0") auto
  then show ?thesis
  proof cases
    case room
    then show ?thesis using putc_room [OF r f room(1,2), of c] by fastforce
  next
    case none
    then show ?thesis using putc_none [OF r [unfolded none(2)] f none(1), of c] by fastforce
  next
    case empty
    then show ?thesis using putc_empty [of B s q bs b fl' c] r by fastforce
  next
    case grow
    then show ?thesis using putc_grow [OF r [unfolded grow(3)] f grow(1,2), of c] by fastforce
  qed
qed

lemma take_char_queue:
  assumes r: "queue_rep B s q (x # xs) bs fl"
  shows "\<exists>q' t bs' fl'. take_char q s = (x, q', t) \<and> same_outside B s t \<and> queue_rep B t q' xs bs' fl'"
  using take_char_last [of B s q x bs fl] take_char_more [OF r] r by (cases "xs = []") blast+

lemma getc_queue:
  assumes r: "queue_rep B s q xs bs fl"
  shows "case xs of
      [] \<Rightarrow> getc q s = (-1, q, s)
    | x # ys \<Rightarrow> \<exists>q' t bs' fl'. getc q s = (uint x, q', t) \<and> same_outside B s t \<and> queue_rep B t q' ys bs' fl'"
proof (cases xs)
  case Nil
  then have "q = null_clist" using r by (auto simp: queue_rep_def clist_rep_def)
  with Nil show ?thesis by (simp add: getc_simp null_clist_def)
next
  case (Cons x ys)
  then have "c_cc q > 0" using r by (auto simp: queue_rep_def clist_rep_def)
  moreover obtain q' t bs' fl' where "take_char q s = (x, q', t)" "same_outside B s t" "queue_rep B t q' ys bs' fl'"
    using take_char_queue [OF r [unfolded Cons]] by blast
  ultimately have "getc q s = (uint x, q', t)" by (simp add: getc_simp)
  with \<open>same_outside B s t\<close> \<open>queue_rep B t q' ys bs' fl'\<close> Cons show ?thesis by auto
qed

interpretation cl: byte_queues putq getq "{..<N}" "clist_world T N" for T N
proof
  fix A :: "nat \<Rightarrow> u8 list" and w i c ok t
  assume w: "clist_world T N A w" and i: "i \<in> {..<N}" and p: "putq c i w = (ok, t)"
  obtain s q where wd: "w = (s, q)" by (cases w)
  obtain bs fl where b: "\<forall>i<N. \<exists>f. clist_rep s (q i) (bs i) f (A i)" "free_rep s fl"
      "\<forall>i<N. distinct (bs i) \<and> set (bs i) \<inter> set fl = {} \<and> (\<forall>j<N. i \<noteq> j \<longrightarrow> set (bs i) \<inter> set (bs j) = {})"
      "distinct fl" "aligned fl" "\<forall>i<N. aligned (bs i)" "length fl + (\<Sum>i<N. length (bs i)) = T"
    using w unfolding wd clist_world_def split_conv by blast
  have iN: "i < N" using i by simp
  obtain r q' u bs' fl' where u: "putc c (q i) s = (r, q', u)" "same_outside (set fl \<union> set (bs i)) s u"
      "queue_rep (set fl \<union> set (bs i)) u q' (if r = 0 then A i @ [c] else A i) bs' fl'"
    using putc_queue [OF queue_of_world [OF iN b(1-6)], of c] by blast
  have "clist_world T N (A(i := (if r = 0 then A i @ [c] else A i))) (u, q(i := q'))"
    using world_step [OF iN b u(3,2)] .
  then show "clist_world T N (if ok then A(i := A i @ [c]) else A) t"
    using p u(1) wd by (auto simp: putq_def split: if_splits)
next
  fix A :: "nat \<Rightarrow> u8 list" and w i x t
  assume w: "clist_world T N A w" and i: "i \<in> {..<N}" and g: "getq i w = (x, t)"
  obtain s q where wd: "w = (s, q)" by (cases w)
  obtain bs fl where b: "\<forall>i<N. \<exists>f. clist_rep s (q i) (bs i) f (A i)" "free_rep s fl"
      "\<forall>i<N. distinct (bs i) \<and> set (bs i) \<inter> set fl = {} \<and> (\<forall>j<N. i \<noteq> j \<longrightarrow> set (bs i) \<inter> set (bs j) = {})"
      "distinct fl" "aligned fl" "\<forall>i<N. aligned (bs i)" "length fl + (\<Sum>i<N. length (bs i)) = T"
    using w unfolding wd clist_world_def split_conv by blast
  have iN: "i < N" using i by simp
  note gq = getc_queue [OF queue_of_world [OF iN b(1-6)]]
  show "case A i of [] \<Rightarrow> x = None \<and> clist_world T N A t | c # cs \<Rightarrow> x = Some c \<and> clist_world T N (A(i := cs)) t"
  proof (cases "A i")
    case Nil
    then have "getc (q i) s = (-1, q i, s)" using gq by simp
    then show ?thesis using Nil g w wd by (auto simp: getq_def)
  next
    case (Cons c cs)
    then obtain q' u bs' fl' where u: "getc (q i) s = (uint c, q', u)" "same_outside (set fl \<union> set (bs i)) s u"
      "queue_rep (set fl \<union> set (bs i)) u q' cs bs' fl'"
      using gq by auto
    have "uint c \<noteq> -1" using uint_nonnegative [of c] by linarith
    then show ?thesis using world_step [OF iN b u(3,2)] Cons g u(1) wd by (auto simp: getq_def)
  qed
qed

lemma cinit_loop_free:
  "\<lbrakk>free_rep s fl; distinct (bps @ fl)\<rbrakk> \<Longrightarrow> free_rep (cinit_loop bps s) (rev bps @ fl)"
proof (induction bps arbitrary: s fl)
  case (Cons b bps)
  then show ?case using free_rep_push [of s fl b] Cons.IH [of "put_free b s" "b # fl"] by simp
qed simp

lemma cinit_world:
  assumes "0 < base" "cfreelist s = 0"
  shows "\<exists>T\<ge>99. clist_world T N (\<lambda>_. []) (cinit base s, \<lambda>_. null_clist)"
proof -
  let ?first = "cblock_of (base + 15)"
  let ?bps = "filter (\<lambda>bp. bp \<le> base + 16 * (NCLIST - 1)) (map (\<lambda>i. ?first + 16 * i) [0..<NCLIST])"
  have f: "base \<le> ?first" "?first \<le> base + 15" "?first mod 16 = 0"
    unfolding cblock_of_def by presburger+
  have d: "distinct ?bps" by (simp add: distinct_map inj_on_def)
  have "free_rep s []" using assms(2) by (simp add: free_rep_def)
  then have fr: "free_rep (cinit base s) (rev ?bps)"
    using cinit_loop_free [of s "[]" ?bps] d by (simp add: cinit_def Let_def)
  have al: "aligned (rev ?bps)" using f assms(1) by (auto simp: aligned_def mod_add_eq)
  have "99 \<le> length ?bps"
  proof -
    have "set (map (\<lambda>i. ?first + 16 * i) [0..<99]) \<subseteq> set ?bps"
      using f(2) by (auto simp: NCLIST_def)
    moreover have "card (set (map (\<lambda>i. ?first + 16 * i) [0..<99])) = 99"
      by (subst distinct_card) (simp_all add: distinct_map inj_on_def)
    ultimately show ?thesis using card_mono [of "set ?bps" "set (map (\<lambda>i. ?first + 16 * i) [0..<99])"] distinct_card [OF d]
      by simp
  qed
  moreover have "clist_world (length ?bps) N (\<lambda>_. []) (cinit base s, \<lambda>_. null_clist)"
    unfolding clist_world_def split_conv
    by (intro exI [of _ "\<lambda>_. []"] exI [of _ "rev ?bps"] conjI) (use fr al d in \<open>auto simp: clist_rep_def\<close>)
  ultimately show ?thesis by blast
qed

text \<open>
  C34: over any sequence of \<open>putc\<close> and \<open>getc\<close> calls on any number of lists that share
  the pool set up by \<open>cinit\<close>, every list is a first-in first-out queue: the bytes
  delivered from a list followed by those still in it are exactly the bytes accepted for
  it, in order.  Lists do not disturb each other and no block of the pool is lost.
\<close>

theorem clist_fifo:
  assumes "0 < base" "cfreelist s = 0" "qrun putq getq {..<N} (cinit base s, \<lambda>_. null_clist) es t"
  shows "\<exists>T A. 99 \<le> T \<and> clist_world T N A t \<and> (\<forall>i. delivered i es @ A i = accepted i es)"
  using cinit_world [OF assms(1,2), of N] cl.run_fifo [OF assms(3)] by blast

theorem clist_fifo_witness:
  "\<exists>s t ok1 ok2 x. qrun putq getq {..<2} (cinit 16 s, \<lambda>_. null_clist) [Sent 0 65 ok1, Sent 1 66 ok2, Received 0 x] t \<and>
     (\<exists>A. delivered 0 [Sent 0 65 ok1, Sent 1 66 ok2, Received 0 x] @ A 0 = (if ok1 then [65] else []))"
proof -
  define s where "s = \<lparr>c_info = \<lambda>_. 0, c_next = \<lambda>_. 0, cfreelist = 0, cbad = 0, cpri = 0\<rparr>"
  let ?w = "(cinit 16 s, \<lambda>_. null_clist)"
  obtain ok1 t1 where 1: "putq 65 0 ?w = (ok1, t1)" by (cases "putq 65 0 ?w")
  obtain ok2 t2 where 2: "putq 66 1 t1 = (ok2, t2)" by (cases "putq 66 1 t1")
  obtain x t3 where 3: "getq 0 t2 = (x, t3)" by (cases "getq 0 t2")
  have "qrun putq getq {..<2} ?w ([] @ [Sent 0 65 ok1]) t1"
    by (rule qrun_put [OF qrun_nil]) (simp_all add: 1)
  then have "qrun putq getq {..<2} ?w (([] @ [Sent 0 65 ok1]) @ [Sent 1 66 ok2]) t2"
    by (rule qrun_put) (simp, rule 2)
  then have "qrun putq getq {..<2} ?w ((([] @ [Sent 0 65 ok1]) @ [Sent 1 66 ok2]) @ [Received 0 x]) t3"
    by (rule qrun_get) (simp_all add: 3)
  then have r: "qrun putq getq {..<2} ?w [Sent 0 65 ok1, Sent 1 66 ok2, Received 0 x] t3" by simp
  have "accepted 0 [Sent 0 65 ok1, Sent 1 66 ok2, Received 0 x] = (if ok1 then [65] else [])"
    by (simp add: accepted_def)
  moreover obtain A where "\<forall>i. delivered i [Sent 0 65 ok1, Sent 1 66 ok2, Received 0 x] @ A i =
      accepted i [Sent 0 65 ok1, Sent 1 66 ok2, Received 0 x]"
    using clist_fifo [OF _ _ r] by (auto simp: s_def)
  ultimately show ?thesis using r by metis
qed

subsection \<open>Moving many characters\<close>

text \<open>What the routines for many characters are compared with: one call after another.\<close>

fun getcs :: "nat \<Rightarrow> clist \<Rightarrow> cpool \<Rightarrow> u8 list \<times> clist \<times> cpool" where
  "getcs 0 q s = ([], q, s)"
| "getcs (Suc n) q s =
     (case getc q s of
        (r, q', s') \<Rightarrow> if r = -1 then ([], q', s')
          else case getcs n q' s' of (cs, q'', s'') \<Rightarrow> (word_of_int r # cs, q'', s''))"

fun putcs :: "u8 list \<Rightarrow> clist \<Rightarrow> cpool \<Rightarrow> u8 list \<times> clist \<times> cpool" where
  "putcs [] q s = ([], q, s)"
| "putcs (c # cs) q s =
     (case putc c q s of
        (r, q', s') \<Rightarrow> if r \<noteq> 0 then (c # cs, q', s') else putcs cs q' s')"

lemma take_char_null: "take_char q s = (c, q', s') \<Longrightarrow> c_cc q' \<le> 0 \<Longrightarrow> c_cc q = 1 \<Longrightarrow> q' = null_clist"
  by (auto simp: take_char_def null_clist_def Let_def split: if_splits)

lemma take_char_cc: "take_char q s = (c, q', s') \<Longrightarrow> c_cc q' = c_cc q - 1"
  by (auto simp: take_char_def Let_def split: if_splits)

lemma getc_take: "\<lbrakk>0 < c_cc q; take_char q s = (c, q', s')\<rbrakk> \<Longrightarrow> getc q s = (uint c, q', s') \<and> uint c \<noteq> -1"
proof -
  have "uint c \<noteq> -1" for c :: u8 using uint_nonnegative [of c] by linarith
  then show "\<lbrakk>0 < c_cc q; take_char q s = (c, q', s')\<rbrakk> \<Longrightarrow> getc q s = (uint c, q', s') \<and> uint c \<noteq> -1"
    by (simp add: getc_simp)
qed

lemma getcs_empty: "c_cc q \<le> 0 \<Longrightarrow> q = null_clist \<Longrightarrow> getcs n q s = ([], q, s)"
  by (cases n) (simp_all add: getc_simp)

lemma q_to_b_loop_getcs:
  "0 < c_cc q \<Longrightarrow> q_to_b_loop n buf q s = (case getcs n q s of (cs, q', s') \<Rightarrow> (buf @ cs, q', s'))"
proof (induction n arbitrary: buf q s)
  case (Suc n)
  obtain c q' s' where t: "take_char q s = (c, q', s')" by (metis prod_cases3)
  note g = getc_take [OF Suc.prems t]
  show ?case
  proof (cases "c_cc q' \<le> 0")
    case True
    then have "q' = null_clist" using take_char_null [OF t] take_char_cc [OF t] Suc.prems by simp
    with True t g show ?thesis using getcs_empty [of q' n s'] by simp
  next
    case False
    with t g Suc.IH [of q' "buf @ [c]" s'] show ?thesis by (simp split: prod.splits)
  qed
qed simp

lemma new_block_pos: "new_block prev s = (Some bp, t) \<Longrightarrow> bp \<noteq> 0"
  by (auto simp: new_block_def Let_def split: if_splits option.splits)

lemma b_to_q_loop_putcs:
  "\<lbrakk>0 \<le> c_cc q; c_cl q \<noteq> 0\<rbrakk> \<Longrightarrow>
     putcs cs q s = (case b_to_q_loop cs (c_cl q) s of
       (rest, cq, t) \<Rightarrow> (rest, q\<lparr>c_cl := cq, c_cc := c_cc q + int (length cs - length rest)\<rparr>, t)) \<and>
     length (fst (b_to_q_loop cs (c_cl q) s)) \<le> length cs"
proof (induction cs arbitrary: q s)
  case (Cons c cs)
  show ?case
  proof (cases "c_cl q mod 16 = 0")
    case True
    show ?thesis
    proof (cases "new_block (Some (c_cl q - 16)) s")
      case (Pair x t)
      show ?thesis
      proof (cases x)
        case None
        then show ?thesis using True Cons.prems Pair by (simp add: putc_simp Let_def)
      next
        case (Some bp)
        let ?q = "q\<lparr>c_cc := c_cc q + 1, c_cl := bp + 3\<rparr>" and ?t = "t\<lparr>c_info := (c_info t)(bp + 2 := c)\<rparr>"
        have "putc c q s = (0, ?q, ?t)" using True Cons.prems Pair Some by (simp add: putc_simp Let_def)
        with True Pair Some Cons.IH [of ?q ?t] Cons.prems show ?thesis
          by (auto simp: Suc_diff_le split: prod.splits)
      qed
    qed
  next
    case False
    let ?q = "q\<lparr>c_cc := c_cc q + 1, c_cl := c_cl q + 1\<rparr>" and ?t = "s\<lparr>c_info := (c_info s)(c_cl q := c)\<rparr>"
    have "putc c q s = (0, ?q, ?t)" using False Cons.prems by (simp add: putc_simp Let_def)
    with False Cons.IH [of ?q ?t] Cons.prems show ?thesis
      by (auto simp: Suc_diff_le split: prod.splits)
  qed
qed simp

text \<open>
  C35: the routines that move many characters do exactly what repeated calls of the ones
  that move one character do, down to the blocks and links of the pool: \<open>q_to_b\<close> is
  \<open>getc\<close> until the count is reached or the list is empty, \<open>b_to_q\<close> is \<open>putc\<close> until
  the buffer is empty or \<open>putc\<close> fails.  There is one exception: when \<open>q_to_b\<close> finds the list empty it returns
  at the raised interrupt priority, where \<open>getc\<close> puts the old one back.  The count of the list is
  not negative and the free list is aligned.
\<close>

theorem block_moves_equivalent:
  assumes "0 \<le> c_cc q" "cfreelist s mod 16 = 0"
  shows "q_to_b q cc s =
      (case getcs (nat cc) q s of (cs, q', t) \<Rightarrow> (cs, q', if 0 < cc \<and> c_cc q = 0 then t\<lparr>cpri := 6\<rparr> else t)) \<and>
    b_to_q cs q s = putcs cs q s"
proof
  show "q_to_b q cc s =
      (case getcs (nat cc) q s of (cs, q', t) \<Rightarrow> (cs, q', if 0 < cc \<and> c_cc q = 0 then t\<lparr>cpri := 6\<rparr> else t))"
  proof (cases "cc \<le> 0 \<or> c_cc q \<le> 0")
    case True
    then show ?thesis using assms(1) by (cases "nat cc") (auto simp: q_to_b_simp getc_simp)
  next
    case False
    then show ?thesis using q_to_b_loop_getcs [of q "nat cc" "[]" s] by (simp add: q_to_b_simp split: prod.splits)
  qed
  show "b_to_q cs q s = putcs cs q s"
  proof (cases cs)
    case (Cons c cs')
    show ?thesis
    proof (cases "c_cl q = 0")
      case False
      then show ?thesis
        using b_to_q_loop_putcs [OF assms(1) False, of cs s] assms(1) Cons
        by (simp add: b_to_q_simp Let_def split: prod.splits del: b_to_q_loop.simps putcs.simps)
    next
      case True
      show ?thesis
      proof (cases "cfreelist s = 0")
        case True
        then show ?thesis using \<open>c_cl q = 0\<close> Cons by (simp add: b_to_q_simp putc_simp new_block_def Let_def)
      next
        case nz: False
        define bp t where "bp = cfreelist s" and "t = s\<lparr>cfreelist := c_next s bp, c_next := (c_next s)(bp := 0)\<rparr>"
        have nb: "new_block None s = (Some bp, t)" using nz by (simp add: new_block_def bp_def t_def Let_def)
        have m: "(bp + 2) mod 16 \<noteq> 0" using assms(2) by (simp add: bp_def) presburger
        let ?q = "q\<lparr>c_cf := bp + 2, c_cc := c_cc q + 1, c_cl := bp + 3\<rparr>" and ?t = "t\<lparr>c_info := (c_info t)(bp + 2 := c)\<rparr>"
        have "putc c q s = (0, ?q, ?t)" using \<open>c_cl q = 0\<close> nb by (simp add: putc_simp Let_def)
        then show ?thesis
          using b_to_q_loop_putcs [of ?q cs' ?t] assms(1) m nb \<open>c_cl q = 0\<close> Cons
          by (auto simp: b_to_q_simp Let_def Suc_diff_le numeral_3_eq_3 split: prod.splits)
      qed
    qed
  qed (simp add: b_to_q_simp)
qed

text \<open>
  A list whose last block, at 32, is full gets two more characters in the block at 64; then all four are
  taken out, which needs both blocks; the next attempt leaves the priority at 6.
\<close>

definition demo_pool :: cpool where
  "demo_pool = \<lparr>c_info = (\<lambda>_. 0)(46 := 1, 47 := 2), c_next = \<lambda>_. 0, cfreelist = 64, cbad = 0, cpri = 0\<rparr>"

definition demo_list :: clist where
  "demo_list = \<lparr>c_cc = 2, c_cf = 46, c_cl = 48\<rparr>"

lemma getcs_numeral:
  "getcs (numeral k) q s = (case getc q s of (r, q', s') \<Rightarrow> if r = -1 then ([], q', s')
     else case getcs (pred_numeral k) q' s' of (cs, q'', s'') \<Rightarrow> (word_of_int r # cs, q'', s''))"
  by (simp add: numeral_eq_Suc)

theorem block_moves_equivalent_witness:
  "\<exists>q t u v. b_to_q [3, 4] demo_list demo_pool = ([], q, t) \<and> c_next t 32 = 64 \<and> cfreelist t = 0 \<and>
     q_to_b q 9 t = ([1, 2, 3, 4], null_clist, u) \<and> cfreelist u = 64 \<and> c_next u 64 = 32 \<and> cpri u = 0 \<and>
     q_to_b null_clist 9 u = ([], null_clist, v) \<and> cpri v = 6"
proof -
  have "\<exists>q t. putcs [3, 4] demo_list demo_pool = ([], q, t) \<and> q = \<lparr>c_cc = 4, c_cf = 46, c_cl = 68\<rparr> \<and>
    t = demo_pool\<lparr>c_info := (c_info demo_pool)(66 := 3, 67 := 4), c_next := (\<lambda>_. 0)(32 := 64, 64 := 0), cfreelist := 0\<rparr>"
    by (simp add: putc_simp new_block_def demo_list_def demo_pool_def Let_def)
  then obtain q t where p: "putcs [3, 4] demo_list demo_pool = ([], q, t)" "q = \<lparr>c_cc = 4, c_cf = 46, c_cl = 68\<rparr>"
    "t = demo_pool\<lparr>c_info := (c_info demo_pool)(66 := 3, 67 := 4), c_next := (\<lambda>_. 0)(32 := 64, 64 := 0), cfreelist := 0\<rparr>"
    by blast
  have "\<exists>u. getcs 9 q t = ([1, 2, 3, 4], null_clist, u) \<and> cfreelist u = 64 \<and> c_next u 64 = 32 \<and> cpri u = 0"
    by (simp add: getcs_numeral getc_simp take_char_def put_free_def cblock_of_def null_clist_def p(2,3) demo_pool_def Let_def)
  then obtain u where u: "getcs 9 q t = ([1, 2, 3, 4], null_clist, u)" "cfreelist u = 64" "c_next u 64 = 32" "cpri u = 0" by blast
  have b: "b_to_q [3, 4] demo_list demo_pool = ([], q, t)"
    using block_moves_equivalent [of demo_list demo_pool 0 "[3, 4]"] p(1) by (simp add: demo_list_def demo_pool_def)
  have q: "q_to_b q 9 t = ([1, 2, 3, 4], null_clist, u)"
    using block_moves_equivalent [of q t 9 "[]"] u(1) by (simp add: p(2,3))
  have "q_to_b null_clist 9 u = ([], null_clist, u\<lparr>cpri := 6\<rparr>)"
    using block_moves_equivalent [of null_clist u 9 "[]"] u(2) getcs_empty [of null_clist 9 u] by (simp add: null_clist_def)
  then show ?thesis using b q u p(3) by auto
qed

end
