(* ===== verification/LinkedLists.thy ===== *)
theory LinkedLists
  imports Prelude
begin

section \<open>Doubly linked lists\<close>

text \<open>
  The kernel keeps its buffers on circular doubly linked lists with a header.  With the two
  link fields as functions of the element, \<open>dlist f g h xs\<close> says that following \<open>f\<close> from the
  header \<open>h\<close> gives the elements \<open>xs\<close> and then \<open>h\<close> again, and that \<open>g\<close> leads back.
\<close>

fun chain :: "('a \<Rightarrow> 'a) \<Rightarrow> ('a \<Rightarrow> 'a) \<Rightarrow> 'a \<Rightarrow> 'a list \<Rightarrow> 'a \<Rightarrow> bool" where
  "chain f g a [] h \<longleftrightarrow> f a = h \<and> g h = a"
| "chain f g a (x # xs) h \<longleftrightarrow> f a = x \<and> g x = a \<and> chain f g x xs h"

definition dlist :: "('a \<Rightarrow> 'a) \<Rightarrow> ('a \<Rightarrow> 'a) \<Rightarrow> 'a \<Rightarrow> 'a list \<Rightarrow> bool" where
  "dlist f g h xs \<longleftrightarrow> distinct (h # xs) \<and> chain f g h xs h"

lemma chain_append: "chain f g a (xs @ y # ys) h \<longleftrightarrow> chain f g a xs y \<and> chain f g y ys h"
  by (induction xs arbitrary: a) auto

lemma chain_cong:
  "\<lbrakk>\<And>x. x = a \<or> x \<in> set xs \<Longrightarrow> f' x = f x; \<And>x. x = h \<or> x \<in> set xs \<Longrightarrow> g' x = g x\<rbrakk> \<Longrightarrow>
    chain f' g' a xs h = chain f g a xs h"
  by (induction xs arbitrary: a) auto

lemma dlist_cong:
  "\<lbrakk>\<And>x. x = h \<or> x \<in> set xs \<Longrightarrow> f' x = f x; \<And>x. x = h \<or> x \<in> set xs \<Longrightarrow> g' x = g x\<rbrakk> \<Longrightarrow>
    dlist f' g' h xs = dlist f g h xs"
  unfolding dlist_def by (simp cong: chain_cong)

lemma dlist_empty [simp]: "dlist f g h [] \<longleftrightarrow> f h = h \<and> g h = h"
  by (auto simp: dlist_def)

lemma dlist_head: "dlist f g h xs \<Longrightarrow> f h = (case xs of [] \<Rightarrow> h | x # _ \<Rightarrow> x)"
  by (cases xs) (auto simp: dlist_def)

lemma dlist_last: "dlist f g h xs \<Longrightarrow> g h = (if xs = [] then h else last xs)"
  by (cases xs rule: rev_cases) (auto simp: dlist_def chain_append)

lemma chain_ends:
  "chain f g a xs h \<Longrightarrow> f a \<in> insert h (set xs) \<and> g h \<in> insert a (set xs) \<and>
    (\<forall>x\<in>set xs. f x \<in> insert h (set xs) \<and> g x \<in> insert a (set xs))"
  by (induction xs arbitrary: a) auto

lemma dlist_closed:
  "dlist f g h xs \<Longrightarrow> x = h \<or> x \<in> set xs \<Longrightarrow> f x \<in> insert h (set xs) \<and> g x \<in> insert h (set xs)"
  using chain_ends [of f g h xs h] by (auto simp: dlist_def)

text \<open>Removing an element, and adding one at either end.\<close>

lemma dlist_unlink:
  assumes "dlist f g h (xs @ b # ys)"
  shows "dlist (f(g b := f b)) (g(f b := g b)) h (xs @ ys)"
proof -
  have d: "distinct (h # xs @ b # ys)" and c1: "chain f g h xs b" and c2: "chain f g b ys h"
    using assms by (auto simp: dlist_def chain_append)
  have gb: "g b = last (h # xs)"
    using c1 by (cases xs rule: rev_cases) (auto simp: chain_append)
  have fb: "f b = hd (ys @ [h])" using c2 by (cases ys) auto
  show ?thesis
  proof (cases ys)
    case Nil
    have f: "f b = h" using fb Nil by simp
    show ?thesis
    proof (cases xs rule: rev_cases)
      case Nil
      then show ?thesis using \<open>ys = []\<close> f gb by (simp add: dlist_def)
    next
      case (snoc zs z)
      then have z: "g b = z" "chain f g h zs z" "f z = b" using gb c1 by (auto simp: chain_append)
      have "chain (f(z := h)) (g(h := z)) h zs z = chain f g h zs z"
        using d snoc by (intro chain_cong) auto
      then show ?thesis using d snoc z f \<open>ys = []\<close> by (simp add: dlist_def chain_append)
    qed
  next
    case (Cons y ys')
    have y: "f b = y" "chain f g y ys' h" using c2 Cons by auto
    have t: "chain (f(g b := y)) (g(y := g b)) y ys' h = chain f g y ys' h"
    proof (rule chain_cong)
      have "g b = h \<or> g b \<in> set xs" using gb by (metis last.simps last_in_set)
      then show "(f(g b := y)) x = f x" if "x = y \<or> x \<in> set ys'" for x using that d Cons by auto
      show "(g(y := g b)) x = g x" if "x = h \<or> x \<in> set ys'" for x using that d Cons by auto
    qed
    show ?thesis
    proof (cases xs rule: rev_cases)
      case Nil
      then have "g b = h" using gb by simp
      then show ?thesis using t y d Cons Nil by (simp add: dlist_def)
    next
      case (snoc zs z)
      then have z: "g b = z" "chain f g h zs z" using gb c1 by (auto simp: chain_append)
      have "chain (f(z := y)) (g(y := z)) h zs z = chain f g h zs z"
        using d snoc Cons by (intro chain_cong) auto
      then show ?thesis using d snoc z y t Cons by (simp add: dlist_def chain_append)
    qed
  qed
qed

lemma dlist_front:
  assumes "dlist f g h xs" "b \<noteq> h" "b \<notin> set xs"
  shows "dlist (f(b := f h, h := b)) (g(b := h, f h := b)) h (b # xs)"
proof (cases xs)
  case Nil
  then show ?thesis using assms by (simp add: dlist_def)
next
  case (Cons x ys)
  then have x: "f h = x" "g x = h" "chain f g x ys h" and d: "distinct (h # x # ys)"
    using assms by (auto simp: dlist_def)
  have "chain (f(b := x, h := b)) (g(b := h, x := b)) x ys h = chain f g x ys h"
    using d assms Cons by (intro chain_cong) auto
  then show ?thesis using x d assms Cons by (simp add: dlist_def)
qed

lemma dlist_back:
  assumes "dlist f g h xs" "b \<noteq> h" "b \<notin> set xs"
  shows "dlist (f(g h := b, b := h)) (g(b := g h, h := b)) h (xs @ [b])"
proof (cases xs rule: rev_cases)
  case Nil
  then show ?thesis using assms by (simp add: dlist_def)
next
  case (snoc ys y)
  then have y: "g h = y" "f y = h" "chain f g h ys y" and d: "distinct (h # ys @ [y])"
    using assms by (auto simp: dlist_def chain_append)
  have "chain (f(y := b, b := h)) (g(b := y, h := b)) h ys y = chain f g h ys y"
    using d assms snoc by (intro chain_cong) auto
  moreover have "y \<noteq> b" using assms(3) snoc by auto
  ultimately show ?thesis using y d assms snoc by (auto simp: dlist_def chain_append)
qed

text \<open>
  Several lists with different headers and no common element; \<open>q h\<close> is the list of header
  \<open>h\<close>.
\<close>

definition dlists :: "('a \<Rightarrow> 'a) \<Rightarrow> ('a \<Rightarrow> 'a) \<Rightarrow> 'a set \<Rightarrow> ('a \<Rightarrow> 'a list) \<Rightarrow> bool" where
  "dlists f g H q \<longleftrightarrow>
     (\<forall>h\<in>H. dlist f g h (q h) \<and> set (q h) \<inter> H = {}) \<and>
     (\<forall>h\<in>H. \<forall>k\<in>H. h \<noteq> k \<longrightarrow> set (q h) \<inter> set (q k) = {})"

lemma dlists_closed:
  assumes "dlists f g H q" "h \<in> H" "k \<in> H" "h \<noteq> k" "x = h \<or> x \<in> set (q h)"
  shows "f x \<noteq> k" "g x \<noteq> k" "f x \<notin> set (q k)" "g x \<notin> set (q k)" "x \<noteq> k" "x \<notin> set (q k)"
proof -
  have "dlist f g h (q h)" "set (q h) \<inter> H = {}" "set (q k) \<inter> H = {}" "set (q h) \<inter> set (q k) = {}"
    using assms by (auto simp: dlists_def)
  then show "f x \<noteq> k" "g x \<noteq> k" "f x \<notin> set (q k)" "g x \<notin> set (q k)" "x \<noteq> k" "x \<notin> set (q k)"
    using dlist_closed [of f g h "q h" x] assms by auto
qed

lemma dlists_unlink:
  assumes "dlists f g H q" "h \<in> H" "b \<in> set (q h)"
  shows "dlists (f(g b := f b)) (g(f b := g b)) H (q(h := remove1 b (q h)))"
proof -
  obtain xs ys where xs: "q h = xs @ b # ys" "b \<notin> set xs" using split_list_first [OF assms(3)] by blast
  have r: "remove1 b (q h) = xs @ ys" using xs by (simp add: remove1_append)
  have "dlist (f(g b := f b)) (g(f b := g b)) h (xs @ ys)"
    using assms(1,2) xs(1) by (intro dlist_unlink) (metis dlists_def)
  moreover have "dlist (f(g b := f b)) (g(f b := g b)) k (q k)" if "k \<in> H" "k \<noteq> h" for k
  proof -
    have "dlist f g k (q k)" using assms(1) that by (simp add: dlists_def)
    moreover have "x \<noteq> g b" "x \<noteq> f b" if "x = k \<or> x \<in> set (q k)" for x
      using dlists_closed [OF assms(1,2) \<open>k \<in> H\<close> \<open>k \<noteq> h\<close> [symmetric], of b] assms(3) that by auto
    ultimately show ?thesis by (subst dlist_cong [where f = f and g = g]) auto
  qed
  ultimately have "dlist (f(g b := f b)) (g(f b := g b)) k ((q(h := xs @ ys)) k)" if "k \<in> H" for k
    using that by simp
  moreover have "set ((q(h := xs @ ys)) k) \<subseteq> set (q k)" for k using xs by auto
  ultimately show ?thesis using assms(1) unfolding dlists_def r by blast
qed

lemma dlists_front:
  assumes "dlists f g H q" "h \<in> H" "b \<notin> H" "\<And>k. k \<in> H \<Longrightarrow> b \<notin> set (q k)"
  shows "dlists (f(b := f h, h := b)) (g(b := h, f h := b)) H (q(h := b # q h))"
proof -
  have "dlist (f(b := f h, h := b)) (g(b := h, f h := b)) h (b # q h)"
    using assms by (intro dlist_front) (auto simp: dlists_def)
  moreover have "dlist (f(b := f h, h := b)) (g(b := h, f h := b)) k (q k)" if "k \<in> H" "k \<noteq> h" for k
  proof -
    have "dlist f g k (q k)" using assms(1) that by (simp add: dlists_def)
    moreover have "x \<noteq> b" "x \<noteq> h" "x \<noteq> f h" if "x = k \<or> x \<in> set (q k)" for x
      using dlists_closed [OF assms(1,2) \<open>k \<in> H\<close> \<open>k \<noteq> h\<close> [symmetric], of h] assms(3,4) that \<open>k \<in> H\<close> by auto
    ultimately show ?thesis by (subst dlist_cong [where f = f and g = g]) auto
  qed
  ultimately show ?thesis using assms unfolding dlists_def by (auto split: if_splits)
qed

subsection \<open>Singly linked lists\<close>

text \<open>
  With the link field as a function of the element and a null pointer as \<^const>\<open>None\<close>,
  \<open>path f p xs q\<close> says that following \<open>f\<close> from \<open>p\<close> passes the elements \<open>xs\<close> and then is at \<open>q\<close>.
\<close>

fun path :: "('a \<Rightarrow> 'a option) \<Rightarrow> 'a option \<Rightarrow> 'a list \<Rightarrow> 'a option \<Rightarrow> bool" where
  "path f p [] q \<longleftrightarrow> p = q"
| "path f p (x # xs) q \<longleftrightarrow> p = Some x \<and> path f (f x) xs q"

abbreviation linked :: "('a \<Rightarrow> 'a option) \<Rightarrow> 'a option \<Rightarrow> 'a list \<Rightarrow> bool" where
  "linked f p xs \<equiv> path f p xs None"

lemma path_append [simp]: "path f p (xs @ ys) r \<longleftrightarrow> (\<exists>q. path f p xs q \<and> path f q ys r)"
  by (induction xs arbitrary: p) auto

lemma path_cong: "(\<And>x. x \<in> set xs \<Longrightarrow> f x = g x) \<Longrightarrow> path f p xs q = path g p xs q"
  by (induction xs arbitrary: p) auto

lemma path_upd [simp]: "a \<notin> set xs \<Longrightarrow> path (f(a := b)) p xs q = path f p xs q"
  by (rule path_cong) auto

lemma linked_head: "linked f p xs \<Longrightarrow> p = (case xs of [] \<Rightarrow> None | x # _ \<Rightarrow> Some x)"
  by (cases xs) auto

text \<open>Removing an element whose predecessor is known.\<close>

lemma path_unlink_head: "linked f p (a # xs) \<Longrightarrow> linked f (f a) xs"
  by simp

lemma path_unlink:
  assumes "linked f p (xs @ z # a # ys)" "distinct (xs @ z # a # ys)"
  shows "linked (f(z := f a)) p (xs @ z # ys)"
  using assms by auto

end
