(* ===== verification/BufferCache.thy ===== *)
theory BufferCache
  imports LinkedLists
begin

section \<open>The buffer cache (dev/bio.c)\<close>

text \<open>
  The pool of buffers between the file system and the disks.  A buffer header is an index;
  each field of \<open>struct buf\<close> is a function of it, so that assignments through pointers are
  updates of these functions.  The pool are the headers below \<open>NBUF\<close>, \<open>bfreelist\<close> is header
  \<open>NBUF\<close> and the heads \<open>d_tab\<close> of the devices follow.  A header is on two doubly linked
  lists, the list of its device and, unless it is busy, the list of available buffers.

  The drivers are seen through their contract: \<open>d_strategy\<close> accepts the request and
  returns, and some time later, in any order, an interrupt transfers the block and calls
  \<open>iodone\<close>.  Requests that are not finished are in \<open>ioq\<close>.  A routine that sleeps ends in
  the state in which it sleeps; \<open>waiters\<close> are the channels on which some process does.
  The only configuration data are the \<open>d_tab\<close> entries of \<open>bdevsw\<close>: which are not null.
  Counts of words not transferred and the Unibus map, which buffers of the pool do not use,
  are left out.
\<close>

subsection \<open>State\<close>

datatype bflag = B_READ | B_DONE | B_ERROR | B_BUSY | B_WANTED | B_AGE | B_ASYNC | B_DELWRI | B_TAPE

datatype bchan = ChBuf nat | ChFree

record io_info =
  nread :: int
  nreada :: int
  ncache :: int
  nwrite :: int
  bufcount :: "nat \<Rightarrow> int"

record bio =
  b_flags :: "nat \<Rightarrow> bflag set"
  b_forw :: "nat \<Rightarrow> nat"
  b_back :: "nat \<Rightarrow> nat"
  av_forw :: "nat \<Rightarrow> nat"
  av_back :: "nat \<Rightarrow> nat"
  b_dev :: "nat \<Rightarrow> nat"
  b_blkno :: "nat \<Rightarrow> int"
  b_data :: "nat \<Rightarrow> u8 list"
  b_error :: "nat \<Rightarrow> nat"
  b_bcount :: "nat \<Rightarrow> nat"
  bio_info :: io_info
  bu_error :: nat
  ioq :: "nat list"
  bdisk :: "nat \<Rightarrow> int \<Rightarrow> u8 list"
  waiters :: "bchan set"

type_synonym 'a bres = "('a, bio, bchan) res"

definition NBUF :: nat where "NBUF = 29"

definition bfreelist :: nat where "bfreelist = NBUF"

definition d_tab :: "nat \<Rightarrow> nat" where
  "d_tab maj = NBUF + 1 + maj"

definition EIO :: nat where "EIO = 5"

definition set_fl :: "nat \<Rightarrow> bflag set \<Rightarrow> bio \<Rightarrow> bio" where
  "set_fl bp F s = s\<lparr>b_flags := (b_flags s)(bp := b_flags s bp \<union> F)\<rparr>"

definition clr_fl :: "nat \<Rightarrow> bflag set \<Rightarrow> bio \<Rightarrow> bio" where
  "clr_fl bp F s = s\<lparr>b_flags := (b_flags s)(bp := b_flags s bp - F)\<rparr>"

definition bwakeup :: "bchan \<Rightarrow> bio \<Rightarrow> bio" where
  "bwakeup c s = s\<lparr>waiters := waiters s - {c}\<rparr>"

definition bsleep :: "bchan \<Rightarrow> bio \<Rightarrow> 'a bres" where
  "bsleep c s = Inl (Sleeping c, s\<lparr>waiters := insert c (waiters s)\<rparr>)"

definition count :: "(io_info \<Rightarrow> io_info) \<Rightarrow> bio \<Rightarrow> bio" where
  "count f s = s\<lparr>bio_info := f (bio_info s)\<rparr>"

text \<open>The strategy routine of a driver takes the request.\<close>

definition strategy :: "nat \<Rightarrow> bio \<Rightarrow> bio" where
  "strategy bp s = s\<lparr>ioq := ioq s @ [bp]\<rparr>"

subsection \<open>Releasing and waiting\<close>

definition geterror :: "nat \<Rightarrow> bio \<Rightarrow> bio" where
  "geterror bp s =
     (if B_ERROR \<in> b_flags s bp then s\<lparr>bu_error := (if b_error s bp = 0 then EIO else b_error s bp)\<rparr> else s)"

definition brelse :: "nat \<Rightarrow> bio \<Rightarrow> bio" where
  "brelse bp s =
     (let s = (if B_WANTED \<in> b_flags s bp then bwakeup (ChBuf bp) s else s);
          s = (if B_WANTED \<in> b_flags s bfreelist
               then bwakeup ChFree (clr_fl bfreelist {B_WANTED} s) else s);
          s = (if B_ERROR \<in> b_flags s bp then s\<lparr>b_dev := (b_dev s)(bp := NODEV)\<rparr> else s);
          s = (if B_AGE \<in> b_flags s bp then
                 (let p = av_forw s bfreelist;
                      s = s\<lparr>av_back := (av_back s)(p := bp)\<rparr>;
                      s = s\<lparr>av_forw := (av_forw s)(bp := p)\<rparr>;
                      s = s\<lparr>av_forw := (av_forw s)(bfreelist := bp)\<rparr>
                  in s\<lparr>av_back := (av_back s)(bp := bfreelist)\<rparr>)
               else
                 (let p = av_back s bfreelist;
                      s = s\<lparr>av_forw := (av_forw s)(p := bp)\<rparr>;
                      s = s\<lparr>av_back := (av_back s)(bp := p)\<rparr>;
                      s = s\<lparr>av_back := (av_back s)(bfreelist := bp)\<rparr>
                  in s\<lparr>av_forw := (av_forw s)(bp := bfreelist)\<rparr>))
      in clr_fl bp {B_WANTED, B_BUSY, B_ASYNC, B_AGE} s)"

definition iowait :: "nat \<Rightarrow> bio \<Rightarrow> unit bres" where
  "iowait bp s = (if B_DONE \<in> b_flags s bp then Inr ((), geterror bp s) else bsleep (ChBuf bp) s)"

definition notavail :: "nat \<Rightarrow> bio \<Rightarrow> bio" where
  "notavail bp s =
     (let s = s\<lparr>av_forw := (av_forw s)(av_back s bp := av_forw s bp)\<rparr>;
          s = s\<lparr>av_back := (av_back s)(av_forw s bp := av_back s bp)\<rparr>
      in set_fl bp {B_BUSY} s)"

definition iodone :: "nat \<Rightarrow> bio \<Rightarrow> bio" where
  "iodone bp s =
     (let s = set_fl bp {B_DONE} s in
      if B_ASYNC \<in> b_flags s bp then brelse bp s
      else bwakeup (ChBuf bp) (clr_fl bp {B_WANTED} s))"

definition clrbuf :: "nat \<Rightarrow> bio \<Rightarrow> bio" where
  "clrbuf bp s = s\<lparr>b_data := (b_data s)(bp := replicate 512 0)\<rparr>"

subsection \<open>Writing\<close>

definition bwrite :: "nat \<Rightarrow> bio \<Rightarrow> unit bres" where
  "bwrite bp s =
     (let flag = b_flags s bp;
          s = clr_fl bp {B_READ, B_DONE, B_ERROR, B_DELWRI, B_AGE} s;
          s = s\<lparr>b_bcount := (b_bcount s)(bp := 512)\<rparr>;
          s = count (\<lambda>c. c\<lparr>nwrite := nwrite c + 1\<rparr>) s;
          s = strategy bp s
      in if B_ASYNC \<notin> flag then rbind (iowait bp s) (\<lambda>(_, s). Inr ((), brelse bp s))
         else if B_DELWRI \<in> flag then Inr ((), set_fl bp {B_AGE} s)
         else Inr ((), geterror bp s))"

definition bawrite :: "nat \<Rightarrow> bio \<Rightarrow> unit bres" where
  "bawrite bp s = bwrite bp (set_fl bp {B_ASYNC} s)"

definition bdwrite :: "nat \<Rightarrow> bio \<Rightarrow> unit bres" where
  "bdwrite bp s =
     (if B_TAPE \<in> b_flags s (d_tab (major (b_dev s bp))) then bawrite bp s
      else Inr ((), brelse bp (set_fl bp {B_DELWRI, B_DONE} s)))"

subsection \<open>Finding a buffer\<close>

text \<open>The loop over the list of a device; a list has at most \<open>NBUF\<close> buffers.\<close>

primrec find_buf :: "nat \<Rightarrow> nat \<Rightarrow> nat \<Rightarrow> int \<Rightarrow> nat \<Rightarrow> bio \<Rightarrow> nat option option" where
  "find_buf 0 dp dev blkno bp s = None"
| "find_buf (Suc n) dp dev blkno bp s =
     (if bp = dp then Some None
      else if b_blkno s bp = blkno \<and> b_dev s bp = dev then Some (Some bp)
      else find_buf n dp dev blkno (b_forw s bp) s)"

definition incore :: "nat \<Rightarrow> int \<Rightarrow> bio \<Rightarrow> bool option" where
  "incore dev blkno s =
     (let dp = d_tab (major dev) in
      map_option (\<lambda>r. r \<noteq> None) (find_buf (NBUF + 1) dp dev blkno (b_forw s dp) s))"

primrec av_rank :: "nat \<Rightarrow> nat \<Rightarrow> bio \<Rightarrow> nat" where
  "av_rank 0 dp s = 0"
| "av_rank (Suc n) dp s = (if dp = bfreelist then 0 else Suc (av_rank n (av_forw s dp) s))"

text \<open>Moving a buffer to the front of another list.\<close>

definition assign :: "nat \<Rightarrow> nat \<Rightarrow> bio \<Rightarrow> bio" where
  "assign bp dp s =
     (let s = s\<lparr>b_flags := (b_flags s)(bp := {B_BUSY})\<rparr>;
          s = s\<lparr>b_forw := (b_forw s)(b_back s bp := b_forw s bp)\<rparr>;
          s = s\<lparr>b_back := (b_back s)(b_forw s bp := b_back s bp)\<rparr>;
          s = s\<lparr>b_forw := (b_forw s)(bp := b_forw s dp)\<rparr>;
          s = s\<lparr>b_back := (b_back s)(bp := dp)\<rparr>;
          s = s\<lparr>b_back := (b_back s)(b_forw s dp := bp)\<rparr>
      in s\<lparr>b_forw := (b_forw s)(dp := bp)\<rparr>)"

text \<open>
  From label \<open>loop\<close> on.  A turn that writes out a delayed block takes a buffer off the
  available list, so \<open>NBUF + 1\<close> turns are enough.
\<close>

primrec getblk_loop :: "nat \<Rightarrow> bool list \<Rightarrow> nat \<Rightarrow> int \<Rightarrow> bio \<Rightarrow> nat bres" where
  "getblk_loop 0 tabs dev blkno s = Inl (Unfinished, s)"
| "getblk_loop (Suc n) tabs dev blkno s =
     (let dp = d_tab (major dev) in
      if \<not> tabs ! major dev then Inl (Panicked ''devtab'', s)
      else case find_buf (NBUF + 1) dp dev blkno (b_forw s dp) s of
        None \<Rightarrow> Inl (Unfinished, s)
      | Some (Some bp) \<Rightarrow>
          if B_BUSY \<in> b_flags s bp then bsleep (ChBuf bp) (set_fl bp {B_WANTED} s)
          else
            (let i = av_rank (NBUF + 1) (av_forw s bp) s;
                 s = (if i < NBUF
                      then count (\<lambda>c. c\<lparr>bufcount := (bufcount c)(i := bufcount c i + 1)\<rparr>) s else s)
             in Inr (bp, notavail bp s))
      | Some None \<Rightarrow>
          if av_forw s bfreelist = bfreelist then bsleep ChFree (set_fl bfreelist {B_WANTED} s)
          else
            (let bp = av_forw s bfreelist;
                 s = notavail bp s
             in if B_DELWRI \<in> b_flags s bp then
                  rbind (bwrite bp (set_fl bp {B_ASYNC} s)) (\<lambda>(_, s). getblk_loop n tabs dev blkno s)
                else
                  (let s = assign bp dp s
                   in Inr (bp, s\<lparr>b_dev := (b_dev s)(bp := dev), b_blkno := (b_blkno s)(bp := blkno)\<rparr>))))"

definition getblk :: "bool list \<Rightarrow> nat \<Rightarrow> int \<Rightarrow> bio \<Rightarrow> nat bres" where
  "getblk tabs dev blkno s =
     (if major dev \<ge> length tabs then Inl (Panicked ''blkdev'', s)
      else getblk_loop (NBUF + 1) tabs dev blkno s)"

primrec geteblk_loop :: "nat \<Rightarrow> bio \<Rightarrow> nat bres" where
  "geteblk_loop 0 s = Inl (Unfinished, s)"
| "geteblk_loop (Suc n) s =
     (if av_forw s bfreelist = bfreelist then bsleep ChFree (set_fl bfreelist {B_WANTED} s)
      else
        (let bp = av_forw s bfreelist;
             s = notavail bp s
         in if B_DELWRI \<in> b_flags s bp then
              rbind (bwrite bp (set_fl bp {B_ASYNC} s)) (\<lambda>(_, s). geteblk_loop n s)
            else
              (let s = assign bp bfreelist s in Inr (bp, s\<lparr>b_dev := (b_dev s)(bp := NODEV)\<rparr>))))"

definition geteblk :: "bio \<Rightarrow> nat bres" where
  "geteblk s = geteblk_loop (NBUF + 1) s"

subsection \<open>Reading\<close>

definition start_read :: "nat \<Rightarrow> bio \<Rightarrow> bio" where
  "start_read bp s =
     (let s = set_fl bp {B_READ} s;
          s = s\<lparr>b_bcount := (b_bcount s)(bp := 512)\<rparr>
      in count (\<lambda>c. c\<lparr>nread := nread c + 1\<rparr>) (strategy bp s))"

definition start_ahead :: "nat \<Rightarrow> bio \<Rightarrow> bio" where
  "start_ahead rabp s =
     (let s = set_fl rabp {B_READ, B_ASYNC} s;
          s = s\<lparr>b_bcount := (b_bcount s)(rabp := 512)\<rparr>
      in count (\<lambda>c. c\<lparr>nreada := nreada c + 1\<rparr>) (strategy rabp s))"

definition bread :: "bool list \<Rightarrow> nat \<Rightarrow> int \<Rightarrow> bio \<Rightarrow> nat bres" where
  "bread tabs dev blkno s =
     rbind (getblk tabs dev blkno s) (\<lambda>(bp, s).
       if B_DONE \<in> b_flags s bp then Inr (bp, count (\<lambda>c. c\<lparr>ncache := ncache c + 1\<rparr>) s)
       else rbind (iowait bp (start_read bp s)) (\<lambda>(_, s). Inr (bp, s)))"

text \<open>The two parts of \<open>breada\<close> before it waits: the block itself and the read ahead.\<close>

definition breada_first :: "bool list \<Rightarrow> nat \<Rightarrow> int \<Rightarrow> bio \<Rightarrow> nat option bres" where
  "breada_first tabs dev blkno s =
     (case incore dev blkno s of
        None \<Rightarrow> Inl (Unfinished, s)
      | Some True \<Rightarrow> Inr (None, s)
      | Some False \<Rightarrow>
          rbind (getblk tabs dev blkno s) (\<lambda>(bp, s).
            Inr (Some bp, if B_DONE \<in> b_flags s bp then s else start_read bp s)))"

definition breada_ahead :: "bool list \<Rightarrow> nat \<Rightarrow> int \<Rightarrow> bio \<Rightarrow> unit bres" where
  "breada_ahead tabs dev rablkno s =
     (if rablkno = 0 then Inr ((), s)
      else case incore dev rablkno s of
        None \<Rightarrow> Inl (Unfinished, s)
      | Some True \<Rightarrow> Inr ((), s)
      | Some False \<Rightarrow>
          rbind (getblk tabs dev rablkno s) (\<lambda>(rabp, s).
            Inr ((), if B_DONE \<in> b_flags s rabp then brelse rabp s else start_ahead rabp s)))"

definition breada :: "bool list \<Rightarrow> nat \<Rightarrow> int \<Rightarrow> int \<Rightarrow> bio \<Rightarrow> nat bres" where
  "breada tabs dev blkno rablkno s =
     rbind (breada_first tabs dev blkno s) (\<lambda>(bp, s).
     rbind (breada_ahead tabs dev rablkno s) (\<lambda>(_, s).
       case bp of
         None \<Rightarrow> bread tabs dev blkno s
       | Some bp \<Rightarrow> rbind (iowait bp s) (\<lambda>(_, s). Inr (bp, s))))"

subsection \<open>Flushing\<close>

primrec find_delwri :: "nat \<Rightarrow> nat \<Rightarrow> nat \<Rightarrow> bio \<Rightarrow> nat option option" where
  "find_delwri 0 dev bp s = None"
| "find_delwri (Suc n) dev bp s =
     (if bp = bfreelist then Some None
      else if B_DELWRI \<in> b_flags s bp \<and> (dev = NODEV \<or> dev = b_dev s bp) then Some (Some bp)
      else find_delwri n dev (av_forw s bp) s)"

primrec bflush_loop :: "nat \<Rightarrow> nat \<Rightarrow> bio \<Rightarrow> unit bres" where
  "bflush_loop 0 dev s = Inl (Unfinished, s)"
| "bflush_loop (Suc n) dev s =
     (case find_delwri (NBUF + 1) dev (av_forw s bfreelist) s of
        None \<Rightarrow> Inl (Unfinished, s)
      | Some None \<Rightarrow> Inr ((), s)
      | Some (Some bp) \<Rightarrow>
          rbind (bwrite bp (notavail bp (set_fl bp {B_ASYNC} s))) (\<lambda>(_, s). bflush_loop n dev s))"

definition bflush :: "nat \<Rightarrow> bio \<Rightarrow> unit bres" where
  "bflush dev s = bflush_loop (NBUF + 1) dev s"

subsection \<open>Initialisation\<close>

definition binit_buf :: "nat \<Rightarrow> bio \<Rightarrow> bio" where
  "binit_buf bp s =
     (let s = s\<lparr>b_dev := (b_dev s)(bp := NODEV)\<rparr>;
          s = s\<lparr>b_back := (b_back s)(bp := bfreelist)\<rparr>;
          s = s\<lparr>b_forw := (b_forw s)(bp := b_forw s bfreelist)\<rparr>;
          s = s\<lparr>b_back := (b_back s)(b_forw s bfreelist := bp)\<rparr>;
          s = s\<lparr>b_forw := (b_forw s)(bfreelist := bp)\<rparr>;
          s = s\<lparr>b_flags := (b_flags s)(bp := {B_BUSY})\<rparr>
      in brelse bp s)"

definition binit_tab :: "bool list \<Rightarrow> nat \<Rightarrow> bio \<Rightarrow> bio" where
  "binit_tab tabs maj s =
     (if tabs ! maj
      then s\<lparr>b_forw := (b_forw s)(d_tab maj := d_tab maj), b_back := (b_back s)(d_tab maj := d_tab maj)\<rparr>
      else s)"

definition binit :: "bool list \<Rightarrow> bio \<Rightarrow> bio" where
  "binit tabs s =
     (let s = s\<lparr>b_forw := (b_forw s)(bfreelist := bfreelist), b_back := (b_back s)(bfreelist := bfreelist),
                av_forw := (av_forw s)(bfreelist := bfreelist), av_back := (av_back s)(bfreelist := bfreelist)\<rparr>;
          s = foldl (\<lambda>s bp. binit_buf bp s) s [0..<NBUF]
      in foldl (\<lambda>s maj. binit_tab tabs maj s) s [0..<length tabs])"

subsection \<open>Processes and devices\<close>

text \<open>
  What a process may do with a buffer it has got: a \<open>Clean\<close> buffer it has not changed, a
  \<open>Dirty\<close> one it has; in \<open>Reading\<close> and \<open>Writing\<close> it waits for a transfer.  \<open>blog\<close> is the
  abstract state: for each block of each device what was last written to it by a call of
  \<open>bwrite\<close>, \<open>bawrite\<close> or \<open>bdwrite\<close>, wherever the bytes are now.  It is \<^const>\<open>None\<close>, nothing is
  promised, if since then the transfer to the device has failed or a process has released
  a changed buffer without writing it, as \<open>writei\<close> does when the process gives a bad address; the
  next write makes it definite again.  \<open>bdwrite\<close> is not called with a buffer that could not be read,
  which all callers check.
\<close>

datatype hold = Clean | Dirty | Reading | Writing

record bsys =
  st :: bio
  held :: "nat \<Rightarrow> hold option"
  blog :: "nat \<Rightarrow> int \<Rightarrow> u8 list option"

definition put_log :: "nat \<Rightarrow> bsys \<Rightarrow> nat \<Rightarrow> int \<Rightarrow> u8 list option" where
  "put_log b x = (blog x)(b_dev (st x) b := (blog x (b_dev (st x) b))(b_blkno (st x) b := Some (b_data (st x) b)))"

definition forget :: "nat \<Rightarrow> bsys \<Rightarrow> nat \<Rightarrow> int \<Rightarrow> u8 list option" where
  "forget b x = (blog x)(b_dev (st x) b := (blog x (b_dev (st x) b))(b_blkno (st x) b := None))"

text \<open>The transfer by the device, and an error instead of it.\<close>

definition transfer :: "nat \<Rightarrow> bio \<Rightarrow> bio" where
  "transfer b s =
     (let s = s\<lparr>ioq := remove1 b (ioq s)\<rparr>; d = b_dev s b; k = b_blkno s b in
      if B_READ \<in> b_flags s b then s\<lparr>b_data := (b_data s)(b := bdisk s d k)\<rparr>
      else s\<lparr>bdisk := (bdisk s)(d := (bdisk s d)(k := b_data s b))\<rparr>)"

definition io_error :: "nat \<Rightarrow> nat \<Rightarrow> bio \<Rightarrow> bio" where
  "io_error b e s = set_fl b {B_ERROR} (s\<lparr>ioq := remove1 b (ioq s), b_error := (b_error s)(b := e)\<rparr>)"

inductive bio_step :: "bool list \<Rightarrow> bsys \<Rightarrow> bsys \<Rightarrow> bool" for tabs :: "bool list" where
  st_getblk: "\<lbrakk>dev \<noteq> NODEV; getblk tabs dev blkno (st x) = Inr (b, s)\<rbrakk> \<Longrightarrow>
    bio_step tabs x (x\<lparr>st := s, held := (held x)(b := Some Clean)\<rparr>)"
| st_getblk_sleep: "\<lbrakk>dev \<noteq> NODEV; getblk tabs dev blkno (st x) = Inl (Sleeping c, s)\<rbrakk> \<Longrightarrow>
    bio_step tabs x (x\<lparr>st := s\<rparr>)"
| st_geteblk: "geteblk (st x) = Inr (b, s) \<Longrightarrow>
    bio_step tabs x (x\<lparr>st := s, held := (held x)(b := Some Clean)\<rparr>)"
| st_geteblk_sleep: "geteblk (st x) = Inl (Sleeping c, s) \<Longrightarrow> bio_step tabs x (x\<lparr>st := s\<rparr>)"
| st_start_read: "\<lbrakk>held x b = Some Clean; b_dev (st x) b \<noteq> NODEV; B_DONE \<notin> b_flags (st x) b\<rbrakk> \<Longrightarrow>
    bio_step tabs x (x\<lparr>st := start_read b (st x), held := (held x)(b := Some Reading)\<rparr>)"
| st_start_ahead: "\<lbrakk>held x b = Some Clean; b_dev (st x) b \<noteq> NODEV; B_DONE \<notin> b_flags (st x) b\<rbrakk> \<Longrightarrow>
    bio_step tabs x (x\<lparr>st := start_ahead b (st x), held := (held x)(b := None)\<rparr>)"
| st_iowait: "\<lbrakk>held x b = Some Reading; iowait b (st x) = Inr ((), s)\<rbrakk> \<Longrightarrow>
    bio_step tabs x (x\<lparr>st := s, held := (held x)(b := Some Clean)\<rparr>)"
| st_iowait_sleep: "\<lbrakk>held x b = Some Reading \<or> held x b = Some Writing; iowait b (st x) = Inl (Sleeping c, s)\<rbrakk> \<Longrightarrow>
    bio_step tabs x (x\<lparr>st := s\<rparr>)"
| st_hit: "bio_step tabs x (x\<lparr>st := count f (st x)\<rparr>)"
| st_modify: "held x b = Some Clean \<or> held x b = Some Dirty \<Longrightarrow>
    bio_step tabs x (x\<lparr>st := (st x)\<lparr>b_data := (b_data (st x))(b := d)\<rparr>, held := (held x)(b := Some Dirty)\<rparr>)"
| st_brelse: "held x b = Some Clean \<Longrightarrow>
    bio_step tabs x (x\<lparr>st := brelse b (st x), held := (held x)(b := None)\<rparr>)"
| st_drop: "held x b = Some Dirty \<Longrightarrow>
    bio_step tabs x (x\<lparr>st := brelse b (st x), held := (held x)(b := None), blog := forget b x\<rparr>)"
| st_bwrite: "\<lbrakk>held x b = Some Clean \<or> held x b = Some Dirty; b_dev (st x) b \<noteq> NODEV;
      bwrite b (st x) = Inl (Sleeping c, s)\<rbrakk> \<Longrightarrow>
    bio_step tabs x (x\<lparr>st := s, held := (held x)(b := Some Writing), blog := put_log b x\<rparr>)"
| st_bwrite_end: "\<lbrakk>held x b = Some Writing; iowait b (st x) = Inr ((), s)\<rbrakk> \<Longrightarrow>
    bio_step tabs x (x\<lparr>st := brelse b s, held := (held x)(b := None)\<rparr>)"
| st_bawrite: "\<lbrakk>held x b = Some Clean \<or> held x b = Some Dirty; b_dev (st x) b \<noteq> NODEV;
      bawrite b (st x) = Inr ((), s)\<rbrakk> \<Longrightarrow>
    bio_step tabs x (x\<lparr>st := s, held := (held x)(b := None), blog := put_log b x\<rparr>)"
| st_bdwrite: "\<lbrakk>held x b = Some Clean \<or> held x b = Some Dirty; b_dev (st x) b \<noteq> NODEV;
      B_ERROR \<notin> b_flags (st x) b; bdwrite b (st x) = Inr ((), s)\<rbrakk> \<Longrightarrow>
    bio_step tabs x (x\<lparr>st := s, held := (held x)(b := None), blog := put_log b x\<rparr>)"
| st_bflush: "bflush dev (st x) = Inr ((), s) \<Longrightarrow> bio_step tabs x (x\<lparr>st := s\<rparr>)"
| st_transfer: "b \<in> set (ioq (st x)) \<Longrightarrow> bio_step tabs x (x\<lparr>st := iodone b (transfer b (st x))\<rparr>)"
| st_read_error: "\<lbrakk>b \<in> set (ioq (st x)); B_READ \<in> b_flags (st x) b\<rbrakk> \<Longrightarrow>
    bio_step tabs x (x\<lparr>st := iodone b (io_error b e (st x))\<rparr>)"
| st_write_error: "\<lbrakk>b \<in> set (ioq (st x)); B_READ \<notin> b_flags (st x) b\<rbrakk> \<Longrightarrow>
    bio_step tabs x (x\<lparr>st := iodone b (io_error b e (st x)), blog := forget b x\<rparr>)"

subsection \<open>Invariant\<close>

definition heads :: "bool list \<Rightarrow> nat set" where
  "heads tabs = insert bfreelist {d_tab m |m. m < length tabs \<and> tabs ! m}"

definition av_ok :: "bio \<Rightarrow> bool" where
  "av_ok s \<longleftrightarrow>
     (\<exists>as. dlist (av_forw s) (av_back s) bfreelist as \<and> set as = {b. b < NBUF \<and> B_BUSY \<notin> b_flags s b})"

definition q_ok :: "bool list \<Rightarrow> bio \<Rightarrow> bool" where
  "q_ok tabs s \<longleftrightarrow>
     (\<exists>q. dlists (b_forw s) (b_back s) (heads tabs) q \<and> (\<Union>h\<in>heads tabs. set (q h)) = {..<NBUF} \<and>
        (\<forall>h\<in>heads tabs. \<forall>b\<in>set (q h). b_dev s b = NODEV \<or> h = d_tab (major (b_dev s b))))"

definition uniq :: "bio \<Rightarrow> bool" where
  "uniq s \<longleftrightarrow>
     (\<forall>b<NBUF. \<forall>c<NBUF. b_dev s b \<noteq> NODEV \<longrightarrow> b_dev s c = b_dev s b \<longrightarrow> b_blkno s c = b_blkno s b \<longrightarrow> c = b)"

definition buf_ok :: "bflag set \<Rightarrow> hold option \<Rightarrow> bool \<Rightarrow> nat \<Rightarrow> bool" where
  "buf_ok F h io dev \<longleftrightarrow>
     (B_BUSY \<in> F \<longleftrightarrow> h \<noteq> None \<or> io) \<and>
     (io \<longrightarrow> B_DONE \<notin> F \<and> B_ERROR \<notin> F \<and> B_DELWRI \<notin> F \<and> dev \<noteq> NODEV \<and> h \<noteq> Some Clean \<and> h \<noteq> Some Dirty \<and>
       (B_ASYNC \<in> F \<longleftrightarrow> h = None) \<and> (h = Some Reading \<longrightarrow> B_READ \<in> F) \<and> (h = Some Writing \<longrightarrow> B_READ \<notin> F)) \<and>
     (\<not> io \<longrightarrow> B_ASYNC \<notin> F \<and> (h = Some Reading \<or> h = Some Writing \<longrightarrow> B_DONE \<in> F)) \<and>
     (B_DELWRI \<in> F \<longrightarrow> B_DONE \<in> F \<and> B_ERROR \<notin> F \<and> dev \<noteq> NODEV) \<and>
     (B_ERROR \<in> F \<longrightarrow> B_DONE \<in> F \<and> (h \<noteq> None \<or> dev = NODEV))"

definition own_ok :: "bsys \<Rightarrow> bool" where
  "own_ok x \<longleftrightarrow>
     distinct (ioq (st x)) \<and> set (ioq (st x)) \<subseteq> {..<NBUF} \<and> (\<forall>b. held x b \<noteq> None \<longrightarrow> b < NBUF) \<and>
     (\<forall>b<NBUF. buf_ok (b_flags (st x) b) (held x b) (b \<in> set (ioq (st x))) (b_dev (st x) b))"

definition wait_ok :: "bio \<Rightarrow> bool" where
  "wait_ok s \<longleftrightarrow>
     (\<forall>b. ChBuf b \<in> waiters s \<longrightarrow> b < NBUF \<and> B_BUSY \<in> b_flags s b \<and>
        (B_WANTED \<in> b_flags s b \<or> b \<in> set (ioq s) \<and> B_ASYNC \<notin> b_flags s b)) \<and>
     (ChFree \<in> waiters s \<longrightarrow> B_WANTED \<in> b_flags s bfreelist)"

text \<open>A block about to be written: on its way to the device, or delayed.\<close>

definition pending :: "bio \<Rightarrow> nat \<Rightarrow> bool" where
  "pending s b \<longleftrightarrow> B_DELWRI \<in> b_flags s b \<or> b \<in> set (ioq s) \<and> B_READ \<notin> b_flags s b"

definition current :: "u8 list \<Rightarrow> u8 list option \<Rightarrow> bool" where
  [simp]: "current v z = (\<forall>w. z = Some w \<longrightarrow> v = w)"

definition coh_buf :: "bio \<Rightarrow> nat \<Rightarrow> hold option \<Rightarrow> (nat \<Rightarrow> int \<Rightarrow> u8 list option) \<Rightarrow> bool" where
  "coh_buf s b h l \<longleftrightarrow>
     (b_dev s b \<noteq> NODEV \<longrightarrow>
      B_DONE \<in> b_flags s b \<and> B_ERROR \<notin> b_flags s b \<and> h \<noteq> Some Dirty \<or> b \<in> set (ioq s) \<and> B_READ \<notin> b_flags s b \<longrightarrow>
      current (b_data s b) (l (b_dev s b) (b_blkno s b)))"

definition coherent :: "bsys \<Rightarrow> bool" where
  "coherent x \<longleftrightarrow>
     (\<forall>b<NBUF. coh_buf (st x) b (held x b) (blog x)) \<and>
     (\<forall>d k. d \<noteq> NODEV \<longrightarrow> current (bdisk (st x) d k) (blog x d k) \<or>
        (\<exists>b<NBUF. b_dev (st x) b = d \<and> b_blkno (st x) b = k \<and> pending (st x) b))"

definition binv :: "bool list \<Rightarrow> bsys \<Rightarrow> bool" where
  "binv tabs x \<longleftrightarrow>
     av_ok (st x) \<and> q_ok tabs (st x) \<and> uniq (st x) \<and> own_ok x \<and> wait_ok (st x) \<and> coherent x"

lemmas fl_defs = set_fl_def clr_fl_def bwakeup_def count_def strategy_def

text \<open>A change of one buffer that does not touch the lists.\<close>

lemma binv_update:
  assumes inv: "binv tabs x" and b: "b < NBUF"
    and same: "av_forw s = av_forw (st x)" "av_back s = av_back (st x)" "b_forw s = b_forw (st x)"
      "b_back s = b_back (st x)" "b_dev s = b_dev (st x)" "b_blkno s = b_blkno (st x)"
    and fl: "\<And>c. c \<noteq> b \<Longrightarrow> b_flags s c = b_flags (st x) c"
    and busy: "B_BUSY \<in> b_flags (st x) b" "B_BUSY \<in> b_flags s b"
    and io: "distinct (ioq s)" "\<And>c. c \<noteq> b \<Longrightarrow> c \<in> set (ioq s) \<longleftrightarrow> c \<in> set (ioq (st x))"
    and ok: "buf_ok (b_flags s b) h (b \<in> set (ioq s)) (b_dev s b)"
    and wt: "\<And>c. c \<noteq> ChBuf b \<Longrightarrow> c \<in> waiters s \<Longrightarrow> c \<in> waiters (st x)"
      "ChBuf b \<in> waiters s \<Longrightarrow> B_WANTED \<in> b_flags s b \<or> b \<in> set (ioq s) \<and> B_ASYNC \<notin> b_flags s b"
    and data: "\<And>c. c \<noteq> b \<Longrightarrow> b_data s c = b_data (st x) c"
    and lg: "\<And>d k. \<not> (d = b_dev s b \<and> k = b_blkno s b) \<Longrightarrow> l d k = blog x d k \<and> bdisk s d k = bdisk (st x) d k"
    and coh: "coh_buf s b h l"
      "b_dev s b \<noteq> NODEV \<Longrightarrow> current (bdisk s (b_dev s b) (b_blkno s b)) (l (b_dev s b) (b_blkno s b)) \<or> pending s b"
  shows "binv tabs (x\<lparr>st := s, held := (held x)(b := h), blog := l\<rparr>)"
proof -
  have bx: "b \<noteq> bfreelist" using b by (simp add: bfreelist_def)
  have i: "av_ok (st x)" "q_ok tabs (st x)" "uniq (st x)" "own_ok x" "wait_ok (st x)" "coherent x"
    using inv by (auto simp: binv_def)
  have "B_BUSY \<in> b_flags s c \<longleftrightarrow> B_BUSY \<in> b_flags (st x) c" for c using fl busy by (cases "c = b") auto
  then have "av_ok s" using i(1) by (simp add: av_ok_def same)
  moreover have "q_ok tabs s" using i(2) by (simp add: q_ok_def same)
  moreover have u: "uniq s" using i(3) by (simp add: uniq_def same)
  moreover have "own_ok (x\<lparr>st := s, held := (held x)(b := h), blog := l\<rparr>)"
  proof -
    have "c < NBUF" if "c \<in> set (ioq s)" for c
      using that io(2) b i(4) by (cases "c = b") (auto simp: own_ok_def)
    then show ?thesis using i(4) io ok b fl by (auto simp: own_ok_def same)
  qed
  moreover have "wait_ok s"
    unfolding wait_ok_def
  proof (intro conjI allI impI)
    fix c assume c: "ChBuf c \<in> waiters s"
    have "c < NBUF \<and> B_BUSY \<in> b_flags s c \<and> (B_WANTED \<in> b_flags s c \<or> c \<in> set (ioq s) \<and> B_ASYNC \<notin> b_flags s c)"
    proof (cases "c = b")
      case True
      then show ?thesis using b busy(2) wt(2) c by simp
    next
      case False
      then have "ChBuf c \<in> waiters (st x)" using wt(1) c by blast
      then show ?thesis using i(5) fl [OF False] io(2) [OF False] by (simp add: wait_ok_def)
    qed
    then show "c < NBUF" "B_BUSY \<in> b_flags s c" "B_WANTED \<in> b_flags s c \<or> c \<in> set (ioq s) \<and> B_ASYNC \<notin> b_flags s c"
      by blast+
  next
    assume "ChFree \<in> waiters s"
    then show "B_WANTED \<in> b_flags s bfreelist" using i(5) wt(1) [of ChFree] fl [of bfreelist] bx by (auto simp: wait_ok_def)
  qed
  moreover have "coherent (x\<lparr>st := s, held := (held x)(b := h), blog := l\<rparr>)"
  proof -
    have "coh_buf s c (((held x)(b := h)) c) l" if c: "c < NBUF" for c
    proof (cases "c = b")
      case True
      then show ?thesis using coh(1) by simp
    next
      case False
      have "coh_buf (st x) c (held x c) (blog x)" using i(6) c by (simp add: coherent_def)
      moreover have "b_dev s c \<noteq> NODEV \<Longrightarrow> l (b_dev s c) (b_blkno s c) = blog x (b_dev s c) (b_blkno s c)"
        using lg [of "b_dev s c" "b_blkno s c"] u b c False unfolding uniq_def by metis
      ultimately show ?thesis using False fl io(2) data by (auto simp: coh_buf_def same)
    qed
    moreover have "current (bdisk s d k) (l d k) \<or> (\<exists>b<NBUF. b_dev s b = d \<and> b_blkno s b = k \<and> pending s b)"
      if d: "d \<noteq> NODEV" for d k
    proof (cases "d = b_dev s b \<and> k = b_blkno s b")
      case True
      then show ?thesis using coh(2) d b by auto
    next
      case False
      have "current (bdisk (st x) d k) (blog x d k) \<or>
          (\<exists>c<NBUF. b_dev (st x) c = d \<and> b_blkno (st x) c = k \<and> pending (st x) c)"
        using i(6) d by (simp add: coherent_def)
      then show ?thesis
      proof (elim disjE exE conjE)
        fix c assume c: "c < NBUF" "b_dev (st x) c = d" "b_blkno (st x) c = k" "pending (st x) c"
        then have "c \<noteq> b" using False by (auto simp: same)
        then have "pending s c" using c fl io(2) by (simp add: pending_def)
        then show ?thesis using c by (auto simp: same)
      qed (use lg [OF False] in simp)
    qed
    ultimately show ?thesis by (simp add: coherent_def)
  qed
  ultimately show ?thesis by (simp add: binv_def)
qed

lemma binv_D:
  assumes "binv tabs x"
  shows "av_ok (st x)" "q_ok tabs (st x)" "uniq (st x)" "own_ok x" "wait_ok (st x)" "coherent x"
    "\<And>b. b < NBUF \<Longrightarrow> buf_ok (b_flags (st x) b) (held x b) (b \<in> set (ioq (st x))) (b_dev (st x) b)"
    "\<And>b. b < NBUF \<Longrightarrow> coh_buf (st x) b (held x b) (blog x)"
    "\<And>b. held x b \<noteq> None \<Longrightarrow> b < NBUF" "\<And>b. b \<in> set (ioq (st x)) \<Longrightarrow> b < NBUF" "distinct (ioq (st x))"
  using assms by (auto simp: binv_def own_ok_def coherent_def)

text \<open>A promise less.\<close>

lemma binv_less:
  assumes "binv tabs x" "\<And>d k. blog x d k = l d k \<or> l d k = None"
  shows "binv tabs (x\<lparr>blog := l\<rparr>)"
proof -
  have c: "current v (blog x d k) \<Longrightarrow> current v (l d k)" for v d k using assms(2) [of d k] by auto
  have "coh_buf s b h (blog x) \<Longrightarrow> coh_buf s b h l" for s b h unfolding coh_buf_def using c by blast
  moreover have "coherent x" using assms(1) by (simp add: binv_def)
  ultimately have "coherent (x\<lparr>blog := l\<rparr>)" using c unfolding coherent_def by (simp del: current_def) blast
  then show ?thesis using assms(1) by (simp add: binv_def own_ok_def)
qed

text \<open>What \<open>notavail\<close>, \<open>brelse\<close> and \<open>assign\<close> do to the fields.\<close>

lemma notavail_fields [simp]:
  "b_flags (notavail b s) = (b_flags s)(b := insert B_BUSY (b_flags s b))"
  "b_forw (notavail b s) = b_forw s" "b_back (notavail b s) = b_back s" "b_dev (notavail b s) = b_dev s"
  "b_blkno (notavail b s) = b_blkno s" "b_data (notavail b s) = b_data s" "ioq (notavail b s) = ioq s"
  "bdisk (notavail b s) = bdisk s" "waiters (notavail b s) = waiters s" "bu_error (notavail b s) = bu_error s"
  by (simp_all add: notavail_def fl_defs Let_def)

lemma brelse_fields:
  assumes "b \<noteq> bfreelist"
  shows "b_flags (brelse b s) =
      (b_flags s)(bfreelist := b_flags s bfreelist - {B_WANTED}, b := b_flags s b - {B_WANTED, B_BUSY, B_ASYNC, B_AGE})"
    "b_dev (brelse b s) = (if B_ERROR \<in> b_flags s b then (b_dev s)(b := NODEV) else b_dev s)"
    "b_forw (brelse b s) = b_forw s" "b_back (brelse b s) = b_back s" "b_blkno (brelse b s) = b_blkno s"
    "b_data (brelse b s) = b_data s" "ioq (brelse b s) = ioq s" "bdisk (brelse b s) = bdisk s"
    "waiters (brelse b s) = waiters s - (if B_WANTED \<in> b_flags s b then {ChBuf b} else {})
       - (if B_WANTED \<in> b_flags s bfreelist then {ChFree} else {})"
  using assms by (auto simp: brelse_def fl_defs Let_def fun_eq_iff)

lemma brelse_av:
  assumes "dlist (av_forw s) (av_back s) bfreelist as" "b \<noteq> bfreelist" "b \<notin> set as"
  shows "dlist (av_forw (brelse b s)) (av_back (brelse b s)) bfreelist
    (if B_AGE \<in> b_flags s b then b # as else as @ [b])"
proof -
  note atfront = dlist_front [OF assms]
  note atback = dlist_back [OF assms]
  have f: "av_forw (brelse b s) = (if B_AGE \<in> b_flags s b then (av_forw s)(b := av_forw s bfreelist, bfreelist := b)
      else (av_forw s)(av_back s bfreelist := b, b := bfreelist))"
    "av_back (brelse b s) = (if B_AGE \<in> b_flags s b then (av_back s)(av_forw s bfreelist := b, b := bfreelist)
      else (av_back s)(b := av_back s bfreelist, bfreelist := b))"
    using assms(2) by (simp_all add: brelse_def fl_defs Let_def)
  have "av_forw s bfreelist \<noteq> b" using dlist_closed [OF assms(1), of bfreelist] assms(2,3) by auto
  then have "(av_back s)(av_forw s bfreelist := b, b := bfreelist) = (av_back s)(b := bfreelist, av_forw s bfreelist := b)"
    by (rule fun_upd_twist)
  then show ?thesis using atfront atback by (simp add: f)
qed

lemma brelse_clr [simp]: "brelse b (clr_fl b {B_ASYNC} s) = brelse b s" if "b \<noteq> bfreelist"
proof -
  have d: "F - {B_ASYNC} - {B_WANTED, B_BUSY, B_ASYNC, B_AGE} = F - {B_WANTED, B_BUSY, B_ASYNC, B_AGE}" for F by blast
  show ?thesis
    using that
    by (cases "B_WANTED \<in> b_flags s b"; cases "B_WANTED \<in> b_flags s bfreelist"; cases "B_ERROR \<in> b_flags s b";
        cases "B_AGE \<in> b_flags s b")
      (simp_all add: brelse_def fl_defs Let_def d fun_upd_twist del: Diff_insert0)
qed

text \<open>Taking a buffer off the available list.\<close>

lemma binv_notavail:
  assumes inv: "binv tabs x" and b: "b < NBUF" "B_BUSY \<notin> b_flags (st x) b"
  shows "binv tabs (x\<lparr>st := notavail b (st x), held := (held x)(b := Some Clean)\<rparr>)"
proof -
  note i = binv_D [OF inv]
  have bx: "b \<noteq> bfreelist" using b by (simp add: bfreelist_def)
  have ok: "held x b = None" "b \<notin> set (ioq (st x))" using i(7) [OF b(1)] b(2) by (auto simp: buf_ok_def)
  obtain as where as: "dlist (av_forw (st x)) (av_back (st x)) bfreelist as"
    "set as = {b. b < NBUF \<and> B_BUSY \<notin> b_flags (st x) b}" using i(1) by (auto simp: av_ok_def)
  then have "b \<in> set as" using b by simp
  then obtain xs ys where xs: "as = xs @ b # ys" by (auto simp: in_set_conv_decomp)
  have neq: "av_back (st x) b \<noteq> b"
    using as(1) xs dlist_closed [OF as(1), of b] unfolding dlist_def
    by (cases xs rule: rev_cases) (auto simp: chain_append)
  have "dlist (av_forw (notavail b (st x))) (av_back (notavail b (st x))) bfreelist (xs @ ys)"
    using dlist_unlink [of "av_forw (st x)" "av_back (st x)" bfreelist xs b ys] as(1) xs neq
    by (simp add: notavail_def fl_defs Let_def)
  moreover have "set (xs @ ys) = {c. c < NBUF \<and> B_BUSY \<notin> b_flags (notavail b (st x)) c}"
  proof -
    have "set (xs @ ys) = set as - {b}" using as(1) xs by (auto simp: dlist_def)
    then show ?thesis using as(2) by auto
  qed
  ultimately have "av_ok (notavail b (st x))" unfolding av_ok_def by blast
  moreover have "q_ok tabs (notavail b (st x))" "uniq (notavail b (st x))"
    using i(2,3) by (simp_all add: q_ok_def uniq_def)
  moreover have "own_ok (x\<lparr>st := notavail b (st x), held := (held x)(b := Some Clean)\<rparr>)"
    using i(4) i(7) [OF b(1)] b ok by (auto simp: own_ok_def buf_ok_def)
  moreover have "wait_ok (notavail b (st x))" using i(5) b bx by (auto simp: wait_ok_def)
  moreover have "coherent (x\<lparr>st := notavail b (st x), held := (held x)(b := Some Clean)\<rparr>)"
  proof -
    have "pending (notavail b (st x)) = pending (st x)" by (simp add: pending_def fun_eq_iff)
    moreover have "coh_buf (notavail b (st x)) c (((held x)(b := Some Clean)) c) (blog x)" if "c < NBUF" for c
      using i(8) [OF that] ok by (auto simp: coh_buf_def)
    ultimately show ?thesis using i(6) by (simp add: coherent_def)
  qed
  ultimately show ?thesis by (simp add: binv_def)
qed

text \<open>Giving a buffer back.\<close>

lemma binv_brelse:
  assumes inv: "binv tabs x" and b: "held x b = Some Clean \<or> held x b = Some Writing" "b \<notin> set (ioq (st x))"
  shows "binv tabs (x\<lparr>st := brelse b (st x), held := (held x)(b := None)\<rparr>)"
proof -
  note i = binv_D [OF inv]
  have n: "b < NBUF" using b(1) i(9) by auto
  then have bx: "b \<noteq> bfreelist" by (simp add: bfreelist_def)
  note f = brelse_fields [OF bx]
  have fl: "b_flags (brelse b (st x)) c = b_flags (st x) c" if "c < NBUF" "c \<noteq> b" for c
    using that by (simp add: f bfreelist_def)
  obtain as where as: "dlist (av_forw (st x)) (av_back (st x)) bfreelist as"
    "set as = {b. b < NBUF \<and> B_BUSY \<notin> b_flags (st x) b}" using i(1) by (auto simp: av_ok_def)
  have "B_BUSY \<in> b_flags (st x) b" using i(7) [OF n] b(1) by (auto simp: buf_ok_def)
  then have "b \<notin> set as" using as(2) by simp
  then have "\<exists>bs. dlist (av_forw (brelse b (st x))) (av_back (brelse b (st x))) bfreelist bs \<and> set bs = insert b (set as)"
    using brelse_av [OF as(1) bx]
    by (intro exI [of _ "if B_AGE \<in> b_flags (st x) b then b # as else as @ [b]"]) auto
  moreover have "insert b (set as) = {c. c < NBUF \<and> B_BUSY \<notin> b_flags (brelse b (st x)) c}"
    using as(2) n by (auto simp: f bfreelist_def split: if_splits)
  ultimately have "av_ok (brelse b (st x))" by (simp add: av_ok_def)
  moreover have "q_ok tabs (brelse b (st x))"
    using i(2) unfolding q_ok_def f(2-4) by (elim exE, intro exI) auto
  moreover have "uniq (brelse b (st x))" using i(3) by (auto simp: uniq_def f(2,5))
  moreover have "own_ok (x\<lparr>st := brelse b (st x), held := (held x)(b := None)\<rparr>)"
  proof -
    have "buf_ok (b_flags (brelse b (st x)) b) None (b \<in> set (ioq (brelse b (st x)))) (b_dev (brelse b (st x)) b)"
      using i(7) [OF n] b by (auto simp: f buf_ok_def)
    then show ?thesis using i(4) fl by (auto simp: own_ok_def f(2,7))
  qed
  moreover have "wait_ok (brelse b (st x))"
    using i(5) b(2) n unfolding wait_ok_def f by (auto simp: bfreelist_def split: if_splits)
  moreover have "coherent (x\<lparr>st := brelse b (st x), held := (held x)(b := None)\<rparr>)"
  proof -
    have "coh_buf (brelse b (st x)) b None (blog x)"
      using i(8) [OF n] b by (auto simp: coh_buf_def f)
    moreover have "coh_buf (brelse b (st x)) c (held x c) (blog x)" if "c < NBUF" "c \<noteq> b" for c
      using i(8) [OF that(1)] fl [OF that] that by (auto simp: coh_buf_def f(2,5,6,7))
    ultimately have co: "\<forall>c<NBUF. coh_buf (brelse b (st x)) c (((held x)(b := None)) c) (blog x)" by simp
    have "pending (brelse b (st x)) c \<longleftrightarrow> pending (st x) c" if "c < NBUF" for c
      using fl [OF that] b(2) bx by (cases "c = b") (auto simp: pending_def f)
    moreover have "b_dev (brelse b (st x)) c = b_dev (st x) c" if "pending (st x) c" "c < NBUF" for c
      using that i(7) [OF that(2)] b(2) by (cases "c = b") (auto simp: pending_def f buf_ok_def)
    ultimately have "\<exists>c<NBUF. b_dev (brelse b (st x)) c = d \<and> b_blkno (st x) c = k \<and> pending (brelse b (st x)) c"
      if "c < NBUF" "b_dev (st x) c = d" "b_blkno (st x) c = k" "pending (st x) c" for c d k
      using that by (intro exI [of _ c]) simp
    then have "current (bdisk (st x) d k) (blog x d k) \<or>
        (\<exists>c<NBUF. b_dev (brelse b (st x)) c = d \<and> b_blkno (st x) c = k \<and> pending (brelse b (st x)) c)"
      if "d \<noteq> NODEV" for d k
      using i(6) that unfolding coherent_def by blast
    with co show ?thesis by (simp add: coherent_def f(5,8))
  qed
  ultimately show ?thesis by (simp add: binv_def)
qed

text \<open>Reassigning a buffer that was taken from the available list.\<close>

lemma assign_fields:
  "b_flags (assign b dp s) = (b_flags s)(b := {B_BUSY})" "av_forw (assign b dp s) = av_forw s"
  "av_back (assign b dp s) = av_back s" "b_dev (assign b dp s) = b_dev s" "b_blkno (assign b dp s) = b_blkno s"
  "b_data (assign b dp s) = b_data s" "ioq (assign b dp s) = ioq s" "bdisk (assign b dp s) = bdisk s"
  "waiters (assign b dp s) = waiters s"
  by (simp_all add: assign_def Let_def)

lemma heads_NBUF: "h \<in> heads tabs \<Longrightarrow> NBUF \<le> h"
  by (auto simp: heads_def bfreelist_def d_tab_def)

lemma bfreelist_heads [simp]: "bfreelist \<in> heads tabs"
  by (simp add: heads_def)

lemma dlist_neq: "dlist f g h (xs @ b # ys) \<Longrightarrow> f b \<noteq> b \<and> g b \<noteq> b"
  by (cases ys; cases xs rule: rev_cases) (auto simp: dlist_def chain_append)

lemma assign_links:
  assumes q: "dlists (b_forw s) (b_back s) (heads tabs) q" and h: "h \<in> heads tabs" "b \<in> set (q h)"
    and dp: "dp \<in> heads tabs" and b: "b < NBUF"
  shows "dlists (b_forw (assign b dp s)) (b_back (assign b dp s)) (heads tabs)
    ((q(h := remove1 b (q h)))(dp := b # (q(h := remove1 b (q h))) dp))"
proof -
  define f g where "f = (b_forw s)(b_back s b := b_forw s b)" and "g = (b_back s)(b_forw s b := b_back s b)"
  define q' where "q' = q(h := remove1 b (q h))"
  have u: "dlists f g (heads tabs) q'" unfolding f_def g_def q'_def by (rule dlists_unlink [OF q h])
  obtain xs ys where "q h = xs @ b # ys" using h(2) by (auto simp: in_set_conv_decomp)
  moreover have "dlist (b_forw s) (b_back s) h (q h)" using q h(1) by (simp add: dlists_def)
  ultimately have neq: "b_forw s b \<noteq> b" "b_back s b \<noteq> b" and dist: "distinct (q h)"
    using dlist_neq [of "b_forw s" "b_back s" h xs b ys] by (auto simp: dlist_def)
  have bh: "b \<notin> heads tabs" using heads_NBUF [of b tabs] b by auto
  have nb: "b \<notin> set (q' k)" if "k \<in> heads tabs" for k
  proof (cases "k = h")
    case True
    then show ?thesis using dist by (simp add: q'_def)
  next
    case False
    then have "set (q h) \<inter> set (q k) = {}" using q h(1) that unfolding dlists_def by blast
    then show ?thesis using False h(2) by (auto simp: q'_def)
  qed
  have "f dp \<noteq> b"
  proof -
    have "dlist f g dp (q' dp)" using u dp by (simp add: dlists_def)
    then show ?thesis using dlist_closed [of f g dp "q' dp" dp] nb [OF dp] bh dp by auto
  qed
  have e: "b_forw (assign b dp s) = f(b := f dp, dp := b)" "b_back (assign b dp s) = g(b := dp, f dp := b)"
    using neq bh dp \<open>f dp \<noteq> b\<close> by (auto simp: assign_def Let_def f_def g_def)
  show ?thesis using dlists_front [OF u dp bh nb] unfolding e q'_def .
qed

lemma binv_assign:
  assumes inv: "binv tabs x" and b: "held x b = Some Clean" "B_DELWRI \<notin> b_flags (st x) b" "ChBuf b \<notin> waiters (st x)"
    and dp: "dp \<in> heads tabs" "dev \<noteq> NODEV \<Longrightarrow> dp = d_tab (major dev)"
    and new: "\<And>c. c < NBUF \<Longrightarrow> dev \<noteq> NODEV \<Longrightarrow> \<not> (b_dev (st x) c = dev \<and> b_blkno (st x) c = blkno)"
    and s: "s = (assign b dp (st x))\<lparr>b_dev := (b_dev (st x))(b := dev), b_blkno := (b_blkno (st x))(b := blkno)\<rparr>"
  shows "binv tabs (x\<lparr>st := s\<rparr>)"
proof -
  note i = binv_D [OF inv]
  have n: "b < NBUF" using b(1) i(9) by auto
  have bx: "b \<noteq> bfreelist" using n by (simp add: bfreelist_def)
  have ok: "b \<notin> set (ioq (st x))" "B_BUSY \<in> b_flags (st x) b" using i(7) [OF n] b by (auto simp: buf_ok_def)
  note f = assign_fields
  have fl: "b_flags s c = b_flags (st x) c" "b_dev s c = b_dev (st x) c" "b_blkno s c = b_blkno (st x) c"
    if "c \<noteq> b" for c using that by (simp_all add: s f)
  have sb: "b_flags s b = {B_BUSY}" "b_dev s b = dev" "b_blkno s b = blkno" by (simp_all add: s f)
  have same: "ioq s = ioq (st x)" "b_data s = b_data (st x)" "bdisk s = bdisk (st x)" "waiters s = waiters (st x)"
    "av_forw s = av_forw (st x)" "av_back s = av_back (st x)" by (simp_all add: s f)
  have "av_ok s"
  proof -
    have "{c. c < NBUF \<and> B_BUSY \<notin> b_flags s c} = {c. c < NBUF \<and> B_BUSY \<notin> b_flags (st x) c}"
      using ok(2) sb(1) fl(1) by (metis insertI1)
    then show ?thesis using i(1) by (simp add: av_ok_def same)
  qed
  moreover have "q_ok tabs s"
  proof -
    obtain q where q: "dlists (b_forw (st x)) (b_back (st x)) (heads tabs) q" "(\<Union>h\<in>heads tabs. set (q h)) = {..<NBUF}"
      "\<forall>h\<in>heads tabs. \<forall>b\<in>set (q h). b_dev (st x) b = NODEV \<or> h = d_tab (major (b_dev (st x) b))"
      using i(2) by (auto simp: q_ok_def)
    then obtain h where h: "h \<in> heads tabs" "b \<in> set (q h)" using n by blast
    define q' where "q' = (q(h := remove1 b (q h)))(dp := b # (q(h := remove1 b (q h))) dp)"
    have "dlists (b_forw s) (b_back s) (heads tabs) q'"
      using assign_links [OF q(1) h dp(1) n] by (simp add: s q'_def)
    moreover have sub: "set (q' k) \<subseteq> insert b (set (q k))" "set (q k) \<subseteq> insert b (set (q' k))" for k
      using set_remove1_subset [of b "q h"] in_set_remove1 [of _ b "q h"]
      by (fastforce simp: q'_def split: if_splits)+
    have bdp: "b \<in> set (q' dp)" by (simp add: q'_def)
    moreover have "(\<Union>h\<in>heads tabs. set (q' h)) = {..<NBUF}"
    proof -
      have "b \<in> (\<Union>h\<in>heads tabs. set (q' h))" using bdp dp(1) by blast
      then have "(\<Union>h\<in>heads tabs. set (q' h)) = insert b (\<Union>h\<in>heads tabs. set (q' h))" by blast
      also have "\<dots> = insert b (\<Union>h\<in>heads tabs. set (q h))" using sub by blast
      finally show ?thesis using q(2) n by auto
    qed
    moreover have "b_dev s c = NODEV \<or> k = d_tab (major (b_dev s c))" if k: "k \<in> heads tabs" "c \<in> set (q' k)" for k c
    proof (cases "c = b")
      case True
      then have "k = dp" using calculation(1) bdp dp(1) k unfolding dlists_def by blast
      then show ?thesis using True sb(2) dp(2) by auto
    next
      case False
      then have "c \<in> set (q k)" using sub(1) k by blast
      then show ?thesis using q(3) k(1) fl(2) [OF False] by auto
    qed
    ultimately show ?thesis unfolding q_ok_def by blast
  qed
  moreover have "uniq s"
    using i(3) new fl(2,3) sb(2,3) unfolding uniq_def by metis
  moreover have "own_ok (x\<lparr>st := s\<rparr>)"
  proof -
    have "buf_ok (b_flags s b) (held x b) (b \<in> set (ioq s)) (b_dev s b)"
      using ok b(1) by (auto simp: sb buf_ok_def same)
    moreover have "buf_ok (b_flags s c) (held x c) (c \<in> set (ioq s)) (b_dev s c)" if "c < NBUF" "c \<noteq> b" for c
      using i(7) [OF that(1)] fl [OF that(2)] by (simp add: same)
    ultimately show ?thesis using i(4) unfolding own_ok_def by (auto simp: same)
  qed
  moreover have "wait_ok s"
    using i(5) b(3) bx fl(1) unfolding wait_ok_def same by (metis bchan.inject)
  moreover have "coherent (x\<lparr>st := s\<rparr>)"
  proof -
    have "coh_buf s c (held x c) (blog x)" if "c < NBUF" for c
      using i(8) [OF that] fl [of c] ok by (cases "c = b") (auto simp: coh_buf_def same sb)
    moreover have "current (bdisk s d k) (blog x d k) \<or> (\<exists>c<NBUF. b_dev s c = d \<and> b_blkno s c = k \<and> pending s c)"
      if "d \<noteq> NODEV" for d k
    proof -
      have "pending s c \<and> b_dev s c = b_dev (st x) c \<and> b_blkno s c = b_blkno (st x) c" if "pending (st x) c" for c
      proof -
        have "c \<noteq> b" using that ok b(2) by (auto simp: pending_def)
        then show ?thesis using fl [of c] that by (simp add: pending_def same)
      qed
      then show ?thesis using i(6) that unfolding coherent_def same by metis
    qed
    ultimately show ?thesis by (simp add: coherent_def)
  qed
  ultimately show ?thesis by (simp add: binv_def)
qed

subsection \<open>Transfers keep the invariant\<close>

definition wflags :: "bflag set \<Rightarrow> bflag set" where
  "wflags F = F - {B_READ, B_DONE, B_ERROR, B_DELWRI, B_AGE}"

lemma bawrite_result:
  obtains t where "bawrite b s = Inr ((), t)"
    "b_flags t = (b_flags s)(b := insert B_ASYNC (wflags (b_flags s b)) \<union> (if B_DELWRI \<in> b_flags s b then {B_AGE} else {}))"
    "ioq t = ioq s @ [b]" "av_forw t = av_forw s" "av_back t = av_back s" "b_forw t = b_forw s" "b_back t = b_back s"
    "b_dev t = b_dev s" "b_blkno t = b_blkno s" "b_data t = b_data s" "bdisk t = bdisk s" "waiters t = waiters s"
proof (cases "B_DELWRI \<in> b_flags s b")
  case True
  show ?thesis
    by (rule that [of "case bawrite b s of Inr (_, t) \<Rightarrow> t | Inl (_, t) \<Rightarrow> t"])
      (use True in \<open>auto simp: bawrite_def bwrite_def fl_defs Let_def wflags_def geterror_def fun_eq_iff\<close>)
next
  case False
  show ?thesis
    by (rule that [of "case bawrite b s of Inr (_, t) \<Rightarrow> t | Inl (_, t) \<Rightarrow> t"])
      (use False in \<open>auto simp: bawrite_def bwrite_def fl_defs Let_def wflags_def geterror_def fun_eq_iff\<close>)
qed

lemma put_log_other: "\<not> (d = b_dev (st x) b \<and> k = b_blkno (st x) b) \<Longrightarrow> put_log b x d k = blog x d k"
  by (auto simp: put_log_def)

lemma binv_bawrite:
  assumes inv: "binv tabs x" and b: "held x b = Some Clean \<or> held x b = Some Dirty" "b_dev (st x) b \<noteq> NODEV"
    and t: "bawrite b (st x) = Inr ((), t)"
  shows "binv tabs (x\<lparr>st := t, held := (held x)(b := None), blog := put_log b x\<rparr>)"
proof -
  note i = binv_D [OF inv]
  have n: "b < NBUF" using b(1) i(9) by auto
  have ok: "b \<notin> set (ioq (st x))" "B_BUSY \<in> b_flags (st x) b" "B_ASYNC \<notin> b_flags (st x) b"
    using i(7) [OF n] b by (auto simp: buf_ok_def)
  obtain t' where "bawrite b (st x) = Inr ((), t')" and e:
    "b_flags t' = (b_flags (st x))(b := insert B_ASYNC (wflags (b_flags (st x) b)) \<union> (if B_DELWRI \<in> b_flags (st x) b then {B_AGE} else {}))"
    "ioq t' = ioq (st x) @ [b]" "av_forw t' = av_forw (st x)" "av_back t' = av_back (st x)" "b_forw t' = b_forw (st x)"
    "b_back t' = b_back (st x)" "b_dev t' = b_dev (st x)" "b_blkno t' = b_blkno (st x)" "b_data t' = b_data (st x)"
    "bdisk t' = bdisk (st x)" "waiters t' = waiters (st x)"
    by (rule bawrite_result [of b "st x"])
  moreover from this t have "t' = t" by simp
  ultimately have e: "b_flags t = (b_flags (st x))(b := insert B_ASYNC (wflags (b_flags (st x) b)) \<union> (if B_DELWRI \<in> b_flags (st x) b then {B_AGE} else {}))"
    "ioq t = ioq (st x) @ [b]" "av_forw t = av_forw (st x)" "av_back t = av_back (st x)" "b_forw t = b_forw (st x)"
    "b_back t = b_back (st x)" "b_dev t = b_dev (st x)" "b_blkno t = b_blkno (st x)" "b_data t = b_data (st x)"
    "bdisk t = bdisk (st x)" "waiters t = waiters (st x)" by auto
  show ?thesis
  proof (rule binv_update [OF inv n e(3-8)])
    show "buf_ok (b_flags t b) None (b \<in> set (ioq t)) (b_dev t b)"
      using ok b by (auto simp: e buf_ok_def wflags_def)
    show "coh_buf t b None (put_log b x)" by (simp add: coh_buf_def put_log_def e)
    show "ChBuf b \<in> waiters t \<Longrightarrow> B_WANTED \<in> b_flags t b \<or> b \<in> set (ioq t) \<and> B_ASYNC \<notin> b_flags t b"
      using i(5) ok by (auto simp: wait_ok_def e wflags_def)
  qed (use ok i(11) in \<open>auto simp: e wflags_def pending_def put_log_other\<close>)
qed

lemma binv_bwrite:
  assumes inv: "binv tabs x" and b: "held x b = Some Clean \<or> held x b = Some Dirty" "b_dev (st x) b \<noteq> NODEV"
    and t: "bwrite b (st x) = Inl (Sleeping c, t)"
  shows "binv tabs (x\<lparr>st := t, held := (held x)(b := Some Writing), blog := put_log b x\<rparr>)"
proof -
  note i = binv_D [OF inv]
  have n: "b < NBUF" using b(1) i(9) by auto
  have ok: "b \<notin> set (ioq (st x))" "B_BUSY \<in> b_flags (st x) b" "B_ASYNC \<notin> b_flags (st x) b"
    using i(7) [OF n] b by (auto simp: buf_ok_def)
  have e: "b_flags t = (b_flags (st x))(b := wflags (b_flags (st x) b))"
    "ioq t = ioq (st x) @ [b]" "av_forw t = av_forw (st x)" "av_back t = av_back (st x)" "b_forw t = b_forw (st x)"
    "b_back t = b_back (st x)" "b_dev t = b_dev (st x)" "b_blkno t = b_blkno (st x)" "b_data t = b_data (st x)"
    "bdisk t = bdisk (st x)" "waiters t = insert (ChBuf b) (waiters (st x))"
    using t ok(3) by (auto simp: bwrite_def fl_defs Let_def iowait_def bsleep_def wflags_def)
  show ?thesis
  proof (rule binv_update [OF inv n e(3-8)])
    show "buf_ok (b_flags t b) (Some Writing) (b \<in> set (ioq t)) (b_dev t b)"
      using ok b by (auto simp: e buf_ok_def wflags_def)
    show "coh_buf t b (Some Writing) (put_log b x)" by (simp add: coh_buf_def put_log_def e)
  qed (use ok i(11) in \<open>auto simp: e wflags_def pending_def put_log_other\<close>)
qed

lemma blog_id [simp]: "x\<lparr>st := s, held := h, blog := blog x\<rparr> = x\<lparr>st := s, held := h\<rparr>"
  by (cases x) simp

lemma blog_last: "x\<lparr>blog := l, st := s, held := h\<rparr> = x\<lparr>st := s, held := h, blog := l\<rparr>"
  by (cases x) simp

lemma held_last: "x\<lparr>held := h, st := s\<rparr> = x\<lparr>st := s, held := h\<rparr>"
  by (cases x) simp

lemma held_id: "held x b = h \<Longrightarrow> x\<lparr>st := s, held := (held x)(b := h)\<rparr> = x\<lparr>st := s\<rparr>"
  by (cases x) (auto simp: fun_upd_idem)

lemma disk_current:
  assumes inv: "binv tabs x" and b: "b < NBUF" "b_dev (st x) b \<noteq> NODEV"
  shows "current (bdisk (st x) (b_dev (st x) b) (b_blkno (st x) b)) (blog x (b_dev (st x) b) (b_blkno (st x) b)) \<or> pending (st x) b"
proof -
  have "current (bdisk (st x) (b_dev (st x) b) (b_blkno (st x) b)) (blog x (b_dev (st x) b) (b_blkno (st x) b)) \<or>
      (\<exists>c<NBUF. b_dev (st x) c = b_dev (st x) b \<and> b_blkno (st x) c = b_blkno (st x) b \<and> pending (st x) c)"
    using binv_D(6) [OF inv] b(2) by (simp add: coherent_def)
  moreover have "c = b" if "c < NBUF" "b_dev (st x) c = b_dev (st x) b" "b_blkno (st x) c = b_blkno (st x) b" for c
    using binv_D(3) [OF inv] b that unfolding uniq_def by blast
  ultimately show ?thesis by blast
qed

lemma binv_start:
  assumes inv: "binv tabs x" and b: "held x b = Some Clean" "b_dev (st x) b \<noteq> NODEV" "B_DONE \<notin> b_flags (st x) b"
  shows "binv tabs (x\<lparr>st := start_read b (st x), held := (held x)(b := Some Reading)\<rparr>)"
    and "binv tabs (x\<lparr>st := start_ahead b (st x), held := (held x)(b := None)\<rparr>)"
proof -
  note i = binv_D [OF inv]
  have n: "b < NBUF" using b(1) i(9) by auto
  have ok: "b \<notin> set (ioq (st x))" "B_BUSY \<in> b_flags (st x) b" "B_ASYNC \<notin> b_flags (st x) b"
    "B_ERROR \<notin> b_flags (st x) b" "B_DELWRI \<notin> b_flags (st x) b"
    using i(7) [OF n] b by (auto simp: buf_ok_def)
  have disk: "current (bdisk (st x) (b_dev (st x) b) (b_blkno (st x) b)) (blog x (b_dev (st x) b) (b_blkno (st x) b))"
    using disk_current [OF inv n b(2)] ok by (simp add: pending_def)
  have "binv tabs (x\<lparr>st := start_read b (st x), held := (held x)(b := Some Reading), blog := blog x\<rparr>)"
    by (rule binv_update [OF inv n])
      (use ok i(5,11) b disk in \<open>auto simp: start_read_def fl_defs Let_def buf_ok_def coh_buf_def wait_ok_def\<close>)
  then show "binv tabs (x\<lparr>st := start_read b (st x), held := (held x)(b := Some Reading)\<rparr>)" by simp
  have "binv tabs (x\<lparr>st := start_ahead b (st x), held := (held x)(b := None), blog := blog x\<rparr>)"
    by (rule binv_update [OF inv n])
      (use ok i(5,11) b disk in \<open>auto simp: start_ahead_def fl_defs Let_def buf_ok_def coh_buf_def wait_ok_def\<close>)
  then show "binv tabs (x\<lparr>st := start_ahead b (st x), held := (held x)(b := None)\<rparr>)" by simp
qed

lemma binv_iowait:
  assumes inv: "binv tabs x" and b: "held x b = Some Reading \<or> held x b = Some Writing"
  shows "iowait b (st x) = Inr ((), s) \<Longrightarrow> binv tabs (x\<lparr>st := s, held := (held x)(b := Some Clean)\<rparr>)"
    and "iowait b (st x) = Inl (Sleeping c, s) \<Longrightarrow> binv tabs (x\<lparr>st := s\<rparr>)"
proof -
  note i = binv_D [OF inv]
  have n: "b < NBUF" using b i(9) by auto
  note ok = i(7) [OF n]
  note disk = disk_current [OF inv n]
  show "binv tabs (x\<lparr>st := s, held := (held x)(b := Some Clean)\<rparr>)" if "iowait b (st x) = Inr ((), s)"
  proof -
    have d: "B_DONE \<in> b_flags (st x) b" and s: "s = geterror b (st x)"
      using that by (auto simp: iowait_def bsleep_def split: if_splits)
    have e: "b_flags s = b_flags (st x)" "ioq s = ioq (st x)" "av_forw s = av_forw (st x)" "av_back s = av_back (st x)"
      "b_forw s = b_forw (st x)" "b_back s = b_back (st x)" "b_dev s = b_dev (st x)" "b_blkno s = b_blkno (st x)"
      "b_data s = b_data (st x)" "bdisk s = bdisk (st x)" "waiters s = waiters (st x)"
      by (auto simp: s geterror_def)
    have "binv tabs (x\<lparr>st := s, held := (held x)(b := Some Clean), blog := blog x\<rparr>)"
      by (rule binv_update [OF inv n e(3-8)])
        (use ok i(5,8,11) n b d disk in \<open>auto simp: e buf_ok_def coh_buf_def wait_ok_def pending_def\<close>)
    then show ?thesis by simp
  qed
  show "binv tabs (x\<lparr>st := s\<rparr>)" if "iowait b (st x) = Inl (Sleeping c, s)"
  proof -
    have d: "B_DONE \<notin> b_flags (st x) b" and s: "s = (st x)\<lparr>waiters := insert (ChBuf b) (waiters (st x))\<rparr>"
      using that by (auto simp: iowait_def bsleep_def split: if_splits)
    have "binv tabs (x\<lparr>st := s, held := (held x)(b := held x b), blog := blog x\<rparr>)"
      by (rule binv_update [OF inv n])
        (use ok i(5,8,11) n b d disk in \<open>auto simp: s buf_ok_def coh_buf_def wait_ok_def pending_def\<close>)
    then show ?thesis by (simp add: held_id)
  qed
qed

lemma binv_modify:
  assumes inv: "binv tabs x" and b: "held x b = Some Clean \<or> held x b = Some Dirty"
  shows "binv tabs (x\<lparr>st := (st x)\<lparr>b_data := (b_data (st x))(b := d)\<rparr>, held := (held x)(b := Some Dirty)\<rparr>)"
proof -
  note i = binv_D [OF inv]
  have n: "b < NBUF" using b i(9) by auto
  have "binv tabs (x\<lparr>st := (st x)\<lparr>b_data := (b_data (st x))(b := d)\<rparr>, held := (held x)(b := Some Dirty), blog := blog x\<rparr>)"
    by (rule binv_update [OF inv n])
      (use i(7) [OF n] i(5,11) b disk_current [OF inv n] in \<open>auto simp: buf_ok_def coh_buf_def wait_ok_def pending_def\<close>)
  then show ?thesis by simp
qed

lemma binv_bdwrite:
  assumes inv: "binv tabs x" and b: "held x b = Some Clean \<or> held x b = Some Dirty" "b_dev (st x) b \<noteq> NODEV"
      "B_ERROR \<notin> b_flags (st x) b"
    and t: "bdwrite b (st x) = Inr ((), t)"
  shows "binv tabs (x\<lparr>st := t, held := (held x)(b := None), blog := put_log b x\<rparr>)"
proof (cases "B_TAPE \<in> b_flags (st x) (d_tab (major (b_dev (st x) b)))")
  case True
  then show ?thesis using binv_bawrite [OF inv b(1,2)] t by (simp add: bdwrite_def)
next
  case False
  note i = binv_D [OF inv]
  have n: "b < NBUF" using b i(9) by auto
  have t': "t = brelse b (set_fl b {B_DELWRI, B_DONE} (st x))" using t False by (simp add: bdwrite_def)
  have *: "binv tabs (x\<lparr>st := set_fl b {B_DELWRI, B_DONE} (st x), held := (held x)(b := Some Clean), blog := put_log b x\<rparr>)"
    (is "binv tabs ?y")
    by (rule binv_update [OF inv n])
      (use i(7) [OF n] i(5,11) b in \<open>auto simp: fl_defs buf_ok_def coh_buf_def wait_ok_def pending_def put_log_def\<close>)
  have "b \<notin> set (ioq (st x))" using i(7) [OF n] b by (auto simp: buf_ok_def)
  then have "binv tabs (?y\<lparr>st := brelse b (st ?y), held := (held ?y)(b := None)\<rparr>)"
    by (intro binv_brelse [OF *]) (simp_all add: fl_defs)
  then show ?thesis by (simp add: t' blog_last)
qed

lemma binv_drop:
  assumes inv: "binv tabs x" and b: "held x b = Some Dirty"
  shows "binv tabs (x\<lparr>st := brelse b (st x), held := (held x)(b := None), blog := forget b x\<rparr>)"
proof -
  note i = binv_D [OF inv]
  have n: "b < NBUF" using b i(9) by auto
  have *: "binv tabs (x\<lparr>st := st x, held := (held x)(b := Some Clean), blog := forget b x\<rparr>)" (is "binv tabs ?y")
    by (rule binv_update [OF inv n])
      (use i(7) [OF n] i(5,11) b in \<open>auto simp: buf_ok_def coh_buf_def wait_ok_def forget_def\<close>)
  have "b \<notin> set (ioq (st x))" using i(7) [OF n] b by (auto simp: buf_ok_def)
  then have "binv tabs (?y\<lparr>st := brelse b (st ?y), held := (held ?y)(b := None)\<rparr>)" by (intro binv_brelse [OF *]) simp_all
  then show ?thesis by (simp add: blog_last)
qed

lemma iodone_cases:
  "b \<noteq> bfreelist \<Longrightarrow> iodone b s =
    (if B_ASYNC \<in> b_flags s b then brelse b (clr_fl b {B_ASYNC} (set_fl b {B_DONE} s))
     else bwakeup (ChBuf b) (clr_fl b {B_WANTED} (set_fl b {B_DONE} s)))"
  by (simp only: iodone_def Let_def brelse_clr) (simp add: set_fl_def)

lemma binv_iodone:
  assumes inv: "binv tabs x" and b: "b \<in> set (ioq (st x))"
    and same: "av_forw s = av_forw (st x)" "av_back s = av_back (st x)" "b_forw s = b_forw (st x)"
      "b_back s = b_back (st x)" "b_dev s = b_dev (st x)" "b_blkno s = b_blkno (st x)"
      "ioq s = remove1 b (ioq (st x))" "waiters s = waiters (st x)"
    and fl: "b_flags s = (b_flags (st x))(b := b_flags (st x) b \<union> E)" "E \<subseteq> {B_ERROR}"
    and data: "\<And>c. c \<noteq> b \<Longrightarrow> b_data s c = b_data (st x) c"
    and lg: "\<And>d k. \<not> (d = b_dev s b \<and> k = b_blkno s b) \<Longrightarrow> l d k = blog x d k \<and> bdisk s d k = bdisk (st x) d k"
    and coh: "E = {} \<Longrightarrow> current (b_data s b) (l (b_dev s b) (b_blkno s b))"
      "current (bdisk s (b_dev s b) (b_blkno s b)) (l (b_dev s b) (b_blkno s b))"
  shows "binv tabs (x\<lparr>st := iodone b s, blog := l\<rparr>)"
proof -
  note i = binv_D [OF inv]
  have n: "b < NBUF" using b i(10) by auto
  then have bx: "b \<noteq> bfreelist" by (simp add: bfreelist_def)
  have io: "set (ioq s) = set (ioq (st x)) - {b}" "distinct (ioq s)" using i(11) by (simp_all add: same)
  have E: "E = {} \<or> E = {B_ERROR}" using fl(2) by auto
  note ok = i(7) [OF n]
  show ?thesis
  proof (cases "B_ASYNC \<in> b_flags (st x) b")
    case True
    then have h: "held x b = None" using ok b by (auto simp: buf_ok_def)
    define s1 where "s1 = clr_fl b {B_ASYNC} (set_fl b {B_DONE} s)"
    have e: "b_flags s1 = (b_flags (st x))(b := insert B_DONE (b_flags (st x) b \<union> E) - {B_ASYNC})"
      "ioq s1 = ioq s" "b_dev s1 = b_dev (st x)" "b_blkno s1 = b_blkno (st x)" "b_data s1 = b_data s" "bdisk s1 = bdisk s"
      "waiters s1 = waiters (st x)"
      by (simp_all add: s1_def fl_defs fl same)
    have *: "binv tabs (x\<lparr>st := s1, held := (held x)(b := Some Clean), blog := l\<rparr>)" (is "binv tabs ?y")
    proof (rule binv_update [OF inv n])
      show "buf_ok (b_flags s1 b) (Some Clean) (b \<in> set (ioq s1)) (b_dev s1 b)"
        using ok b E io by (auto simp: e buf_ok_def)
      show "coh_buf s1 b (Some Clean) l" using coh E ok b io by (auto simp: e coh_buf_def same buf_ok_def)
      show "ChBuf b \<in> waiters s1 \<Longrightarrow> B_WANTED \<in> b_flags s1 b \<or> b \<in> set (ioq s1) \<and> B_ASYNC \<notin> b_flags s1 b"
        using i(5) True by (auto simp: e wait_ok_def)
    qed (use ok b E io data lg coh in \<open>auto simp: s1_def fl_defs fl(1) same buf_ok_def\<close>)
    have "binv tabs (?y\<lparr>st := brelse b (st ?y), held := (held ?y)(b := None)\<rparr>)"
      using io by (intro binv_brelse [OF *]) (simp_all add: e)
    moreover have "?y\<lparr>st := brelse b (st ?y), held := (held ?y)(b := None)\<rparr> = x\<lparr>st := brelse b s1, blog := l\<rparr>"
      using h by (cases x) (auto simp: fun_upd_idem)
    moreover have "iodone b s = brelse b s1" using True by (simp add: iodone_cases [OF bx] s1_def fl)
    ultimately show ?thesis by simp
  next
    case False
    define s1 where "s1 = bwakeup (ChBuf b) (clr_fl b {B_WANTED} (set_fl b {B_DONE} s))"
    have e: "b_flags s1 = (b_flags (st x))(b := insert B_DONE (b_flags (st x) b \<union> E) - {B_WANTED})"
      "ioq s1 = ioq s" "b_dev s1 = b_dev (st x)" "b_blkno s1 = b_blkno (st x)" "b_data s1 = b_data s" "bdisk s1 = bdisk s"
      "waiters s1 = waiters (st x) - {ChBuf b}"
      by (simp_all add: s1_def fl_defs fl same)
    have "binv tabs (x\<lparr>st := s1, held := (held x)(b := held x b), blog := l\<rparr>)"
    proof (rule binv_update [OF inv n])
      show "buf_ok (b_flags s1 b) (held x b) (b \<in> set (ioq s1)) (b_dev s1 b)"
        using ok b E io False by (auto simp: e buf_ok_def)
      show "coh_buf s1 b (held x b) l" using coh E ok b io by (auto simp: e coh_buf_def same buf_ok_def)
    qed (use ok b E io data lg coh in \<open>auto simp: s1_def fl_defs fl(1) same buf_ok_def\<close>)
    moreover have "iodone b s = s1" using False E by (auto simp: iodone_cases [OF bx] s1_def fl)
    ultimately show ?thesis by (simp add: fun_upd_idem)
  qed
qed

lemma binv_transfer:
  assumes inv: "binv tabs x" and b: "b \<in> set (ioq (st x))"
  shows "binv tabs (x\<lparr>st := iodone b (transfer b (st x))\<rparr>)"
proof -
  note i = binv_D [OF inv]
  have n: "b < NBUF" using b i(10) by auto
  note ok = i(7) [OF n]
  have dev: "b_dev (st x) b \<noteq> NODEV" and del: "B_DELWRI \<notin> b_flags (st x) b" using ok b by (auto simp: buf_ok_def)
  have "B_READ \<in> b_flags (st x) b \<Longrightarrow>
      current (bdisk (st x) (b_dev (st x) b) (b_blkno (st x) b)) (blog x (b_dev (st x) b) (b_blkno (st x) b))"
    using disk_current [OF inv n dev] del by (auto simp: pending_def)
  moreover have "B_READ \<notin> b_flags (st x) b \<Longrightarrow> current (b_data (st x) b) (blog x (b_dev (st x) b) (b_blkno (st x) b))"
    using i(8) [OF n] b dev by (auto simp: coh_buf_def)
  ultimately have "binv tabs (x\<lparr>st := iodone b (transfer b (st x)), blog := blog x\<rparr>)"
    by (intro binv_iodone [OF inv b, where E = "{}"]) (auto simp: transfer_def Let_def)
  then show ?thesis by simp
qed

lemma binv_error:
  assumes inv: "binv tabs x" and b: "b \<in> set (ioq (st x))"
  shows "B_READ \<in> b_flags (st x) b \<Longrightarrow> binv tabs (x\<lparr>st := iodone b (io_error b e (st x))\<rparr>)"
    and "binv tabs (x\<lparr>st := iodone b (io_error b e (st x)), blog := forget b x\<rparr>)"
proof -
  note i = binv_D [OF inv]
  have n: "b < NBUF" using b i(10) by auto
  note ok = i(7) [OF n]
  have dev: "b_dev (st x) b \<noteq> NODEV" and del: "B_DELWRI \<notin> b_flags (st x) b" using ok b by (auto simp: buf_ok_def)
  show "binv tabs (x\<lparr>st := iodone b (io_error b e (st x))\<rparr>)" if "B_READ \<in> b_flags (st x) b"
  proof -
    have "current (bdisk (st x) (b_dev (st x) b) (b_blkno (st x) b)) (blog x (b_dev (st x) b) (b_blkno (st x) b))"
      using disk_current [OF inv n dev] del that by (auto simp: pending_def)
    then have "binv tabs (x\<lparr>st := iodone b (io_error b e (st x)), blog := blog x\<rparr>)"
      by (intro binv_iodone [OF inv b, where E = "{B_ERROR}"]) (auto simp: io_error_def fl_defs)
    then show ?thesis by simp
  qed
  show "binv tabs (x\<lparr>st := iodone b (io_error b e (st x)), blog := forget b x\<rparr>)"
    by (rule binv_iodone [OF inv b, where E = "{B_ERROR}"]) (auto simp: io_error_def fl_defs forget_def)
qed

text \<open>Writing out a delayed block of the available list.\<close>

lemma binv_flush_one:
  assumes inv: "binv tabs x" and b: "b < NBUF" "B_BUSY \<notin> b_flags (st x) b" "B_DELWRI \<in> b_flags (st x) b"
  obtains t where "bwrite b (set_fl b {B_ASYNC} (notavail b (st x))) = Inr ((), t)" "binv tabs (x\<lparr>st := t\<rparr>)"
    "{c. c < NBUF \<and> B_BUSY \<notin> b_flags t c} = {c. c < NBUF \<and> B_BUSY \<notin> b_flags (st x) c} - {b}"
proof -
  define y where "y = x\<lparr>st := notavail b (st x), held := (held x)(b := Some Clean)\<rparr>"
  note i = binv_D [OF inv]
  have h: "held x b = None" and dev: "b_dev (st x) b \<noteq> NODEV" and ok: "B_DONE \<in> b_flags (st x) b" "B_ERROR \<notin> b_flags (st x) b"
    using i(7) [OF b(1)] b by (auto simp: buf_ok_def)
  have y: "binv tabs y" unfolding y_def by (rule binv_notavail [OF inv b(1,2)])
  obtain t where t: "bawrite b (st y) = Inr ((), t)"
    "b_flags t = (b_flags (st y))(b := insert B_ASYNC (wflags (b_flags (st y) b)) \<union> (if B_DELWRI \<in> b_flags (st y) b then {B_AGE} else {}))"
    by (rule bawrite_result [of b "st y"]) blast
  have "binv tabs (y\<lparr>st := t, held := (held y)(b := None), blog := put_log b y\<rparr>)"
    by (rule binv_bawrite [OF y]) (use t dev in \<open>simp_all add: y_def\<close>)
  moreover have "y\<lparr>st := t, held := (held y)(b := None), blog := put_log b y\<rparr> = x\<lparr>st := t, blog := put_log b y\<rparr>"
    using h by (cases x) (auto simp: y_def fun_upd_idem)
  ultimately have p: "binv tabs (x\<lparr>st := t, blog := put_log b y\<rparr>)" by simp
  have "current (b_data (st x) b) (blog x (b_dev (st x) b) (b_blkno (st x) b))"
    using i(8) [OF b(1)] dev ok h by (auto simp: coh_buf_def)
  then have "put_log b y d k = blog x d k \<or> blog x d k = None" for d k by (auto simp: put_log_def y_def)
  then have "binv tabs (x\<lparr>st := t\<rparr>)" using binv_less [OF p, of "blog x"] by auto
  moreover have "bwrite b (set_fl b {B_ASYNC} (notavail b (st x))) = Inr ((), t)"
    using t(1) by (simp add: bawrite_def y_def)
  moreover have "{c. c < NBUF \<and> B_BUSY \<notin> b_flags t c} = {c. c < NBUF \<and> B_BUSY \<notin> b_flags (st x) c} - {b}"
    using b by (auto simp: t(2) y_def wflags_def)
  ultimately show ?thesis using that by blast
qed

subsection \<open>Searching keeps to the lists\<close>

lemma find_buf_list:
  "\<lbrakk>chain (b_forw s) g a xs dp; dp \<notin> set xs; length xs < n\<rbrakk> \<Longrightarrow>
    find_buf n dp dev blkno (b_forw s a) s = Some (find (\<lambda>b. b_blkno s b = blkno \<and> b_dev s b = dev) xs)"
proof (induction xs arbitrary: a n)
  case Nil
  then show ?case by (cases n) auto
next
  case (Cons y ys)
  then obtain m where n: "n = Suc m" by (cases n) auto
  show ?case using Cons.prems Cons.IH [of y m] by (auto simp: n)
qed

lemma find_delwri_list:
  "\<lbrakk>chain (av_forw s) g a xs bfreelist; bfreelist \<notin> set xs; length xs < n\<rbrakk> \<Longrightarrow>
    find_delwri n dev (av_forw s a) s =
      Some (find (\<lambda>b. B_DELWRI \<in> b_flags s b \<and> (dev = NODEV \<or> dev = b_dev s b)) xs)"
proof (induction xs arbitrary: a n)
  case Nil
  then show ?case by (cases n) auto
next
  case (Cons y ys)
  then obtain m where n: "n = Suc m" by (cases n) auto
  show ?case using Cons.prems Cons.IH [of y m] by (auto simp: n)
qed

lemma pool_list: "distinct xs \<Longrightarrow> set xs \<subseteq> {..<NBUF} \<Longrightarrow> length xs < NBUF + 1"
  using card_mono [of "{..<NBUF}" "set xs"] distinct_card [of xs] by simp

lemma find_buf_ok:
  assumes q: "q_ok tabs s" and dev: "dev \<noteq> NODEV" "d_tab (major dev) \<in> heads tabs"
  obtains r where "find_buf (NBUF + 1) (d_tab (major dev)) dev blkno (b_forw s (d_tab (major dev))) s = Some r"
    "r = None \<Longrightarrow> \<forall>c<NBUF. \<not> (b_dev s c = dev \<and> b_blkno s c = blkno)"
    "\<And>b. r = Some b \<Longrightarrow> b < NBUF \<and> b_dev s b = dev \<and> b_blkno s b = blkno"
proof -
  let ?dp = "d_tab (major dev)"
  let ?P = "\<lambda>b. b_blkno s b = blkno \<and> b_dev s b = dev"
  obtain q where q: "dlists (b_forw s) (b_back s) (heads tabs) q" "(\<Union>h\<in>heads tabs. set (q h)) = {..<NBUF}"
    "\<forall>h\<in>heads tabs. \<forall>b\<in>set (q h). b_dev s b = NODEV \<or> h = d_tab (major (b_dev s b))"
    using assms(1) by (auto simp: q_ok_def)
  have d: "dlist (b_forw s) (b_back s) ?dp (q ?dp)" using q(1) dev(2) by (simp add: dlists_def)
  have sub: "set (q ?dp) \<subseteq> {..<NBUF}" using q(2) dev(2) by blast
  have F: "find_buf (NBUF + 1) ?dp dev blkno (b_forw s ?dp) s = Some (find ?P (q ?dp))"
    using d pool_list [OF _ sub] by (intro find_buf_list [where g = "b_back s"]) (auto simp: dlist_def)
  have N: "\<forall>c<NBUF. \<not> (b_dev s c = dev \<and> b_blkno s c = blkno)" if none: "find ?P (q ?dp) = None"
  proof (intro allI impI notI)
    fix c assume c: "c < NBUF" "b_dev s c = dev \<and> b_blkno s c = blkno"
    then obtain h where "h \<in> heads tabs" "c \<in> set (q h)" using q(2) by blast
    then have "c \<in> set (q ?dp)" using q(3) c dev(1) by auto
    then show False using none c by (auto simp: find_None_iff)
  qed
  have S: "b < NBUF \<and> b_dev s b = dev \<and> b_blkno s b = blkno" if "find ?P (q ?dp) = Some b" for b
    using that sub by (auto simp: find_Some_iff dest: nth_mem)
  show ?thesis by (rule that [OF F N S])
qed

text \<open>The first available buffer.\<close>

lemma first_avail:
  assumes "av_ok s" "av_forw s bfreelist \<noteq> bfreelist"
  shows "av_forw s bfreelist < NBUF" "B_BUSY \<notin> b_flags s (av_forw s bfreelist)"
proof -
  obtain as where as: "dlist (av_forw s) (av_back s) bfreelist as" "set as = {b. b < NBUF \<and> B_BUSY \<notin> b_flags s b}"
    using assms(1) by (auto simp: av_ok_def)
  then have "av_forw s bfreelist \<in> set as" using dlist_head [OF as(1)] assms(2) by (cases as) auto
  then show "av_forw s bfreelist < NBUF" "B_BUSY \<notin> b_flags s (av_forw s bfreelist)" using as(2) by auto
qed

lemma binv_count:
  assumes "binv tabs x"
  shows "binv tabs (x\<lparr>st := count f (st x)\<rparr>)"
proof -
  have "pending (count f s) b \<longleftrightarrow> pending s b" "coh_buf (count f s) b h l \<longleftrightarrow> coh_buf s b h l" for s b h l
    by (simp_all add: count_def pending_def coh_buf_def)
  then show ?thesis
    using assms by (simp add: binv_def av_ok_def q_ok_def uniq_def own_ok_def wait_ok_def coherent_def)
      (simp add: count_def)
qed

lemma binv_sleep_buf:
  assumes inv: "binv tabs x" and b: "b < NBUF" "B_BUSY \<in> b_flags (st x) b"
    and s: "bsleep (ChBuf b) (set_fl b {B_WANTED} (st x)) = Inl (Sleeping c, s)"
  shows "binv tabs (x\<lparr>st := s\<rparr>)"
proof -
  note i = binv_D [OF inv]
  have e: "s = (st x)\<lparr>b_flags := (b_flags (st x))(b := insert B_WANTED (b_flags (st x) b)),
      waiters := insert (ChBuf b) (waiters (st x))\<rparr>"
    using s by (auto simp: bsleep_def fl_defs)
  have "binv tabs (x\<lparr>st := s, held := (held x)(b := held x b), blog := blog x\<rparr>)"
  proof (rule binv_update [OF inv b(1)])
    show "buf_ok (b_flags s b) (held x b) (b \<in> set (ioq s)) (b_dev s b)"
      using i(7) [OF b(1)] by (simp add: e buf_ok_def)
    show "coh_buf s b (held x b) (blog x)" using i(8) [OF b(1)] by (simp add: e coh_buf_def)
    show "b_dev s b \<noteq> NODEV \<Longrightarrow> current (bdisk s (b_dev s b) (b_blkno s b)) (blog x (b_dev s b) (b_blkno s b)) \<or> pending s b"
      using disk_current [OF inv b(1)] by (simp add: e pending_def)
  qed (use i(11) b in \<open>auto simp: e\<close>)
  then show ?thesis by (simp add: held_id)
qed

lemma binv_sleep_free:
  assumes inv: "binv tabs x" and s: "bsleep ChFree (set_fl bfreelist {B_WANTED} (st x)) = Inl (Sleeping c, s)"
  shows "binv tabs (x\<lparr>st := s\<rparr>)"
proof -
  note i = binv_D [OF inv]
  have e: "s = (st x)\<lparr>b_flags := (b_flags (st x))(bfreelist := b_flags (st x) bfreelist \<union> {B_WANTED}),
      waiters := insert ChFree (waiters (st x))\<rparr>"
    using s by (simp add: bsleep_def fl_defs)
  have fl: "b_flags s b = b_flags (st x) b" if "b < NBUF" for b using that by (simp add: e bfreelist_def)
  have same: "av_forw s = av_forw (st x)" "av_back s = av_back (st x)" "b_forw s = b_forw (st x)"
    "b_back s = b_back (st x)" "b_dev s = b_dev (st x)" "b_blkno s = b_blkno (st x)" "ioq s = ioq (st x)"
    "b_data s = b_data (st x)" "bdisk s = bdisk (st x)" by (simp_all add: e)
  have "{b. b < NBUF \<and> B_BUSY \<notin> b_flags s b} = {b. b < NBUF \<and> B_BUSY \<notin> b_flags (st x) b}" using fl by auto
  then have "av_ok s" "q_ok tabs s" "uniq s" using i(1-3) by (simp_all add: av_ok_def q_ok_def uniq_def same)
  moreover have "own_ok (x\<lparr>st := s\<rparr>)" using i(4) fl by (auto simp: own_ok_def same)
  moreover have "wait_ok s" using i(5) by (auto simp: wait_ok_def e bfreelist_def)
  moreover have "coherent (x\<lparr>st := s\<rparr>)"
  proof -
    have "coh_buf s b h l \<longleftrightarrow> coh_buf (st x) b h l" "pending s b \<longleftrightarrow> pending (st x) b" if "b < NBUF" for b h l
      using fl [OF that] by (simp_all add: coh_buf_def pending_def same)
    then show ?thesis using i(6) unfolding coherent_def by (simp add: same) metis
  qed
  ultimately show ?thesis by (simp add: binv_def)
qed

definition avail_count :: "bio \<Rightarrow> nat" where
  "avail_count s = card {c. c < NBUF \<and> B_BUSY \<notin> b_flags s c}"

lemma avail_count_less: "avail_count s < NBUF + 1"
proof -
  have "avail_count s \<le> card {..<NBUF}" unfolding avail_count_def by (rule card_mono) auto
  then show ?thesis by simp
qed

lemma avail_count_dec:
  assumes "{c. c < NBUF \<and> B_BUSY \<notin> b_flags t c} = {c. c < NBUF \<and> B_BUSY \<notin> b_flags s c} - {b}"
    "b < NBUF" "B_BUSY \<notin> b_flags s b"
  shows "avail_count t < avail_count s"
  unfolding avail_count_def assms(1) by (rule psubset_card_mono) (use assms(2,3) in auto)

text \<open>
  What a search for a buffer leads to: a buffer nobody else has, or a sleep in a sound
  state; the fuel is enough.
\<close>

definition got :: "bool list \<Rightarrow> bsys \<Rightarrow> (nat \<Rightarrow> bio \<Rightarrow> bool) \<Rightarrow> (bchan \<Rightarrow> bio \<Rightarrow> bool) \<Rightarrow> nat \<Rightarrow> nat bres \<Rightarrow> bool" where
  "got tabs x P Q n r \<longleftrightarrow>
     (case r of
        Inr (b, s) \<Rightarrow> binv tabs (x\<lparr>st := s, held := (held x)(b := Some Clean)\<rparr>) \<and> held x b = None \<and> P b s
      | Inl (Sleeping c, s) \<Rightarrow> binv tabs (x\<lparr>st := s\<rparr>) \<and> c \<in> waiters s \<and> Q c s
      | Inl (Unfinished, s) \<Rightarrow> n \<le> avail_count (st x)
      | Inl (Panicked m, s) \<Rightarrow> False)"

text \<open>What \<open>getblk\<close> sleeps for: the buffer of the block, which is busy, or any buffer, when all are.\<close>

definition all_busy :: "bio \<Rightarrow> bool" where
  "all_busy s \<longleftrightarrow> (\<forall>b<NBUF. B_BUSY \<in> b_flags s b)"

definition block_wait :: "nat \<Rightarrow> int \<Rightarrow> bchan \<Rightarrow> bio \<Rightarrow> bool" where
  "block_wait dev blkno c s \<longleftrightarrow>
     (case c of
        ChBuf b \<Rightarrow> b < NBUF \<and> B_BUSY \<in> b_flags s b \<and> B_WANTED \<in> b_flags s b \<and> b_dev s b = dev \<and> b_blkno s b = blkno
      | ChFree \<Rightarrow> all_busy s \<and> B_WANTED \<in> b_flags s bfreelist \<and> (\<forall>b<NBUF. \<not> (b_dev s b = dev \<and> b_blkno s b = blkno)))"

lemma none_avail:
  assumes "av_ok s" "av_forw s bfreelist = bfreelist"
  shows "all_busy s"
proof -
  obtain as where as: "dlist (av_forw s) (av_back s) bfreelist as" "set as = {b. b < NBUF \<and> B_BUSY \<notin> b_flags s b}"
    using assms(1) by (auto simp: av_ok_def)
  have "as = []" using dlist_head [OF as(1)] as(1) assms(2) by (cases as) (auto simp: dlist_def)
  then show ?thesis using as(2) by (auto simp: all_busy_def)
qed

lemma got_upd: "got tabs (x\<lparr>st := t\<rparr>) P Q n r \<Longrightarrow> avail_count t < avail_count (st x) \<Longrightarrow> got tabs x P Q (Suc n) r"
  by (auto simp: got_def split: sum.splits prod.splits exit.splits)

lemma got_reassign:
  assumes inv: "binv tabs x" and av: "av_forw (st x) bfreelist \<noteq> bfreelist"
    and del: "B_DELWRI \<notin> b_flags (st x) (av_forw (st x) bfreelist)"
    and dp: "dp \<in> heads tabs" "dev \<noteq> NODEV \<Longrightarrow> dp = d_tab (major dev)"
    and new: "\<And>c. c < NBUF \<Longrightarrow> dev \<noteq> NODEV \<Longrightarrow> \<not> (b_dev (st x) c = dev \<and> b_blkno (st x) c = blkno)"
  shows "let b = av_forw (st x) bfreelist; s = assign b dp (notavail b (st x));
             t = s\<lparr>b_dev := (b_dev s)(b := dev), b_blkno := (b_blkno s)(b := blkno)\<rparr>
         in binv tabs (x\<lparr>st := t, held := (held x)(b := Some Clean)\<rparr>) \<and> held x b = None"
proof -
  define b where "b = av_forw (st x) bfreelist"
  note i = binv_D [OF inv]
  have b: "b < NBUF" "B_BUSY \<notin> b_flags (st x) b" using first_avail [OF i(1) av] by (simp_all add: b_def)
  have h: "held x b = None" using i(7) [OF b(1)] b(2) by (auto simp: buf_ok_def)
  have "ChBuf b \<notin> waiters (st x)" using i(5) b(2) by (auto simp: wait_ok_def)
  then have "binv tabs ((x\<lparr>st := notavail b (st x), held := (held x)(b := Some Clean)\<rparr>)
      \<lparr>st := (assign b dp (notavail b (st x)))\<lparr>b_dev := (b_dev (st x))(b := dev), b_blkno := (b_blkno (st x))(b := blkno)\<rparr>\<rparr>)"
    using del dp new by (intro binv_assign [OF binv_notavail [OF inv b]]) (auto simp: b_def)
  then show ?thesis using h by (simp add: Let_def b_def assign_fields held_last)
qed

lemma getblk_loop_ok:
  assumes dev: "dev \<noteq> NODEV" "major dev < length tabs" "tabs ! major dev"
  shows "binv tabs x \<Longrightarrow> got tabs x (\<lambda>b s. b_dev s b = dev \<and> b_blkno s b = blkno \<and> B_ERROR \<notin> b_flags s b) (block_wait dev blkno) n (getblk_loop n tabs dev blkno (st x))"
proof (induction n arbitrary: x)
  case 0
  then show ?case by (simp add: got_def)
next
  case (Suc n)
  note i = binv_D [OF Suc.prems]
  have hd: "d_tab (major dev) \<in> heads tabs" using dev by (auto simp: heads_def)
  let ?dp = "d_tab (major dev)"
  let ?b = "av_forw (st x) bfreelist"
  obtain r where r: "find_buf (NBUF + 1) ?dp dev blkno (b_forw (st x) ?dp) (st x) = Some r"
    "r = None \<Longrightarrow> \<forall>c<NBUF. \<not> (b_dev (st x) c = dev \<and> b_blkno (st x) c = blkno)"
    "\<And>b. r = Some b \<Longrightarrow> b < NBUF \<and> b_dev (st x) b = dev \<and> b_blkno (st x) b = blkno"
    by (rule find_buf_ok [OF i(2) dev(1) hd, of blkno]) blast
  consider (busy) b where "r = Some b" "B_BUSY \<in> b_flags (st x) b" | (hit) b where "r = Some b" "B_BUSY \<notin> b_flags (st x) b"
    | (none) "r = None" "?b = bfreelist" | (delayed) "r = None" "?b \<noteq> bfreelist" "B_DELWRI \<in> b_flags (st x) ?b"
    | (new) "r = None" "?b \<noteq> bfreelist" "B_DELWRI \<notin> b_flags (st x) ?b"
    by (cases r) auto
  then show ?case
  proof cases
    case busy
    then show ?thesis
      using r(1) r(3) dev(3) binv_sleep_buf [OF Suc.prems, of b] by (auto simp: got_def bsleep_def block_wait_def set_fl_def)
  next
    case hit
    have b: "b < NBUF" "b_dev (st x) b = dev" "b_blkno (st x) b = blkno" using r(3) hit by auto
    have h: "held x b = None" "B_ERROR \<notin> b_flags (st x) b" using i(7) [OF b(1)] hit(2) b(2) dev(1) by (auto simp: buf_ok_def)
    have "binv tabs (x\<lparr>st := notavail b (count f (st x)), held := (held x)(b := Some Clean)\<rparr>)" for f
      using binv_notavail [OF binv_count [OF Suc.prems, of f] b(1)] hit(2) by (simp add: count_def)
    moreover have "binv tabs (x\<lparr>st := notavail b (st x), held := (held x)(b := Some Clean)\<rparr>)"
      by (rule binv_notavail [OF Suc.prems b(1) hit(2)])
    ultimately show ?thesis
      using r(1) dev(3) hit b h by (simp add: got_def Let_def) (simp add: count_def)
  next
    case none
    then show ?thesis
      using r(1,2) dev(3) binv_sleep_free [OF Suc.prems] none_avail [OF i(1)]
      by (auto simp: got_def bsleep_def block_wait_def set_fl_def all_busy_def bfreelist_def)
  next
    case delayed
    have b: "?b < NBUF" "B_BUSY \<notin> b_flags (st x) ?b" by (rule first_avail [OF i(1) delayed(2)])+
    obtain t where t: "bwrite ?b (set_fl ?b {B_ASYNC} (notavail ?b (st x))) = Inr ((), t)" "binv tabs (x\<lparr>st := t\<rparr>)"
      "{c. c < NBUF \<and> B_BUSY \<notin> b_flags t c} = {c. c < NBUF \<and> B_BUSY \<notin> b_flags (st x) c} - {?b}"
      by (rule binv_flush_one [OF Suc.prems b delayed(3)])
    have "getblk_loop (Suc n) tabs dev blkno (st x) = getblk_loop n tabs dev blkno t"
      using r(1) dev(3) delayed t(1) by (simp add: Let_def)
    then show ?thesis
      using got_upd [OF Suc.IH [OF t(2)] avail_count_dec [OF t(3) b]] by simp
  next
    case new
    then show ?thesis
      using r(1) dev(3) got_reassign [OF Suc.prems new(2,3) hd, of dev blkno] r(2)
      by (simp add: got_def Let_def assign_fields)
  qed
qed

lemma getblk_ok:
  assumes "binv tabs x" "dev \<noteq> NODEV" "major dev < length tabs" "tabs ! major dev"
  shows "got tabs x (\<lambda>b s. b_dev s b = dev \<and> b_blkno s b = blkno \<and> B_ERROR \<notin> b_flags s b) (block_wait dev blkno) (NBUF + 1) (getblk tabs dev blkno (st x))"
  using getblk_loop_ok [OF assms(2-4,1), of blkno "NBUF + 1"] assms(3) by (simp add: getblk_def)

lemma geteblk_loop_ok: "binv tabs x \<Longrightarrow> got tabs x (\<lambda>b s. b_dev s b = NODEV) (\<lambda>c s. c = ChFree \<and> all_busy s) n (geteblk_loop n (st x))"
proof (induction n arbitrary: x)
  case 0
  then show ?case by (simp add: got_def)
next
  case (Suc n)
  note i = binv_D [OF Suc.prems]
  let ?b = "av_forw (st x) bfreelist"
  consider (none) "?b = bfreelist" | (delayed) "?b \<noteq> bfreelist" "B_DELWRI \<in> b_flags (st x) ?b"
    | (new) "?b \<noteq> bfreelist" "B_DELWRI \<notin> b_flags (st x) ?b"
    by blast
  then show ?case
  proof cases
    case none
    then show ?thesis using binv_sleep_free [OF Suc.prems] none_avail [OF i(1)]
      by (auto simp: got_def bsleep_def set_fl_def all_busy_def bfreelist_def)
  next
    case delayed
    have b: "?b < NBUF" "B_BUSY \<notin> b_flags (st x) ?b" by (rule first_avail [OF i(1) delayed(1)])+
    obtain t where t: "bwrite ?b (set_fl ?b {B_ASYNC} (notavail ?b (st x))) = Inr ((), t)" "binv tabs (x\<lparr>st := t\<rparr>)"
      "{c. c < NBUF \<and> B_BUSY \<notin> b_flags t c} = {c. c < NBUF \<and> B_BUSY \<notin> b_flags (st x) c} - {?b}"
      by (rule binv_flush_one [OF Suc.prems b delayed(2)])
    have "geteblk_loop (Suc n) (st x) = geteblk_loop n t" using delayed t(1) by (simp add: Let_def)
    then show ?thesis using got_upd [OF Suc.IH [OF t(2)] avail_count_dec [OF t(3) b]] by simp
  next
    case new
    define s where "s = assign ?b bfreelist (notavail ?b (st x))"
    have "s\<lparr>b_dev := (b_dev s)(?b := NODEV), b_blkno := (b_blkno s)(?b := b_blkno s ?b)\<rparr> = s\<lparr>b_dev := (b_dev s)(?b := NODEV)\<rparr>"
      by (simp add: fun_upd_idem)
    then show ?thesis
      using new got_reassign [OF Suc.prems new bfreelist_heads, of NODEV "b_blkno s ?b"]
      by (simp add: got_def Let_def s_def)
  qed
qed

lemma notavail_set_fl: "notavail b (set_fl b F s) = set_fl b F (notavail b s)"
  by (simp add: notavail_def fl_defs Let_def Un_ac)

lemma bflush_loop_ok:
  "\<lbrakk>binv tabs x; avail_count (st x) < n\<rbrakk> \<Longrightarrow>
    \<exists>s. bflush_loop n dev (st x) = Inr ((), s) \<and> binv tabs (x\<lparr>st := s\<rparr>) \<and>
      (\<forall>b<NBUF. B_DELWRI \<in> b_flags s b \<longrightarrow> dev = NODEV \<or> b_dev s b = dev \<longrightarrow> B_BUSY \<in> b_flags s b)"
proof (induction n arbitrary: x)
  case (Suc n)
  note i = binv_D [OF Suc.prems(1)]
  let ?P = "\<lambda>b. B_DELWRI \<in> b_flags (st x) b \<and> (dev = NODEV \<or> dev = b_dev (st x) b)"
  obtain as where as: "dlist (av_forw (st x)) (av_back (st x)) bfreelist as"
    "set as = {b. b < NBUF \<and> B_BUSY \<notin> b_flags (st x) b}" using i(1) by (auto simp: av_ok_def)
  have f: "find_delwri (NBUF + 1) dev (av_forw (st x) bfreelist) (st x) = Some (find ?P as)"
    using as pool_list [of as] by (intro find_delwri_list [where g = "av_back (st x)"]) (auto simp: dlist_def)
  show ?case
  proof (cases "find ?P as")
    case None
    have "\<forall>b<NBUF. B_DELWRI \<in> b_flags (st x) b \<longrightarrow> dev = NODEV \<or> b_dev (st x) b = dev \<longrightarrow> B_BUSY \<in> b_flags (st x) b"
      using None as(2) by (auto simp: find_None_iff)
    then show ?thesis using f None Suc.prems by (auto intro!: exI [of _ "st x"])
  next
    case (Some b)
    have b: "b < NBUF" "B_BUSY \<notin> b_flags (st x) b" "B_DELWRI \<in> b_flags (st x) b"
      using Some as(2) by (auto simp: find_Some_iff dest!: nth_mem)
    obtain t where t: "bwrite b (set_fl b {B_ASYNC} (notavail b (st x))) = Inr ((), t)" "binv tabs (x\<lparr>st := t\<rparr>)"
      "{c. c < NBUF \<and> B_BUSY \<notin> b_flags t c} = {c. c < NBUF \<and> B_BUSY \<notin> b_flags (st x) c} - {b}"
      by (rule binv_flush_one [OF Suc.prems(1) b])
    have "bflush_loop (Suc n) dev (st x) = bflush_loop n dev t"
      using f Some t(1) by (simp add: notavail_set_fl)
    moreover have "avail_count t < n" using avail_count_dec [OF t(3) b(1,2)] Suc.prems(2) by simp
    ultimately show ?thesis using Suc.IH [OF t(2)] by simp
  qed
qed simp

subsection \<open>All steps\<close>

lemma binv_step:
  assumes "bio_step tabs x y" "binv tabs x"
  shows "binv tabs y"
  using assms
proof (induction rule: bio_step.induct)
  case (st_getblk dev blkno x b s)
  then show ?case
    using getblk_ok [OF st_getblk.prems st_getblk.hyps(1), of blkno]
    by (cases "major dev < length tabs \<and> tabs ! major dev") (auto simp: got_def getblk_def Let_def split: if_splits)
next
  case (st_getblk_sleep dev blkno x c s)
  then show ?case
    using getblk_ok [OF st_getblk_sleep.prems st_getblk_sleep.hyps(1), of blkno]
    by (cases "major dev < length tabs \<and> tabs ! major dev") (auto simp: got_def getblk_def Let_def split: if_splits)
next
  case (st_geteblk x b s)
  then show ?case using geteblk_loop_ok [OF st_geteblk.prems, of "NBUF + 1"] by (simp add: got_def geteblk_def)
next
  case (st_geteblk_sleep x c s)
  then show ?case using geteblk_loop_ok [OF st_geteblk_sleep.prems, of "NBUF + 1"] by (simp add: got_def geteblk_def)
next
  case (st_bwrite_end x b s)
  then have *: "binv tabs (x\<lparr>st := s, held := (held x)(b := Some Clean)\<rparr>)" by (blast intro: binv_iowait(1))
  have "b \<notin> set (ioq s)" using binv_D(7) [OF *, of b] binv_D(9) [OF *, of b] by (auto simp: buf_ok_def)
  then show ?case using binv_brelse [OF *, of b] by simp
next
  case (st_bflush dev x s)
  then show ?case
    using bflush_loop_ok [OF st_bflush.prems avail_count_less, of dev] by (auto simp: bflush_def)
next
  case (st_brelse x b)
  then have "b \<notin> set (ioq (st x))"
    using binv_D(7) [OF st_brelse.prems, of b] binv_D(9) [OF st_brelse.prems, of b] by (auto simp: buf_ok_def)
  then show ?case using st_brelse by (intro binv_brelse) auto
qed (auto intro: binv_start binv_iowait binv_count binv_modify binv_drop binv_bwrite binv_bawrite binv_bdwrite
    binv_transfer binv_error)

subsection \<open>The initial state\<close>

text \<open>After \<open>k\<close> turns of the loop of \<open>binit\<close> over the buffers.\<close>

definition init_ok :: "nat \<Rightarrow> bio \<Rightarrow> bool" where
  "init_ok k s \<longleftrightarrow>
     (\<exists>as. dlist (av_forw s) (av_back s) bfreelist as \<and> set as = {..<k}) \<and>
     (\<exists>bs. dlist (b_forw s) (b_back s) bfreelist bs \<and> set bs = {..<k}) \<and>
     (\<forall>b<k. b_flags s b = {} \<and> b_dev s b = NODEV)"

lemma binit_buf_fields:
  assumes "b \<noteq> bfreelist"
  shows "ioq (binit_buf b s) = ioq s" "bdisk (binit_buf b s) = bdisk s" "b_data (binit_buf b s) = b_data s"
    "waiters (binit_buf b s) \<subseteq> waiters s"
    "b_forw (binit_buf b s) = (b_forw s)(b := b_forw s bfreelist, bfreelist := b)"
    "b_back (binit_buf b s) = (b_back s)(b := bfreelist, b_forw s bfreelist := b)"
    "b_dev (binit_buf b s) = (b_dev s)(b := NODEV)"
    "b_flags (binit_buf b s) = (b_flags s)(bfreelist := b_flags s bfreelist - {B_WANTED}, b := {})"
  using assms by (auto simp: binit_buf_def Let_def brelse_fields)

lemma binit_buf_ok:
  assumes "init_ok k s" "k < NBUF"
  shows "init_ok (Suc k) (binit_buf k s)"
proof -
  have k: "k \<noteq> bfreelist" using assms(2) by (simp add: bfreelist_def)
  obtain as bs where as: "dlist (av_forw s) (av_back s) bfreelist as" "set as = {..<k}"
    and bs: "dlist (b_forw s) (b_back s) bfreelist bs" "set bs = {..<k}"
    using assms(1) by (auto simp: init_ok_def)
  define t where "t = s\<lparr>b_dev := (b_dev s)(k := NODEV), b_back := (b_back (s\<lparr>b_back := (b_back s)(k := bfreelist)\<rparr>))
      (b_forw s bfreelist := k), b_forw := (b_forw s)(k := b_forw s bfreelist, bfreelist := k),
      b_flags := (b_flags s)(k := {B_BUSY})\<rparr>"
  have "binit_buf k s = brelse k t" using k by (simp add: binit_buf_def Let_def t_def)
  moreover have "dlist (av_forw (brelse k t)) (av_back (brelse k t)) bfreelist (as @ [k])"
  proof -
    have "dlist (av_forw t) (av_back t) bfreelist as" using as by (simp add: t_def)
    moreover have "B_AGE \<notin> b_flags t k" "k \<notin> set as" using as(2) by (simp_all add: t_def)
    ultimately show ?thesis using brelse_av [of t as k] k by simp
  qed
  moreover have "set (as @ [k]) = {..<Suc k}" by (simp add: lessThan_Suc as(2))
  ultimately have "\<exists>as'. dlist (av_forw (binit_buf k s)) (av_back (binit_buf k s)) bfreelist as' \<and> set as' = {..<Suc k}"
    by metis
  moreover have "dlist (b_forw (binit_buf k s)) (b_back (binit_buf k s)) bfreelist (k # bs)"
    unfolding binit_buf_fields(5,6) [OF k] by (rule dlist_front [OF bs(1) k]) (use bs(2) in simp)
  then have "\<exists>bs'. dlist (b_forw (binit_buf k s)) (b_back (binit_buf k s)) bfreelist bs' \<and> set bs' = {..<Suc k}"
    by (intro exI [of _ "k # bs"]) (simp add: lessThan_Suc bs(2))
  moreover have "\<forall>b<Suc k. b_flags (binit_buf k s) b = {} \<and> b_dev (binit_buf k s) b = NODEV"
    using assms k by (auto simp: init_ok_def binit_buf_fields [OF k] less_Suc_eq bfreelist_def)
  ultimately show ?thesis by (simp add: init_ok_def)
qed

definition frame :: "bio \<Rightarrow> bio \<Rightarrow> bool" where
  "frame s t \<longleftrightarrow> ioq t = ioq s \<and> bdisk t = bdisk s \<and> waiters t \<subseteq> waiters s"

lemma binit_bufs_ok:
  assumes "init_ok 0 s" "k \<le> NBUF"
  shows "init_ok k (foldl (\<lambda>s b. binit_buf b s) s [0..<k]) \<and> frame s (foldl (\<lambda>s b. binit_buf b s) s [0..<k])"
  using assms(2)
proof (induction k)
  case 0
  then show ?case using assms(1) by (simp add: frame_def)
next
  case (Suc k)
  then show ?case
    using binit_buf_ok [of k] binit_buf_fields(1,2,4) [of k "foldl (\<lambda>s b. binit_buf b s) s [0..<k]"]
    by (auto simp: frame_def bfreelist_def)
qed

lemma binit_tab_fields:
  "ioq (binit_tab tabs m s) = ioq s" "bdisk (binit_tab tabs m s) = bdisk s" "waiters (binit_tab tabs m s) = waiters s"
  "av_forw (binit_tab tabs m s) = av_forw s" "av_back (binit_tab tabs m s) = av_back s"
  "b_flags (binit_tab tabs m s) = b_flags s" "b_dev (binit_tab tabs m s) = b_dev s"
  by (simp_all add: binit_tab_def)

lemma binit_tabs_ok:
  assumes "init_ok NBUF s" "k \<le> length tabs"
  shows "let t = foldl (\<lambda>s m. binit_tab tabs m s) s [0..<k] in
    init_ok NBUF t \<and> frame s t \<and> (\<forall>m<k. tabs ! m \<longrightarrow> b_forw t (d_tab m) = d_tab m \<and> b_back t (d_tab m) = d_tab m)"
  using assms(2)
proof (induction k)
  case 0
  then show ?case using assms(1) by (simp add: frame_def)
next
  case (Suc k)
  define t where "t = foldl (\<lambda>s m. binit_tab tabs m s) s [0..<k]"
  have t: "init_ok NBUF t" "frame s t" "\<forall>m<k. tabs ! m \<longrightarrow> b_forw t (d_tab m) = d_tab m \<and> b_back t (d_tab m) = d_tab m"
    using Suc by (auto simp: t_def Let_def)
  obtain bs where bs: "dlist (b_forw t) (b_back t) bfreelist bs" "set bs = {..<NBUF}" using t(1) by (auto simp: init_ok_def)
  have "d_tab k \<noteq> c" if "c = bfreelist \<or> c \<in> set bs" for c
  proof -
    have "c \<le> NBUF" using that unfolding bs(2) by (auto simp: bfreelist_def)
    then show ?thesis by (simp add: d_tab_def)
  qed
  then have "dlist (b_forw (binit_tab tabs k t)) (b_back (binit_tab tabs k t)) bfreelist bs"
    using bs(1) by (subst dlist_cong [where f = "b_forw t" and g = "b_back t"]) (auto simp: binit_tab_def)
  then have "init_ok NBUF (binit_tab tabs k t)"
    using t(1) bs(2) by (auto simp: init_ok_def binit_tab_fields)
  moreover have "\<forall>m<Suc k. tabs ! m \<longrightarrow> b_forw (binit_tab tabs k t) (d_tab m) = d_tab m \<and> b_back (binit_tab tabs k t) (d_tab m) = d_tab m"
    using t(3) by (auto simp: binit_tab_def less_Suc_eq)
  ultimately show ?case using t(2) by (simp add: t_def frame_def Let_def binit_tab_fields)
qed

text \<open>
  The state after \<open>binit\<close>: nothing is in progress, no process has or awaits a buffer, and
  the abstract contents are those of the devices.
\<close>

definition bstart :: "bool list \<Rightarrow> bsys \<Rightarrow> bool" where
  "bstart tabs x \<longleftrightarrow> held x = (\<lambda>_. None) \<and> blog x = (\<lambda>d k. Some (bdisk (st x) d k)) \<and>
     (\<exists>s. st x = binit tabs s \<and> ioq s = [] \<and> waiters s = {})"

lemma bstart_facts:
  assumes "bstart tabs x"
  shows "init_ok NBUF (st x)" "ioq (st x) = []" "waiters (st x) = {}"
    "\<forall>m<length tabs. tabs ! m \<longrightarrow> b_forw (st x) (d_tab m) = d_tab m \<and> b_back (st x) (d_tab m) = d_tab m"
proof -
  obtain s where s: "st x = binit tabs s" "ioq s = []" "waiters s = {}" using assms by (auto simp: bstart_def)
  define s0 where "s0 = s\<lparr>b_forw := (b_forw s)(bfreelist := bfreelist), b_back := (b_back s)(bfreelist := bfreelist),
                av_forw := (av_forw s)(bfreelist := bfreelist), av_back := (av_back s)(bfreelist := bfreelist)\<rparr>"
  have "init_ok 0 s0" by (simp add: init_ok_def s0_def)
  then have 1: "init_ok NBUF (foldl (\<lambda>s b. binit_buf b s) s0 [0..<NBUF]) \<and> frame s0 (foldl (\<lambda>s b. binit_buf b s) s0 [0..<NBUF])"
    by (rule binit_bufs_ok) simp
  have e: "st x = foldl (\<lambda>s m. binit_tab tabs m s) (foldl (\<lambda>s b. binit_buf b s) s0 [0..<NBUF]) [0..<length tabs]"
    by (simp add: s(1) binit_def Let_def s0_def)
  have 2: "init_ok NBUF (st x)" "frame s0 (st x)"
    "\<forall>m<length tabs. tabs ! m \<longrightarrow> b_forw (st x) (d_tab m) = d_tab m \<and> b_back (st x) (d_tab m) = d_tab m"
    using binit_tabs_ok [OF conjunct1 [OF 1], of "length tabs" tabs] conjunct2 [OF 1]
    by (auto simp: e Let_def frame_def)
  show "init_ok NBUF (st x)" "ioq (st x) = []" "waiters (st x) = {}"
    "\<forall>m<length tabs. tabs ! m \<longrightarrow> b_forw (st x) (d_tab m) = d_tab m \<and> b_back (st x) (d_tab m) = d_tab m"
    using 2 s by (auto simp: frame_def s0_def)
qed

lemma bstart_inv:
  assumes "bstart tabs x"
  shows "binv tabs x"
proof -
  note io = bstart_facts(2,3) [OF assms]
  note tab = bstart_facts(4) [OF assms]
  obtain as bs where as: "dlist (av_forw (st x)) (av_back (st x)) bfreelist as" "set as = {..<NBUF}"
    and bs: "dlist (b_forw (st x)) (b_back (st x)) bfreelist bs" "set bs = {..<NBUF}"
    and fl: "\<And>b. b < NBUF \<Longrightarrow> b_flags (st x) b = {} \<and> b_dev (st x) b = NODEV"
    using bstart_facts(1) [OF assms] by (auto simp: init_ok_def)
  have h: "held x = (\<lambda>_. None)" "blog x = (\<lambda>d k. Some (bdisk (st x) d k))" using assms by (simp_all add: bstart_def)
  have "av_ok (st x)" using as fl unfolding av_ok_def by (intro exI [of _ as]) auto
  moreover have "q_ok tabs (st x)"
    unfolding q_ok_def
  proof (intro exI conjI)
    let ?q = "\<lambda>h. if h = bfreelist then bs else []"
    have "c \<notin> heads tabs" if "c \<in> set bs" for c using that heads_NBUF [of c tabs] bs(2) by fastforce
    moreover have "dlist (b_forw (st x)) (b_back (st x)) h (?q h)" if "h \<in> heads tabs" for h
      using that bs(1) tab by (auto simp: heads_def)
    ultimately show "dlists (b_forw (st x)) (b_back (st x)) (heads tabs) ?q"
      unfolding dlists_def by auto
    show "(\<Union>h\<in>heads tabs. set (?q h)) = {..<NBUF}" using bs(2) by (auto simp: heads_def)
    show "\<forall>h\<in>heads tabs. \<forall>b\<in>set (?q h). b_dev (st x) b = NODEV \<or> h = d_tab (major (b_dev (st x) b))"
      using bs(2) fl by auto
  qed
  ultimately show ?thesis
    using fl io h by (auto simp: binv_def uniq_def own_ok_def buf_ok_def wait_ok_def coherent_def coh_buf_def pending_def)
qed

interpretation bio: safe_system "bstart tabs" "bio_step tabs" "binv tabs" for tabs
  by unfold_locales (auto intro: bstart_inv binv_step)

text \<open>The calls as the processes make them are made of these steps.\<close>

lemma bread_steps:
  assumes r: "reach (bstart tabs) (bio_step tabs) x" and dev: "dev \<noteq> NODEV"
  shows "bread tabs dev blkno (st x) = Inr (b, s) \<Longrightarrow>
      reach (bstart tabs) (bio_step tabs) (x\<lparr>st := s, held := (held x)(b := Some Clean)\<rparr>)"
    and "bread tabs dev blkno (st x) = Inl (Sleeping c, s) \<Longrightarrow>
      reach (bstart tabs) (bio_step tabs) (x\<lparr>st := s\<rparr>) \<or>
      (\<exists>b. reach (bstart tabs) (bio_step tabs) (x\<lparr>st := s, held := (held x)(b := Some Reading)\<rparr>))"
proof -
  have get: "reach (bstart tabs) (bio_step tabs) (x\<lparr>st := t, held := (held x)(b := Some Clean)\<rparr>)"
    if "getblk tabs dev blkno (st x) = Inr (b, t)" for b t
    by (rule reach_step [OF r]) (rule st_getblk [OF dev that])
  have wait: "iowait b (start_read b t) = bsleep (ChBuf b) (start_read b t)" if "B_DONE \<notin> b_flags t b" for b t
    using that by (simp add: iowait_def start_read_def fl_defs Let_def)
  show "reach (bstart tabs) (bio_step tabs) (x\<lparr>st := s, held := (held x)(b := Some Clean)\<rparr>)"
    if h: "bread tabs dev blkno (st x) = Inr (b, s)"
  proof -
    obtain b' t where g: "getblk tabs dev blkno (st x) = Inr (b', t)" and
      k: "(if B_DONE \<in> b_flags t b' then Inr (b', count (\<lambda>c. c\<lparr>ncache := ncache c + 1\<rparr>) t)
         else rbind (iowait b' (start_read b' t)) (\<lambda>(_, s). Inr (b', s))) = Inr (b, s)"
      using h unfolding bread_def rbind_Inr_iff by auto
    have d: "B_DONE \<in> b_flags t b'" using k wait [of t b'] by (auto simp: bsleep_def split: if_splits)
    then have b: "b' = b" "s = count (\<lambda>c. c\<lparr>ncache := ncache c + 1\<rparr>) t" using k by auto
    show ?thesis
      using reach_step [OF get [OF g] st_hit] by (auto simp: b held_last)
  qed
  show "reach (bstart tabs) (bio_step tabs) (x\<lparr>st := s\<rparr>) \<or>
      (\<exists>b. reach (bstart tabs) (bio_step tabs) (x\<lparr>st := s, held := (held x)(b := Some Reading)\<rparr>))"
    if h: "bread tabs dev blkno (st x) = Inl (Sleeping c, s)"
  proof (cases "getblk tabs dev blkno (st x)")
    case (Inl e)
    then have "getblk tabs dev blkno (st x) = Inl (Sleeping c, s)" using h by (simp add: bread_def)
    then show ?thesis using reach_step [OF r] st_getblk_sleep [OF dev] by blast
  next
    case (Inr p)
    then obtain b t where g: "getblk tabs dev blkno (st x) = Inr (b, t)" by (cases p) auto
    then have d: "B_DONE \<notin> b_flags t b" and s: "iowait b (start_read b t) = Inl (Sleeping c, s)"
      using h wait [of t b] by (auto simp: bread_def bsleep_def split: if_splits)
    note x1 = get [OF g]
    have "b_dev t b \<noteq> NODEV"
      using getblk_ok [OF bio.reach_inv [OF r] dev, of blkno] g dev
      by (cases "major dev < length tabs \<and> tabs ! major dev") (auto simp: got_def getblk_def Let_def split: if_splits)
    then have x2: "reach (bstart tabs) (bio_step tabs)
        (x\<lparr>st := start_read b t, held := (held x)(b := Some Reading)\<rparr>)"
      using reach_step [OF x1 st_start_read [of _ b]] d by (simp add: held_last)
    have "reach (bstart tabs) (bio_step tabs) (x\<lparr>st := s, held := (held x)(b := Some Reading)\<rparr>)"
      using reach_step [OF x2 st_iowait_sleep [of _ b c s]] s by (simp add: held_last)
    then show ?thesis by blast
  qed
qed

lemma getblk_got:
  assumes r: "reach (bstart tabs) (bio_step tabs) x" and dev: "dev \<noteq> NODEV"
    and g: "getblk tabs dev blkno (st x) = Inr (b, s)"
  shows "reach (bstart tabs) (bio_step tabs) (x\<lparr>st := s, held := (held x)(b := Some Clean)\<rparr>)"
    "held x b = None" "b_dev s b = dev"
proof -
  show "reach (bstart tabs) (bio_step tabs) (x\<lparr>st := s, held := (held x)(b := Some Clean)\<rparr>)"
    by (rule reach_step [OF r]) (rule st_getblk [OF dev g])
  show "held x b = None" "b_dev s b = dev"
    using getblk_ok [OF bio.reach_inv [OF r] dev, of blkno] g
    by (cases "major dev < length tabs \<and> tabs ! major dev"; auto simp: got_def getblk_def Let_def split: if_splits)+
qed

lemma breada_first_steps:
  assumes r: "reach (bstart tabs) (bio_step tabs) x" and dev: "dev \<noteq> NODEV"
    and h: "breada_first tabs dev blkno (st x) = Inr (bo, s)"
  shows "case bo of None \<Rightarrow> s = st x
    | Some b \<Rightarrow> \<exists>h\<in>{Clean, Reading}. reach (bstart tabs) (bio_step tabs) (x\<lparr>st := s, held := (held x)(b := Some h)\<rparr>)"
proof (cases bo)
  case None
  then show ?thesis using h by (auto simp: breada_first_def rbind_Inr_iff split: option.splits bool.splits)
next
  case (Some b)
  then obtain t where g: "getblk tabs dev blkno (st x) = Inr (b, t)" and s: "s = (if B_DONE \<in> b_flags t b then t else start_read b t)"
    using h by (auto simp: breada_first_def rbind_Inr_iff split: option.splits bool.splits)
  note x1 = getblk_got [OF r dev g]
  have "reach (bstart tabs) (bio_step tabs) (x\<lparr>st := start_read b t, held := (held x)(b := Some Reading)\<rparr>)"
    if "B_DONE \<notin> b_flags t b"
    using reach_step [OF x1(1) st_start_read [of _ b]] that x1(3) dev by (simp add: held_last)
  then show ?thesis using x1(1) by (auto simp: Some s)
qed

lemma breada_ahead_steps:
  assumes r: "reach (bstart tabs) (bio_step tabs) x" and dev: "dev \<noteq> NODEV"
    and h: "breada_ahead tabs dev rablkno (st x) = Inr ((), s)"
  shows "reach (bstart tabs) (bio_step tabs) (x\<lparr>st := s\<rparr>)"
proof (cases "rablkno = 0 \<or> incore dev rablkno (st x) = Some True")
  case True
  then have "s = st x" using h by (auto simp: breada_ahead_def split: if_splits)
  then show ?thesis using r by (cases x) simp
next
  case False
  then obtain b t where g: "getblk tabs dev rablkno (st x) = Inr (b, t)"
    and s: "s = (if B_DONE \<in> b_flags t b then brelse b t else start_ahead b t)"
    using h by (auto simp: breada_ahead_def rbind_Inr_iff split: option.splits bool.splits)
  note x1 = getblk_got [OF r dev g]
  have e: "x\<lparr>held := (held x)(b := None), st := u\<rparr> = x\<lparr>st := u\<rparr>" for u
    using x1(2) by (cases x) (auto simp: fun_upd_idem)
  show ?thesis
  proof (cases "B_DONE \<in> b_flags t b")
    case True
    then show ?thesis using reach_step [OF x1(1) st_brelse [of _ b]] by (simp add: s e held_last [symmetric])
  next
    case False
    then show ?thesis
      using reach_step [OF x1(1) st_start_ahead [of _ b]] x1(3) dev by (simp add: s e held_last [symmetric])
  qed
qed

subsection \<open>A run\<close>

text \<open>From the initial state a process reads a block: it waits, the device answers, it has the block.\<close>

lemma bstart_getblk:
  assumes x: "bstart tabs x" and dev: "major dev < length tabs" "tabs ! major dev" "dev \<noteq> NODEV"
  obtains b s where "getblk tabs dev blkno (st x) = Inr (b, s)" "b_flags s b = {B_BUSY}" "b_dev s b = dev" "b_blkno s b = blkno"
proof -
  note f = bstart_facts [OF x]
  let ?dp = "d_tab (major dev)"
  have "b_forw (st x) ?dp = ?dp" using f(4) dev by simp
  then have 1: "find_buf (NBUF + 1) ?dp dev blkno (b_forw (st x) ?dp) (st x) = Some None" by simp
  obtain as where as: "dlist (av_forw (st x)) (av_back (st x)) bfreelist as" "set as = {..<NBUF}"
    using f(1) by (auto simp: init_ok_def)
  have "as \<noteq> []"
  proof
    assume "as = []"
    then have "{..<NBUF} = {}" using as(2) by simp
    then show False by (simp add: NBUF_def lessThan_empty_iff)
  qed
  then have b: "av_forw (st x) bfreelist \<in> set as" using dlist_head [OF as(1)] by (cases as) auto
  then have "av_forw (st x) bfreelist \<noteq> bfreelist" "b_flags (st x) (av_forw (st x) bfreelist) = {}"
    using as f(1) by (auto simp: dlist_def init_ok_def)
  then show ?thesis
    using that 1 dev by (simp add: getblk_def Let_def assign_fields)
qed

definition bio0 :: bio where
  "bio0 = \<lparr>b_flags = \<lambda>_. {}, b_forw = id, b_back = id, av_forw = id, av_back = id, b_dev = \<lambda>_. NODEV,
     b_blkno = \<lambda>_. 0, b_data = \<lambda>_. [], b_error = \<lambda>_. 0, b_bcount = \<lambda>_. 0,
     bio_info = \<lparr>nread = 0, nreada = 0, ncache = 0, nwrite = 0, bufcount = \<lambda>_. 0\<rparr>, bu_error = 0, ioq = [],
     bdisk = \<lambda>d k. replicate 512 (word_of_int k), waiters = {}\<rparr>"

definition sys0 :: bsys where
  "sys0 = \<lparr>st = binit [True] bio0, held = \<lambda>_. None, blog = \<lambda>d k. Some (bdisk (binit [True] bio0) d k)\<rparr>"

abbreviation breach :: "bsys \<Rightarrow> bool" where
  "breach \<equiv> reach (bstart [True]) (bio_step [True])"

lemma sys0_start: "bstart [True] sys0"
  unfolding bstart_def sys0_def by (auto intro: exI [of _ bio0] simp: bio0_def)

lemma sys0_reach: "breach sys0"
  by (rule reach_start) (rule sys0_start)

lemma run_waiting:
  obtains x b where "breach x" "ChBuf b \<in> waiters (st x)" "held x b = Some Reading" "b \<in> set (ioq (st x))"
    "b_dev (st x) b = 0" "b_blkno (st x) b = 7" "B_ASYNC \<notin> b_flags (st x) b" "B_READ \<in> b_flags (st x) b"
    "held x = (\<lambda>_. None)(b := Some Reading)" "blog x = blog sys0"
proof -
  obtain b s where g: "getblk [True] 0 7 (st sys0) = Inr (b, s)" "b_flags s b = {B_BUSY}" "b_dev s b = 0" "b_blkno s b = 7"
    by (rule bstart_getblk [OF sys0_start, of 0 7]) (simp_all add: major_def NODEV_def)
  define x1 where "x1 = sys0\<lparr>st := s, held := (held sys0)(b := Some Clean)\<rparr>"
  have "breach x1"
    unfolding x1_def by (rule reach_step [OF sys0_reach st_getblk [OF _ g(1)]]) (simp add: NODEV_def)
  define x2 where "x2 = x1\<lparr>st := start_read b (st x1), held := (held x1)(b := Some Reading)\<rparr>"
  define s3 where "s3 = (st x2)\<lparr>waiters := insert (ChBuf b) (waiters (st x2))\<rparr>"
  have 2: "breach x2"
    unfolding x2_def by (rule reach_step [OF \<open>breach x1\<close> st_start_read]) (use g in \<open>simp_all add: x1_def NODEV_def\<close>)
  have f: "b_flags (st x2) b = {B_READ, B_BUSY}" "held x2 b = Some Reading" "b \<in> set (ioq (st x2))"
    "b_dev (st x2) b = 0" "b_blkno (st x2) b = 7"
    using g by (auto simp: x2_def x1_def start_read_def fl_defs Let_def)
  have w: "iowait b (st x2) = Inl (Sleeping (ChBuf b), s3)" by (simp add: iowait_def bsleep_def f s3_def)
  have "breach (x2\<lparr>st := s3\<rparr>)" by (rule reach_step [OF 2 st_iowait_sleep [OF _ w]]) (simp add: f)
  moreover have "held x2 = (\<lambda>_. None)(b := Some Reading)" "blog x2 = blog sys0" by (simp_all add: x2_def x1_def sys0_def)
  ultimately show ?thesis by (intro that [of "x2\<lparr>st := s3\<rparr>" b]) (simp_all add: s3_def f)
qed

lemma run_done:
  obtains x b where "breach x" "held x = (\<lambda>_. None)(b := Some Clean)" "B_DONE \<in> b_flags (st x) b" "B_ERROR \<notin> b_flags (st x) b"
    "b_dev (st x) b = 0" "b_blkno (st x) b = 7" "blog x = blog sys0"
proof -
  obtain x b where x: "breach x" "held x b = Some Reading" "b \<in> set (ioq (st x))" "b_dev (st x) b = 0" "b_blkno (st x) b = 7"
    "B_ASYNC \<notin> b_flags (st x) b" "B_READ \<in> b_flags (st x) b" and hx: "held x = (\<lambda>_. None)(b := Some Reading)" "blog x = blog sys0" by (rule run_waiting)
  define s where "s = iodone b (transfer b (st x))"
  have "breach (x\<lparr>st := s\<rparr>)" unfolding s_def by (rule reach_step [OF x(1) st_transfer [OF x(3)]])
  moreover have fl: "B_DONE \<in> b_flags s b" "b_dev s b = 0" "b_blkno s b = 7"
    using x by (simp_all add: s_def iodone_def transfer_def fl_defs Let_def)
  moreover have "B_ERROR \<notin> b_flags s b"
  proof -
    have "b < NBUF" using binv_D(10) [OF bio.reach_inv [OF x(1)] x(3)] .
    then have "B_ERROR \<notin> b_flags (st x) b" using binv_D(7) [OF bio.reach_inv [OF x(1)]] x(3) by (simp add: buf_ok_def)
    then show ?thesis using x(6,7) by (simp add: s_def iodone_def transfer_def fl_defs Let_def)
  qed
  moreover have "iowait b s = Inr ((), s)" using fl \<open>B_ERROR \<notin> b_flags s b\<close> by (simp add: iowait_def geterror_def)
  ultimately have "breach (x\<lparr>st := s, held := (held x)(b := Some Clean)\<rparr>)"
    using reach_step [of "bstart [True]" "bio_step [True]" "x\<lparr>st := s\<rparr>", OF _ st_iowait [of _ b s]] x(2) by simp
  then show ?thesis by (rule that [of _ b]) (use fl \<open>B_ERROR \<notin> b_flags s b\<close> hx in simp_all)
qed

text \<open>It changes the block and leaves it to be written later.\<close>

lemma run_delayed:
  obtains x where "breach x" "held x = (\<lambda>_. None)" "blog x 0 7 = Some [1]"
proof -
  obtain x b where x: "breach x" "held x = (\<lambda>_. None)(b := Some Clean)" "B_DONE \<in> b_flags (st x) b" "B_ERROR \<notin> b_flags (st x) b"
    "b_dev (st x) b = 0" "b_blkno (st x) b = 7" by (rule run_done)
  define y where "y = x\<lparr>st := (st x)\<lparr>b_data := (b_data (st x))(b := [1])\<rparr>, held := (held x)(b := Some Dirty)\<rparr>"
  have y: "breach y" unfolding y_def by (rule reach_step [OF x(1) st_modify]) (simp add: x(2))
  obtain t where "bawrite b (st y) = Inr ((), t)" by (rule bawrite_result [of b "st y"])
  then obtain s where s: "bdwrite b (st y) = Inr ((), s)"
    by (cases "B_TAPE \<in> b_flags (st y) (d_tab (major (b_dev (st y) b)))") (auto simp: bdwrite_def)
  have "breach (y\<lparr>st := s, held := (held y)(b := None), blog := put_log b y\<rparr>)"
    by (rule reach_step [OF y st_bdwrite [OF _ _ _ s]]) (use x in \<open>simp_all add: y_def NODEV_def\<close>)
  then show ?thesis by (rule that) (use x in \<open>simp_all add: y_def put_log_def fun_eq_iff\<close>)
qed

subsection \<open>Properties\<close>

text \<open>
  C9: The cache refines a plain store of blocks.  In every state that processes and devices
  can reach, with any interleaving of calls, transfers and I/O errors, a process that has a
  buffer with a completed transfer and no error, and has not changed it, has in it what was
  last written to that block, and so has a process that gets the buffer from the cache by
  \<open>bread\<close> without waiting, which is the buffer of the block it asked for.  This is for every block
  whose last write has not failed, and of which no process has released a changed buffer
  unwritten since.
\<close>

theorem bread_current:
  assumes r: "reach (bstart tabs) (bio_step tabs) x"
  shows "(held x b = Some Clean \<and> b_dev (st x) b \<noteq> NODEV \<and> B_DONE \<in> b_flags (st x) b \<and> B_ERROR \<notin> b_flags (st x) b \<longrightarrow>
      (\<forall>v. blog x (b_dev (st x) b) (b_blkno (st x) b) = Some v \<longrightarrow> b_data (st x) b = v)) \<and>
    (dev \<noteq> NODEV \<and> bread tabs dev blkno (st x) = Inr (b, s) \<longrightarrow>
      b_dev s b = dev \<and> b_blkno s b = blkno \<and> (\<forall>v. blog x dev blkno = Some v \<longrightarrow> b_data s b = v))"
proof -
  have clean: "b_data (st y) b = v"
    if "reach (bstart tabs) (bio_step tabs) y" "held y b = Some Clean" "b_dev (st y) b \<noteq> NODEV"
      "B_DONE \<in> b_flags (st y) b" "B_ERROR \<notin> b_flags (st y) b" "blog y (b_dev (st y) b) (b_blkno (st y) b) = Some v" for y v
    using binv_D(8) [OF bio.reach_inv [OF that(1)]] binv_D(9) [OF bio.reach_inv [OF that(1)]] that by (simp add: coh_buf_def)
  have "b_dev s b = dev \<and> b_blkno s b = blkno \<and> (\<forall>v. blog x dev blkno = Some v \<longrightarrow> b_data s b = v)"
    if dev: "dev \<noteq> NODEV" and h: "bread tabs dev blkno (st x) = Inr (b, s)"
  proof -
    obtain b' t where g: "getblk tabs dev blkno (st x) = Inr (b', t)" and
      k: "(if B_DONE \<in> b_flags t b' then Inr (b', count (\<lambda>c. c\<lparr>ncache := ncache c + 1\<rparr>) t)
         else rbind (iowait b' (start_read b' t)) (\<lambda>(_, s). Inr (b', s))) = Inr (b, s)"
      using h unfolding bread_def rbind_Inr_iff by auto
    have d: "B_DONE \<in> b_flags t b'"
      using k by (auto simp: bsleep_def iowait_def start_read_def fl_defs Let_def split: if_splits)
    then have b: "b' = b" "s = count (\<lambda>c. c\<lparr>ncache := ncache c + 1\<rparr>) t" using k by auto
    have t: "b_dev t b = dev \<and> b_blkno t b = blkno \<and> B_ERROR \<notin> b_flags t b"
      using getblk_ok [OF bio.reach_inv [OF r] dev, of blkno] g unfolding b(1)
      by (cases "major dev < length tabs \<and> tabs ! major dev") (auto simp: got_def getblk_def Let_def split: if_splits)
    then show ?thesis
      using clean [OF bread_steps(1) [OF r dev h]] d dev by (simp add: b count_def)
  qed
  then show ?thesis using clean [OF r] by blast
qed

theorem bread_current_witness:
  "\<exists>x b. breach x \<and> held x b = Some Clean \<and> B_DONE \<in> b_flags (st x) b \<and> b_dev (st x) b = 0 \<and> b_blkno (st x) b = 7 \<and>
    blog x 0 7 = Some (bdisk (binit [True] bio0) 0 7) \<and> b_data (st x) b = bdisk (binit [True] bio0) 0 7"
proof -
  obtain x b where x: "breach x" "held x = (\<lambda>_. None)(b := Some Clean)" "B_DONE \<in> b_flags (st x) b" "B_ERROR \<notin> b_flags (st x) b"
    "b_dev (st x) b = 0" "b_blkno (st x) b = 7" "blog x = blog sys0" by (rule run_done)
  have l: "blog x 0 7 = Some (bdisk (binit [True] bio0) 0 7)" by (simp add: x(7) sys0_def)
  have "b_data (st x) b = bdisk (binit [True] bio0) 0 7"
    using bread_current [OF x(1), of b] x l by (simp add: NODEV_def)
  with x l show ?thesis by (intro exI [of _ x] exI [of _ b]) simp
qed

text \<open>
  C10: In every reachable state no two buffers hold the same block, following \<open>av_forw\<close> from
  \<open>bfreelist\<close> (and \<open>av_back\<close> in the other direction) leads exactly through the buffers that
  are not busy, each once, and a buffer is busy exactly if one process has it or a transfer
  is in progress.
\<close>

theorem buffer_lists_sound:
  assumes "reach (bstart tabs) (bio_step tabs) x"
  shows "(\<exists>as. dlist (av_forw (st x)) (av_back (st x)) bfreelist as \<and>
      set as = {b. b < NBUF \<and> B_BUSY \<notin> b_flags (st x) b}) \<and>
    (\<forall>b<NBUF. B_BUSY \<in> b_flags (st x) b \<longleftrightarrow> held x b \<noteq> None \<or> b \<in> set (ioq (st x))) \<and>
    (\<forall>b<NBUF. \<forall>c<NBUF. b_dev (st x) b \<noteq> NODEV \<and> b_dev (st x) c = b_dev (st x) b \<and>
      b_blkno (st x) c = b_blkno (st x) b \<longrightarrow> c = b)"
  using binv_D(1,3,7) [OF bio.reach_inv [OF assms]] by (auto simp: av_ok_def uniq_def buf_ok_def)

theorem buffer_lists_sound_witness:
  "\<exists>x as. breach x \<and> waiters (st x) \<noteq> {} \<and> dlist (av_forw (st x)) (av_back (st x)) bfreelist as \<and>
    set as = {b. b < NBUF \<and> B_BUSY \<notin> b_flags (st x) b}"
proof -
  obtain x b where x: "breach x" "ChBuf b \<in> waiters (st x)" by (rule run_waiting)
  then show ?thesis using buffer_lists_sound [OF x(1)] by blast
qed

text \<open>
  C12: \<open>getblk\<close> of a block of a configured device always comes to an end: it returns the
  buffer of that block, which no other process has, or it sleeps until the buffer of that block is
  released, which is busy, or it sleeps until some buffer is released, and then no buffer holds the block
  and all buffers are busy.  It does not panic, and the loop that writes out delayed blocks ends.
\<close>

theorem getblk_returns:
  assumes r: "reach (bstart tabs) (bio_step tabs) x" and dev: "dev \<noteq> NODEV" "major dev < length tabs" "tabs ! major dev"
  shows "(\<exists>b s. getblk tabs dev blkno (st x) = Inr (b, s) \<and> b < NBUF \<and> held x b = None \<and> b_dev s b = dev \<and> b_blkno s b = blkno) \<or>
    (\<exists>b s. getblk tabs dev blkno (st x) = Inl (Sleeping (ChBuf b), s) \<and> ChBuf b \<in> waiters s \<and> b < NBUF \<and>
      B_BUSY \<in> b_flags s b \<and> B_WANTED \<in> b_flags s b \<and> b_dev s b = dev \<and> b_blkno s b = blkno) \<or>
    (\<exists>s. getblk tabs dev blkno (st x) = Inl (Sleeping ChFree, s) \<and> ChFree \<in> waiters s \<and> B_WANTED \<in> b_flags s bfreelist \<and>
      (\<forall>b<NBUF. B_BUSY \<in> b_flags s b \<and> \<not> (b_dev s b = dev \<and> b_blkno s b = blkno)))"
proof -
  have g: "got tabs x (\<lambda>b s. b_dev s b = dev \<and> b_blkno s b = blkno \<and> B_ERROR \<notin> b_flags s b) (block_wait dev blkno)
      (NBUF + 1) (getblk tabs dev blkno (st x))"
    by (rule getblk_ok [OF bio.reach_inv [OF r] dev])
  have n: "\<not> NBUF + 1 \<le> avail_count (st x)" using avail_count_less [of "st x"] by simp
  show ?thesis
  proof (cases "getblk tabs dev blkno (st x)")
    case (Inl e)
    then obtain c s where e: "e = (Sleeping c, s)" "c \<in> waiters s" "block_wait dev blkno c s"
      using g n by (cases e; cases "fst e") (auto simp: got_def)
    then show ?thesis using Inl by (cases c) (auto simp: block_wait_def all_busy_def)
  next
    case (Inr p)
    obtain b s where p: "p = (b, s)" by (cases p)
    have "binv tabs (x\<lparr>st := s, held := (held x)(b := Some Clean)\<rparr>)" using g by (simp add: Inr p got_def)
    then have "b < NBUF" using binv_D(9) [of tabs _ b] by fastforce
    then show ?thesis using g by (simp add: Inr p got_def)
  qed
qed

theorem getblk_returns_witness:
  "\<exists>x b. breach x \<and> held x b = Some Reading \<and>
    (\<exists>s. getblk [True] 0 7 (st x) = Inl (Sleeping (ChBuf b), s) \<and> B_WANTED \<in> b_flags s b \<and> b_dev s b = 0 \<and> b_blkno s b = 7)"
proof -
  obtain x b where x: "breach x" "held x b = Some Reading" "b_dev (st x) b = 0" "b_blkno (st x) b = 7" by (rule run_waiting)
  have dev: "(0::nat) \<noteq> NODEV" "major 0 < length [True]" "[True] ! major 0" by (simp_all add: major_def NODEV_def)
  note i = binv_D [OF bio.reach_inv [OF x(1)]]
  have b: "b < NBUF" "B_BUSY \<in> b_flags (st x) b" using i(9) [of b] i(7) [of b] x(2) by (auto simp: buf_ok_def)
  obtain r where r: "find_buf (NBUF + 1) (d_tab (major 0)) 0 7 (b_forw (st x) (d_tab (major 0))) (st x) = Some r"
    "r = None \<Longrightarrow> \<forall>c<NBUF. \<not> (b_dev (st x) c = 0 \<and> b_blkno (st x) c = 7)"
    "\<And>b. r = Some b \<Longrightarrow> b < NBUF \<and> b_dev (st x) b = 0 \<and> b_blkno (st x) b = 7"
    by (rule find_buf_ok [OF i(2) dev(1), of 7]) (use dev in \<open>auto simp: heads_def\<close>)
  have "r = Some b"
  proof (cases r)
    case None
    then show ?thesis using r(2) b(1) x(3,4) by blast
  next
    case (Some c)
    then have "c < NBUF" "b_dev (st x) c = b_dev (st x) b" "b_blkno (st x) c = b_blkno (st x) b" using r(3) x(3,4) by auto
    then show ?thesis using i(3) b(1) x(3) dev(1) Some unfolding uniq_def by metis
  qed
  then obtain s where "getblk [True] 0 7 (st x) = Inl (Sleeping (ChBuf b), s)"
    using r(1) b(2) by (simp add: getblk_def Let_def bsleep_def major_def)
  then show ?thesis using getblk_returns [OF x(1) dev, of 7] x(1,2) by auto
qed

text \<open>
  C13: No wakeup is lost.  If a process sleeps on a buffer, then the buffer is in a transfer
  whose completion wakes the process, or another process has it and wakes the process by
  releasing it.
\<close>

theorem no_lost_wakeup:
  assumes r: "reach (bstart tabs) (bio_step tabs) x" and w: "ChBuf b \<in> waiters (st x)"
  shows "if b \<in> set (ioq (st x)) then ChBuf b \<notin> waiters (iodone b (transfer b (st x)))
    else held x b \<noteq> None \<and> ChBuf b \<notin> waiters (brelse b (st x))"
proof -
  note i = binv_D [OF bio.reach_inv [OF r]]
  have b: "b < NBUF" "B_BUSY \<in> b_flags (st x) b" and f: "B_WANTED \<in> b_flags (st x) b \<or> b \<in> set (ioq (st x)) \<and> B_ASYNC \<notin> b_flags (st x) b"
    using i(5) w by (auto simp: wait_ok_def)
  have bx: "b \<noteq> bfreelist" using b by (simp add: bfreelist_def)
  have tr: "b_flags (transfer b (st x)) = b_flags (st x)" "waiters (transfer b (st x)) = waiters (st x)"
    by (simp_all add: transfer_def Let_def)
  have "ChBuf b \<notin> waiters (iodone b (transfer b (st x)))" if "b \<in> set (ioq (st x))"
    using f by (auto simp: iodone_cases [OF bx] tr brelse_fields(9) [OF bx] fl_defs bx)
  moreover have "held x b \<noteq> None \<and> ChBuf b \<notin> waiters (brelse b (st x))" if "b \<notin> set (ioq (st x))"
    using that f b i(7) [OF b(1)] by (auto simp: brelse_fields(9) [OF bx] buf_ok_def)
  ultimately show ?thesis by simp
qed

theorem no_lost_wakeup_witness:
  "\<exists>x b. breach x \<and> b \<in> set (ioq (st x)) \<and> ChBuf b \<in> waiters (st x) \<and> ChBuf b \<notin> waiters (iodone b (transfer b (st x)))"
proof -
  obtain x b where x: "breach x" "ChBuf b \<in> waiters (st x)" "b \<in> set (ioq (st x))" by (rule run_waiting)
  then show ?thesis using no_lost_wakeup [OF x(1,2)] by auto
qed

text \<open>
  C11: \<open>bflush\<close>, the last part of \<open>sync\<close>, always ends.  After it every block of the device
  (of every device for \<open>NODEV\<close>) has on the device what was last written to it, or this is
  in a buffer that has been handed to the driver to be written, or a process has the buffer
  of the block.  This is for every block whose last write has not failed before, and of which no
  process has released a changed buffer unwritten since.
\<close>

theorem bflush_durable:
  assumes r: "reach (bstart tabs) (bio_step tabs) x"
  shows "\<exists>s. bflush dev (st x) = Inr ((), s) \<and>
    (\<forall>d k v. d \<noteq> NODEV \<and> (dev = NODEV \<or> d = dev) \<and> blog x d k = Some v \<longrightarrow>
      bdisk s d k = v \<or>
      (\<exists>b\<in>set (ioq s). B_READ \<notin> b_flags s b \<and> b_dev s b = d \<and> b_blkno s b = k \<and> b_data s b = v) \<or>
      (\<exists>b. held x b \<noteq> None \<and> b_dev s b = d \<and> b_blkno s b = k))"
proof -
  obtain s where s: "bflush dev (st x) = Inr ((), s)" "binv tabs (x\<lparr>st := s\<rparr>)"
    and nd: "\<And>b. b < NBUF \<Longrightarrow> B_DELWRI \<in> b_flags s b \<Longrightarrow> dev = NODEV \<or> b_dev s b = dev \<Longrightarrow> B_BUSY \<in> b_flags s b"
    using bflush_loop_ok [OF bio.reach_inv [OF r] avail_count_less, of dev] by (auto simp: bflush_def)
  note i = binv_D [OF s(2), simplified]
  have "bdisk s d k = v \<or>
      (\<exists>b\<in>set (ioq s). B_READ \<notin> b_flags s b \<and> b_dev s b = d \<and> b_blkno s b = k \<and> b_data s b = v) \<or>
      (\<exists>b. held x b \<noteq> None \<and> b_dev s b = d \<and> b_blkno s b = k)"
    if d: "d \<noteq> NODEV" "dev = NODEV \<or> d = dev" "blog x d k = Some v" for d k v
  proof -
    have "bdisk s d k = v \<or> (\<exists>b<NBUF. b_dev s b = d \<and> b_blkno s b = k \<and> pending s b)"
      using i(6) d(1,3) by (auto simp: coherent_def)
    then show ?thesis
    proof (elim disjE exE conjE)
      fix b assume b: "b < NBUF" "b_dev s b = d" "b_blkno s b = k" "pending s b"
      show ?thesis
      proof (cases "b \<in> set (ioq s)")
        case True
        then have "B_READ \<notin> b_flags s b" using b(4) i(7) [OF b(1)] by (auto simp: pending_def buf_ok_def)
        moreover from this have "b_data s b = v" using i(8) [OF b(1)] True b d(1,3) by (auto simp: coh_buf_def)
        ultimately show ?thesis using True b by blast
      next
        case False
        then have "B_BUSY \<in> b_flags s b" using nd [OF b(1)] b d by (auto simp: pending_def)
        then have "held x b \<noteq> None" using i(7) [OF b(1)] False by (simp add: buf_ok_def)
        then show ?thesis using b by blast
      qed
    qed simp
  qed
  then show ?thesis using s(1) by blast
qed

theorem bflush_durable_witness:
  "\<exists>x s. breach x \<and> held x = (\<lambda>_. None) \<and> blog x 0 7 = Some [1] \<and> bflush NODEV (st x) = Inr ((), s) \<and>
    (bdisk s 0 7 = [1] \<or> (\<exists>b\<in>set (ioq s). B_READ \<notin> b_flags s b \<and> b_dev s b = 0 \<and> b_blkno s b = 7 \<and> b_data s b = [1]))"
proof -
  obtain x where x: "breach x" "held x = (\<lambda>_. None)" "blog x 0 7 = Some [1]" by (rule run_delayed)
  have "0 \<noteq> NODEV" by (simp add: NODEV_def)
  then show ?thesis using bflush_durable [OF x(1), of NODEV] x by fastforce
qed

end
