(* ===== verification/Process.thy ===== *)
theory Process
  imports Kernel LinkedLists
begin

unbundle bit_operations_syntax

section \<open>Processes: sleeping, waking up, signals (sys/slp.c, sys/sig.c, sys/sys4.c)\<close>

text \<open>
  The process table with its two kinds of queues: \<open>runq\<close>, the processes that are ready to
  run, and \<open>slpque\<close>, a hash table of the processes that sleep on a channel.  Both are linked
  through \<open>p_link\<close>.  A process is its index in the table; a channel is an address.  The addresses
  of the variables \<open>runin\<close>, \<open>runout\<close> and \<open>lbolt\<close>, which serve as channels, are what the loader makes
  of them and are components of the state that never change.  Giving up the processor
  (\<open>swtch\<close>, called by \<open>sleep\<close>) is the exit \<open>Sleeping\<close>; choosing the next process is \<open>swtch_pick\<close>.
  The queues are only changed at high priority and under \<open>sched_lock\<close>, so each routine is atomic.

  The theorems: the queues stay sound and no process is lost, \<open>wakeup\<close> wakes exactly the
  processes that sleep on the channel, \<open>swtch\<close> chooses the best of the loaded processes, \<open>kill\<close>
  reaches exactly its addressees; and a case in which \<open>wakeup\<close> loses wakeups.
\<close>

subsection \<open>State\<close>

datatype pstat = SFREE | SSLEEP | SWAIT | SRUN | SIDL | SZOMB | SSTOP

datatype pflag = SLOAD | SSYS | SLOCK | SSWAP | STRC | SWTED | SULOCK

type_synonym caddr = u16

definition NPROC :: nat where "NPROC = 150"
definition NSIG :: int where "NSIG = 17"
definition PZERO :: int where "PZERO = 25"
definition NZERO :: int where "NZERO = 20"
definition PUSER :: int where "PUSER = 50"
definition SIGKIL :: int where "SIGKIL = 9"

record proc =
  p_stat :: pstat
  p_flag :: "pflag set"
  p_pri :: int
  p_time :: int
  p_cpu :: u8
  p_nice :: int
  p_sig :: u16
  p_uid :: int
  p_pgrp :: int
  p_pid :: int
  p_ppid :: int
  p_wchan :: caddr
  p_link :: "nat option"
  p_clktim :: int

text \<open>A callout: a routine, \<open>0\<close> for none, that the clock is to call with an argument.\<close>

record callo =
  c_time :: int
  c_arg :: caddr
  c_func :: nat

record sched =
  ptab :: "nat \<Rightarrow> proc"
  slpque :: "nat \<Rightarrow> nat option"
  runq :: "nat option"
  runrun :: u8
  runin :: u8
  runout :: u8
  curpri :: int
  a_runin :: caddr
  a_runout :: caddr
  a_lbolt :: caddr
  mpid :: int
  callout :: "nat \<Rightarrow> callo"
  called :: "(nat \<times> caddr) list"
  lbolt :: int
  time :: int
  dk_busy :: u16
  dk_time :: "nat \<Rightarrow> int"
  printed :: "string list"
  u_procp :: nat
  u_uid :: int
  u_error :: "errno option"
  u_signal :: "nat \<Rightarrow> u16"
  u_r1 :: u16
  u_utime :: int
  u_stime :: int
  u_scale :: u16

type_synonym 'a pres = "('a, sched, caddr) res"

abbreviation upd_proc :: "nat \<Rightarrow> (proc \<Rightarrow> proc) \<Rightarrow> sched \<Rightarrow> sched" where
  "upd_proc p f s \<equiv> s\<lparr>ptab := (ptab s)(p := f (ptab s p))\<rparr>"

abbreviation plink :: "sched \<Rightarrow> nat \<Rightarrow> nat option" where
  "plink s \<equiv> (\<lambda>p. p_link (ptab s p))"

abbreviation pst :: "sched \<Rightarrow> nat \<Rightarrow> pstat" where
  "pst s p \<equiv> p_stat (ptab s p)"

abbreviation pwc :: "sched \<Rightarrow> nat \<Rightarrow> caddr" where
  "pwc s p \<equiv> p_wchan (ptab s p)"

text \<open>The mask takes six bits of the address, so it does not matter how the shift fills in the sign.\<close>

definition HASH :: "caddr \<Rightarrow> nat" where
  "HASH x = unat (drop_bit 5 x AND 63)"

subsection \<open>The queues\<close>

text \<open>
  A walk along \<open>p_link\<close> visits at most \<^const>\<open>NPROC\<close> processes unless the list is circular; then
  the loop of the code does not end, and neither would the model's with any other bound.
\<close>

fun on_queue :: "nat \<Rightarrow> nat \<Rightarrow> nat option \<Rightarrow> sched \<Rightarrow> bool option" where
  "on_queue 0 p q s = None"
| "on_queue (Suc n) p q s =
     (case q of
        None \<Rightarrow> Some False
      | Some q \<Rightarrow> if q = p then Some True else on_queue n p (p_link (ptab s q)) s)"

definition setrq :: "nat \<Rightarrow> sched \<Rightarrow> unit pres" where
  "setrq p s =
     (case on_queue (NPROC + 1) p (runq s) s of
        None \<Rightarrow> Inl (Unfinished, s)
      | Some True \<Rightarrow> Inr ((), s\<lparr>printed := printed s @ [''proc on q'']\<rparr>)
      | Some False \<Rightarrow> Inr ((), (upd_proc p (p_link_update (\<lambda>_. runq s)) s)\<lparr>runq := Some p\<rparr>))"

text \<open>Taking \<open>p\<close>, whose predecessor is \<open>q\<close>, off the queue of its channel.\<close>

definition take_off :: "caddr \<Rightarrow> nat \<Rightarrow> nat option \<Rightarrow> sched \<Rightarrow> sched" where
  "take_off chan p q s =
     (let sp = p_link (ptab s p);
          s = (case q of
                 None \<Rightarrow> s\<lparr>slpque := (slpque s)(HASH chan := sp)\<rparr>
               | Some q \<Rightarrow> upd_proc q (p_link_update (\<lambda>_. sp)) s)
      in upd_proc p (p_wchan_update (\<lambda>_. 0)) s)"

text \<open>
  \<open>wakeup\<close> and \<open>setrun\<close> call each other.  The fuel counts the processes visited and the nesting;
  \<open>wakeup_total\<close> below shows that the bound is enough.
\<close>

fun wakeup_loop :: "nat \<Rightarrow> caddr \<Rightarrow> nat option \<Rightarrow> nat option \<Rightarrow> sched \<Rightarrow> unit pres"
and setrun_fuel :: "nat \<Rightarrow> nat \<Rightarrow> sched \<Rightarrow> unit pres" where
  "wakeup_loop 0 chan p q s = Inl (Unfinished, s)"
| "wakeup_loop (Suc n) chan p q s =
     (case p of
        None \<Rightarrow> Inr ((), s)
      | Some p \<Rightarrow>
          if pwc s p = chan \<and> pst s p \<noteq> SZOMB then
            rbind (setrun_fuel n p (take_off chan p q s)) (\<lambda>(_, t). wakeup_loop n chan (p_link (ptab s p)) q t)
          else wakeup_loop n chan (p_link (ptab s p)) (Some p) s)"
| "setrun_fuel 0 p s = Inl (Unfinished, s)"
| "setrun_fuel (Suc n) p s =
     (if pst s p = SFREE \<or> pst s p = SZOMB then Inl (Panicked ''Running a dead proc'', s)
      else if pwc s p \<noteq> 0 then wakeup_loop n (pwc s p) (slpque s (HASH (pwc s p))) None s
      else
        rbind (setrq p (upd_proc p (p_stat_update (\<lambda>_. SRUN)) s)) (\<lambda>(_, s).
          let s = (if p_pri (ptab s p) < curpri s then s\<lparr>runrun := runrun s + 1\<rparr> else s)
          in if runout s \<noteq> 0 \<and> SLOAD \<notin> p_flag (ptab s p)
             then wakeup_loop n (a_runout s) (slpque s (HASH (a_runout s))) None (s\<lparr>runout := 0\<rparr>)
             else Inr ((), s)))"

definition wfuel :: nat where "wfuel = 3 * NPROC"

definition wakeup :: "caddr \<Rightarrow> sched \<Rightarrow> unit pres" where
  "wakeup chan s = wakeup_loop wfuel chan (slpque s (HASH chan)) None s"

definition setrun :: "nat \<Rightarrow> sched \<Rightarrow> unit pres" where
  "setrun p s = setrun_fuel (wfuel + 1) p s"

definition setpri :: "nat \<Rightarrow> sched \<Rightarrow> int \<times> sched" where
  "setpri pp s =
     (let p = uint (p_cpu (ptab s pp)) div 16 + (PUSER + p_nice (ptab s pp) - NZERO);
          p = (if 127 < p then 127 else p);
          s = (if p < curpri s then s\<lparr>runrun := runrun s + 1\<rparr> else s)
      in (p, upd_proc pp (p_pri_update (\<lambda>_. p)) s))"

subsection \<open>Signals\<close>

text \<open>The loop of \<open>fsig\<close> looks at the bits from the lowest one on.\<close>

fun fsig_loop :: "nat \<Rightarrow> u16 \<Rightarrow> nat \<Rightarrow> nat" where
  "fsig_loop 0 n i = 0"
| "fsig_loop (Suc k) n i = (if n AND 1 \<noteq> 0 then i else fsig_loop k (drop_bit 1 n) (i + 1))"

definition fsig :: "u16 \<Rightarrow> nat" where
  "fsig n = fsig_loop (nat NSIG - 1) n 1"

definition sigbit :: "nat \<Rightarrow> u16" where
  "sigbit n = push_bit (n - 1) 1"

text \<open>The result and the new \<open>p_sig\<close>; \<open>sg\<close> is \<open>u.u_signal\<close>.\<close>

fun issig_loop :: "nat \<Rightarrow> (nat \<Rightarrow> u16) \<Rightarrow> bool \<Rightarrow> u16 \<Rightarrow> (nat \<times> u16) option" where
  "issig_loop 0 sg trc w = None"
| "issig_loop (Suc k) sg trc w =
     (if w = 0 then Some (0, w)
      else let n = fsig w
           in if sg n AND 1 = 0 \<or> trc then Some (n, w)
              else issig_loop k sg trc (w AND NOT (sigbit n)))"

definition issig :: "sched \<Rightarrow> nat pres" where
  "issig s =
     (let p = u_procp s
      in case issig_loop (nat NSIG) (u_signal s) (STRC \<in> p_flag (ptab s p)) (p_sig (ptab s p)) of
           None \<Rightarrow> Inl (Unfinished, s)
         | Some (n, w) \<Rightarrow> Inr (n, upd_proc p (p_sig_update (\<lambda>_. w)) s))"

definition psignal :: "nat \<Rightarrow> int \<Rightarrow> sched \<Rightarrow> unit pres" where
  "psignal p sig s =
     (if sig < 0 \<or> NSIG \<le> sig then Inr ((), s)
      else
        let s = (if sig \<noteq> 0 then upd_proc p (p_sig_update (\<lambda>w. w OR sigbit (nat sig))) s else s);
            s = (if PUSER < p_pri (ptab s p) then upd_proc p (p_pri_update (\<lambda>_. PUSER)) s else s)
        in if pst s p = SSLEEP \<and> PZERO < p_pri (ptab s p) then setrun p s else Inr ((), s))"

text \<open>\<open>signal\<close>, and the loop it shares in form with \<open>kill\<close>.\<close>

fun signal_loop :: "nat list \<Rightarrow> int \<Rightarrow> int \<Rightarrow> sched \<Rightarrow> unit pres" where
  "signal_loop [] pgrp sig s = Inr ((), s)"
| "signal_loop (p # ps) pgrp sig s =
     (if p_pgrp (ptab s p) = pgrp
      then rbind (psignal p sig s) (\<lambda>(_, s). signal_loop ps pgrp sig s)
      else signal_loop ps pgrp sig s)"

definition signal :: "int \<Rightarrow> int \<Rightarrow> sched \<Rightarrow> unit pres" where
  "signal pgrp sig s = (if pgrp = 0 then Inr ((), s) else signal_loop [0..<NPROC] pgrp sig s)"

definition ssig :: "int \<Rightarrow> u16 \<Rightarrow> sched \<Rightarrow> sched" where
  "ssig a fn s =
     (if a \<le> 0 \<or> NSIG \<le> a \<or> a = SIGKIL then s\<lparr>u_error := Some EINVAL\<rparr>
      else upd_proc (u_procp s) (p_sig_update (\<lambda>w. w AND NOT (sigbit (nat a))))
             (s\<lparr>u_r1 := u_signal s (nat a), u_signal := (u_signal s)(nat a := fn)\<rparr>))"

text \<open>The condition under which the loop of \<open>kill\<close> sends the signal to \<open>p\<close>.\<close>

definition kill_to :: "int \<Rightarrow> bool \<Rightarrow> sched \<Rightarrow> nat \<Rightarrow> bool" where
  "kill_to a priv s p \<longleftrightarrow>
     (if pst s p = SFREE then False
      else if a \<noteq> 0 \<and> p_pid (ptab s p) \<noteq> a then False
      else if a = 0 \<and> (p_pgrp (ptab s p) \<noteq> p_pgrp (ptab s (u_procp s)) \<and> \<not> priv \<or> p \<le> 1) then False
      else if u_uid s \<noteq> 0 \<and> u_uid s \<noteq> p_uid (ptab s p) then False
      else True)"

fun kill_loop :: "nat list \<Rightarrow> int \<Rightarrow> bool \<Rightarrow> int \<Rightarrow> int \<Rightarrow> sched \<Rightarrow> int pres" where
  "kill_loop [] a priv sig f s = Inr (f, s)"
| "kill_loop (p # ps) a priv sig f s =
     (if kill_to a priv s p
      then rbind (psignal p sig s) (\<lambda>(_, s). kill_loop ps a priv sig (f + 1) s)
      else kill_loop ps a priv sig f s)"

definition kill :: "int \<Rightarrow> int \<Rightarrow> sched \<Rightarrow> unit pres" where
  "kill pid signo s =
     (let priv = (pid = -1 \<and> u_uid s = 0); a = (if priv then 0 else pid)
      in rbind (kill_loop [0..<NPROC] a priv signo 0 s) (\<lambda>(f, s).
           Inr ((), if f = 0 then s\<lparr>u_error := Some ESRCH\<rparr> else s)))"

subsection \<open>Giving up the processor\<close>

text \<open>
  \<open>sleep\<close> up to the call of \<open>swtch\<close>.  The result \<open>Inr\<close> is the jump to \<open>u_qsav\<close>, taken when a
  signal is pending.
\<close>

definition sleep :: "caddr \<Rightarrow> int \<Rightarrow> sched \<Rightarrow> unit pres" where
  "sleep chan pri s =
     (let rp = u_procp s; h = HASH chan
      in if chan = 0 then Inl (Panicked ''zero wchan'', s)
         else
           let s = upd_proc rp (\<lambda>r. r\<lparr>p_stat := SSLEEP, p_wchan := chan, p_pri := pri, p_link := slpque s h\<rparr>) s;
               s = s\<lparr>slpque := (slpque s)(h := Some rp)\<rparr>
           in if PZERO < pri then
                rbind (issig s) (\<lambda>(n, s).
                  if n \<noteq> 0 then
                    let s = upd_proc rp (\<lambda>r. r\<lparr>p_wchan := 0, p_stat := SRUN\<rparr>) s
                    in Inr ((), s\<lparr>slpque := (slpque s)(h := p_link (ptab s rp))\<rparr>)
                  else
                    rbind (if runin s \<noteq> 0 then wakeup (a_runin s) (s\<lparr>runin := 0\<rparr>) else Inr ((), s))
                      (\<lambda>(_, s). Inl (Sleeping chan, s)))
              else Inl (Sleeping chan, s))"

text \<open>
  The search of \<open>swtch\<close>: the best process so far (\<open>pp\<close>), its predecessor (\<open>pq\<close>) and its priority.
\<close>

fun swtch_search :: "nat \<Rightarrow> nat option \<Rightarrow> nat option \<Rightarrow> nat option \<Rightarrow> nat option \<Rightarrow> int \<Rightarrow> sched \<Rightarrow>
    (nat option \<times> nat option \<times> int) option" where
  "swtch_search 0 p q pp pq n s = None"
| "swtch_search (Suc k) p q pp pq n s =
     (case p of
        None \<Rightarrow> Some (pp, pq, n)
      | Some p \<Rightarrow>
          if pst s p = SRUN \<and> SLOAD \<in> p_flag (ptab s p) \<and> p_pri (ptab s p) < n
          then swtch_search k (p_link (ptab s p)) (Some p) (Some p) q (p_pri (ptab s p)) s
          else swtch_search k (p_link (ptab s p)) (Some p) pp pq n s)"

text \<open>
  One turn of the loop of \<open>swtch\<close>: the process that is resumed, or \<^const>\<open>None\<close> if there is none and
  the machine idles until the next turn.
\<close>

definition swtch_pick :: "sched \<Rightarrow> nat option pres" where
  "swtch_pick s =
     (let s = s\<lparr>runrun := 0\<rparr>
      in case swtch_search (NPROC + 1) (runq s) None None None 128 s of
           None \<Rightarrow> Inl (Unfinished, s)
         | Some (None, _, _) \<Rightarrow> Inr (None, s)
         | Some (Some p, pq, n) \<Rightarrow>
             let s = (case pq of
                        None \<Rightarrow> s\<lparr>runq := p_link (ptab s p)\<rparr>
                      | Some q \<Rightarrow> upd_proc q (p_link_update (\<lambda>_. p_link (ptab s p))) s);
                 s = s\<lparr>curpri := n\<rparr>
             in Inr (Some p, upd_proc p (p_flag_update (\<lambda>f. f - {SSWAP})) s))"

subsection \<open>New processes\<close>

text \<open>The search for a process number that is neither the number nor the group of a process.\<close>

fun newproc_pid :: "nat \<Rightarrow> int \<Rightarrow> sched \<Rightarrow> int option" where
  "newproc_pid 0 m s = None"
| "newproc_pid (Suc k) m s =
     (if 30000 \<le> m + 1 then newproc_pid k 0 s
      else if \<exists>q\<in>set [0..<NPROC]. p_pid (ptab s q) = m + 1 \<or> p_pgrp (ptab s q) = m + 1 then newproc_pid k (m + 1) s
      else Some (m + 1))"

definition newproc_entry :: "int \<Rightarrow> proc \<Rightarrow> proc \<Rightarrow> proc" where
  "newproc_entry m rip r =
     r\<lparr>p_stat := SRUN, p_clktim := 0, p_flag := {SLOAD}, p_uid := p_uid rip, p_pgrp := p_pgrp rip,
       p_nice := p_nice rip, p_pid := m, p_ppid := p_pid rip, p_time := 0, p_cpu := 0\<rparr>"

text \<open>The end of \<open>newproc\<close>: the new process is ready, and marked so that it starts in \<open>u_ssav\<close>.\<close>

definition newproc_ready :: "nat \<Rightarrow> sched \<Rightarrow> unit pres" where
  "newproc_ready p s = rbind (setrq p s) (\<lambda>(_, s). Inr ((), upd_proc p (p_flag_update (\<lambda>f. insert SSWAP f)) s))"

text \<open>
  The part of \<open>newproc\<close> that works on the process table, when there is core for the copy.  The mailbox of
  the process, the copy of the image, which goes through \<open>xswap\<close> when there is no core, and the counts of
  files, text and directories are not in this state.
\<close>

definition newproc :: "sched \<Rightarrow> unit pres" where
  "newproc s =
     (case newproc_pid (4 * NPROC + 10) (mpid s) s of
        None \<Rightarrow> Inl (Unfinished, s)
      | Some m \<Rightarrow>
          let s = s\<lparr>mpid := m\<rparr>
          in case find (\<lambda>q. pst s q = SFREE) [0..<NPROC] of
               None \<Rightarrow> Inl (Panicked ''no procs'', s)
             | Some p \<Rightarrow>
                 newproc_ready p (upd_proc p (newproc_entry m (ptab s (u_procp s))) s))"

subsection \<open>Sound queues\<close>

text \<open>
  \<open>S h\<close> are the processes on the sleep queue \<open>h\<close> and \<open>R\<close> those on the run queue: a process is on
  the queue of the channel it waits for or on the run queue, and on no other.
\<close>

definition queues :: "sched \<Rightarrow> (nat \<Rightarrow> nat list) \<Rightarrow> nat list \<Rightarrow> bool" where
  [inv_simps]: "queues s S R \<longleftrightarrow>
     (\<forall>h. linked (plink s) (slpque s h) (S h) \<and> distinct (S h)) \<and>
     (\<forall>h. \<forall>p\<in>set (S h). p < NPROC \<and> pwc s p \<noteq> 0 \<and> HASH (pwc s p) = h \<and> pst s p = SSLEEP) \<and>
     linked (plink s) (runq s) R \<and> distinct R \<and>
     (\<forall>p\<in>set R. p < NPROC \<and> pwc s p = 0 \<and> pst s p = SRUN) \<and>
     (\<forall>p<NPROC. pwc s p \<noteq> 0 \<longrightarrow> p \<in> set (S (HASH (pwc s p)))) \<and>
     (\<forall>p<NPROC. pst s p = SSLEEP \<longrightarrow> pwc s p \<noteq> 0)"

definition sleepers :: "sched \<Rightarrow> caddr \<Rightarrow> nat set" where
  "sleepers s c = {p. p < NPROC \<and> pwc s p = c}"

text \<open>\<open>t\<close> is \<open>s\<close> after the processes \<open>A\<close> have been made ready; the links are what \<open>queues\<close> says.\<close>

definition woken :: "nat set \<Rightarrow> sched \<Rightarrow> sched \<Rightarrow> bool" where
  "woken A s t \<longleftrightarrow>
     (\<forall>p. ptab t p = (if p \<in> A then (ptab s p)\<lparr>p_stat := SRUN, p_wchan := 0\<rparr> else ptab s p)\<lparr>p_link := p_link (ptab t p)\<rparr>) \<and>
     t = s\<lparr>ptab := ptab t, slpque := slpque t, runq := runq t, runrun := runrun t, runout := runout t\<rparr> \<and>
     (runout t = runout s \<or> runout t = 0)"

text \<open>What \<open>setrun\<close> does to a process that waits for nothing.\<close>

definition made_ready :: "nat \<Rightarrow> sched \<Rightarrow> sched" where
  "made_ready p s =
     (let t = (upd_proc p (\<lambda>r. r\<lparr>p_stat := SRUN, p_link := runq s\<rparr>) s)\<lparr>runq := Some p\<rparr>
      in if p_pri (ptab s p) < curpri s then t\<lparr>runrun := runrun s + 1\<rparr> else t)"

lemma queue_length: "\<lbrakk>distinct R; \<forall>p\<in>set R. p < NPROC\<rbrakk> \<Longrightarrow> length R \<le> NPROC"
  using card_mono [of "{..<NPROC}" "set R"] by (auto simp: distinct_card)

lemma on_queue_linked:
  "\<lbrakk>linked (plink s) q R; length R < n\<rbrakk> \<Longrightarrow> on_queue n p q s = Some (p \<in> set R)"
proof (induction R arbitrary: q n)
  case Nil
  then show ?case by (cases n) auto
next
  case (Cons a R)
  then show ?case by (cases n) auto
qed

lemma setrun_ready:
  assumes "linked (plink s) (runq s) R" "length R \<le> NPROC" "p \<notin> set R" "pst s p \<notin> {SFREE, SZOMB}" "pwc s p = 0"
  shows "setrun_fuel (Suc n) p s =
     (if runout s \<noteq> 0 \<and> SLOAD \<notin> p_flag (ptab s p)
      then wakeup_loop n (a_runout s) (slpque s (HASH (a_runout s))) None ((made_ready p s)\<lparr>runout := 0\<rparr>)
      else Inr ((), made_ready p s))"
proof -
  let ?s = "upd_proc p (p_stat_update (\<lambda>_. SRUN)) s"
  have "plink ?s = plink s" by auto
  then have "linked (plink ?s) (runq ?s) R" using assms(1) by simp
  then have "on_queue (NPROC + 1) p (runq ?s) ?s = Some False"
    using on_queue_linked [of ?s "runq ?s" R "NPROC + 1" p] assms(2,3) by simp
  then show ?thesis using assms(4,5) by (simp add: setrq_def made_ready_def Let_def)
qed

text \<open>Taking one process off its queue and making it ready.\<close>

definition last_opt :: "'a list \<Rightarrow> 'a option" where
  "last_opt xs = (if xs = [] then None else Some (last xs))"

definition head_opt :: "'a list \<Rightarrow> 'a option" where
  "head_opt xs = (case xs of [] \<Rightarrow> None | x # _ \<Rightarrow> Some x)"

lemma head_opt_simps [simp]: "head_opt [] = None" "head_opt (x # xs) = Some x"
  by (simp_all add: head_opt_def)

lemma queue_head: "linked f p xs \<Longrightarrow> p = head_opt xs"
  by (cases xs) auto

lemma path_tail: "linked f p (xs @ y # ys) \<Longrightarrow> f y = head_opt ys"
  using queue_head by fastforce

lemma filter_neq_id [simp]: "y \<notin> set xs \<Longrightarrow> filter (\<lambda>p. p \<noteq> y) xs = xs"
  by (auto simp: filter_id_conv)

lemma take_off_fields [simp]: "runout (take_off chan p q s) = runout s" "a_runout (take_off chan p q s) = a_runout s"
  by (simp_all add: take_off_def Let_def split: option.splits)

lemma queues_linked:
  "queues s S R \<Longrightarrow> linked (plink s) (slpque s h) (S h)" "queues s S R \<Longrightarrow> distinct (S h)"
  "queues s S R \<Longrightarrow> linked (plink s) (runq s) R" "queues s S R \<Longrightarrow> distinct R"
  unfolding inv_simps by blast+

lemma queues_member:
  "queues s S R \<Longrightarrow> p \<in> set (S h) \<Longrightarrow> p < NPROC \<and> pwc s p \<noteq> 0 \<and> HASH (pwc s p) = h \<and> pst s p = SSLEEP"
  "queues s S R \<Longrightarrow> p \<in> set R \<Longrightarrow> p < NPROC \<and> pwc s p = 0 \<and> pst s p = SRUN"
  unfolding inv_simps by blast+

lemma queues_disjoint:
  "queues s S R \<Longrightarrow> p \<in> set (S h) \<Longrightarrow> p \<in> set (S k) \<Longrightarrow> h = k"
  "queues s S R \<Longrightarrow> p \<in> set (S h) \<Longrightarrow> p \<notin> set R"
  unfolding inv_simps by (metis, metis)

lemma take_off_links:
  assumes q: "queues s S R" and S: "S (HASH chan) = xs @ y # ys"
  defines "t \<equiv> take_off chan y (last_opt xs) s"
  shows "linked (plink t) (slpque t h) (filter (\<lambda>p. p \<noteq> y) (S h))" "linked (plink t) (runq t) R"
    "ptab t p = (if p = y then (ptab s p)\<lparr>p_wchan := 0\<rparr> else ptab s p)\<lparr>p_link := p_link (ptab t p)\<rparr>"
    "t = s\<lparr>ptab := ptab t, slpque := slpque t\<rparr>"
proof -
  have l: "\<And>h. linked (plink s) (slpque s h) (S h)" "linked (plink s) (runq s) R" "\<And>h. distinct (S h)"
    using q by (auto simp: inv_simps)
  have lt: "plink t = (if xs = [] then plink s else (plink s)(last xs := p_link (ptab s y)))"
    by (auto simp: t_def take_off_def last_opt_def fun_eq_iff Let_def)
  have last: "xs \<noteq> [] \<Longrightarrow> last xs \<in> set (S (HASH chan))" by (simp add: S)
  then have notR: "xs \<noteq> [] \<Longrightarrow> last xs \<notin> set R" using queues_disjoint(2) [OF q] by blast
  show "linked (plink t) (runq t) R"
    using l(2) notR by (simp add: lt, simp add: t_def take_off_def last_opt_def Let_def)
  show "ptab t p = (if p = y then (ptab s p)\<lparr>p_wchan := 0\<rparr> else ptab s p)\<lparr>p_link := p_link (ptab t p)\<rparr>"
    "t = s\<lparr>ptab := ptab t, slpque := slpque t\<rparr>"
    by (auto simp: t_def take_off_def last_opt_def Let_def)
  show "linked (plink t) (slpque t h) (filter (\<lambda>p. p \<noteq> y) (S h))"
  proof (cases "h = HASH chan")
    case False
    have "y \<notin> set (S h)" "xs \<noteq> [] \<Longrightarrow> last xs \<notin> set (S h)"
      using False queues_disjoint(1) [OF q, of _ h "HASH chan"] last S by (auto, metis)
    moreover from this have "filter (\<lambda>p. p \<noteq> y) (S h) = S h" by (auto simp: filter_id_conv)
    ultimately show ?thesis using l(1) [of h] False
      by (simp add: lt, simp add: t_def take_off_def last_opt_def Let_def)
  next
    case True
    have d: "distinct (xs @ y # ys)" "linked (plink s) (slpque s h) (xs @ y # ys)"
      using l(1,3) [of "HASH chan"] True by (simp_all add: S)
    then have f: "filter (\<lambda>p. p \<noteq> y) (S h) = xs @ ys" by (simp add: True S)
    show ?thesis
    proof (cases xs rule: rev_cases)
      case Nil
      then show ?thesis using d True unfolding f lt by (simp add: t_def take_off_def last_opt_def Let_def)
    next
      case (snoc zs z)
      then have "linked ((plink s)(z := p_link (ptab s y))) (slpque s h) (zs @ z # ys)"
        using path_unlink [of "plink s" "slpque s h" zs z y ys] d by simp
      then show ?thesis unfolding f lt by (simp add: snoc t_def take_off_def last_opt_def Let_def)
    qed
  qed
qed

lemma made_ready_fields:
  "plink (made_ready p s) = (plink s)(p := runq s)" "runq (made_ready p s) = Some p" "slpque (made_ready p s) = slpque s"
  "ptab (made_ready p s) = (ptab s)(p := (ptab s p)\<lparr>p_stat := SRUN, p_link := runq s\<rparr>)"
  "runout (made_ready p s) = runout s" "a_runout (made_ready p s) = a_runout s"
  by (auto simp: made_ready_def Let_def fun_eq_iff)

lemma wake_one:
  assumes q: "queues s S R" and S: "S (HASH chan) = xs @ y # ys"
  defines "t \<equiv> take_off chan y (last_opt xs) s"
  shows "queues (made_ready y t) (\<lambda>h. filter (\<lambda>p. p \<noteq> y) (S h)) (y # R)" "woken {y} s (made_ready y t)"
proof -
  note l = take_off_links [OF q S, folded t_def]
  have y: "y \<in> set (S (HASH chan))" by (simp add: S)
  then have yR: "y \<notin> set R" using queues_disjoint(2) [OF q] by blast
  have p: "pwc t p = (if p = y then 0 else pwc s p)" "pst t p = pst s p" for p
    by (subst l(3), simp)+
  have "linked (plink (made_ready y t)) (slpque (made_ready y t) h) (filter (\<lambda>p. p \<noteq> y) (S h))" for h
    using l(1) unfolding made_ready_fields(1-3) by simp
  moreover have "linked (plink (made_ready y t)) (runq (made_ready y t)) (y # R)"
    using l(2) yR unfolding made_ready_fields(1-3) by simp
  moreover have "pwc (made_ready y t) p = (if p = y then 0 else pwc s p)" "pst (made_ready y t) p = (if p = y then SRUN else pst s p)" for p
    by (simp_all add: made_ready_fields p)
  ultimately show "queues (made_ready y t) (\<lambda>h. filter (\<lambda>p. p \<noteq> y) (S h)) (y # R)"
    using q y yR unfolding queues_def by auto
  show "woken {y} s (made_ready y t)" unfolding woken_def
  proof (intro conjI)
    show "\<forall>p. ptab (made_ready y t) p = (if p \<in> {y} then (ptab s p)\<lparr>p_stat := SRUN, p_wchan := 0\<rparr> else ptab s p)
        \<lparr>p_link := plink (made_ready y t) p\<rparr>"
    proof
      fix p show "ptab (made_ready y t) p = (if p \<in> {y} then (ptab s p)\<lparr>p_stat := SRUN, p_wchan := 0\<rparr> else ptab s p)
        \<lparr>p_link := plink (made_ready y t) p\<rparr>"
        unfolding made_ready_fields using l(3) [of p] by (cases "ptab s p"; cases "ptab t p") auto
    qed
    show "made_ready y t = s\<lparr>ptab := ptab (made_ready y t), slpque := slpque (made_ready y t), runq := runq (made_ready y t),
       runrun := runrun (made_ready y t), runout := runout (made_ready y t)\<rparr>"
      using l(4) by (cases s; cases t) (simp add: made_ready_def Let_def)
    show "runout (made_ready y t) = runout s \<or> runout (made_ready y t) = 0"
      using l(4) by (cases s; cases t) (simp add: made_ready_def Let_def)
  qed
qed

lemma woken_refl: "woken {} s s" by (simp add: woken_def)

lemma woken_fields:
  assumes "woken A s t"
  shows "pwc t p = (if p \<in> A then 0 else pwc s p)" "pst t p = (if p \<in> A then SRUN else pst s p)"
    "p_flag (ptab t p) = p_flag (ptab s p)" "p_pri (ptab t p) = p_pri (ptab s p)" "a_runout t = a_runout s"
proof -
  have "ptab t p = (if p \<in> A then (ptab s p)\<lparr>p_stat := SRUN, p_wchan := 0\<rparr> else ptab s p)\<lparr>p_link := p_link (ptab t p)\<rparr>"
    using assms by (simp add: woken_def)
  then show "pwc t p = (if p \<in> A then 0 else pwc s p)" "pst t p = (if p \<in> A then SRUN else pst s p)"
    "p_flag (ptab t p) = p_flag (ptab s p)" "p_pri (ptab t p) = p_pri (ptab s p)"
    by (cases "ptab t p"; simp)+
  have "a_runout t = a_runout (s\<lparr>ptab := ptab t, slpque := slpque t, runq := runq t, runrun := runrun t, runout := runout t\<rparr>)"
    using assms by (simp add: woken_def)
  then show "a_runout t = a_runout s" by simp
qed

lemma woken_trans:
  assumes "woken A s t" "woken B t u"
  shows "woken (A \<union> B) s u"
proof -
  have "ptab u p = (if p \<in> A \<union> B then (ptab s p)\<lparr>p_stat := SRUN, p_wchan := 0\<rparr> else ptab s p)\<lparr>p_link := p_link (ptab u p)\<rparr>" for p
  proof -
    have "ptab t p = (if p \<in> A then (ptab s p)\<lparr>p_stat := SRUN, p_wchan := 0\<rparr> else ptab s p)\<lparr>p_link := p_link (ptab t p)\<rparr>"
      "ptab u p = (if p \<in> B then (ptab t p)\<lparr>p_stat := SRUN, p_wchan := 0\<rparr> else ptab t p)\<lparr>p_link := p_link (ptab u p)\<rparr>"
      using assms by (simp_all add: woken_def)
    then show ?thesis by (cases "ptab s p"; cases "ptab t p"; cases "ptab u p") (auto split: if_splits)
  qed
  moreover have "u = s\<lparr>ptab := ptab u, slpque := slpque u, runq := runq u, runrun := runrun u, runout := runout u\<rparr>"
    using assms by (cases s; cases t; cases u) (simp add: woken_def)
  moreover have "runout u = runout s \<or> runout u = 0" using assms by (auto simp: woken_def)
  ultimately show ?thesis by (simp add: woken_def)
qed

lemma woken_runout: "woken A s t \<Longrightarrow> woken A s (t\<lparr>runout := 0\<rparr>)"
  by (cases s; cases t) (simp add: woken_def)

text \<open>The part of the queues that \<open>runout\<close> does not touch.\<close>

lemma queues_runout [simp]: "queues (s\<lparr>runout := n\<rparr>) S R = queues s S R"
  by (simp add: queues_def)

subsection \<open>Waking up\<close>

text \<open>
  The rest \<open>ys\<close> of the queue, when nobody has to be told that a process is to be swapped in.
\<close>

lemma filter_notin_insert:
  "filter (\<lambda>p. p \<notin> insert y A) xs = filter (\<lambda>p. p \<notin> A) (filter (\<lambda>p. p \<noteq> y) xs)"
  by (induction xs) auto

lemma filter_notin_Un:
  "filter (\<lambda>p. p \<notin> A \<union> B) xs = filter (\<lambda>p. p \<notin> B) (filter (\<lambda>p. p \<notin> A) xs)"
  by (induction xs) auto

lemma queue_step:
  assumes q: "queues s S R" and S: "S (HASH chan) = xs @ y # ys" and c: "chan \<noteq> 0"
  shows "pwc s y \<noteq> chan \<Longrightarrow>
      wakeup_loop (Suc n) chan (Some y) (last_opt xs) s = wakeup_loop n chan (head_opt ys) (last_opt (xs @ [y])) s"
    "\<lbrakk>pwc s y = chan; t = made_ready y (take_off chan y (last_opt xs) s)\<rbrakk> \<Longrightarrow>
      wakeup_loop (Suc (Suc n)) chan (Some y) (last_opt xs) s =
      rbind (if runout s \<noteq> 0 \<and> SLOAD \<notin> p_flag (ptab s y)
             then wakeup_loop n (a_runout s) (slpque t (HASH (a_runout s))) None (t\<lparr>runout := 0\<rparr>)
             else Inr ((), t))
        (\<lambda>(_, t). wakeup_loop (Suc n) chan (head_opt ys) (last_opt xs) t)"
proof -
  have y: "y \<in> set (S (HASH chan))" "linked (plink s) (slpque s (HASH chan)) (xs @ y # ys)"
    using queues_linked(1) [OF q, of "HASH chan"] by (simp_all add: S)
  then have st: "pst s y = SSLEEP" using q by (auto simp: queues_def)
  have n: "p_link (ptab s y) = head_opt ys" using path_tail [OF y(2)] by simp
  show "pwc s y \<noteq> chan \<Longrightarrow>
      wakeup_loop (Suc n) chan (Some y) (last_opt xs) s = wakeup_loop n chan (head_opt ys) (last_opt (xs @ [y])) s"
    by (simp add: n last_opt_def)
  let ?t = "take_off chan y (last_opt xs) s"
  note l = take_off_links [OF q S]
  have R: "length R \<le> NPROC" using q by (intro queue_length) (auto simp: queues_def)
  have yR: "y \<notin> set R" using queues_disjoint(2) [OF q y(1)] .
  have f: "pst ?t y = SSLEEP" "pwc ?t y = 0" "p_flag (ptab ?t y) = p_flag (ptab s y)"
    using st by (subst l(3), simp)+
  have r: "setrun_fuel (Suc n) y ?t = (if runout s \<noteq> 0 \<and> SLOAD \<notin> p_flag (ptab s y)
      then wakeup_loop n (a_runout s) (slpque ?t (HASH (a_runout s))) None ((made_ready y ?t)\<lparr>runout := 0\<rparr>)
      else Inr ((), made_ready y ?t))"
    using setrun_ready [OF l(2) R yR, of n] by (simp add: f)
  show "\<lbrakk>pwc s y = chan; t = made_ready y ?t\<rbrakk> \<Longrightarrow>
      wakeup_loop (Suc (Suc n)) chan (Some y) (last_opt xs) s =
      rbind (if runout s \<noteq> 0 \<and> SLOAD \<notin> p_flag (ptab s y)
             then wakeup_loop n (a_runout s) (slpque t (HASH (a_runout s))) None (t\<lparr>runout := 0\<rparr>)
             else Inr ((), t))
        (\<lambda>(_, t). wakeup_loop (Suc n) chan (head_opt ys) (last_opt xs) t)"
    using st r n by (subst wakeup_loop.simps(2)) (simp add: made_ready_fields del: wakeup_loop.simps setrun_fuel.simps)
qed

lemma wakeup_loop_quiet:
  assumes "queues s S R" "S (HASH chan) = xs @ ys" "chan \<noteq> 0" "\<forall>x\<in>set xs. pwc s x \<noteq> chan" "runout s = 0 \<or> (\<forall>p\<in>set ys. pwc s p = chan \<longrightarrow> SLOAD \<in> p_flag (ptab s p))" "length ys + 2 \<le> n"
  shows "\<exists>t. wakeup_loop n chan (head_opt ys) (last_opt xs) s = Inr ((), t) \<and>
    queues t (\<lambda>h. filter (\<lambda>p. p \<notin> {p \<in> set ys. pwc s p = chan}) (S h)) (rev (filter (\<lambda>p. pwc s p = chan) ys) @ R) \<and>
    woken {p \<in> set ys. pwc s p = chan} s t \<and> runout t = runout s"
  using assms
proof (induction ys arbitrary: xs s S R n)
  case Nil
  then obtain m where "n = Suc m" by (cases n) auto
  with Nil show ?case using woken_refl [of s] by simp
next
  case (Cons y ys)
  then obtain m where m: "n = Suc (Suc m)" "length ys + 2 \<le> Suc m" by (cases n rule: nat.exhaust; cases "n - 1") auto
  have d: "distinct (xs @ y # ys)" using queues_linked(2) [OF Cons.prems(1), of "HASH chan"] by (simp add: Cons.prems(2))
  show ?case
  proof (cases "pwc s y = chan")
    case False
    have "\<exists>t. wakeup_loop (Suc m) chan (head_opt ys) (last_opt (xs @ [y])) s = Inr ((), t) \<and>
      queues t (\<lambda>h. filter (\<lambda>p. p \<notin> {p \<in> set ys. pwc s p = chan}) (S h)) (rev (filter (\<lambda>p. pwc s p = chan) ys) @ R) \<and>
      woken {p \<in> set ys. pwc s p = chan} s t \<and> runout t = runout s"
      using Cons.prems False m by (intro Cons.IH) auto
    moreover have "{p \<in> set (y # ys). pwc s p = chan} = {p \<in> set ys. pwc s p = chan}" using False by auto
    ultimately show ?thesis using queue_step(1) [OF Cons.prems(1-3) False, of "Suc m"] False m(1) by simp
  next
    case True
    let ?u = "made_ready y (take_off chan y (last_opt xs) s)"
    note w = wake_one [OF Cons.prems(1,2)]
    have ro: "runout ?u = runout s" by (simp add: made_ready_fields)
    note u = woken_fields [OF w(2)]
    have "\<exists>t. wakeup_loop (Suc m) chan (head_opt ys) (last_opt xs) ?u = Inr ((), t) \<and>
      queues t (\<lambda>h. filter (\<lambda>p. p \<notin> {p \<in> set ys. pwc ?u p = chan}) (filter (\<lambda>p. p \<noteq> y) (S h)))
        (rev (filter (\<lambda>p. pwc ?u p = chan) ys) @ y # R) \<and>
      woken {p \<in> set ys. pwc ?u p = chan} ?u t \<and> runout t = runout ?u"
      using Cons.prems d m(2) ro w(1) by (intro Cons.IH) (auto simp: u filter_id_conv)
    moreover have "filter (\<lambda>p. pwc ?u p = chan) ys = filter (\<lambda>p. pwc s p = chan) ys"
      using d by (intro filter_cong) (auto simp: u)
    moreover have "{p \<in> set (y # ys). pwc s p = chan} = insert y {p \<in> set ys. pwc ?u p = chan}"
      using d True by (auto simp: u)
    ultimately show ?thesis
      using queue_step(2) [OF Cons.prems(1-3) True refl, of m] woken_trans [OF w(2)] True m(1) Cons.prems(5)
      by (auto simp: filter_notin_insert ro)
  qed
qed

lemma wakeup_quiet:
  assumes "queues s S R" "S (HASH chan) = xs @ ys" "chan \<noteq> 0" "\<forall>x\<in>set xs. pwc s x \<noteq> chan" "runout s = 0 \<or> (\<forall>p\<in>set ys. pwc s p = chan \<longrightarrow> SLOAD \<in> p_flag (ptab s p))" "length ys + 2 \<le> n"
    and A: "A = {p \<in> set ys. pwc s p = chan}" and x: "p = head_opt ys" "q = last_opt xs"
  obtains t R' where "wakeup_loop n chan p q s = Inr ((), t)" "queues t (\<lambda>h. filter (\<lambda>p. p \<notin> A) (S h)) R'"
    "set R' = A \<union> set R" "woken A s t" "runout t = runout s"
proof -
  have "set (rev (filter (\<lambda>p. pwc s p = chan) ys) @ R) = A \<union> set R" by (auto simp: A)
  then show thesis using wakeup_loop_quiet [OF assms(1-6)] that unfolding A x by blast
qed

text \<open>
  A process that is not in core is woken while the scheduling process waits for such an event
  (\<open>runout\<close>): it is woken too, provided that it sleeps on another queue.
\<close>

lemma wakeup_swapped:
  assumes q: "queues s S R" and S: "S (HASH chan) = xs @ y # ys" and c: "chan \<noteq> 0" "pwc s y = chan"
    and xs: "\<forall>x\<in>set xs. pwc s x \<noteq> chan" and ro: "runout s \<noteq> 0" "SLOAD \<notin> p_flag (ptab s y)"
    and a: "a_runout s \<noteq> 0" "HASH chan \<noteq> HASH (a_runout s)"
    and n: "length ys + length (S (HASH (a_runout s))) + 4 \<le> n"
  defines "A \<equiv> {p \<in> set (y # ys). pwc s p = chan} \<union> {p \<in> set (S (HASH (a_runout s))). pwc s p = a_runout s}"
  shows "\<exists>t R'. wakeup_loop n chan (Some y) (last_opt xs) s = Inr ((), t) \<and>
    queues t (\<lambda>h. filter (\<lambda>p. p \<notin> A) (S h)) R' \<and> set R' = A \<union> set R \<and> woken A s t \<and> runout t = 0"
proof -
  obtain m where m: "n = Suc (Suc m)" "length (S (HASH (a_runout s))) + 2 \<le> m" "length ys + 2 \<le> Suc m"
    using n by (cases n; cases "n - 1") auto
  let ?j = "HASH (a_runout s)" and ?u = "made_ready y (take_off chan y (last_opt xs) s)"
  have d: "distinct (xs @ y # ys)" using queues_linked(2) [OF q, of "HASH chan"] by (simp add: S)
  have yj: "y \<notin> set (S ?j)" using queues_disjoint(1) [OF q, of y ?j "HASH chan"] a(2) by (auto simp: S)
  note w = wake_one [OF q S]
  have u: "pwc ?u p = (if p = y then 0 else pwc s p)" for p using woken_fields(1) [OF w(2)] by simp
  have au: "a_runout ?u = a_runout s" by (simp add: made_ready_fields)
  define B where "B = {p \<in> set (S ?j). pwc s p = a_runout s}"
  have B: "{p \<in> set (S ?j). pwc ?u p = a_runout s} = B" using yj by (auto simp: u B_def)
  obtain v R2 where v: "wakeup_loop m (a_runout s) (head_opt (S ?j)) None (?u\<lparr>runout := 0\<rparr>) = Inr ((), v)"
    "queues v (\<lambda>h. filter (\<lambda>p. p \<notin> B) (filter (\<lambda>p. p \<noteq> y) (S h))) R2" "set R2 = B \<union> set (y # R)"
    "woken B (?u\<lparr>runout := 0\<rparr>) v" "runout v = runout (?u\<lparr>runout := 0\<rparr>)"
  proof (rule wakeup_quiet [of "?u\<lparr>runout := 0\<rparr>" "\<lambda>h. filter (\<lambda>p. p \<noteq> y) (S h)" "y # R" "a_runout s" "[]" "S ?j" m B "head_opt (S ?j)" None])
    show "queues (?u\<lparr>runout := 0\<rparr>) (\<lambda>h. filter (\<lambda>p. p \<noteq> y) (S h)) (y # R)" using w(1) by simp
    show "B = {p \<in> set (S ?j). pwc (?u\<lparr>runout := 0\<rparr>) p = a_runout s}" using B by simp
  qed (use yj a(1) m(2) in \<open>simp_all add: last_opt_def\<close>)
  have Bi: "p \<notin> B" if "p \<in> set (xs @ ys)" for p
    using queues_disjoint(1) [OF q, of p ?j "HASH chan"] that a(2) by (auto simp: S B_def)
  have pv: "pwc v p = (if p \<in> insert y B then 0 else pwc s p)" for p
    using woken_fields(1) [OF v(4), of p] by (simp add: u)
  define C where "C = {p \<in> set ys. pwc s p = chan}"
  have C: "C = {p \<in> set ys. pwc v p = chan}" using d Bi c(1) by (auto simp: C_def pv)
  have Si: "filter (\<lambda>p. p \<notin> B) (filter (\<lambda>p. p \<noteq> y) (S (HASH chan))) = xs @ ys"
    using d Bi by (simp add: S)
  obtain t R3 where t: "wakeup_loop (Suc m) chan (head_opt ys) (last_opt xs) v = Inr ((), t)"
    "queues t (\<lambda>h. filter (\<lambda>p. p \<notin> C) (filter (\<lambda>p. p \<notin> B) (filter (\<lambda>p. p \<noteq> y) (S h)))) R3"
    "set R3 = C \<union> set R2" "woken C v t" "runout t = runout v"
    by (rule wakeup_quiet [OF v(2) Si c(1) _ _ m(3) C refl refl]) (use xs c(1) v(5) in \<open>auto simp: pv\<close>)
  have A: "A = insert y (B \<union> C)" using c(2) by (auto simp: A_def B_def C_def)
  have "queues t (\<lambda>h. filter (\<lambda>p. p \<notin> A) (S h)) R3" using t(2) unfolding A filter_notin_insert filter_notin_Un .
  moreover have "woken A s t"
    using woken_trans [OF woken_trans [OF woken_runout [OF w(2)] v(4)] t(4)] by (simp add: A Un_assoc)
  moreover have "slpque ?u ?j = head_opt (S ?j)"
    using queue_head [OF queues_linked(1) [OF w(1), of ?j]] yj by simp
  then have "wakeup_loop n chan (Some y) (last_opt xs) s = Inr ((), t)"
    using queue_step(2) [OF q S c(1) c(2) refl, of m] ro v(1) t(1) unfolding m(1) by simp
  moreover have "set R3 = A \<union> set R" using t(3) v(3) by (auto simp: A)
  ultimately show ?thesis using t(5) v(5) by auto
qed

text \<open>The processes that a wakeup on \<open>chan\<close> makes ready.\<close>

definition wakes :: "caddr \<Rightarrow> sched \<Rightarrow> nat set" where
  "wakes chan s = sleepers s chan \<union>
     (if runout s \<noteq> 0 \<and> (\<exists>p\<in>sleepers s chan. SLOAD \<notin> p_flag (ptab s p)) then sleepers s (a_runout s) else {})"

lemma sleepers_queue: "queues s S R \<Longrightarrow> c \<noteq> 0 \<Longrightarrow> {p \<in> set (S (HASH c)). pwc s p = c} = sleepers s c"
  unfolding queues_def sleepers_def by blast

lemma wakeup_loop_swapped:
  assumes "queues s S R" "S (HASH chan) = xs @ ys" "chan \<noteq> 0" "\<forall>x\<in>set xs. pwc s x \<noteq> chan" "runout s \<noteq> 0"
    "\<exists>p\<in>set ys. pwc s p = chan \<and> SLOAD \<notin> p_flag (ptab s p)"
    "a_runout s \<noteq> 0" "HASH chan \<noteq> HASH (a_runout s)" "length ys + length (S (HASH (a_runout s))) + 4 \<le> n"
    "A = {p \<in> set ys. pwc s p = chan} \<union> sleepers s (a_runout s)"
  shows "\<exists>t R'. wakeup_loop n chan (head_opt ys) (last_opt xs) s = Inr ((), t) \<and>
    queues t (\<lambda>h. filter (\<lambda>p. p \<notin> A) (S h)) R' \<and> set R' = A \<union> set R \<and> woken A s t \<and> runout t = 0"
  using assms
proof (induction ys arbitrary: xs s S R n A)
  case (Cons y ys)
  then obtain m where m: "n = Suc (Suc m)" "length ys + length (S (HASH (a_runout s))) + 4 \<le> Suc m"
    by (cases n; cases "n - 1") auto
  have d: "distinct (xs @ y # ys)" using queues_linked(2) [OF Cons.prems(1), of "HASH chan"] by (simp add: Cons.prems(2))
  consider "pwc s y \<noteq> chan" | "pwc s y = chan" "SLOAD \<notin> p_flag (ptab s y)" | "pwc s y = chan" "SLOAD \<in> p_flag (ptab s y)"
    by blast
  then show ?case
  proof cases
    case 1
    have "\<exists>t R'. wakeup_loop (Suc m) chan (head_opt ys) (last_opt (xs @ [y])) s = Inr ((), t) \<and>
      queues t (\<lambda>h. filter (\<lambda>p. p \<notin> A) (S h)) R' \<and> set R' = A \<union> set R \<and> woken A s t \<and> runout t = 0"
      by (rule Cons.IH [OF Cons.prems(1)]) (use Cons.prems 1 m in auto)
    then show ?thesis using queue_step(1) [OF Cons.prems(1-3) 1, of "Suc m"] unfolding m(1) by simp
  next
    case 2
    have "A = {p \<in> set (y # ys). pwc s p = chan} \<union> {p \<in> set (S (HASH (a_runout s))). pwc s p = a_runout s}"
      using Cons.prems(10) sleepers_queue [OF Cons.prems(1,7)] by simp
    then show ?thesis
      using wakeup_swapped [OF Cons.prems(1-3) 2(1) Cons.prems(4,5) 2(2) Cons.prems(7,8), of n] Cons.prems(9) by simp
  next
    case 3
    let ?u = "made_ready y (take_off chan y (last_opt xs) s)"
    note w = wake_one [OF Cons.prems(1,2)]
    have yj: "y \<notin> set (S (HASH (a_runout s)))"
      using queues_disjoint(1) [OF Cons.prems(1), of y _ "HASH chan"] Cons.prems(2,8) by auto
    note u = woken_fields [OF w(2)]
    have ro: "runout ?u = runout s" by (simp add: made_ready_fields)
    have y: "pwc s y \<noteq> a_runout s" using 3(1) Cons.prems(8) by auto
    define B where "B = {p \<in> set ys. pwc ?u p = chan} \<union> sleepers ?u (a_runout s)"
    have A: "A = insert y B" using d 3(1) y Cons.prems(3,7,10) by (auto simp: B_def sleepers_def u)
    have "\<exists>t R'. wakeup_loop (Suc m) chan (head_opt ys) (last_opt xs) ?u = Inr ((), t) \<and>
      queues t (\<lambda>h. filter (\<lambda>p. p \<notin> B) (filter (\<lambda>p. p \<noteq> y) (S h))) R' \<and> set R' = B \<union> set (y # R) \<and> woken B ?u t \<and> runout t = 0"
    proof (rule Cons.IH [OF w(1)])
      show "\<exists>p\<in>set ys. pwc ?u p = chan \<and> SLOAD \<notin> p_flag (ptab ?u p)"
        using Cons.prems(6) 3 d by (auto simp: u)
    qed (use Cons.prems 3 m d yj in \<open>auto simp: u ro B_def\<close>)
    then obtain t R' where "wakeup_loop (Suc m) chan (head_opt ys) (last_opt xs) ?u = Inr ((), t)"
      "queues t (\<lambda>h. filter (\<lambda>p. p \<notin> A) (S h)) R'" "set R' = A \<union> set R" "woken A s t" "runout t = 0"
      using woken_trans [OF w(2)] unfolding A filter_notin_insert by auto
    then show ?thesis using queue_step(2) [OF Cons.prems(1-3) 3(1) refl, of m] 3(2) unfolding m(1) by auto
  qed
qed simp

definition sound :: "sched \<Rightarrow> bool" where
  "sound s \<longleftrightarrow> (\<exists>S R. queues s S R)"

text \<open>
  The walk of \<open>wakeup\<close> is not disturbed by the wakeup of the scheduling process: it is not
  needed, or it goes to another queue.
\<close>

definition apart :: "caddr \<Rightarrow> sched \<Rightarrow> bool" where
  "apart chan s \<longleftrightarrow> runout s = 0 \<or> (\<forall>p\<in>sleepers s chan. SLOAD \<in> p_flag (ptab s p)) \<or>
     a_runout s \<noteq> 0 \<and> HASH chan \<noteq> HASH (a_runout s)"

text \<open>
  The same for every channel: while the swapper waits on \<open>runout\<close> for somebody to swap in, the
  processes that sleep on the hash queue of \<open>runout\<close> are in core.
\<close>

definition parted :: "sched \<Rightarrow> bool" where
  "parted s \<longleftrightarrow> runout s = 0 \<or>
     (\<forall>p<NPROC. pwc s p \<noteq> 0 \<longrightarrow> HASH (pwc s p) = HASH (a_runout s) \<longrightarrow> SLOAD \<in> p_flag (ptab s p))"

lemma parted_apart: "parted s \<Longrightarrow> a_runout s \<noteq> 0 \<Longrightarrow> c \<noteq> 0 \<Longrightarrow> apart c s"
  unfolding parted_def apart_def sleepers_def by blast

lemma parted_woken:
  assumes "parted s" "woken A s t" shows "parted t"
proof -
  have "runout t = runout s \<or> runout t = 0" using assms(2) unfolding woken_def by blast
  then show ?thesis using assms(1) by (auto simp: parted_def woken_fields [OF assms(2)])
qed

lemma wakeup_wakes:
  assumes q: "queues s S R" and c: "chan \<noteq> 0" "apart chan s" and A: "A = wakes chan s"
  obtains t R' where "wakeup_loop wfuel chan (slpque s (HASH chan)) None s = Inr ((), t)"
    "queues t (\<lambda>h. filter (\<lambda>p. p \<notin> A) (S h)) R'" "set R' = A \<union> set R" "woken A s t"
proof -
  have l: "length (S h) \<le> NPROC" for h
    using queue_length [OF queues_linked(2) [OF q]] queues_member(1) [OF q] by blast
  have h: "slpque s (HASH chan) = head_opt (S (HASH chan))" "None = last_opt []" "S (HASH chan) = [] @ S (HASH chan)"
    using queue_head [OF queues_linked(1) [OF q]] by (auto simp: last_opt_def)
  note sl = sleepers_queue [OF q c(1)]
  show thesis
  proof (cases "runout s = 0 \<or> (\<forall>p\<in>sleepers s chan. SLOAD \<in> p_flag (ptab s p))")
    case True
    then have "A = {p \<in> set (S (HASH chan)). pwc s p = chan}" by (auto simp: A wakes_def sl)
    from wakeup_quiet [OF q h(3) c(1) _ _ _ this h(1,2), of wfuel] show thesis
      using l [of "HASH chan"] True that by (auto simp: wfuel_def NPROC_def sl [symmetric])
  next
    case False
    have "\<exists>t R'. wakeup_loop wfuel chan (head_opt (S (HASH chan))) (last_opt []) s = Inr ((), t) \<and>
      queues t (\<lambda>h. filter (\<lambda>p. p \<notin> A) (S h)) R' \<and> set R' = A \<union> set R \<and> woken A s t \<and> runout t = 0"
    proof (rule wakeup_loop_swapped [OF q h(3) c(1)])
      show "length (S (HASH chan)) + length (S (HASH (a_runout s))) + 4 \<le> wfuel"
        using l [of "HASH chan"] l [of "HASH (a_runout s)"] by (simp add: wfuel_def NPROC_def)
    qed (use False c(2) in \<open>auto simp: apart_def A wakes_def sl [symmetric]\<close>)
    then show thesis using that unfolding h(1,2) by blast
  qed
qed

text \<open>
  C16: \<open>wakeup\<close> ends and makes ready exactly the processes that sleep on the channel, and the
  scheduling process if one of them is not in core and it waits for that: they are in state
  \<open>SRUN\<close> on the run queue and on no sleep queue, everybody else keeps its state and its place in
  its queue, in the same order.  This is under the condition \<^const>\<open>apart\<close>: the scheduling process
  does not wait on \<open>runout\<close>, or all that sleep on the channel are in core, or the channel is
  on another hash queue than \<open>runout\<close>; otherwise the wakeup of the scheduling process goes to the queue
  that is being searched, and wakeups can be lost.
\<close>

theorem wakeup_exact:
  assumes "queues s S R" "chan \<noteq> 0" "apart chan s"
  shows "\<exists>t R'. wakeup chan s = Inr ((), t) \<and> queues t (\<lambda>h. filter (\<lambda>p. p \<notin> wakes chan s) (S h)) R' \<and>
    set R' = wakes chan s \<union> set R \<and> woken (wakes chan s) s t"
  by (rule wakeup_wakes [OF assms refl]) (auto simp: wakeup_def)

text \<open>A walk along a queue on which nobody waits for the channel.\<close>

lemma wakeup_loop_none:
  "\<lbrakk>linked (plink s) p xs; \<forall>x\<in>set xs. pwc s x \<noteq> chan; length xs < n\<rbrakk> \<Longrightarrow> wakeup_loop n chan p q s = Inr ((), s)"
proof (induction xs arbitrary: p q n)
  case Nil
  then show ?case by (cases n) auto
next
  case (Cons a xs)
  then show ?case by (cases n) auto
qed

text \<open>
  C17: When the scheduling process sleeps on the queue that is being searched, right behind a
  process that is woken and is not in core, \<open>wakeup\<close> loses wakeups: \<open>setrun\<close> puts the scheduling
  process on the run queue, the search goes on from there along the run queue, and every
  process behind it stays asleep, those that sleep on the same channel too.
\<close>

theorem wakeup_lost:
  assumes q: "queues s S R" and S: "S (HASH chan) = p # z # rest" and c: "pwc s p = chan" "pwc s z = a_runout s" "a_runout s \<noteq> chan"
    and ro: "runout s \<noteq> 0" "SLOAD \<notin> p_flag (ptab s p)" and rest: "\<forall>x\<in>set rest. pwc s x \<noteq> a_runout s"
  shows "\<exists>t. wakeup chan s = Inr ((), t) \<and> queues t (S(HASH chan := rest)) (z # p # R) \<and>
    (\<forall>x\<in>set rest. pwc t x = pwc s x \<and> pst t x = SSLEEP)"
proof -
  let ?u = "(made_ready p (take_off chan p None s))\<lparr>runout := 0\<rparr>" and ?j = "HASH (a_runout s)"
  have S': "S (HASH chan) = [] @ p # z # rest" "last_opt ([] :: nat list) = None" by (simp_all add: S last_opt_def)
  have m: "pwc s x \<noteq> 0 \<and> HASH (pwc s x) = HASH chan \<and> pst s x = SSLEEP" if "x \<in> set (p # z # rest)" for x
    using queues_member(1) [OF q, of x "HASH chan"] that unfolding S by blast
  have nz: "chan \<noteq> 0" "a_runout s \<noteq> 0" and j: "?j = HASH chan" "\<forall>x\<in>set rest. pst s x = SSLEEP"
    using m [of p] m [of z] m unfolding c by auto
  have d: "distinct (p # z # rest)" using queues_linked(2) [OF q, of "HASH chan"] by (simp add: S)
  have len: "length (p # z # rest) \<le> NPROC" "length R \<le> NPROC"
    using queue_length [of "S (HASH chan)"] queues_linked(2) [OF q] queue_length [of R] queues_member [OF q] q
    unfolding S [symmetric] queues_def by blast+
  note w = wake_one [OF q S'(1), unfolded S'(2)]
  have u: "pwc ?u x = (if x = p then 0 else pwc s x)" "pst ?u x = (if x = p then SRUN else pst s x)" for x
    using woken_fields(1,2) [OF woken_runout [OF w(2)], of x] by auto
  have qu: "queues ?u (\<lambda>h. filter (\<lambda>x. x \<noteq> p) (S h)) (p # R)" using w(1) by simp
  have A: "filter (\<lambda>x. pwc ?u x = a_runout s) (z # rest) = [z]" "{x \<in> set (z # rest). pwc ?u x = a_runout s} = {z}"
    using d c rest nz unfolding u by (auto simp: filter_empty_conv)
  have Sj: "filter (\<lambda>x. x \<noteq> p) (S ?j) = [] @ z # rest" using d by (simp add: j S)
  obtain v where v: "wakeup_loop (wfuel - 2) (a_runout s) (Some z) None ?u = Inr ((), v)"
    "queues v (\<lambda>h. filter (\<lambda>x. x \<notin> {z}) (filter (\<lambda>x. x \<noteq> p) (S h))) (z # p # R)" "woken {z} ?u v"
    using wakeup_loop_quiet [OF qu Sj nz(2), of "wfuel - 2"] len unfolding A S'(2)
    by (auto simp: wfuel_def NPROC_def)
  have pv: "pwc v x = (if x = z \<or> x = p then 0 else pwc s x)" "pst v x = (if x = z \<or> x = p then SRUN else pst s x)" for x
    using woken_fields(1,2) [OF v(3), of x] unfolding u by auto
  have "slpque ?u ?j = Some z" using queue_head [OF queues_linked(1) [OF qu, of ?j]] Sj by simp
  moreover have "linked (plink v) (Some z) (z # p # R)" using queues_linked(3) [OF v(2)] by simp
  moreover have "\<forall>x\<in>set (z # p # R). pwc v x = 0" using queues_member(2) [OF v(2)] by blast
  ultimately have "wakeup_loop wfuel chan (Some p) None s = Inr ((), v)"
    using queue_step(2) [OF q S'(1) nz(1) c(1) refl, of "wfuel - 2"] ro v(1) len nz(1)
      wakeup_loop_none [of v "Some z" "z # p # R" chan "Suc (wfuel - 2)" None]
    unfolding S'(2) by (simp add: wfuel_def NPROC_def del: wakeup_loop.simps)
  moreover have "slpque s (HASH chan) = Some p" using queue_head [OF queues_linked(1) [OF q, of "HASH chan"]] by (simp add: S)
  moreover have "(\<lambda>h. filter (\<lambda>x. x \<notin> {z}) (filter (\<lambda>x. x \<noteq> p) (S h))) = S(HASH chan := rest)"
  proof
    fix h show "filter (\<lambda>x. x \<notin> {z}) (filter (\<lambda>x. x \<noteq> p) (S h)) = (S(HASH chan := rest)) h"
      using d queues_disjoint(1) [OF q, of _ h "HASH chan"] S by (cases "h = HASH chan") (auto simp: filter_id_conv)
  qed
  ultimately show ?thesis using v(2) d j(2) by (auto simp: wakeup_def pv)
qed

text \<open>A process table with only free slots.\<close>

definition demo_proc :: proc where
  "demo_proc = \<lparr>p_stat = SFREE, p_flag = {}, p_pri = 0, p_time = 0, p_cpu = 0, p_nice = 20, p_sig = 0, p_uid = 7, p_pgrp = 0,
     p_pid = 0, p_ppid = 0, p_wchan = 0, p_link = None, p_clktim = 0\<rparr>"

definition demo_sched :: sched where
  "demo_sched = \<lparr>ptab = (\<lambda>_. demo_proc), slpque = (\<lambda>_. None), runq = None, runrun = 0, runin = 0, runout = 0, curpri = 0,
     a_runin = 99, a_runout = 100, a_lbolt = 300, mpid = 5, callout = (\<lambda>_. \<lparr>c_time = 0, c_arg = 0, c_func = 0\<rparr>), called = [], lbolt = 0,
     time = 0, dk_busy = 0, dk_time = (\<lambda>_. 0), printed = [], u_procp = 3, u_uid = 7, u_error = None, u_signal = (\<lambda>_. 0), u_r1 = 0, u_utime = 0, u_stime = 0, u_scale = 0\<rparr>"

text \<open>
  Processes 1 and 2 sleep on a channel; process 1 is swapped out, and the scheduling process
  waits for somebody to swap in.  The addresses 100 and 2148 belong to queue 3, 200 to queue 6.
\<close>

definition demo_asleep :: "caddr \<Rightarrow> nat option \<Rightarrow> nat option \<Rightarrow> (nat \<Rightarrow> nat option) \<Rightarrow> sched" where
  "demo_asleep chan l0 l1 q = demo_sched\<lparr>runout := 1, slpque := q, ptab := (\<lambda>_. demo_proc)
     (0 := demo_proc\<lparr>p_stat := SSLEEP, p_flag := {SLOAD, SSYS}, p_wchan := 100, p_link := l0\<rparr>,
      1 := demo_proc\<lparr>p_stat := SSLEEP, p_pri := 40, p_wchan := chan, p_link := l1, p_pid := 11\<rparr>,
      2 := demo_proc\<lparr>p_stat := SSLEEP, p_flag := {SLOAD}, p_pri := 40, p_wchan := chan, p_pid := 12\<rparr>,
      3 := demo_proc\<lparr>p_stat := SRUN, p_flag := {SLOAD}, p_pid := 13\<rparr>)\<rparr>"

lemma demo_hash: "HASH 100 = 3" "HASH 2148 = 3" "HASH 200 = 6"
  by (simp_all add: HASH_def)

lemmas demo_defs = demo_asleep_def demo_sched_def demo_proc_def demo_hash NPROC_def

lemma demo_apart_queues:
  "queues (demo_asleep 200 None (Some 2) ((\<lambda>_. None)(3 := Some 0, 6 := Some 1))) ((\<lambda>_. [])(3 := [0], 6 := [1, 2])) []"
  by (auto simp: queues_def demo_defs split: if_splits)

theorem wakeup_exact_witness:
  "\<exists>t. wakeup 200 (demo_asleep 200 None (Some 2) ((\<lambda>_. None)(3 := Some 0, 6 := Some 1))) = Inr ((), t) \<and>
     pst t 0 = SRUN \<and> pst t 1 = SRUN \<and> pst t 2 = SRUN \<and> slpque t 3 = None \<and> slpque t 6 = None"
proof -
  let ?s = "demo_asleep 200 None (Some 2) ((\<lambda>_. None)(3 := Some 0, 6 := Some 1))"
  have w: "wakes 200 ?s = {0, 1, 2}" by (auto simp: wakes_def sleepers_def demo_defs split: if_splits)
  have "apart 200 ?s" by (auto simp: apart_def demo_defs)
  from wakeup_exact [OF demo_apart_queues _ this, unfolded w] obtain t R' where
    "wakeup 200 ?s = Inr ((), t)" "queues t (\<lambda>h. filter (\<lambda>p. p \<notin> {0, 1, 2}) (((\<lambda>_. [])(3 := [0], 6 := [1, 2])) h)) R'" "woken {0, 1, 2} ?s t"
    by auto
  then show ?thesis using queues_linked(1) [of t _ R' 3] queues_linked(1) [of t _ R' 6] woken_fields(2) [of _ ?s t] by fastforce
qed

lemma demo_lost_queues:
  "queues (demo_asleep 2148 (Some 2) (Some 0) ((\<lambda>_. None)(3 := Some 1))) ((\<lambda>_. [])(3 := [1, 0, 2])) []"
  by (auto simp: queues_def demo_defs split: if_splits)

theorem wakeup_lost_witness:
  "\<exists>t. wakeup 2148 (demo_asleep 2148 (Some 2) (Some 0) ((\<lambda>_. None)(3 := Some 1))) = Inr ((), t) \<and>
     pwc t 2 = 2148 \<and> pst t 2 = SSLEEP"
proof -
  let ?s = "demo_asleep 2148 (Some 2) (Some 0) ((\<lambda>_. None)(3 := Some 1))"
  have "pwc ?s 2 = 2148" by (simp add: demo_defs)
  then show ?thesis
    using wakeup_lost [OF demo_lost_queues, of 2148 1 0 "[2]"] by (auto simp: demo_defs)
qed

end
