(* ===== verification/Signals.thy ===== *)
theory Signals
  imports Process
begin

unbundle bit_operations_syntax

section \<open>Signals\<close>

text \<open>
  The invariant of the process table, and sending signals (\<open>psignal\<close> and \<open>signal\<close> of sys/sig.c, \<open>kill\<close> of
  sys/sys4.c): a signal is a pending bit of its addressees, which it wakes if they sleep at a
  priority that signals disturb.
\<close>

subsection \<open>Pending signals\<close>

lemma and_one_bit: "(n :: u16) AND 1 \<noteq> 0 \<longleftrightarrow> bit n 0"
  by (auto simp: and_one_eq bit_0 odd_iff_mod_2_eq_one)

lemma fsig_loop_bit:
  "\<exists>j<k. bit n j \<Longrightarrow> \<exists>j<k. fsig_loop k n i = i + j \<and> bit n j"
proof (induction k arbitrary: n i)
  case (Suc k)
  show ?case
  proof (cases "bit n 0")
    case True
    then show ?thesis by (intro exI [of _ 0]) (simp add: and_one_bit)
  next
    case False
    obtain j where "j < Suc k" "bit n j" using Suc.prems by blast
    with False have "\<exists>j<k. bit (drop_bit 1 n) j"
      by (cases j) (auto simp: bit_drop_bit_eq)
    from Suc.IH [OF this, of "i + 1"] obtain l where "l < k" "fsig_loop k (drop_bit 1 n) (i + 1) = i + 1 + l" "bit (drop_bit 1 n) l"
      by blast
    then show ?thesis using False by (intro exI [of _ "Suc l"]) (simp add: and_one_bit bit_drop_bit_eq)
  qed
qed simp

lemma fsig_bit: "w \<noteq> 0 \<Longrightarrow> 1 \<le> fsig w \<and> fsig w \<le> 16 \<and> bit w (fsig w - 1)"
proof -
  assume "w \<noteq> 0"
  then obtain j where "bit w j" by (auto simp: bit_eq_iff)
  then have "\<exists>j<16. bit w j" using bit_imp_le_length [of w j] by auto
  from fsig_loop_bit [OF this, of 1] show ?thesis by (auto simp: fsig_def NSIG_def)
qed

lemma bit_sigbit: "bit (sigbit n) i \<longleftrightarrow> i = n - 1 \<and> i < 16"
  by (auto simp: sigbit_def bit_exp_iff)

text \<open>Every turn of \<open>issig\<close> removes one of at most 16 signals, so the bound is never reached.\<close>

lemma issig_loop_total:
  "card {i. bit w i} < k \<Longrightarrow> \<exists>n w'. issig_loop k sg trc w = Some (n, w')"
proof (induction k arbitrary: w)
  case (Suc k)
  show ?case
  proof (cases "w = 0")
    case False
    have fin: "finite {i. bit w i}" using bit_imp_le_length [of w] by (auto intro: finite_subset [of _ "{..<16}"])
    have "{i. bit (w AND NOT (sigbit (fsig w))) i} = {i. bit w i} - {fsig w - 1}"
      using fsig_bit [OF False] bit_imp_le_length [of w] by (auto simp: bit_and_iff bit_not_iff bit_sigbit)
    then have "card {i. bit (w AND NOT (sigbit (fsig w))) i} < k"
      using Suc.prems fsig_bit [OF False] card_Diff1_less [OF fin, of "fsig w - 1"] by simp
    from Suc.IH [OF this] show ?thesis using False by (auto simp: Let_def)
  qed simp
qed simp

lemma issig_total: "\<exists>n w. issig s = Inr (n, upd_proc (u_procp s) (p_sig_update (\<lambda>_. w)) s)"
proof -
  have "card {i. bit (p_sig (ptab s (u_procp s))) i} \<le> card {..<16 :: nat}"
    using bit_imp_le_length [of "p_sig (ptab s (u_procp s))"] by (intro card_mono) auto
  then obtain n w where "issig_loop (nat NSIG) (u_signal s) (STRC \<in> p_flag (ptab s (u_procp s))) (p_sig (ptab s (u_procp s))) = Some (n, w)"
    using issig_loop_total [of "p_sig (ptab s (u_procp s))" "nat NSIG"] by (fastforce simp: NSIG_def)
  then show ?thesis by (auto simp: issig_def Let_def)
qed

subsection \<open>The invariant of the process table\<close>

text \<open>
  The addresses of \<open>runout\<close> and \<open>runin\<close> are not null, and the hash queue of \<open>runout\<close> is \<^const>\<open>parted\<close>.
\<close>

definition calm :: "sched \<Rightarrow> bool" where
  "calm s \<longleftrightarrow> a_runout s \<noteq> 0 \<and> a_runin s \<noteq> 0 \<and> parted s"

lemma calm_apart: "calm s \<Longrightarrow> c \<noteq> 0 \<Longrightarrow> apart c s"
  unfolding calm_def by (blast intro: parted_apart)

definition uniq_pids :: "sched \<Rightarrow> bool" where
  "uniq_pids s \<longleftrightarrow> (\<forall>p<NPROC. \<forall>q<NPROC. pst s p \<noteq> SFREE \<and> pst s q \<noteq> SFREE \<and> p_pid (ptab s p) = p_pid (ptab s q) \<longrightarrow> p = q)"

lemma uniq_mono:
  "\<lbrakk>uniq_pids s; \<And>x. pst t x \<noteq> SFREE \<Longrightarrow> pst s x \<noteq> SFREE; \<And>x. p_pid (ptab t x) = p_pid (ptab s x)\<rbrakk> \<Longrightarrow> uniq_pids t"
  unfolding uniq_pids_def by metis

text \<open>
  The state and the process that runs, \<^const>\<open>None\<close> while \<open>swtch\<close> looks for one.  A process is in
  state \<open>SRUN\<close> if and only if it is on the run queue or runs, and the numbers are unique.
\<close>

definition proc_sound :: "sched \<times> nat option \<Rightarrow> bool" where
  "proc_sound x \<longleftrightarrow> (case x of (s, cur) \<Rightarrow>
     a_runout s \<noteq> 0 \<and> a_runin s \<noteq> 0 \<and> printed s = [] \<and>
     (\<exists>S R. queues s S R \<and> (\<forall>p<NPROC. pst s p = SRUN \<longleftrightarrow> p \<in> set R \<or> cur = Some p) \<and>
        (\<forall>p. cur = Some p \<longrightarrow> p < NPROC \<and> p \<notin> set R \<and> u_procp s = p)) \<and> uniq_pids s)"

definition proc_inv :: "sched \<times> nat option \<Rightarrow> bool" where
  "proc_inv x \<longleftrightarrow> proc_sound x \<and> parted (fst x)"

lemma proc_invI:
  "\<lbrakk>queues s S R; calm s; printed s = []; \<forall>p<NPROC. pst s p = SRUN \<longleftrightarrow> p \<in> set R \<or> c = Some p;
    \<forall>p. c = Some p \<longrightarrow> p < NPROC \<and> p \<notin> set R \<and> u_procp s = p; uniq_pids s\<rbrakk> \<Longrightarrow> proc_inv (s, c)"
  unfolding proc_inv_def proc_sound_def calm_def by auto

lemma proc_invE:
  assumes "proc_inv (s, c)"
  obtains S R where "queues s S R" "calm s" "printed s = []" "\<forall>p<NPROC. pst s p = SRUN \<longleftrightarrow> p \<in> set R \<or> c = Some p"
    "\<forall>p. c = Some p \<longrightarrow> p < NPROC \<and> p \<notin> set R \<and> u_procp s = p" "uniq_pids s"
  using assms unfolding proc_inv_def proc_sound_def calm_def by auto

text \<open>A change of what the queues do not depend on.\<close>

definition aside :: "sched \<Rightarrow> sched \<Rightarrow> bool" where
  "aside s t \<longleftrightarrow>
     (\<forall>p. plink t p = plink s p \<and> pwc t p = pwc s p \<and> pst t p = pst s p \<and> p_flag (ptab t p) = p_flag (ptab s p) \<and>
        p_pid (ptab t p) = p_pid (ptab s p)) \<and>
     slpque t = slpque s \<and> runq t = runq s \<and> a_runout t = a_runout s \<and> a_runin t = a_runin s \<and> printed t = printed s \<and>
     u_procp t = u_procp s \<and> runout t = runout s"

lemma aside_links: "aside s t \<Longrightarrow> plink t = plink s"
  by (auto simp: aside_def fun_eq_iff)

lemma aside_queues: "aside s t \<Longrightarrow> queues t S R \<longleftrightarrow> queues s S R"
  using aside_links [of s t] by (simp add: queues_def) (simp add: aside_def)

lemma aside_inv: "aside s t \<Longrightarrow> proc_inv (t, c) \<longleftrightarrow> proc_inv (s, c)"
  by (simp add: proc_inv_def proc_sound_def aside_queues) (simp add: aside_def parted_def uniq_pids_def)

text \<open>What waking up keeps.\<close>

lemma woken_more:
  assumes "woken A s t"
  shows "p_pid (ptab t p) = p_pid (ptab s p)" "p_pgrp (ptab t p) = p_pgrp (ptab s p)" "p_uid (ptab t p) = p_uid (ptab s p)"
    "p_sig (ptab t p) = p_sig (ptab s p)" "a_runin t = a_runin s" "printed t = printed s" "u_procp t = u_procp s"
    "u_uid t = u_uid s" "u_error t = u_error s" "u_signal t = u_signal s" "runin t = runin s" "mpid t = mpid s"
proof -
  have "ptab t p = (if p \<in> A then (ptab s p)\<lparr>p_stat := SRUN, p_wchan := 0\<rparr> else ptab s p)\<lparr>p_link := p_link (ptab t p)\<rparr>"
    using assms by (simp add: woken_def)
  then show "p_pid (ptab t p) = p_pid (ptab s p)" "p_pgrp (ptab t p) = p_pgrp (ptab s p)" "p_uid (ptab t p) = p_uid (ptab s p)"
    "p_sig (ptab t p) = p_sig (ptab s p)"
    by (cases "ptab t p"; simp)+
  show "a_runin t = a_runin s" "printed t = printed s" "u_procp t = u_procp s"
    "u_uid t = u_uid s" "u_error t = u_error s" "u_signal t = u_signal s" "runin t = runin s" "mpid t = mpid s"
    using assms by (cases s; cases t; simp add: woken_def)+
qed

lemma wakes_asleep:
  assumes inv: "proc_inv (s, c)" and "chan \<noteq> 0" "p \<in> wakes chan s"
  shows "p < NPROC \<and> pst s p = SSLEEP"
proof -
  obtain S R where q: "queues s S R" and calm: "calm s" using inv by (auto elim: proc_invE)
  have sl: "p < NPROC \<and> pst s p = SSLEEP" if "p \<in> sleepers s x" "x \<noteq> 0" for x
    using that(1) queues_member(1) [OF q(1), of p "HASH x"] unfolding sleepers_queue [OF q(1) that(2), symmetric] by simp
  then show ?thesis using assms calm unfolding wakes_def calm_def by (auto split: if_splits)
qed

lemma woken_inv:
  assumes "proc_inv (s, c)" "chan \<noteq> 0"
  obtains t where "wakeup chan s = Inr ((), t)" "proc_inv (t, c)" "woken (wakes chan s) s t"
proof -
  obtain S R where q: "queues s S R" "\<forall>p<NPROC. pst s p = SRUN \<longleftrightarrow> p \<in> set R \<or> c = Some p"
    "\<forall>p. c = Some p \<longrightarrow> p < NPROC \<and> p \<notin> set R \<and> u_procp s = p" and calm: "calm s"
    using assms(1) by (auto elim: proc_invE)
  obtain t R' where t: "wakeup_loop wfuel chan (slpque s (HASH chan)) None s = Inr ((), t)"
    "queues t (\<lambda>h. filter (\<lambda>p. p \<notin> wakes chan s) (S h)) R'" "set R' = wakes chan s \<union> set R" "woken (wakes chan s) s t"
    using wakeup_wakes [OF q(1) assms(2) calm_apart [OF calm assms(2)] refl] by blast
  note A = wakes_asleep [OF assms]
  note f = woken_fields [OF t(4)] and g = woken_more [OF t(4)]
  have "calm t" using calm parted_woken [OF _ t(4)] by (simp add: calm_def f g)
  moreover have "\<forall>p<NPROC. pst t p = SRUN \<longleftrightarrow> p \<in> set R' \<or> c = Some p" using q(2) t(3) by (simp add: f)
  moreover have "\<forall>p. c = Some p \<longrightarrow> p < NPROC \<and> p \<notin> set R' \<and> u_procp t = p" using q(2,3) t(3) A by (auto simp: g)
  moreover have "uniq_pids t" by (rule uniq_mono [of s]) (use A assms(1) in \<open>auto simp: f g proc_inv_def proc_sound_def split: if_splits\<close>)
  ultimately have "proc_inv (t, c)" using assms(1) by (intro proc_invI [OF t(2)]) (auto simp: proc_inv_def proc_sound_def g)
  then show thesis using that t(1,4) by (auto simp: wakeup_def)
qed

subsection \<open>Sending signals\<close>

text \<open>
  \<open>t\<close> is \<open>s\<close> after the signal has been sent to the processes \<open>P\<close>: it is pending there and nowhere
  else, those that sleep so that signals disturb them run, and nobody who was ready is not.
\<close>

definition sig_proc :: "bool \<Rightarrow> int \<Rightarrow> proc \<Rightarrow> proc \<Rightarrow> bool" where
  "sig_proc b sig r r' \<longleftrightarrow>
     p_sig r' = (if b \<and> 0 < sig \<and> sig < NSIG then p_sig r OR sigbit (nat sig) else p_sig r) \<and>
     p_pid r' = p_pid r \<and> p_pgrp r' = p_pgrp r \<and> p_uid r' = p_uid r \<and> (PZERO < p_pri r' \<longleftrightarrow> PZERO < p_pri r) \<and>
     (p_stat r' = p_stat r \<or> p_stat r = SSLEEP \<and> p_stat r' = SRUN) \<and>
     (b \<and> 0 \<le> sig \<and> sig < NSIG \<and> p_stat r = SSLEEP \<and> PZERO < p_pri r \<longrightarrow> p_stat r' = SRUN)"

definition signalled :: "nat set \<Rightarrow> int \<Rightarrow> sched \<Rightarrow> sched \<Rightarrow> bool" where
  "signalled P sig s t \<longleftrightarrow> (\<forall>p. sig_proc (p \<in> P) sig (ptab s p) (ptab t p)) \<and>
     u_procp t = u_procp s \<and> u_uid t = u_uid s \<and> u_error t = u_error s \<and> u_signal t = u_signal s"

lemma signalled_refl: "signalled {} sig s s" by (simp add: signalled_def sig_proc_def)

lemma sig_proc_trans: "sig_proc b sig r r' \<Longrightarrow> sig_proc c sig r' r'' \<Longrightarrow> sig_proc (b \<or> c) sig r r''"
  unfolding sig_proc_def by (intro conjI; auto simp: or.assoc)

lemma signalled_trans: "signalled P sig s t \<Longrightarrow> signalled Q sig t u \<Longrightarrow> signalled (P \<union> Q) sig s u"
  using sig_proc_trans [of "p \<in> P" sig "ptab s p" "ptab t p" "p \<in> Q" "ptab u p" for p] by (simp add: signalled_def)

lemma setrun_wakeup: "pwc s p \<noteq> 0 \<Longrightarrow> pst s p = SSLEEP \<Longrightarrow> setrun p s = wakeup (pwc s p) s"
  by (simp add: setrun_def wakeup_def)

lemma psignal_ok:
  assumes inv: "proc_inv (s, c)" and p: "p < NPROC"
  obtains t where "psignal p sig s = Inr ((), t)" "proc_inv (t, c)" "signalled {p} sig s t"
proof (cases "sig < 0 \<or> NSIG \<le> sig")
  case True
  then have "signalled {p} sig s s" by (auto simp: signalled_def sig_proc_def)
  then show thesis using that [of s] True inv by (simp add: psignal_def)
next
  case False
  define v where "v = (if sig \<noteq> 0 then upd_proc p (p_sig_update (\<lambda>w. w OR sigbit (nat sig))) s else s)"
  define u where "u = (if PUSER < p_pri (ptab v p) then upd_proc p (p_pri_update (\<lambda>_. PUSER)) v else v)"
  have u: "aside s u" by (simp add: u_def v_def aside_def)
  have us: "p_sig (ptab u x) = (if x = p \<and> 0 < sig then p_sig (ptab s x) OR sigbit (nat sig) else p_sig (ptab s x))"
    "p_pid (ptab u x) = p_pid (ptab s x)" "p_pgrp (ptab u x) = p_pgrp (ptab s x)" "p_uid (ptab u x) = p_uid (ptab s x)"
    "PZERO < p_pri (ptab u x) \<longleftrightarrow> PZERO < p_pri (ptab s x)" "pst u x = pst s x" "u_procp u = u_procp s" "u_uid u = u_uid s"
    "u_error u = u_error s" "u_signal u = u_signal s" for x
    using False by (auto simp: u_def v_def PUSER_def PZERO_def)
  have eq: "psignal p sig s = (if pst u p = SSLEEP \<and> PZERO < p_pri (ptab u p) then setrun p u else Inr ((), u))"
    using False unfolding psignal_def u_def v_def by (simp only: Let_def if_False)
  have iu: "proc_inv (u, c)" using inv aside_inv [OF u] by simp
  show thesis
  proof (cases "pst u p = SSLEEP \<and> PZERO < p_pri (ptab u p)")
    case True
    then have nz: "pwc u p \<noteq> 0" using iu p by (auto simp: proc_inv_def proc_sound_def queues_def)
    obtain t where t: "wakeup (pwc u p) u = Inr ((), t)" "proc_inv (t, c)" "woken (wakes (pwc u p) u) u t"
      using woken_inv [OF iu nz] by blast
    have "p \<in> wakes (pwc u p) u" using p by (simp add: wakes_def sleepers_def)
    moreover have "pst u x = SSLEEP" if "x \<in> wakes (pwc u p) u" for x
      using wakes_asleep [OF iu nz that] by simp
    ultimately have "signalled {p} sig s t"
      using False True by (simp add: signalled_def sig_proc_def woken_fields [OF t(3)] woken_more [OF t(3)] us)
    then show thesis using that t(1,2) eq True setrun_wakeup [OF nz] by simp
  next
    case no: False
    then have "signalled {p} sig s u" using False by (auto simp: signalled_def sig_proc_def us)
    then show thesis using that eq iu no by simp
  qed
qed

text \<open>Loops over the process table.\<close>

lemma signal_loop_ok:
  assumes "proc_inv (s, c)" "\<forall>p\<in>set ps. p < NPROC"
  shows "\<exists>t. signal_loop ps pgrp sig s = Inr ((), t) \<and> proc_inv (t, c) \<and>
    signalled {p \<in> set ps. p_pgrp (ptab s p) = pgrp} sig s t"
  using assms
proof (induction ps arbitrary: s)
  case Nil
  then show ?case using signalled_refl by simp
next
  case (Cons p ps)
  show ?case
  proof (cases "p_pgrp (ptab s p) = pgrp")
    case True
    obtain u where u: "psignal p sig s = Inr ((), u)" "proc_inv (u, c)" "signalled {p} sig s u"
      using psignal_ok [OF Cons.prems(1)] Cons.prems(2) by auto
    then have g: "p_pgrp (ptab u x) = p_pgrp (ptab s x)" for x by (auto simp: signalled_def sig_proc_def)
    obtain t where "signal_loop ps pgrp sig u = Inr ((), t)" "proc_inv (t, c)" "signalled {p \<in> set ps. p_pgrp (ptab u p) = pgrp} sig u t"
      using Cons.IH [OF u(2)] Cons.prems(2) by auto
    moreover have "{x \<in> set (p # ps). p_pgrp (ptab s x) = pgrp} = {p} \<union> {x \<in> set ps. p_pgrp (ptab u x) = pgrp}"
      using True by (auto simp: g)
    ultimately show ?thesis using True u(1) signalled_trans [OF u(3)] by simp
  next
    case False
    then have "{x \<in> set (p # ps). p_pgrp (ptab s x) = pgrp} = {x \<in> set ps. p_pgrp (ptab s x) = pgrp}" by auto
    then show ?thesis using Cons False by auto
  qed
qed

lemma kill_to_signalled: "signalled P sig s t \<Longrightarrow> kill_to a priv t p = kill_to a priv s p"
proof -
  assume s: "signalled P sig s t"
  then have "sig_proc (x \<in> P) sig (ptab s x) (ptab t x)" for x by (simp add: signalled_def)
  then have "pst t x = SFREE \<longleftrightarrow> pst s x = SFREE" "p_pid (ptab t x) = p_pid (ptab s x)" "p_pgrp (ptab t x) = p_pgrp (ptab s x)"
    "p_uid (ptab t x) = p_uid (ptab s x)" for x
    unfolding sig_proc_def by (metis pstat.distinct)+
  moreover have "u_procp t = u_procp s" "u_uid t = u_uid s" using s by (simp_all add: signalled_def)
  ultimately show ?thesis by (simp add: kill_to_def)
qed

lemma kill_loop_ok:
  assumes "proc_inv (s, c)" "\<forall>p\<in>set ps. p < NPROC" "distinct ps"
  shows "\<exists>t. kill_loop ps a priv sig f s = Inr (f + int (card {p \<in> set ps. kill_to a priv s p}), t) \<and> proc_inv (t, c) \<and>
    signalled {p \<in> set ps. kill_to a priv s p} sig s t"
  using assms
proof (induction ps arbitrary: s f)
  case Nil
  then show ?case using signalled_refl by simp
next
  case (Cons p ps)
  show ?case
  proof (cases "kill_to a priv s p")
    case True
    obtain u where u: "psignal p sig s = Inr ((), u)" "proc_inv (u, c)" "signalled {p} sig s u"
      using psignal_ok [OF Cons.prems(1)] Cons.prems(2) by auto
    note g = kill_to_signalled [OF u(3)]
    obtain t where "kill_loop ps a priv sig (f + 1) u = Inr (f + 1 + int (card {p \<in> set ps. kill_to a priv s p}), t)"
      "proc_inv (t, c)" "signalled {p \<in> set ps. kill_to a priv s p} sig u t"
      using Cons.IH [OF u(2), of "f + 1"] Cons.prems(2,3) by (auto simp: g)
    moreover have "{x \<in> set (p # ps). kill_to a priv s x} = insert p {x \<in> set ps. kill_to a priv s x}"
      using True by auto
    ultimately show ?thesis using True u(1) signalled_trans [OF u(3)] Cons.prems(3) by simp
  next
    case False
    then have "{x \<in> set (p # ps). kill_to a priv s x} = {x \<in> set ps. kill_to a priv s x}" by auto
    then show ?thesis using Cons False by auto
  qed
qed

text \<open>The addressees of \<open>kill\<close>.\<close>

definition kill_targets :: "int \<Rightarrow> sched \<Rightarrow> nat set" where
  "kill_targets pid s = (let priv = (pid = -1 \<and> u_uid s = 0) in {p. p < NPROC \<and> kill_to (if priv then 0 else pid) priv s p})"

lemma kill_ok:
  assumes "proc_inv (s, c)"
  shows "\<exists>t. kill pid sig s = Inr ((), t) \<and> proc_inv (t, c) \<and>
    u_error t = (if kill_targets pid s = {} then Some ESRCH else u_error s) \<and>
    signalled (kill_targets pid s) sig s (t\<lparr>u_error := u_error s\<rparr>)"
proof -
  define priv where "priv = (pid = -1 \<and> u_uid s = 0)"
  define P where "P = kill_targets pid s"
  have P: "P = {p \<in> set [0..<NPROC]. kill_to (if priv then 0 else pid) priv s p}" by (auto simp: P_def kill_targets_def priv_def)
  have fin: "finite P" by (simp add: P)
  obtain t where t: "kill_loop [0..<NPROC] (if priv then 0 else pid) priv sig 0 s = Inr (int (card P), t)"
    "proc_inv (t, c)" "signalled P sig s t"
    using kill_loop_ok [OF assms(1), of "[0..<NPROC]" "if priv then 0 else pid" priv sig 0] unfolding P [symmetric] by auto
  let ?t = "if P = {} then t\<lparr>u_error := Some ESRCH\<rparr> else t"
  have e: "u_error t = u_error s" using t(3) by (simp add: signalled_def)
  have "kill pid sig s = Inr ((), ?t)" using t(1) fin by (simp add: kill_def Let_def priv_def)
  moreover have "aside t ?t" by (simp add: aside_def)
  then have "proc_inv (?t, c)" using t(2) aside_inv by blast
  moreover have "?t\<lparr>u_error := u_error s\<rparr> = t" using e by (cases t) simp
  then have "signalled P sig s (?t\<lparr>u_error := u_error s\<rparr>)" using t(3) by simp
  moreover have "u_error ?t = (if P = {} then Some ESRCH else u_error s)" using e by simp
  ultimately show ?thesis unfolding P_def [symmetric] by blast
qed


abbreviation demo_system :: sched where
  "demo_system \<equiv> demo_asleep 200 None (Some 2) ((\<lambda>_. None)(3 := Some 0, 6 := Some 1))"

lemma demo_system_inv: "proc_inv (demo_system, Some 3)"
proof (rule proc_invI [OF demo_apart_queues])
  show "uniq_pids demo_system" by (auto simp: uniq_pids_def demo_defs split: if_splits)
  show "calm demo_system" by (auto simp: calm_def parted_def demo_defs split: if_splits)
qed (auto simp: demo_defs split: if_splits)


end
