(* ===== verification/Dispatch.thy ===== *)
theory Dispatch
  imports Signals
begin

section \<open>Choosing the next process, and the process table as a system\<close>

text \<open>
  \<open>swtch\<close> (sys/slp.c) takes the best process off the run queue.  The routines of \<open>Process\<close> are
  then the steps of one transition system, in which the processes, interrupts and the
  swapper call them in any order, and the queues stay sound.
\<close>

subsection \<open>The search of the run queue\<close>

definition ready :: "sched \<Rightarrow> nat \<Rightarrow> bool" where
  "ready s p \<longleftrightarrow> pst s p = SRUN \<and> SLOAD \<in> p_flag (ptab s p)"

text \<open>The best process of a queue, the first one of several, and its predecessor.\<close>

definition best :: "sched \<Rightarrow> nat list \<Rightarrow> nat option \<Rightarrow> nat option \<Rightarrow> int \<Rightarrow> bool" where
  "best s xs pp pq n \<longleftrightarrow>
     (case pp of
        None \<Rightarrow> n = 128 \<and> (\<forall>x\<in>set xs. ready s x \<longrightarrow> 128 \<le> p_pri (ptab s x))
      | Some p \<Rightarrow> \<exists>as bs. xs = as @ p # bs \<and> pq = last_opt as \<and> n = p_pri (ptab s p) \<and> ready s p \<and> n < 128 \<and>
          (\<forall>x\<in>set as. ready s x \<longrightarrow> n < p_pri (ptab s x)) \<and> (\<forall>x\<in>set bs. ready s x \<longrightarrow> n \<le> p_pri (ptab s x)))"

lemma best_SomeI:
  "\<lbrakk>xs = as @ p # bs; pq = last_opt as; n = p_pri (ptab s p); ready s p; n < 128;
    \<forall>x\<in>set as. ready s x \<longrightarrow> n < p_pri (ptab s x); \<forall>x\<in>set bs. ready s x \<longrightarrow> n \<le> p_pri (ptab s x)\<rbrakk> \<Longrightarrow> best s xs (Some p) pq n"
  unfolding best_def option.case by blast

lemma best_le: "best s xs pp pq n \<Longrightarrow> x \<in> set xs \<Longrightarrow> ready s x \<Longrightarrow> n \<le> p_pri (ptab s x)"
  by (fastforce simp: best_def split: option.splits)

lemma best_bound: "best s xs pp pq n \<Longrightarrow> n \<le> 128"
  by (auto simp: best_def split: option.splits)

lemma best_better:
  assumes "best s xs pp pq n" "ready s y" "p_pri (ptab s y) < n"
  shows "best s (xs @ [y]) (Some y) (last_opt xs) (p_pri (ptab s y))"
proof -
  have "p_pri (ptab s y) < p_pri (ptab s x)" if "x \<in> set xs" "ready s x" for x
    using best_le [OF assms(1) that] assms(3) by simp
  then show ?thesis using assms(2,3) best_bound [OF assms(1)] by (auto intro: best_SomeI [of _ xs _ "[]"])
qed

lemma best_worse:
  assumes "best s xs pp pq n" "\<not> (ready s y \<and> p_pri (ptab s y) < n)"
  shows "best s (xs @ [y]) pp pq n"
proof (cases pp)
  case (Some p)
  then obtain as bs where "xs = as @ p # bs" "pq = last_opt as" "n = p_pri (ptab s p)" "ready s p" "n < 128"
    "\<forall>x\<in>set as. ready s x \<longrightarrow> n < p_pri (ptab s x)" "\<forall>x\<in>set (bs @ [y]). ready s x \<longrightarrow> n \<le> p_pri (ptab s x)"
    using assms by (auto simp: best_def)
  then show ?thesis unfolding Some by (intro best_SomeI [of _ as p "bs @ [y]"]) simp_all
qed (use assms in \<open>auto simp: best_def\<close>)

lemma swtch_search_best:
  assumes "linked (plink s) p ys" "best s xs pp pq n" "length ys < k"
  shows "\<exists>pp' pq' n'. swtch_search k p (last_opt xs) pp pq n s = Some (pp', pq', n') \<and> best s (xs @ ys) pp' pq' n'"
  using assms
proof (induction ys arbitrary: p xs pp pq n k)
  case Nil
  then show ?case by (cases k) auto
next
  case (Cons y ys)
  then obtain m where m: "k = Suc m" "length ys < m" by (cases k) auto
  have p: "p = Some y" "linked (plink s) (p_link (ptab s y)) ys" using Cons.prems(1) by auto
  have l: "last_opt (xs @ [y]) = Some y" by (simp add: last_opt_def)
  show ?case
  proof (cases "ready s y \<and> p_pri (ptab s y) < n")
    case True
    then show ?thesis using Cons.IH [OF p(2) best_better [OF Cons.prems(2) True [THEN conjunct1] True [THEN conjunct2]] m(2)] p(1) m(1) by (simp add: ready_def l)
  next
    case False
    then show ?thesis using Cons.IH [OF p(2) best_worse [OF Cons.prems(2) False] m(2)] p(1) m(1) by (auto simp: ready_def l)
  qed
qed

text \<open>Taking a process off the run queue.\<close>

lemma run_queue_remove:
  assumes q: "queues s S (as @ p # bs)"
  defines "t \<equiv> (case last_opt as of None \<Rightarrow> s\<lparr>runq := p_link (ptab s p)\<rparr>
      | Some q \<Rightarrow> upd_proc q (p_link_update (\<lambda>_. p_link (ptab s p))) s)"
  shows "queues t S (as @ bs)" "pst t x = pst s x" "pwc t x = pwc s x" "p_flag (ptab t x) = p_flag (ptab s x)"
    "p_pid (ptab t x) = p_pid (ptab s x)" "p_pri (ptab t x) = p_pri (ptab s x)"
    "t = s\<lparr>ptab := ptab t, runq := runq t\<rparr>"
proof -
  show f: "pst t x = pst s x" "pwc t x = pwc s x" "p_flag (ptab t x) = p_flag (ptab s x)"
    "p_pid (ptab t x) = p_pid (ptab s x)" "p_pri (ptab t x) = p_pri (ptab s x)" for x
    by (simp_all add: t_def last_opt_def)
  show "t = s\<lparr>ptab := ptab t, runq := runq t\<rparr>" by (simp add: t_def last_opt_def)
  have l: "plink t = (if as = [] then plink s else (plink s)(last as := p_link (ptab s p)))" "slpque t = slpque s"
    by (auto simp: t_def last_opt_def)
  have d: "distinct (as @ p # bs)" "linked (plink s) (runq s) (as @ p # bs)" using queues_linked(3,4) [OF q] by auto
  have run: "linked (plink t) (runq t) (as @ bs)"
  proof (cases as rule: rev_cases)
    case Nil
    then show ?thesis using d(2) unfolding l by (simp add: t_def last_opt_def)
  next
    case (snoc zs z)
    then show ?thesis using path_unlink [of "plink s" "runq s" zs z p bs] d unfolding l by (simp add: t_def last_opt_def)
  qed
  have "linked (plink t) (slpque t h) (S h)" for h
  proof -
    have "as \<noteq> [] \<Longrightarrow> last as \<notin> set (S h)" using queues_disjoint(2) [OF q, of "last as" h] by auto
    then show ?thesis using queues_linked(1) [OF q, of h] unfolding l by simp
  qed
  then show "queues t S (as @ bs)" using q run d(1) unfolding queues_def f by auto
qed

lemma swtch_pick_cases:
  assumes q: "queues s S R"
  obtains (picked) p as bs t where "swtch_pick s = Inr (Some p, t)" "R = as @ p # bs" "ready s p"
      "\<forall>x\<in>set as. ready s x \<longrightarrow> p_pri (ptab s p) < p_pri (ptab s x)" "\<forall>x\<in>set bs. ready s x \<longrightarrow> p_pri (ptab s p) \<le> p_pri (ptab s x)"
      "queues t S (as @ bs)" "curpri t = p_pri (ptab s p)" "runrun t = 0"
      "\<And>x. pst t x = pst s x" "\<And>x. pwc t x = pwc s x" "\<And>x. p_flag (ptab t x) = (if x = p then p_flag (ptab s x) - {SSWAP} else p_flag (ptab s x))"
      "\<And>x. p_pid (ptab t x) = p_pid (ptab s x)" "a_runout t = a_runout s" "a_runin t = a_runin s" "printed t = printed s" "runout t = runout s"
  | (idle) "\<forall>x\<in>set R. ready s x \<longrightarrow> 128 \<le> p_pri (ptab s x)" "swtch_pick s = Inr (None, s\<lparr>runrun := 0\<rparr>)"
proof -
  let ?s = "s\<lparr>runrun := 0\<rparr>"
  have rd: "ready ?s x = ready s x" for x by (simp add: ready_def)
  have q': "queues ?s S R" using q by (simp add: queues_def)
  have len: "length R < NPROC + 1" using queue_length [OF queues_linked(4) [OF q]] queues_member(2) [OF q] by (simp add: le_imp_less_Suc)
  have "best ?s [] None None 128" by (simp add: best_def)
  from swtch_search_best [OF queues_linked(3) [OF q'] this len] obtain pp pq n where
    w: "swtch_search (NPROC + 1) (runq ?s) None None None 128 ?s = Some (pp, pq, n)" "best ?s R pp pq n"
    by (auto simp: last_opt_def)
  show thesis
  proof (cases pp)
    case None
    then show thesis using w by (intro idle) (auto simp: swtch_pick_def best_def rd)
  next
    case (Some p)
    then obtain as bs where b: "R = as @ p # bs" "pq = last_opt as" "n = p_pri (ptab s p)" "ready s p"
      "\<forall>x\<in>set as. ready s x \<longrightarrow> n < p_pri (ptab s x)" "\<forall>x\<in>set bs. ready s x \<longrightarrow> n \<le> p_pri (ptab s x)"
      using w(2) by (auto simp: best_def rd)
    define u where "u = (case last_opt as of None \<Rightarrow> ?s\<lparr>runq := p_link (ptab ?s p)\<rparr>
      | Some q \<Rightarrow> upd_proc q (p_link_update (\<lambda>_. p_link (ptab ?s p))) ?s)"
    define t where "t = upd_proc p (p_flag_update (\<lambda>f. f - {SSWAP})) (u\<lparr>curpri := n\<rparr>)"
    note r = run_queue_remove [OF q' [unfolded b(1)], folded u_def]
    have t: "pst t x = pst u x" "pwc t x = pwc u x" "p_pid (ptab t x) = p_pid (ptab u x)" "plink t x = plink u x" for x
      by (simp_all add: t_def)
    have "plink t = plink u" using t(4) by (rule ext)
    then have "queues t S (as @ bs)" using r(1) unfolding queues_def t by (simp add: t_def)
    moreover have "swtch_pick s = Inr (Some p, t)"
      using w(1) Some by (simp add: swtch_pick_def b(2) t_def u_def Let_def)
    moreover have "a_runout u = a_runout s" "a_runin u = a_runin s" "printed u = printed s" "runout u = runout s" "runrun u = 0"
      by (subst r(7), simp)+
    ultimately show thesis using b r(2-6)
      by (intro picked [of p t as bs]) (auto simp: t, auto simp: t_def)
  qed
qed

text \<open>
  C18: A turn of \<open>swtch\<close> ends.  It chooses a process of the run queue that is in core and whose
  priority value is the smallest, the one nearest to the front if there are several, takes
  exactly this process off the queue and makes its priority the current one; it idles only if
  no process of the queue is in core.
\<close>

theorem swtch_picks_best:
  assumes q: "queues s S R" and pri: "\<forall>p\<in>set R. p_pri (ptab s p) < 128"
  shows "(\<exists>p as bs t. swtch_pick s = Inr (Some p, t) \<and> R = as @ p # bs \<and> ready s p \<and>
      (\<forall>x\<in>set as. ready s x \<longrightarrow> p_pri (ptab s p) < p_pri (ptab s x)) \<and>
      (\<forall>x\<in>set bs. ready s x \<longrightarrow> p_pri (ptab s p) \<le> p_pri (ptab s x)) \<and>
      queues t S (as @ bs) \<and> curpri t = p_pri (ptab s p) \<and> runrun t = 0) \<or>
    (\<forall>x\<in>set R. \<not> ready s x) \<and> swtch_pick s = Inr (None, s\<lparr>runrun := 0\<rparr>)"
proof (rule swtch_pick_cases [OF q], goal_cases)
  case (1 p as bs t)
  then show ?thesis by (intro disjI1 exI [of _ p] exI [of _ as] exI [of _ bs] exI [of _ t]) simp
next
  case 2
  then show ?thesis using pri by force
qed

theorem swtch_picks_best_witness:
  "\<exists>t. swtch_pick (demo_sched\<lparr>runq := Some 3, ptab := (\<lambda>_. demo_proc)
      (3 := demo_proc\<lparr>p_stat := SRUN, p_pri := 60, p_flag := {SLOAD}, p_link := Some 4\<rparr>,
       4 := demo_proc\<lparr>p_stat := SRUN, p_pri := 50, p_flag := {SLOAD}\<rparr>)\<rparr>) = Inr (Some 4, t) \<and> runq t = Some 3 \<and> curpri t = 50"
proof -
  let ?s = "demo_sched\<lparr>runq := Some 3, ptab := (\<lambda>_. demo_proc)
      (3 := demo_proc\<lparr>p_stat := SRUN, p_pri := 60, p_flag := {SLOAD}, p_link := Some 4\<rparr>,
       4 := demo_proc\<lparr>p_stat := SRUN, p_pri := 50, p_flag := {SLOAD}\<rparr>)\<rparr>"
  have q: "queues ?s (\<lambda>_. []) [3, 4]" by (auto simp: queues_def demo_defs split: if_splits)
  have r: "ready ?s 3" "ready ?s 4" "p_pri (ptab ?s 3) = 60" "p_pri (ptab ?s 4) = 50" by (simp_all add: ready_def)
  then obtain p as bs t where "swtch_pick ?s = Inr (Some p, t)" "[3, 4] = as @ p # bs"
    "\<forall>x\<in>set as. ready ?s x \<longrightarrow> p_pri (ptab ?s p) < p_pri (ptab ?s x)" "\<forall>x\<in>set bs. ready ?s x \<longrightarrow> p_pri (ptab ?s p) \<le> p_pri (ptab ?s x)"
    "queues t (\<lambda>_. []) (as @ bs)" "curpri t = p_pri (ptab ?s p)"
    using swtch_picks_best [OF q] by (auto simp: demo_defs)
  note t = this
  have "as = [3] \<and> p = 4 \<and> bs = []"
    using t(2-4) r by (cases as) (auto simp: Cons_eq_append_conv append_eq_Cons_conv)
  then show ?thesis using t(1,5,6) r queues_linked(3) [OF t(5)] by auto
qed

subsection \<open>The steps keep the queues sound\<close>

lemma queuesI:
  "\<lbrakk>\<And>h. linked (plink s) (slpque s h) (S h); \<And>h. distinct (S h);
    \<And>h p. p \<in> set (S h) \<Longrightarrow> p < NPROC \<and> pwc s p \<noteq> 0 \<and> HASH (pwc s p) = h \<and> pst s p = SSLEEP;
    linked (plink s) (runq s) R; distinct R; \<And>p. p \<in> set R \<Longrightarrow> p < NPROC \<and> pwc s p = 0 \<and> pst s p = SRUN;
    \<And>p. \<lbrakk>p < NPROC; pwc s p \<noteq> 0\<rbrakk> \<Longrightarrow> p \<in> set (S (HASH (pwc s p)));
    \<And>p. \<lbrakk>p < NPROC; pst s p = SSLEEP\<rbrakk> \<Longrightarrow> pwc s p \<noteq> 0\<rbrakk> \<Longrightarrow> queues s S R"
  unfolding queues_def by blast

lemma queues_complete:
  "\<lbrakk>queues s S R; p < NPROC; pwc s p \<noteq> 0\<rbrakk> \<Longrightarrow> p \<in> set (S (HASH (pwc s p)))"
  "\<lbrakk>queues s S R; p < NPROC; pst s p = SSLEEP\<rbrakk> \<Longrightarrow> pwc s p \<noteq> 0"
  unfolding queues_def by blast+

lemmas queue_facts = queues_linked queues_member queues_complete

text \<open>A process that is on no queue may change.\<close>

lemma queues_outside:
  assumes q: "queues s S R" and p: "p \<notin> set R" "\<And>h. p \<notin> set (S h)" "pwc t p = 0" "pst t p \<noteq> SSLEEP"
    and x: "\<And>x. x \<noteq> p \<Longrightarrow> ptab t x = ptab s x" and h: "slpque t = slpque s" "runq t = runq s"
  shows "queues t S R"
proof -
  have l: "path (plink t) a xs b = path (plink s) a xs b" if "p \<notin> set xs" for xs a b
    using that x by (intro path_cong) metis
  have e: "\<And>y h. y \<in> set (S h) \<Longrightarrow> ptab t y = ptab s y" "\<And>y. y \<in> set R \<Longrightarrow> ptab t y = ptab s y"
    using x p(1,2) by metis+
  show ?thesis
  proof (rule queuesI)
    fix y assume y: "y < NPROC"
    show "pwc t y \<noteq> 0 \<Longrightarrow> y \<in> set (S (HASH (pwc t y)))" using queues_complete(1) [OF q y] x [of y] p(3) by (cases "y = p") auto
    show "pst t y = SSLEEP \<Longrightarrow> pwc t y \<noteq> 0" using queues_complete(2) [OF q y] x [of y] p(4) by (cases "y = p") auto
  qed (use queue_facts(1-6) [OF q] e l [OF p(1)] l [OF p(2)] h in auto)
qed

lemma not_queued:
  assumes "queues s S R" "pst s p \<noteq> SSLEEP"
  shows "p \<notin> set (S h)"
  using queues_member(1) [OF assms(1), of p h] assms(2) by auto

lemma awake_wchan: "\<lbrakk>queues s S R; p < NPROC; pst s p \<noteq> SSLEEP\<rbrakk> \<Longrightarrow> pwc s p = 0"
  using queues_complete(1) [of s S R p] queues_member(1) [of s S R p "HASH (pwc s p)"] by auto

lemma enqueue_ready:
  assumes q: "queues s S R" and p: "p < NPROC" "pst s p = SRUN" "p \<notin> set R"
  defines "t \<equiv> (upd_proc p (p_link_update (\<lambda>_. runq s)) s)\<lparr>runq := Some p\<rparr>"
  shows "setrq p s = Inr ((), t)" "queues t S (p # R)"
proof -
  have "length R \<le> NPROC" using queue_length [OF queues_linked(4) [OF q]] queues_member(2) [OF q] by blast
  then show "setrq p s = Inr ((), t)"
    using on_queue_linked [OF queues_linked(3) [OF q], of "NPROC + 1" p] p(3) by (simp add: setrq_def t_def)
  have n: "p \<notin> set (S h)" for h using not_queued [OF q] p(2) by simp
  have w: "pwc s p = 0" using awake_wchan [OF q p(1)] p(2) by simp
  have f: "pst t x = pst s x" "pwc t x = pwc s x" for x by (simp_all add: t_def)
  have l: "plink t = (plink s)(p := runq s)" "slpque t = slpque s" "runq t = Some p" by (auto simp: t_def)
  show "queues t S (p # R)"
  proof (rule queuesI)
    show "linked (plink t) (slpque t h) (S h)" for h using queues_linked(1) [OF q, of h] n unfolding l by simp
    show "linked (plink t) (runq t) (p # R)" using queues_linked(3) [OF q] p(3) unfolding l by simp
  qed (use queue_facts [OF q] p n w f in auto)
qed

text \<open>A process goes to sleep.\<close>

lemma queues_sleep:
  assumes q: "queues s S R" and p: "p < NPROC" "pst s p = SRUN" "p \<notin> set R" and c: "chan \<noteq> 0"
    and f: "\<And>x. pst t x = (if x = p then SSLEEP else pst s x)" "\<And>x. pwc t x = (if x = p then chan else pwc s x)"
    and l: "plink t = (plink s)(p := slpque s (HASH chan))" "slpque t = (slpque s)(HASH chan := Some p)" "runq t = runq s"
  shows "queues t (S(HASH chan := p # S (HASH chan))) R"
proof -
  have n: "p \<notin> set (S h)" for h using not_queued [OF q] p(2) by simp
  have w: "pwc s p = 0" using awake_wchan [OF q p(1)] p(2) by simp
  show ?thesis
  proof (rule queuesI)
    show "linked (plink t) (slpque t h) ((S(HASH chan := p # S (HASH chan))) h)" for h
      using queues_linked(1) [OF q, of h] n unfolding l by auto
    show "linked (plink t) (runq t) R" using queues_linked(3) [OF q] p(3) unfolding l by simp
    show "x < NPROC \<and> pwc t x \<noteq> 0 \<and> HASH (pwc t x) = h \<and> pst t x = SSLEEP" if "x \<in> set ((S(HASH chan := p # S (HASH chan))) h)" for h x
      using that queues_member(1) [OF q, of x h] n [of h] p(1) c by (cases "h = HASH chan"; cases "x = p") (auto simp: f)
    show "x \<in> set ((S(HASH chan := p # S (HASH chan))) (HASH (pwc t x)))" if "x < NPROC" "pwc t x \<noteq> 0" for x
      using that queues_complete(1) [OF q, of x] by (cases "x = p"; cases "HASH (pwc s x) = HASH chan") (auto simp: f)
    show "x < NPROC \<and> pwc t x = 0 \<and> pst t x = SRUN" if "x \<in> set R" for x
      using that queues_member(2) [OF q, of x] p(3) by (auto simp: f)
  qed (use queues_linked(2,4) [OF q] queues_complete(2) [OF q] n c f in auto)
qed

lemma sleep_ok:
  assumes inv: "proc_inv (s, Some p)" and c: "chan \<noteq> 0" "SLOAD \<in> p_flag (ptab s p)"
  shows "(\<exists>t. sleep chan pri s = Inl (Sleeping chan, t) \<and> proc_inv (t, None)) \<or>
    (\<exists>t. sleep chan pri s = Inr ((), t) \<and> proc_inv (t, Some p))"
proof -
  obtain S R where q: "queues s S R" "calm s" "printed s = []" "\<forall>x<NPROC. pst s x = SRUN \<longleftrightarrow> x \<in> set R \<or> Some p = Some x"
    "\<forall>x. Some p = Some x \<longrightarrow> x < NPROC \<and> x \<notin> set R \<and> u_procp s = x" "uniq_pids s"
    by (rule proc_invE [OF inv])
  have p: "p < NPROC" "pst s p = SRUN" "p \<notin> set R" "u_procp s = p" using q(4,5) by auto
  define u where "u = (upd_proc p (\<lambda>r. r\<lparr>p_stat := SSLEEP, p_wchan := chan, p_pri := pri, p_link := slpque s (HASH chan)\<rparr>) s)
    \<lparr>slpque := (slpque s)(HASH chan := Some p)\<rparr>"
  have qu: "queues u (S(HASH chan := p # S (HASH chan))) R"
    by (rule queues_sleep [OF q(1) p(1-3) c(1)]) (auto simp: u_def)
  have fu: "pst u x = (if x = p then SSLEEP else pst s x)" "pwc u x = (if x = p then chan else pwc s x)"
    "p_flag (ptab u x) = p_flag (ptab s x)" "p_pid (ptab u x) = p_pid (ptab s x)" "a_runout u = a_runout s" "a_runin u = a_runin s"
    "printed u = printed s" "u_procp u = p" "runin u = runin s" "runout u = runout s" for x
    using p(4) by (simp_all add: u_def)
  have "uniq_pids u" by (rule uniq_mono [OF q(6)]) (use p(2) in \<open>auto simp: fu split: if_splits\<close>)
  moreover have "calm u" using q(2) c unfolding calm_def parted_def fu by auto
  ultimately have iu: "proc_inv (u, None)"
    by (intro proc_invI [OF qu]) (use q(3,4) p in \<open>simp_all add: fu\<close>)
  obtain n w where i: "issig u = Inr (n, upd_proc p (p_sig_update (\<lambda>_. w)) u)"
    using issig_total [of u] p(4) by (auto simp: u_def)
  let ?v = "upd_proc p (p_sig_update (\<lambda>_. w)) u"
  have iv: "proc_inv (?v, None)" using iu aside_inv [of u ?v None] by (simp add: aside_def)
  let ?t = "upd_proc p (\<lambda>r. r\<lparr>p_wchan := 0, p_stat := SRUN\<rparr>) ?v"
  let ?t' = "?t\<lparr>slpque := (slpque ?t)(HASH chan := p_link (ptab ?t p))\<rparr>"
  have sl: "sleep chan pri s = (if PZERO < pri then if n \<noteq> 0 then Inr ((), ?t')
       else rbind (if runin ?v \<noteq> 0 then wakeup (a_runin ?v) (?v\<lparr>runin := 0\<rparr>) else Inr ((), ?v)) (\<lambda>(_, s). Inl (Sleeping chan, s))
     else Inl (Sleeping chan, u))"
    using c(1) i p(4) by (simp add: sleep_def Let_def u_def)
  consider "pri \<le> PZERO" | "PZERO < pri" "n \<noteq> 0" | "PZERO < pri" "n = 0" by linarith
  then show ?thesis
  proof cases
    case 1
    then show ?thesis using sl iu by simp
  next
    case 2
    define t where "t = ?t'"
    have ft: "pst t x = pst s x" "pwc t x = pwc s x" "p_flag (ptab t x) = p_flag (ptab s x)" "p_pid (ptab t x) = p_pid (ptab s x)"
      "a_runout t = a_runout s" "a_runin t = a_runin s" "printed t = printed s" "u_procp t = p" "runout t = runout s" for x
      using p awake_wchan [OF q(1) p(1)] by (simp_all add: fu t_def)
    have "queues t S R"
    proof (rule queues_outside [OF q(1) p(3)])
      show "p \<notin> set (S h)" for h using not_queued [OF q(1)] p(2) by simp
      show "pwc t p = 0" "pst t p \<noteq> SSLEEP" using awake_wchan [OF q(1) p(1)] p(2) by (simp_all add: ft)
    qed (simp_all add: t_def u_def)
    moreover have "calm t" using q(2) by (simp add: calm_def parted_def ft)
    moreover have "uniq_pids t" by (rule uniq_mono [OF q(6)]) (simp_all add: ft)
    ultimately have "proc_inv (t, Some p)" by (intro proc_invI [of t S R]) (use q(3-5) in \<open>simp_all add: ft\<close>)
    then show ?thesis using sl 2 by (simp add: t_def)
  next
    case 3
    have "aside ?v (?v\<lparr>runin := 0\<rparr>)" by (simp add: aside_def)
    then have "proc_inv (?v\<lparr>runin := 0\<rparr>, None)" using iv aside_inv by blast
    moreover have "a_runin (?v\<lparr>runin := 0\<rparr>) = a_runin ?v" "a_runin ?v \<noteq> 0" using q(2) by (simp_all add: fu calm_def)
    ultimately obtain t where "wakeup (a_runin ?v) (?v\<lparr>runin := 0\<rparr>) = Inr ((), t)" "proc_inv (t, None)"
      using woken_inv by metis
    then show ?thesis using sl iv 3 by (cases "runin ?v = 0") simp_all
  qed
qed

subsection \<open>New processes\<close>

lemma queues_cong:
  assumes "\<And>x. plink t x = plink s x" "\<And>x. pst t x = pst s x" "\<And>x. pwc t x = pwc s x" "slpque t = slpque s" "runq t = runq s"
  shows "queues t S R = queues s S R"
proof -
  have "plink t = plink s" using assms(1) by (rule ext)
  then show ?thesis unfolding queues_def assms(2-5) by simp
qed

lemma newproc_pid_fresh:
  "newproc_pid k m s = Some n \<Longrightarrow> q < NPROC \<Longrightarrow> p_pid (ptab s q) \<noteq> n \<and> p_pgrp (ptab s q) \<noteq> n"
  by (induction k arbitrary: m) (auto split: if_splits)

lemma newproc_pid_mono: "newproc_pid k m s = Some n \<Longrightarrow> k \<le> k' \<Longrightarrow> newproc_pid k' m s = Some n"
proof (induction k arbitrary: m k')
  case (Suc k)
  then show ?case by (cases k') (auto split: if_splits)
qed simp

definition used_pids :: "sched \<Rightarrow> int set" where
  "used_pids s = (\<lambda>q. p_pid (ptab s q)) ` {..<NPROC} \<union> (\<lambda>q. p_pgrp (ptab s q)) ` {..<NPROC}"

lemma used_pids_card: "card (used_pids s) \<le> 2 * NPROC" "finite (used_pids s)"
proof -
  have "card (used_pids s) \<le> card ((\<lambda>q. p_pid (ptab s q)) ` {..<NPROC}) + card ((\<lambda>q. p_pgrp (ptab s q)) ` {..<NPROC})"
    unfolding used_pids_def by (rule card_Un_le)
  also have "\<dots> \<le> NPROC + NPROC" by (intro add_mono) (metis card_image_le finite_lessThan card_lessThan)+
  finally show "card (used_pids s) \<le> 2 * NPROC" by simp
qed (simp add: used_pids_def)

lemma newproc_pid_run:
  "newproc_pid k m s = None \<Longrightarrow> m + int k < 30000 \<Longrightarrow> {m + 1..m + int k} \<subseteq> used_pids s"
proof (induction k arbitrary: m)
  case (Suc k)
  have u: "m + 1 \<in> used_pids s" "newproc_pid k (m + 1) s = None"
    using Suc.prems by (force simp: used_pids_def image_iff split: if_splits)+
  have "{m + 1..m + int (Suc k)} = insert (m + 1) {m + 1 + 1..m + 1 + int k}" by auto
  then show ?case using Suc.IH [OF u(2)] u(1) Suc.prems(2) by simp
qed simp

lemma newproc_pid_low:
  assumes "m + 301 < 30000"
  shows "newproc_pid 301 m s \<noteq> None"
proof
  assume "newproc_pid 301 m s = None"
  then have "{m + 1..m + 301} \<subseteq> used_pids s" using newproc_pid_run [of 301 m s] assms by simp
  then have "card {m + 1..m + 301} \<le> card (used_pids s)" by (rule card_mono [OF used_pids_card(2)])
  then show False using used_pids_card(1) [of s] by (simp add: NPROC_def)
qed

lemma newproc_pid_wrap:
  "m < 30000 \<Longrightarrow> newproc_pid (nat (30000 - m) + k) m s = None \<Longrightarrow> newproc_pid k 0 s = None"
proof (induction "nat (30000 - m)" arbitrary: m)
  case (Suc j)
  show ?case
  proof (cases "m + 1 < 30000")
    case True
    have j: "nat (30000 - m) = Suc j" "j = nat (30000 - (m + 1))" using Suc.hyps(2) by simp_all
    have "newproc_pid (j + k) (m + 1) s = None" using Suc.prems True unfolding j(1) by (auto split: if_splits)
    then show ?thesis using Suc.hyps(1) [OF j(2)] True j(2) by simp
  next
    case False
    then have "nat (30000 - m) = 1" using Suc.prems(1) by simp
    then show ?thesis using Suc.prems False by simp
  qed
qed simp

text \<open>The search always finds a number, because no more than 300 are in use.\<close>

lemma newproc_pid_total:
  assumes "m < 30000"
  shows "\<exists>n. newproc_pid (4 * NPROC + 10) m s = Some n"
proof (cases "m + 301 < 30000")
  case True
  then obtain n where "newproc_pid 301 m s = Some n" using newproc_pid_low [of m s] by auto
  then show ?thesis using newproc_pid_mono [of 301 m s n "4 * NPROC + 10"] by (auto simp: NPROC_def)
next
  case False
  have "newproc_pid (nat (30000 - m) + 301) m s \<noteq> None"
    using newproc_pid_wrap [OF assms, of 301 s] newproc_pid_low [of 0 s] by auto
  then obtain n where "newproc_pid (nat (30000 - m) + 301) m s = Some n" by auto
  then show ?thesis using newproc_pid_mono [of _ m s n "4 * NPROC + 10"] False by (fastforce simp: NPROC_def)
qed

lemma newproc_ok:
  assumes inv: "proc_inv (s, Some p)"
  shows "newproc s = Inr ((), t) \<Longrightarrow> proc_inv (t, Some p)"
    "mpid s < 30000 \<Longrightarrow> \<exists>q<NPROC. pst s q = SFREE \<Longrightarrow> \<exists>t. newproc s = Inr ((), t)"
proof -
  obtain S R where q: "queues s S R" "calm s" "printed s = []" "\<forall>x<NPROC. pst s x = SRUN \<longleftrightarrow> x \<in> set R \<or> Some p = Some x"
    "\<forall>x. Some p = Some x \<longrightarrow> x < NPROC \<and> x \<notin> set R \<and> u_procp s = x" "uniq_pids s"
    by (rule proc_invE [OF inv])
  have p: "p < NPROC" "pst s p = SRUN" "p \<notin> set R" "u_procp s = p" using q(4,5) by auto
  have step: "\<exists>t. newproc s = Inr ((), t) \<and> proc_inv (t, Some p)"
    if m: "newproc_pid (4 * NPROC + 10) (mpid s) s = Some m" and f: "find (\<lambda>q. pst s q = SFREE) [0..<NPROC] = Some x" for m x
  proof -
    have x: "x < NPROC" "pst s x = SFREE" using f by (auto simp: find_Some_iff)
    then have xp: "x \<noteq> p" "x \<notin> set R" "pwc s x = 0" "\<And>h. x \<notin> set (S h)"
      using p(2) queues_member(2) [OF q(1), of x] awake_wchan [OF q(1) x(1)] not_queued [OF q(1)] by auto
    define u where "u = upd_proc x (newproc_entry m (ptab s p)) (s\<lparr>mpid := m\<rparr>)"
    have fu: "pst u y = (if y = x then SRUN else pst s y)" "pwc u y = pwc s y" for y
      using xp(3) by (simp_all add: u_def newproc_entry_def)
    have "queues u S R"
      by (rule queues_outside [OF q(1) xp(2,4)]) (simp_all add: fu xp(3), simp_all add: u_def)
    note e = enqueue_ready [OF this x(1) _ xp(2)]
    define v where "v = (upd_proc x (p_link_update (\<lambda>_. runq u)) u)\<lparr>runq := Some x\<rparr>"
    define t where "t = upd_proc x (p_flag_update (\<lambda>f. insert SSWAP f)) v"
    have v: "setrq x u = Inr ((), v)" "queues v S (x # R)" using e by (simp_all add: fu v_def)
    have ft: "pst t y = (if y = x then SRUN else pst s y)" "pwc t y = pwc s y" "p_pid (ptab t y) = (if y = x then m else p_pid (ptab s y))"
      "p_flag (ptab t y) = (if y = x then {SSWAP, SLOAD} else p_flag (ptab s y))" "a_runout t = a_runout s" "a_runin t = a_runin s"
      "printed t = printed s" "u_procp t = p" "runout t = runout s" for y
      using xp(3) p(4) by (simp_all add: t_def v_def u_def newproc_entry_def)
    have "queues t S (x # R) = queues v S (x # R)" by (rule queues_cong) (simp_all add: t_def)
    then have "queues t S (x # R)" using v(2) by simp
    moreover have "calm t" using q(2) xp(3) by (auto simp: calm_def parted_def ft)
    moreover have "uniq_pids t" unfolding uniq_pids_def ft
      using q(6) newproc_pid_fresh [OF m] unfolding uniq_pids_def by (simp split: if_splits) metis
    ultimately have "proc_inv (t, Some p)"
      by (intro proc_invI [of t S "x # R"]) (use q(3,4) p xp in \<open>auto simp: ft\<close>)
    moreover have "newproc s = Inr ((), t)" using m f v(1) p(4) by (simp add: newproc_def newproc_ready_def Let_def u_def t_def)
    ultimately show ?thesis by blast
  qed
  have fi: "find (\<lambda>q. pst s q = SFREE) [0..<NPROC] \<noteq> None" if "\<exists>q<NPROC. pst s q = SFREE"
    using that by (auto simp: find_None_iff)
  show "\<exists>t. newproc s = Inr ((), t)" if "mpid s < 30000" "\<exists>q<NPROC. pst s q = SFREE"
    using newproc_pid_total [OF that(1), of s] fi [OF that(2)] step by blast
  show "proc_inv (t, Some p)" if h: "newproc s = Inr ((), t)"
  proof -
    obtain m x where "newproc_pid (4 * NPROC + 10) (mpid s) s = Some m" "find (\<lambda>q. pst s q = SFREE) [0..<NPROC] = Some x"
      using h by (cases "newproc_pid (4 * NPROC + 10) (mpid s) s"; cases "find (\<lambda>q. pst s q = SFREE) [0..<NPROC]")
        (auto simp: newproc_def newproc_ready_def Let_def)
    then show ?thesis using step h by fastforce
  qed
qed

subsection \<open>The system\<close>

text \<open>
  The machine after start-up (sys/main.c): process 0 runs, the other slots are free.
\<close>

definition proc_start :: "sched \<times> nat option \<Rightarrow> bool" where
  "proc_start x \<longleftrightarrow> (case x of (s, cur) \<Rightarrow>
     cur = Some 0 \<and> u_procp s = 0 \<and> runq s = None \<and> slpque s = (\<lambda>_. None) \<and> printed s = [] \<and> a_runout s \<noteq> 0 \<and> a_runin s \<noteq> 0 \<and>
     (\<forall>p. pwc s p = 0) \<and> pst s 0 = SRUN \<and> p_flag (ptab s 0) = {SLOAD, SSYS} \<and> (\<forall>p>0. pst s p = SFREE \<and> p_flag (ptab s p) = {}))"

text \<open>
  What can happen: the running process sleeps, is disturbed by a signal, gives up the
  processor, sends signals or changes its reaction to them, forks, exits, stops for its
  tracer; \<open>swtch\<close> resumes a process, with its own \<open>user\<close> structure, or idles; wakeups and signals
  come from anywhere, also from interrupts; a zombie is waited for; a stopped process is continued; the
  swapper changes the flags of a process, and \<open>runin\<close> and \<open>runout\<close>.  The process that calls
  \<open>sleep\<close> is in core.
\<close>

inductive proc_step :: "sched \<times> nat option \<Rightarrow> sched \<times> nat option \<Rightarrow> bool" where
  st_sleep: "\<lbrakk>sleep chan pri s = Inl (Sleeping chan, t); SLOAD \<in> p_flag (ptab s p)\<rbrakk> \<Longrightarrow> proc_step (s, Some p) (t, None)"
| st_disturbed: "\<lbrakk>sleep chan pri s = Inr ((), t); SLOAD \<in> p_flag (ptab s p)\<rbrakk> \<Longrightarrow> proc_step (s, Some p) (t, Some p)"
| st_qswtch: "setrq p s = Inr ((), t) \<Longrightarrow> proc_step (s, Some p) (t, None)"
| st_swtch: "swtch_pick s = Inr (Some p, t) \<Longrightarrow>
    proc_step (s, None) (t\<lparr>u_procp := p, u_uid := i, u_error := e, u_signal := g, u_r1 := r, u_utime := a, u_stime := b, u_scale := sc\<rparr>, Some p)"
| st_idle: "swtch_pick s = Inr (None, t) \<Longrightarrow> proc_step (s, None) (t, None)"
| st_wakeup: "\<lbrakk>wakeup chan s = Inr ((), t); chan \<noteq> 0\<rbrakk> \<Longrightarrow> proc_step (s, c) (t, c)"
| st_psignal: "\<lbrakk>psignal q sig s = Inr ((), t); q < NPROC\<rbrakk> \<Longrightarrow> proc_step (s, c) (t, c)"
| st_signal: "signal pgrp sig s = Inr ((), t) \<Longrightarrow> proc_step (s, c) (t, c)"
| st_kill: "kill pid sig s = Inr ((), t) \<Longrightarrow> proc_step (s, Some p) (t, Some p)"
| st_ssig: "proc_step (s, Some p) (ssig a fn s, Some p)"
| st_setpri: "proc_step (s, c) (snd (setpri q s), c)"
| st_newproc: "newproc s = Inr ((), t) \<Longrightarrow> proc_step (s, Some p) (t, Some p)"
| st_exit: "proc_step (s, Some p) (upd_proc p (p_stat_update (\<lambda>_. SZOMB)) s, None)"
| st_wait: "\<lbrakk>q < NPROC; pst s q = SZOMB\<rbrakk> \<Longrightarrow> proc_step (s, c) (upd_proc q (p_stat_update (\<lambda>_. SFREE)) s, c)"
| st_stop: "proc_step (s, Some p) (upd_proc p (p_stat_update (\<lambda>_. SSTOP)) s, None)"
| st_continue: "\<lbrakk>q < NPROC; pst s q = SSTOP; setrun q s = Inr ((), t)\<rbrakk> \<Longrightarrow> proc_step (s, c) (t, c)"
| st_swap: "proc_step (s, c) ((upd_proc q (p_flag_update (\<lambda>_. f)) s)\<lparr>runin := ri, runout := ro\<rparr>, c)"

lemma proc_start_inv: "proc_start x \<Longrightarrow> proc_inv x"
proof -
  assume a: "proc_start x"
  obtain s c where x: "x = (s, c)" by (cases x)
  have f: "pst s p = (if p = 0 then SRUN else SFREE)" "p_flag (ptab s p) = (if p = 0 then {SLOAD, SSYS} else {})" "pwc s p = 0" for p
    using a by (auto simp: x proc_start_def)
  have "queues s (\<lambda>_. []) []" using a f by (auto simp: x proc_start_def queues_def)
  then show ?thesis unfolding x
    by (rule proc_invI) (use a in \<open>auto simp: x f proc_start_def calm_def parted_def uniq_pids_def NPROC_def\<close>)
qed

text \<open>A change of one process that is on no queue and does not run afterwards.\<close>

lemma outside_inv:
  assumes inv: "proc_inv (s, c)" and p: "p < NPROC" "pst s p \<noteq> SSLEEP" "c = Some p \<or> pst s p \<noteq> SRUN" "f \<noteq> SRUN" "f \<noteq> SSLEEP"
    "c' = (if c = Some p then None else c)" "f \<noteq> SFREE \<longrightarrow> pst s p \<noteq> SFREE"
  shows "proc_inv (upd_proc p (p_stat_update (\<lambda>_. f)) s, c')"
proof -
  obtain S R where q: "queues s S R" "calm s" "printed s = []" "\<forall>x<NPROC. pst s x = SRUN \<longleftrightarrow> x \<in> set R \<or> c = Some x"
    "\<forall>x. c = Some x \<longrightarrow> x < NPROC \<and> x \<notin> set R \<and> u_procp s = x" "uniq_pids s"
    by (rule proc_invE [OF inv])
  let ?t = "upd_proc p (p_stat_update (\<lambda>_. f)) s"
  have pR: "p \<notin> set R" using q(4,5) p by auto
  have "queues ?t S R"
    by (rule queues_outside [OF q(1) pR]) (use not_queued [OF q(1) p(2)] awake_wchan [OF q(1) p(1,2)] p(5) in simp_all)
  moreover have "uniq_pids ?t" by (rule uniq_mono [OF q(6)]) (use p(7) in \<open>auto split: if_splits\<close>)
  moreover have "calm ?t" using q(2) by (auto simp: calm_def parted_def)
  ultimately show ?thesis by (intro proc_invI [of ?t S R]) (use q(3-5) p pR in \<open>auto split: if_splits\<close>)
qed

lemma swtch_inv:
  assumes inv: "proc_inv (s, None)" and w: "swtch_pick s = Inr (r, t)"
  shows "case r of None \<Rightarrow> proc_inv (t, None) | Some p \<Rightarrow>
    proc_inv (t\<lparr>u_procp := p, u_uid := i, u_error := e, u_signal := g, u_r1 := k, u_utime := a, u_stime := b, u_scale := sc\<rparr>, Some p)"
proof -
  obtain S R where q: "queues s S R" "calm s" "printed s = []" "\<forall>x<NPROC. pst s x = SRUN \<longleftrightarrow> x \<in> set R \<or> None = Some x"
    "\<forall>x. None = Some x \<longrightarrow> x < NPROC \<and> x \<notin> set R \<and> u_procp s = x" "uniq_pids s"
    by (rule proc_invE [OF inv])
  show ?thesis
  proof (rule swtch_pick_cases [OF q(1)], goal_cases)
    case (1 p as bs t')
    have r: "r = Some p" "t' = t" using 1(1) w by auto
    let ?t = "t\<lparr>u_procp := p, u_uid := i, u_error := e, u_signal := g, u_r1 := k, u_utime := a, u_stime := b, u_scale := sc\<rparr>"
    have "queues ?t S (as @ bs) = queues t S (as @ bs)" by (rule queues_cong) simp_all
    then have "queues ?t S (as @ bs)" using 1(6) r by simp
    moreover have "p \<notin> set (as @ bs)" "p < NPROC" using queues_linked(4) [OF q(1)] queues_member(2) [OF q(1), of p] 1(2) by auto
    moreover have "uniq_pids ?t" by (rule uniq_mono [OF q(6)]) (use 1(9,12) r in simp_all)
    moreover have "calm ?t" using q(2) 1(3,10,11,13,14,16) by (auto simp: calm_def parted_def r)
    ultimately have "proc_inv (?t, Some p)" by (intro proc_invI [of ?t S "as @ bs"]) (use q(3,4) 1(2,9,15) r in auto)
    then show ?thesis using r by simp
  next
    case 2
    then have "r = None" "aside s t" using w by (auto simp: aside_def)
    then show ?thesis using inv aside_inv by auto
  qed
qed

lemma setrq_inv:
  assumes inv: "proc_inv (s, Some p)"
  shows "\<exists>t. setrq p s = Inr ((), t) \<and> proc_inv (t, None)"
proof -
  obtain S R where q: "queues s S R" "calm s" "printed s = []" "\<forall>x<NPROC. pst s x = SRUN \<longleftrightarrow> x \<in> set R \<or> Some p = Some x"
    "\<forall>x. Some p = Some x \<longrightarrow> x < NPROC \<and> x \<notin> set R \<and> u_procp s = x" "uniq_pids s"
    by (rule proc_invE [OF inv])
  let ?t = "(upd_proc p (p_link_update (\<lambda>_. runq s)) s)\<lparr>runq := Some p\<rparr>"
  have e: "setrq p s = Inr ((), ?t)" "queues ?t S (p # R)" using enqueue_ready [OF q(1), of p] q(4,5) by auto
  moreover have "uniq_pids ?t" by (rule uniq_mono [OF q(6)]) (auto split: if_splits)
  moreover have "calm ?t" using q(2) by (auto simp: calm_def parted_def)
  ultimately have "proc_inv (?t, None)" by (intro proc_invI [of ?t S "p # R"]) (use q(3-5) in auto)
  then show ?thesis using e(1) by blast
qed

text \<open>A stopped process continues: like the end of a wakeup.\<close>

lemma continue_inv:
  assumes inv: "proc_inv (s, c)" and p: "p < NPROC" "pst s p = SSTOP"
  obtains t where "setrun p s = Inr ((), t)" "proc_inv (t, c)"
proof -
  obtain S R where q: "queues s S R" "calm s" "printed s = []" "\<forall>x<NPROC. pst s x = SRUN \<longleftrightarrow> x \<in> set R \<or> c = Some x"
    "\<forall>x. c = Some x \<longrightarrow> x < NPROC \<and> x \<notin> set R \<and> u_procp s = x" "uniq_pids s"
    by (rule proc_invE [OF inv])
  have n: "p \<notin> set R" "\<And>h. p \<notin> set (S h)" "pwc s p = 0" "c \<noteq> Some p"
    using queues_member(2) [OF q(1), of p] not_queued [OF q(1)] awake_wchan [OF q(1) p(1)] q(4) p by auto
  have len: "length R \<le> NPROC" using queue_length [OF queues_linked(4) [OF q(1)]] queues_member(2) [OF q(1)] by blast
  let ?u = "upd_proc p (p_stat_update (\<lambda>_. SRUN)) s"
  have qu: "queues ?u S R" by (rule queues_outside [OF q(1) n(1,2)]) (use n in simp_all)
  define t where "t = made_ready p s"
  have ft: "pst t x = (if x = p then SRUN else pst s x)" "pwc t x = pwc s x" "p_flag (ptab t x) = p_flag (ptab s x)"
    "p_pid (ptab t x) = p_pid (ptab s x)" "a_runout t = a_runout s" "a_runin t = a_runin s" "printed t = printed s" "u_procp t = u_procp s" "runout t = runout s" for x
    by (simp_all add: t_def made_ready_def Let_def)
  have "queues t S (p # R) = queues ((upd_proc p (p_link_update (\<lambda>_. runq ?u)) ?u)\<lparr>runq := Some p\<rparr>) S (p # R)"
    by (rule queues_cong) (simp_all add: t_def made_ready_fields)
  then have qt: "queues t S (p # R)" using enqueue_ready(2) [OF qu p(1) _ n(1)] by simp
  have "uniq_pids t" by (rule uniq_mono [OF q(6)]) (use p(2) in \<open>auto simp: ft split: if_splits\<close>)
  moreover have "calm t" using q(2) by (simp add: calm_def parted_def ft)
  ultimately have it: "proc_inv (t, c)" by (intro proc_invI [OF qt]) (use q(3-5) n(4) in \<open>auto simp: ft\<close>)
  have r: "setrun p s = (if runout s \<noteq> 0 \<and> SLOAD \<notin> p_flag (ptab s p)
      then wakeup (a_runout (t\<lparr>runout := 0\<rparr>)) (t\<lparr>runout := 0\<rparr>) else Inr ((), t))"
    using setrun_ready [OF queues_linked(3) [OF q(1)] len n(1), of wfuel] p(2) n(3)
    by (simp add: setrun_def wakeup_def t_def made_ready_fields)
  have "proc_inv (t\<lparr>runout := 0\<rparr>, c)" using it by (simp add: proc_inv_def proc_sound_def parted_def uniq_pids_def)
  moreover have "a_runout (t\<lparr>runout := 0\<rparr>) \<noteq> 0" using q(2) by (simp add: ft calm_def)
  ultimately obtain v where "wakeup (a_runout (t\<lparr>runout := 0\<rparr>)) (t\<lparr>runout := 0\<rparr>) = Inr ((), v)" "proc_inv (v, c)"
    using woken_inv by metis
  then show thesis using r it that by (cases "runout s \<noteq> 0 \<and> SLOAD \<notin> p_flag (ptab s p)") auto
qed

lemma running_facts: "proc_inv (s, Some p) \<Longrightarrow> p < NPROC \<and> pst s p = SRUN"
  by (auto elim!: proc_invE)

lemma proc_step_inv:
  assumes "proc_step x y" "proc_inv x" "parted (fst y)"
  shows "proc_inv y"
  using assms(1,2)
proof cases
  case (st_sleep chan pri s t p)
  have "chan \<noteq> 0" using st_sleep(3) by (auto simp: sleep_def Let_def)
  then show ?thesis using sleep_ok [of s p chan pri] st_sleep assms(2) by auto
next
  case (st_disturbed chan pri s t p)
  have "chan \<noteq> 0" using st_disturbed(3) by (auto simp: sleep_def Let_def)
  then show ?thesis using sleep_ok [of s p chan pri] st_disturbed assms(2) by auto
next
  case (st_qswtch p s t)
  then show ?thesis using setrq_inv [of s p] assms(2) by auto
next
  case (st_swtch s p t i e g r a b sc)
  then show ?thesis using swtch_inv [of s "Some p" t] assms(2) by auto
next
  case (st_idle s t)
  then show ?thesis using swtch_inv [of s None t] assms(2) by auto
next
  case (st_wakeup chan s t c)
  obtain v where "wakeup chan s = Inr ((), v)" "proc_inv (v, c)"
    by (rule woken_inv [of s c chan]) (use st_wakeup assms(2) in auto)
  then show ?thesis using st_wakeup by simp
next
  case (st_psignal q sig s t c)
  obtain v where "psignal q sig s = Inr ((), v)" "proc_inv (v, c)"
    by (rule psignal_ok [of s c q sig]) (use st_psignal assms(2) in auto)
  then show ?thesis using st_psignal by simp
next
  case (st_signal pgrp sig s t c)
  then show ?thesis
    using signal_loop_ok [of s c "[0..<NPROC]" pgrp sig] assms(2) by (auto simp: signal_def split: if_splits)
next
  case (st_kill pid sig s t p)
  then show ?thesis using kill_ok [of s "Some p" pid sig] assms(2) by auto
next
  case (st_ssig s p a fn)
  have "aside s (ssig a fn s)" by (simp add: ssig_def aside_def)
  then show ?thesis using st_ssig aside_inv assms(2) by blast
next
  case (st_setpri s c q)
  have "aside s (snd (setpri q s))" by (simp add: setpri_def aside_def Let_def)
  then show ?thesis using st_setpri aside_inv assms(2) by blast
next
  case (st_newproc s t p)
  then show ?thesis using newproc_ok(1) [of s p t] assms(2) by simp
next
  case (st_exit s p)
  then show ?thesis using outside_inv [of s "Some p" p SZOMB] running_facts [of s p] assms(2) by simp
next
  case (st_wait q s c)
  then have "c \<noteq> Some q" using running_facts [of s q] assms(2) by auto
  then show ?thesis using outside_inv [of s c q SFREE] st_wait assms(2) by simp
next
  case (st_stop s p)
  then show ?thesis using outside_inv [of s "Some p" p SSTOP] running_facts [of s p] assms(2) by simp
next
  case (st_continue q s t c)
  obtain v where "setrun q s = Inr ((), v)" "proc_inv (v, c)"
    by (rule continue_inv [of s c q]) (use st_continue assms(2) in auto)
  then show ?thesis using st_continue by simp
next
  case (st_swap s c ro ri q f)
  let ?t = "(upd_proc q (p_flag_update (\<lambda>_. f)) s)\<lparr>runin := ri, runout := ro\<rparr>"
  obtain S R where "queues s S R" "calm s" "printed s = []" "\<forall>x<NPROC. pst s x = SRUN \<longleftrightarrow> x \<in> set R \<or> c = Some x"
    "\<forall>x. c = Some x \<longrightarrow> x < NPROC \<and> x \<notin> set R \<and> u_procp s = x" "uniq_pids s"
    by (rule proc_invE) (use st_swap assms(2) in auto)
  note z = this
  have "queues ?t S R = queues s S R" by (rule queues_cong) simp_all
  moreover have "uniq_pids ?t" by (rule uniq_mono [OF z(6)]) (auto split: if_splits)
  moreover have "calm ?t" using z(2) assms(3) st_swap(2) by (simp add: calm_def)
  ultimately have "proc_inv (?t, c)" by (intro proc_invI [of ?t S R]) (use z in auto)
  then show ?thesis using st_swap by simp
qed

interpretation psys: safe_system proc_start "\<lambda>x y. proc_step x y \<and> parted (fst y)" proc_inv
  by unfold_locales (auto intro: proc_start_inv proc_step_inv)

text \<open>
  C15: However the processes, the interrupts and the swapper call these routines, every process
  that is ready is on the run queue exactly once or is the one that runs, every process that
  sleeps is on the queue of its channel and on no other, process numbers are unique, and \<open>setrq\<close> never
  finds a process already on the run queue: its diagnostic \<open>proc on q\<close> is impossible.  This holds as long as
  no state arises in which the swapper waits on \<open>runout\<close> and a process that is swapped out sleeps on the hash queue
  of \<open>runout\<close> (\<^const>\<open>parted\<close>), which the kernel does not exclude.
\<close>

theorem process_queues_sound:
  assumes "reach proc_start (\<lambda>x y. proc_step x y \<and> parted (fst y)) (s, cur)"
  shows "printed s = [] \<and> uniq_pids s \<and> (\<exists>S R. queues s S R \<and>
    (\<forall>p<NPROC. pst s p = SRUN \<longleftrightarrow> p \<in> set R \<or> cur = Some p) \<and> (\<forall>p. cur = Some p \<longrightarrow> p < NPROC \<and> p \<notin> set R \<and> u_procp s = p))"
  using psys.reach_inv [OF assms] by (auto elim!: proc_invE)

text \<open>Process 0 starts process 1 and goes to sleep on the hash queue of \<open>runout\<close>; process 1 runs.\<close>

definition demo_started :: sched where
  "demo_started = demo_sched\<lparr>u_procp := 0, ptab := (\<lambda>_. demo_proc)(0 := demo_proc\<lparr>p_stat := SRUN, p_flag := {SLOAD, SSYS}\<rparr>)\<rparr>"

lemma demo_fork:
  "newproc demo_started = Inr ((), demo_started\<lparr>mpid := 6, runq := Some 1, ptab := (ptab demo_started)
     (1 := demo_proc\<lparr>p_stat := SRUN, p_flag := {SSWAP, SLOAD}, p_pid := 6\<rparr>)\<rparr>)"
proof -
  have p: "newproc_pid (4 * NPROC + 10) 5 demo_started = Some 6"
    by (rule newproc_pid_mono [of "Suc 0"]) (auto simp: demo_started_def demo_defs)
  have "[0..<NPROC] = 0 # 1 # [2..<NPROC]" by (simp add: NPROC_def upt_conv_Cons)
  then have f: "find (\<lambda>q. pst demo_started q = SFREE) [0..<NPROC] = Some 1" by (simp add: demo_started_def demo_proc_def)
  show ?thesis using p f
    by (simp add: newproc_def newproc_ready_def newproc_entry_def setrq_def Let_def demo_started_def demo_sched_def demo_proc_def)
qed

theorem process_queues_sound_witness:
  "\<exists>t. reach proc_start (\<lambda>x y. proc_step x y \<and> parted (fst y)) (t, Some 1) \<and> pst t 0 = SSLEEP \<and> pwc t 0 = a_runout t \<and>
     pst t 1 = SRUN \<and> p_pid (ptab t 1) = 6 \<and> (\<exists>S R. queues t S R \<and> 0 \<in> set (S (HASH (a_runout t))) \<and> 1 \<notin> set R)"
proof -
  let ?step = "\<lambda>x y. proc_step x y \<and> parted (fst y)"
  let ?u = "demo_started\<lparr>mpid := 6, runq := Some 1, ptab := (ptab demo_started)
     (1 := demo_proc\<lparr>p_stat := SRUN, p_flag := {SSWAP, SLOAD}, p_pid := 6\<rparr>)\<rparr>"
  note d = demo_started_def demo_defs
  have "proc_start (demo_started, Some 0)" by (simp add: proc_start_def d)
  then have r0: "reach proc_start ?step (demo_started, Some 0)" by (rule reach_start)
  have "proc_step (demo_started, Some 0) (?u, Some 0)" by (rule st_newproc) (rule demo_fork)
  then have r1: "reach proc_start ?step (?u, Some 0)" by (intro reach_step [OF r0]) (simp add: parted_def d)
  have "\<exists>v. sleep 100 0 ?u = Inl (Sleeping 100, v) \<and> runq v = Some 1 \<and> runout v = 0 \<and>
      ptab v = (ptab ?u)(0 := (ptab ?u 0)\<lparr>p_stat := SSLEEP, p_wchan := 100\<rparr>) \<and> a_runout v = 100"
    by (simp add: sleep_def PZERO_def Let_def d)
  then obtain v where v: "sleep 100 0 ?u = Inl (Sleeping 100, v)" "runq v = Some 1" "runout v = 0"
    "ptab v = (ptab ?u)(0 := (ptab ?u 0)\<lparr>p_stat := SSLEEP, p_wchan := 100\<rparr>)" "a_runout v = 100" by blast
  have "proc_step (?u, Some 0) (v, None)" by (rule st_sleep [OF v(1)]) (simp add: d)
  then have r2: "reach proc_start ?step (v, None)" by (intro reach_step [OF r1]) (simp add: parted_def v(3))
  obtain m where n: "NPROC = Suc m" by (cases NPROC) (simp_all add: NPROC_def)
  have "\<exists>w. swtch_pick v = Inr (Some 1, w) \<and> runout w = 0 \<and> pst w 0 = SSLEEP \<and> pwc w 0 = 100 \<and> pst w 1 = SRUN \<and>
      p_pid (ptab w 1) = 6 \<and> a_runout w = 100"
    using v(2-5) by (simp add: swtch_pick_def n ready_def Let_def demo_started_def demo_proc_def)
  then obtain w where w: "swtch_pick v = Inr (Some 1, w)" "runout w = 0" "pst w 0 = SSLEEP" "pwc w 0 = 100" "pst w 1 = SRUN"
    "p_pid (ptab w 1) = 6" "a_runout w = 100" by blast
  let ?t = "w\<lparr>u_procp := 1, u_uid := 7, u_error := None, u_signal := (\<lambda>_. 0), u_r1 := 0, u_utime := 0, u_stime := 0, u_scale := 0\<rparr>"
  have "proc_step (v, None) (?t, Some 1)" by (rule st_swtch [OF w(1)])
  then have r3: "reach proc_start ?step (?t, Some 1)" by (intro reach_step [OF r2]) (simp add: parted_def w(2))
  obtain S R where q: "queues ?t S R" "1 \<notin> set R" using process_queues_sound [OF r3] by blast
  then have "0 \<in> set (S (HASH 100))" using queues_complete(1) [OF q(1), of 0] w(4) by (simp add: NPROC_def)
  then show ?thesis using r3 q w by (intro exI [of _ ?t]) auto
qed

end
