(* ===== verification/Clock.thy ===== *)
theory Clock
  imports Dispatch
begin

unbundle bit_operations_syntax

section \<open>The clock and the callouts (sys/clock.c)\<close>

text \<open>
  The table of callouts holds routines that the clock is to call.  The time of an entry counts
  from the entry before it, so one subtraction per tick serves all of them.  The routines are
  a parameter, \<open>run\<close>; \<open>called\<close> is the trace of the calls.  The table is a function of the index, and
  what lies behind entry \<open>NCALL - 1\<close> is the memory behind the table.  The clock register and the
  display are not part of the state.

  The refinement theorem: the table is a list of deadlines, \<open>timeout\<close> inserts one without changing
  the others, and every routine is called at the first tick at low priority that is not before its
  deadline, the routines that set themselves again included.
\<close>

definition NCALL :: nat where "NCALL = 20"
definition HZ :: int where "HZ = 60"
definition SIGCLK :: int where "SIGCLK = 14"

subsection \<open>Setting a callout\<close>

text \<open>The first entry that is later than the new one, and the time that is left.\<close>

fun timeout_find :: "nat \<Rightarrow> nat \<Rightarrow> int \<Rightarrow> (nat \<Rightarrow> callo) \<Rightarrow> (nat \<times> int) option" where
  "timeout_find 0 p1 t c = None"
| "timeout_find (Suc k) p1 t c =
     (if c_func (c p1) \<noteq> 0 \<and> c_time (c p1) \<le> t then timeout_find k (p1 + 1) (t - c_time (c p1)) c
      else Some (p1, t))"

fun callo_end :: "nat \<Rightarrow> nat \<Rightarrow> (nat \<Rightarrow> callo) \<Rightarrow> nat option" where
  "callo_end 0 p2 c = None"
| "callo_end (Suc k) p2 c = (if c_func (c p2) \<noteq> 0 then callo_end k (p2 + 1) c else Some p2)"

text \<open>Moving the \<open>k\<close> entries from \<open>p1\<close> on up by one, the last one first.\<close>

fun callo_shift :: "nat \<Rightarrow> nat \<Rightarrow> (nat \<Rightarrow> callo) \<Rightarrow> nat \<Rightarrow> callo" where
  "callo_shift 0 p1 c = c"
| "callo_shift (Suc k) p1 c = callo_shift k p1 (c(p1 + k + 1 := c (p1 + k)))"

definition timeout :: "nat \<Rightarrow> caddr \<Rightarrow> int \<Rightarrow> sched \<Rightarrow> unit pres" where
  "timeout fn arg tim s =
     (case timeout_find (NCALL + 1) 0 tim (callout s) of
        None \<Rightarrow> Inl (Unfinished, s)
      | Some (p1, t) \<Rightarrow>
          if NCALL - 1 \<le> p1 then Inl (Panicked ''Timeout table overflow'', s)
          else
            let c = (callout s)(p1 := (callout s p1)\<lparr>c_time := c_time (callout s p1) - t\<rparr>)
            in case callo_end (NCALL + 1) p1 c of
                 None \<Rightarrow> Inl (Unfinished, s)
               | Some p2 \<Rightarrow>
                   let c = callo_shift (p2 + 1 - p1) p1 c
                   in Inr ((), s\<lparr>callout := c(p1 := \<lparr>c_time = t, c_arg = arg, c_func = fn\<rparr>)\<rparr>))"

subsection \<open>The clock interrupt\<close>

text \<open>The entry that is counted down: the first one that is not due yet, or the end of the table.\<close>

fun callo_first :: "nat \<Rightarrow> nat \<Rightarrow> (nat \<Rightarrow> callo) \<Rightarrow> nat option" where
  "callo_first 0 p2 c = None"
| "callo_first (Suc k) p2 c = (if c_time (c p2) \<le> 0 \<and> c_func (c p2) \<noteq> 0 then callo_first k (p2 + 1) c else Some p2)"

fun callo_run :: "nat \<Rightarrow> (nat \<Rightarrow> caddr \<Rightarrow> sched \<Rightarrow> unit pres) \<Rightarrow> nat \<Rightarrow> sched \<Rightarrow> nat pres" where
  "callo_run 0 run p1 s = Inl (Unfinished, s)"
| "callo_run (Suc k) run p1 s =
     (let e = callout s p1
      in if c_func e \<noteq> 0 \<and> c_time e \<le> 0
         then rbind (run (c_func e) (c_arg e) (s\<lparr>called := called s @ [(c_func e, c_arg e)]\<rparr>)) (\<lambda>(_, s). callo_run k run (p1 + 1) s)
         else Inr (p1, s))"

text \<open>Moving the rest of the table to its front; the entry after it keeps its time and argument.\<close>

fun callo_move :: "nat \<Rightarrow> nat \<Rightarrow> nat \<Rightarrow> (nat \<Rightarrow> callo) \<Rightarrow> (nat \<Rightarrow> callo) option" where
  "callo_move 0 p1 p2 c = None"
| "callo_move (Suc k) p1 p2 c =
     (let c = c(p2 := (c p2)\<lparr>c_func := c_func (c p1)\<rparr>)
      in if c_func (c p2) \<noteq> 0
         then callo_move k (p1 + 1) (p2 + 1) (c(p2 := (c p2)\<lparr>c_time := c_time (c p1), c_arg := c_arg (c p1)\<rparr>))
         else Some c)"

definition clock_callouts :: "(nat \<Rightarrow> caddr \<Rightarrow> sched \<Rightarrow> unit pres) \<Rightarrow> bool \<Rightarrow> sched \<Rightarrow> unit pres" where
  "clock_callouts run basepri s =
     (if c_func (callout s 0) = 0 then Inr ((), s)
      else
        case callo_first (NCALL + 1) 0 (callout s) of
          None \<Rightarrow> Inl (Unfinished, s)
        | Some p2 \<Rightarrow>
            let s = s\<lparr>callout := (callout s)(p2 := (callout s p2)\<lparr>c_time := c_time (callout s p2) - 1\<rparr>)\<rparr>
            in if basepri then Inr ((), s)
               else if c_time (callout s 0) \<le> 0 then
                 rbind (callo_run (NCALL + 1) run 0 s) (\<lambda>(p1, s).
                   case callo_move (NCALL + 1) p1 0 (callout s) of
                     None \<Rightarrow> Inl (Unfinished, s)
                   | Some c \<Rightarrow> Inr ((), s\<lparr>callout := c\<rparr>))
               else Inr ((), s))"

text \<open>What happens to a process once a second.\<close>

definition clock_proc :: "nat \<Rightarrow> sched \<Rightarrow> unit pres" where
  "clock_proc pp s =
     (if pst s pp \<in> {SFREE, SZOMB, SSTOP} then Inr ((), s)
      else
        let s = (if p_time (ptab s pp) \<noteq> 127 then upd_proc pp (p_time_update (\<lambda>n. n + 1)) s else s)
        in rbind
          (if p_clktim (ptab s pp) \<noteq> 0 then
             let s = upd_proc pp (p_clktim_update (\<lambda>n. n - 1)) s
             in if p_clktim (ptab s pp) = 0 then psignal pp SIGCLK s else Inr ((), s)
           else Inr ((), s))
          (\<lambda>(_, s).
            let a = uint (p_cpu (ptab s pp)) * 8 div 10 + p_nice (ptab s pp) - NZERO;
                a = (if a < 0 then 0 else a);
                a = (if 255 < a then 255 else a);
                s = upd_proc pp (p_cpu_update (\<lambda>_. word_of_int a)) s
            in if PUSER \<le> p_pri (ptab s pp) then Inr ((), snd (setpri pp s)) else Inr ((), s)))"

fun clock_procs :: "nat list \<Rightarrow> sched \<Rightarrow> unit pres" where
  "clock_procs [] s = Inr ((), s)"
| "clock_procs (p # ps) s = rbind (clock_proc p s) (\<lambda>(_, s). clock_procs ps s)"

text \<open>
  The interrupt.  \<open>usermode\<close> and \<open>basepri\<close> are what \<open>USERMODE\<close> and \<open>BASEPRI\<close> find in the interrupted
  processor status, \<open>waiting\<close> says that it was at \<open>waitloc\<close>; \<open>addupc\<close> enters the profile.
\<close>

definition clock_times :: "(sched \<Rightarrow> sched) \<Rightarrow> bool \<Rightarrow> bool \<Rightarrow> sched \<Rightarrow> sched" where
  "clock_times addupc usermode waiting s =
     (let a = unat (dk_busy s AND 7);
          (a, s) =
            (if usermode then
               let s = s\<lparr>u_utime := u_utime s + 1\<rparr>;
                   s = (if u_scale s \<noteq> 0 then addupc s else s)
               in (if NZERO < p_nice (ptab s (u_procp s)) then a + 8 else a, s)
             else (if waiting then a + 16 + 8 else a + 16, s\<lparr>u_stime := u_stime s + 1\<rparr>));
          s = s\<lparr>dk_time := (dk_time s)(a := dk_time s a + 1)\<rparr>;
          pp = u_procp s
      in upd_proc pp (p_cpu_update (\<lambda>n. if n + 1 = 0 then n else n + 1)) s)"

definition clock :: "(nat \<Rightarrow> caddr \<Rightarrow> sched \<Rightarrow> unit pres) \<Rightarrow> (sched \<Rightarrow> sched) \<Rightarrow> bool \<Rightarrow> bool \<Rightarrow> bool \<Rightarrow> sched \<Rightarrow> unit pres" where
  "clock run addupc usermode basepri waiting s =
     rbind (clock_callouts run basepri s) (\<lambda>(_, s).
       let s = clock_times addupc usermode waiting s;
           s = s\<lparr>lbolt := lbolt s + 1\<rparr>
       in if lbolt s < HZ then Inr ((), s)
          else if basepri then Inr ((), s)
          else
            rbind (wakeup (a_lbolt s) (s\<lparr>lbolt := lbolt s - HZ, time := time s + 1, runrun := runrun s + 1\<rparr>)) (\<lambda>(_, s).
              rbind (clock_procs [0..<NPROC] s) (\<lambda>(_, s).
                if runin s \<noteq> 0 then wakeup (a_runin s) (s\<lparr>runin := 0\<rparr>) else Inr ((), s))))"

subsection \<open>The table as a list\<close>

text \<open>The entries \<open>L\<close>, with an entry without routine behind them.\<close>

definition callo_ok :: "(nat \<Rightarrow> callo) \<Rightarrow> callo list \<Rightarrow> bool" where
  "callo_ok c L \<longleftrightarrow> (\<forall>i<length L. c i = L ! i) \<and> c_func (c (length L)) = 0 \<and>
     (\<forall>e\<in>set L. c_func e \<noteq> 0 \<and> 0 \<le> c_time e) \<and> length L < NCALL"

text \<open>When the entries are due, from the time \<open>b\<close> on.\<close>

fun deadlines :: "int \<Rightarrow> callo list \<Rightarrow> (int \<times> nat \<times> caddr) list" where
  "deadlines b [] = []"
| "deadlines b (e # es) = (b + c_time e, c_func e, c_arg e) # deadlines (b + c_time e) es"

definition insert_due :: "int \<times> nat \<times> caddr \<Rightarrow> (int \<times> nat \<times> caddr) list \<Rightarrow> (int \<times> nat \<times> caddr) list" where
  "insert_due x D = takeWhile (\<lambda>d. fst d \<le> fst x) D @ x # dropWhile (\<lambda>d. fst d \<le> fst x) D"

text \<open>\<open>timeout\<close> on the list of entries.\<close>

fun callo_dec :: "int \<Rightarrow> callo list \<Rightarrow> callo list" where
  "callo_dec t [] = []"
| "callo_dec t (e # es) = e\<lparr>c_time := c_time e - t\<rparr> # es"

fun callo_ins :: "int \<Rightarrow> nat \<Rightarrow> caddr \<Rightarrow> callo list \<Rightarrow> callo list" where
  "callo_ins t f a [] = [\<lparr>c_time = t, c_arg = a, c_func = f\<rparr>]"
| "callo_ins t f a (e # es) =
     (if c_time e \<le> t then e # callo_ins (t - c_time e) f a es else \<lparr>c_time = t, c_arg = a, c_func = f\<rparr> # callo_dec t (e # es))"

lemma callo_dec_simps [simp]: "length (callo_dec t es) = length es" "c_func (callo_dec t es ! i) = c_func (es ! i)"
  by (cases es; cases i; simp)+

lemma callo_ins_deadlines: "deadlines b (callo_ins t f a L) = insert_due (b + t, f, a) (deadlines b L)"
proof (induction L arbitrary: b t)
  case (Cons e es)
  show ?case using Cons [of "b + c_time e" "t - c_time e"] by (simp add: insert_due_def)
qed (simp add: insert_due_def)

lemma deadlines_ge: "\<forall>e\<in>set L. 0 \<le> c_time e \<Longrightarrow> d \<in> set (deadlines b L) \<Longrightarrow> b \<le> fst d"
  by (induction L arbitrary: b) fastforce+

lemma callo_okD:
  assumes "callo_ok c (xs @ e # ys)"
  shows "c (length xs) = e" "c_func e \<noteq> 0" "0 \<le> c_time e"
  using assms by (auto simp: callo_ok_def nth_append dest!: spec [of _ "length xs"])

lemma timeout_find_split:
  assumes "callo_ok c (xs @ ys)" "length ys < k" "0 \<le> t"
  shows "\<exists>pre suf t'. ys = pre @ suf \<and> timeout_find k (length xs) t c = Some (length xs + length pre, t') \<and> 0 \<le> t' \<and>
    (\<forall>e es. suf = e # es \<longrightarrow> t' < c_time e) \<and>
    callo_ins t f a ys = pre @ \<lparr>c_time = t', c_arg = a, c_func = f\<rparr> # callo_dec t' suf"
  using assms
proof (induction ys arbitrary: xs k t)
  case Nil
  then obtain m where "k = Suc m" by (cases k) auto
  moreover have "c_func (c (length xs)) = 0" using Nil.prems(1) by (simp add: callo_ok_def)
  ultimately show ?case using Nil.prems(3) by auto
next
  case (Cons e ys)
  then obtain m where m: "k = Suc m" "length ys < m" by (cases k) auto
  note e = callo_okD [OF Cons.prems(1)]
  show ?case
  proof (cases "c_time e \<le> t")
    case True
    have "callo_ok c ((xs @ [e]) @ ys)" using Cons.prems(1) by simp
    from Cons.IH [OF this m(2), of "t - c_time e"] True obtain pre suf t' where
      "ys = pre @ suf" "timeout_find m (length (xs @ [e])) (t - c_time e) c = Some (length (xs @ [e]) + length pre, t')" "0 \<le> t'"
      "\<forall>e es. suf = e # es \<longrightarrow> t' < c_time e"
      "callo_ins (t - c_time e) f a ys = pre @ \<lparr>c_time = t', c_arg = a, c_func = f\<rparr> # callo_dec t' suf"
      by auto
    then show ?thesis using True e m(1) by (intro exI [of _ "e # pre"] exI [of _ suf] exI [of _ t']) auto
  next
    case False
    then show ?thesis using e m(1) Cons.prems(3) by (intro exI [of _ "[]"] exI [of _ "e # ys"] exI [of _ t]) auto
  qed
qed

lemma callo_end_found:
  "\<lbrakk>\<forall>i. p \<le> i \<and> i < n \<longrightarrow> c_func (c i) \<noteq> 0; c_func (c n) = 0; p \<le> n; n - p < k\<rbrakk> \<Longrightarrow> callo_end k p c = Some n"
proof (induction k arbitrary: p)
  case (Suc k)
  then show ?case by (cases "p = n") auto
qed simp

lemma callo_shift_nth: "callo_shift k p c i = (if p < i \<and> i \<le> p + k then c (i - 1) else c i)"
  by (induction k arbitrary: c) auto

text \<open>The table after \<open>timeout\<close>, with \<open>L\<close> cut where the new entry goes.\<close>

lemma timeout_table:
  assumes ok: "callo_ok c (pre @ suf)" and t: "0 \<le> t" "\<forall>e es. suf = e # es \<longrightarrow> t < c_time e"
    and n: "length (pre @ suf) + 1 < NCALL" and f: "fn \<noteq> 0"
  defines "p \<equiv> length pre" and "m \<equiv> length (pre @ suf)"
  defines "c1 \<equiv> c(p := (c p)\<lparr>c_time := c_time (c p) - t\<rparr>)"
  shows "callo_end (NCALL + 1) p c1 = Some m"
    "callo_ok ((callo_shift (m + 1 - p) p c1)(p := \<lparr>c_time = t, c_arg = a, c_func = fn\<rparr>))
       (pre @ \<lparr>c_time = t, c_arg = a, c_func = fn\<rparr> # callo_dec t suf)"
proof -
  have c: "\<And>i. i < m \<Longrightarrow> c i = (pre @ suf) ! i" "c_func (c m) = 0" "\<forall>e\<in>set (pre @ suf). c_func e \<noteq> 0 \<and> 0 \<le> c_time e"
    using ok by (auto simp: callo_ok_def m_def)
  have fn: "c_func (c1 i) = c_func (c i)" for i by (simp add: c1_def)
  have pm: "p \<le> m" by (simp add: p_def m_def)
  have "c_func (c i) \<noteq> 0" if "i < m" for i using c(1) [OF that] c(3) that nth_mem [of i "pre @ suf"] by (metis m_def)
  then show "callo_end (NCALL + 1) p c1 = Some m"
    using c(2) pm n by (intro callo_end_found) (auto simp: fn m_def)
  define c2 where "c2 = (callo_shift (m + 1 - p) p c1)(p := \<lparr>c_time = t, c_arg = a, c_func = fn\<rparr>)"
  let ?L = "pre @ \<lparr>c_time = t, c_arg = a, c_func = fn\<rparr> # callo_dec t suf"
  have nth: "c2 i = (if i < p then c i else if i = p then \<lparr>c_time = t, c_arg = a, c_func = fn\<rparr> else if i \<le> m + 1 then c1 (i - 1) else c1 i)" for i
    using pm by (auto simp: c2_def callo_shift_nth c1_def)
  have suf: "c1 (p + j) = callo_dec t suf ! j" if "j < length suf" for j
    using c(1) [of "p + j"] that by (cases suf; cases j) (auto simp: c1_def p_def m_def nth_append)
  have "c2 i = ?L ! i" if "i < length ?L" for i
  proof (cases "i \<le> p")
    case True
    then show ?thesis using c(1) [of i] pm by (cases "i = p") (auto simp: nth nth_append p_def m_def)
  next
    case False
    then have "c2 i = c1 (p + (i - p - 1))" "i - p - 1 < length suf" using that by (auto simp: nth m_def p_def)
    then show ?thesis using suf [of "i - p - 1"] False by (auto simp: nth_append p_def nth_Cons')
  qed
  moreover have "c_func (c2 (length ?L)) = 0" using c(2) by (simp add: nth fn m_def p_def)
  moreover have "\<forall>e\<in>set (callo_dec t suf). c_func e \<noteq> 0 \<and> 0 \<le> c_time e" using c(3) t(2) by (cases suf) auto
  ultimately show "callo_ok ((callo_shift (m + 1 - p) p c1)(p := \<lparr>c_time = t, c_arg = a, c_func = fn\<rparr>)) ?L" using c(3) t(1) f n unfolding callo_ok_def c2_def [symmetric] by auto
qed

lemma timeout_ok:
  assumes ok: "callo_ok (callout s) L" and n: "length L + 1 < NCALL" and f: "fn \<noteq> 0" and t: "0 \<le> t"
  shows "\<exists>c. timeout fn a t s = Inr ((), s\<lparr>callout := c\<rparr>) \<and> callo_ok c (callo_ins t fn a L)"
proof -
  obtain pre suf t' where z: "L = pre @ suf" "timeout_find (NCALL + 1) 0 t (callout s) = Some (length pre, t')" "0 \<le> t'"
    "\<forall>e es. suf = e # es \<longrightarrow> t' < c_time e" "callo_ins t fn a L = pre @ \<lparr>c_time = t', c_arg = a, c_func = fn\<rparr> # callo_dec t' suf"
    using timeout_find_split [of "callout s" "[]" L "NCALL + 1" t fn a] ok n t by auto
  define p m where "p = length pre" and "m = length (pre @ suf)"
  define c1 where "c1 = (callout s)(p := (callout s p)\<lparr>c_time := c_time (callout s p) - t'\<rparr>)"
  note tab = timeout_table [OF ok [unfolded z(1)] z(3,4) n [unfolded z(1)] f, folded p_def m_def, folded c1_def]
  have "\<not> NCALL - 1 \<le> p" using n z(1) by (auto simp: p_def)
  then have "timeout fn a t s = Inr ((), s\<lparr>callout := (callo_shift (m + 1 - p) p c1)(p := \<lparr>c_time = t', c_arg = a, c_func = fn\<rparr>)\<rparr>)"
    using z(2) tab(1) unfolding timeout_def p_def [symmetric] Let_def
    by (simp add: c1_def [symmetric] del: timeout_find.simps callo_end.simps callo_shift.simps add_2_eq_Suc' One_nat_def)
  then show ?thesis using tab(2) [of a] unfolding z(5) by blast
qed

subsection \<open>A tick\<close>

text \<open>Counting down, on the list of entries.\<close>

fun callo_tick :: "callo list \<Rightarrow> callo list" where
  "callo_tick [] = []"
| "callo_tick (e # es) = (if c_time e \<le> 0 then e # callo_tick es else e\<lparr>c_time := c_time e - 1\<rparr> # es)"

lemma deadlines_shift: "deadlines (b + k) L = map (\<lambda>(d, x). (d + k, x)) (deadlines b L)"
proof (induction L arbitrary: b)
  case (Cons e es)
  then show ?case using Cons [of "b + c_time e"] by (simp add: ac_simps)
qed simp

lemma callo_tick_deadlines:
  "\<forall>e\<in>set L. 0 \<le> c_time e \<Longrightarrow> deadlines b (callo_tick L) = map (\<lambda>(d, x). (if b < d then d - 1 else d, x)) (deadlines b L)"
proof (induction L arbitrary: b)
  case (Cons e es)
  show ?case
  proof (cases "c_time e \<le> 0")
    case True
    then show ?thesis using Cons by simp
  next
    case False
    have ge: "b < fst d" if "d \<in> set (deadlines (b + c_time e) es)" for d
      using deadlines_ge [OF _ that] Cons.prems False by auto
    have "deadlines (b + c_time e - 1) es = map (\<lambda>(d, x). (d - 1, x)) (deadlines (b + c_time e) es)"
      using deadlines_shift [of "b + c_time e" "- 1" es] by simp
    moreover have "map (\<lambda>(d, x). (d - 1, x)) (deadlines (b + c_time e) es) = map (\<lambda>(d, x). (if b < d then d - 1 else d, x)) (deadlines (b + c_time e) es)"
      using ge by (intro map_cong) auto
    ultimately show ?thesis using False by (simp add: algebra_simps)
  qed
qed simp

lemma callo_tick_nonneg: "\<forall>e\<in>set L. c_func e \<noteq> 0 \<and> 0 \<le> c_time e \<Longrightarrow> \<forall>e\<in>set (callo_tick L). c_func e \<noteq> 0 \<and> 0 \<le> c_time e"
  by (induction L) auto

lemma callo_tick_length [simp]: "length (callo_tick L) = length L"
  by (induction L) auto

lemma callo_tick_nth:
  "i < length L \<Longrightarrow> callo_tick L ! i = (if i = length (takeWhile (\<lambda>e. c_time e \<le> 0) L) then (L ! i)\<lparr>c_time := c_time (L ! i) - 1\<rparr> else L ! i)"
  by (induction L arbitrary: i) (auto simp: nth_Cons')

lemma callo_first_found:
  assumes "callo_ok c (xs @ ys)" "length ys < k"
  shows "callo_first k (length xs) c = Some (length xs + length (takeWhile (\<lambda>e. c_time e \<le> 0) ys))"
  using assms
proof (induction ys arbitrary: xs k)
  case Nil
  then show ?case by (cases k) (auto simp: callo_ok_def)
next
  case (Cons e ys)
  then obtain m where m: "k = Suc m" "length ys < m" by (cases k) auto
  note e = callo_okD [OF Cons.prems(1)]
  have "callo_ok c ((xs @ [e]) @ ys)" using Cons.prems(1) by simp
  from Cons.IH [OF this m(2)] show ?case using e m(1) by auto
qed

lemma callo_tick_ok:
  assumes "callo_ok c L" "p = length (takeWhile (\<lambda>e. c_time e \<le> 0) L)"
  shows "callo_ok (c(p := (c p)\<lparr>c_time := c_time (c p) - 1\<rparr>)) (callo_tick L)"
  using assms callo_tick_nonneg [of L] by (auto simp: callo_ok_def callo_tick_nth)

text \<open>
  What the routines of the callouts may do: they end, and they leave the trace and the table
  alone, except that a routine may set one callout for a later tick, with \<open>timeout\<close>, as the timers of the
  drivers do to keep running.  \<open>re h\<close> is what the last routine of the trace \<open>h\<close> sets: the ticks, the
  routine and its argument.
\<close>

definition run_arms :: "(nat \<Rightarrow> caddr \<Rightarrow> sched \<Rightarrow> unit pres) \<Rightarrow> ((nat \<times> caddr) list \<Rightarrow> (int \<times> nat \<times> caddr) option) \<Rightarrow> bool" where
  "run_arms run re \<longleftrightarrow>
     (\<forall>f a s h. called s = h @ [(f, a)] \<longrightarrow>
       (case re (called s) of
          None \<Rightarrow> \<exists>t. run f a s = Inr ((), t) \<and> callout t = callout s \<and> called t = called s
        | Some (tm, g, b) \<Rightarrow> 0 < tm \<and> g \<noteq> 0 \<and>
            (\<forall>c. timeout g b tm s = Inr ((), s\<lparr>callout := c\<rparr>) \<longrightarrow>
              (\<exists>t. run f a s = Inr ((), t) \<and> callout t = c \<and> called t = called s))))"

text \<open>
  Room for \<open>n\<close> callouts: while the due routines are called their entries are still in the table,
  together with the ones that they set.
\<close>

definition room :: "((nat \<times> caddr) list \<Rightarrow> (int \<times> nat \<times> caddr) option) \<Rightarrow> nat \<Rightarrow> bool" where
  "room re n \<longleftrightarrow> n < NCALL \<and> ((\<forall>h. re h = None) \<or> 2 * n < NCALL)"

text \<open>The due entries are called one by one; each may set another callout.\<close>

fun callo_calls ::
  "((nat \<times> caddr) list \<Rightarrow> (int \<times> nat \<times> caddr) option) \<Rightarrow> (nat \<times> caddr) list \<Rightarrow> callo list \<Rightarrow> callo list \<Rightarrow>
    (nat \<times> caddr) list \<times> callo list" where
  "callo_calls re h [] R = (h, R)"
| "callo_calls re h (e # W) R =
     (let h = h @ [(c_func e, c_arg e)]
      in callo_calls re h W (case re h of None \<Rightarrow> R | Some (tm, g, b) \<Rightarrow> callo_ins tm g b R))"

lemma callo_ins_length [simp]: "length (callo_ins t f a L) = Suc (length L)"
  by (induction L arbitrary: t) auto

lemma callo_ins_zero: "\<lbrakk>\<forall>e\<in>set Z. c_time e = 0; 0 \<le> t\<rbrakk> \<Longrightarrow> callo_ins t f a (Z @ R) = Z @ callo_ins t f a R"
  by (induction Z) auto

lemma callo_ins_hd: "\<lbrakk>\<forall>e es. R = e # es \<longrightarrow> 0 < c_time e; 0 < t; callo_ins t f a R = e # es\<rbrakk> \<Longrightarrow> 0 < c_time e"
  by (cases R) (auto split: if_splits)

lemma callo_calls_length: "length (snd (callo_calls re h W R)) \<le> length W + length R"
proof (induction W arbitrary: h R)
  case (Cons e W)
  let ?h = "h @ [(c_func e, c_arg e)]"
  let ?R = "case re ?h of None \<Rightarrow> R | Some (tm, g, b) \<Rightarrow> callo_ins tm g b R"
  have "length ?R \<le> Suc (length R)" by (auto split: option.split)
  then show ?case using Cons [of ?h ?R] by (simp add: Let_def)
qed simp

text \<open>One call.\<close>

lemma run_step:
  assumes arms: "run_arms run re" and ok: "callo_ok (callout s) (xs @ e # W @ R)"
    and z: "\<forall>e\<in>set (xs @ e # W). c_time e = 0" and n: "(\<forall>h. re h = None) \<or> length (xs @ e # W @ R) + 1 < NCALL"
  defines "h \<equiv> called s @ [(c_func e, c_arg e)]"
  defines "R' \<equiv> case re h of None \<Rightarrow> R | Some (tm, g, b) \<Rightarrow> callo_ins tm g b R"
  shows "\<exists>t. run (c_func e) (c_arg e) (s\<lparr>called := h\<rparr>) = Inr ((), t) \<and> called t = h \<and> callo_ok (callout t) ((xs @ [e]) @ W @ R') \<and>
    ((\<forall>e es. R = e # es \<longrightarrow> 0 < c_time e) \<longrightarrow> (\<forall>e es. R' = e # es \<longrightarrow> 0 < c_time e))"
proof (cases "re h")
  case None
  then have "\<exists>t. run (c_func e) (c_arg e) (s\<lparr>called := h\<rparr>) = Inr ((), t) \<and> callout t = callout (s\<lparr>called := h\<rparr>) \<and> called t = h"
    using arms [unfolded run_arms_def, rule_format, of "s\<lparr>called := h\<rparr>" "called s" "c_func e" "c_arg e"] by (simp add: h_def)
  then show ?thesis using None ok by (auto simp: R'_def)
next
  case (Some x)
  obtain tm g b where x: "x = (tm, g, b)" by (cases x)
  have r: "0 < tm" "g \<noteq> 0" and runs: "timeout g b tm (s\<lparr>called := h\<rparr>) = Inr ((), s\<lparr>called := h, callout := c\<rparr>) \<Longrightarrow>
      \<exists>t. run (c_func e) (c_arg e) (s\<lparr>called := h\<rparr>) = Inr ((), t) \<and> callout t = c \<and> called t = h" for c
    using arms [unfolded run_arms_def, rule_format, of "s\<lparr>called := h\<rparr>" "called s" "c_func e" "c_arg e"] Some x by (auto simp: h_def)
  have n': "length (xs @ e # W @ R) + 1 < NCALL" using n Some by auto
  obtain c where c: "timeout g b tm (s\<lparr>called := h\<rparr>) = Inr ((), s\<lparr>called := h, callout := c\<rparr>)"
    "callo_ok c (callo_ins tm g b ((xs @ e # W) @ R))"
    using timeout_ok [of "s\<lparr>called := h\<rparr>" "xs @ e # W @ R" g tm b] ok n' r by auto
  have "callo_ok c ((xs @ [e]) @ W @ R')" using c(2) r(1) Some x callo_ins_zero [OF z, of tm g b R] by (simp add: R'_def)
  then show ?thesis using runs [OF c(1)] callo_ins_hd [OF _ r(1)] Some x by (auto simp: R'_def)
qed

lemma callo_run_ok:
  assumes "run_arms run re" "callo_ok (callout s) (xs @ W @ R)" "\<forall>e\<in>set (xs @ W). c_time e = 0"
    and "\<forall>e es. R = e # es \<longrightarrow> 0 < c_time e" "length W < k" "(\<forall>h. re h = None) \<or> length (xs @ W @ R) + length W < NCALL"
  shows "\<exists>t. callo_run k run (length xs) s = Inr (length xs + length W, t) \<and>
    called t = fst (callo_calls re (called s) W R) \<and> callo_ok (callout t) (xs @ W @ snd (callo_calls re (called s) W R))"
  using assms(2-)
proof (induction W arbitrary: xs R s k)
  case Nil
  then obtain m where m: "k = Suc m" by (cases k) auto
  have "c_func (callout s (length xs)) = 0 \<or> 0 < c_time (callout s (length xs))"
  proof (cases R)
    case (Cons e es)
    then show ?thesis using callo_okD(1) [of "callout s" xs e es] Nil.prems(1,3) by auto
  qed (use Nil.prems(1) in \<open>simp add: callo_ok_def\<close>)
  then show ?case using Nil.prems(1) by (auto simp: m Let_def)
next
  case (Cons e W)
  obtain m where m: "k = Suc m" "length W < m" using Cons.prems(4) by (cases k) auto
  have e: "callout s (length xs) = e" "c_func e \<noteq> 0" "c_time e = 0"
    using callo_okD [of "callout s" xs e "W @ R"] Cons.prems(1,2) by auto
  define h where "h = called s @ [(c_func e, c_arg e)]"
  define R' where "R' = (case re h of None \<Rightarrow> R | Some (tm, g, b) \<Rightarrow> callo_ins tm g b R)"
  have "callo_ok (callout s) (xs @ e # W @ R)" "(\<forall>h. re h = None) \<or> length (xs @ e # W @ R) + 1 < NCALL"
    using Cons.prems(1,5) by auto
  from run_step [OF assms(1) this(1) Cons.prems(2) this(2), folded h_def, folded R'_def] obtain u where
    u: "run (c_func e) (c_arg e) (s\<lparr>called := h\<rparr>) = Inr ((), u)" "called u = h" "callo_ok (callout u) ((xs @ [e]) @ W @ R')"
    "\<forall>e es. R' = e # es \<longrightarrow> 0 < c_time e"
    using Cons.prems(3) by auto
  have "length R' \<le> Suc (length R)" by (auto simp: R'_def split: option.split)
  then have "(\<forall>h. re h = None) \<or> length ((xs @ [e]) @ W @ R') + length W < NCALL" using Cons.prems(5) by auto
  from Cons.IH [OF u(3) _ u(4) m(2) this] Cons.prems(2) obtain t where
    "callo_run m run (length xs + 1) u = Inr (length xs + 1 + length W, t)" "called t = fst (callo_calls re h W R')"
    "callo_ok (callout t) (xs @ e # W @ snd (callo_calls re h W R'))"
    using u(2) by auto
  then show ?case using e u(1) m(1) by (auto simp: Let_def h_def R'_def)
qed

lemma callo_move_ok:
  assumes "\<forall>i<length M. c (p1 + i) = M ! i" "c_func (c (p1 + length M)) = 0" "\<forall>e\<in>set M. c_func e \<noteq> 0" "p2 \<le> p1" "length M < k"
  shows "\<exists>c'. callo_move k p1 p2 c = Some c' \<and> (\<forall>i<p2. c' i = c i) \<and> (\<forall>i<length M. c' (p2 + i) = M ! i) \<and> c_func (c' (p2 + length M)) = 0"
  using assms
proof (induction M arbitrary: p1 p2 c k)
  case Nil
  then show ?case by (cases k) (auto simp: Let_def)
next
  case (Cons e M)
  then obtain m where m: "k = Suc m" "length M < m" by (cases k) auto
  have e: "c p1 = e" "c_func e \<noteq> 0" using Cons.prems(1,3) by auto
  let ?c = "c(p2 := e)"
  have step: "callo_move k p1 p2 c = callo_move m (p1 + 1) (p2 + 1) ?c"
    using e Cons.prems(4) by (cases e; cases "c p2") (auto simp: m(1) Let_def)
  have "\<forall>i<length M. ?c (p1 + 1 + i) = M ! i" "c_func (?c (p1 + 1 + length M)) = 0"
    using Cons.prems(1,2,4) by (auto dest: spec [of _ "Suc _"])
  note IH = Cons.IH [OF this _ _ m(2), of "p2 + 1"]
  have "\<forall>e\<in>set M. c_func e \<noteq> 0" "p2 + 1 \<le> p1 + 1" using Cons.prems(3,4) by auto
  from IH [OF this] obtain c' where
    c': "callo_move m (p1 + 1) (p2 + 1) ?c = Some c'" "\<forall>i<p2 + 1. c' i = ?c i" "\<forall>i<length M. c' (p2 + 1 + i) = M ! i" "c_func (c' (p2 + 1 + length M)) = 0"
    by blast
  have "c' (p2 + i) = (e # M) ! i" if "i < length (e # M)" for i
    using that c'(2,3) by (cases i) auto
  then show ?case using step c' by auto
qed

text \<open>A tick: counting down, and at low priority the calls and the rest moved to the front.\<close>

lemma callo_tick_zero: "\<forall>e\<in>set L. 0 \<le> c_time e \<Longrightarrow> \<forall>e\<in>set (takeWhile (\<lambda>e. c_time e \<le> 0) L). c_time e = 0"
  by (induction L) auto

lemma clock_callouts_ok:
  fixes bp :: bool
  assumes ok: "callo_ok (callout s) L" and run: "run_arms run re" and room: "room re (length L)"
  defines "W \<equiv> takeWhile (\<lambda>e. c_time e \<le> 0) (callo_tick L)" and "R \<equiv> dropWhile (\<lambda>e. c_time e \<le> 0) (callo_tick L)"
  defines "z \<equiv> if bp then (called s, callo_tick L) else callo_calls re (called s) W R"
  shows "\<exists>t. clock_callouts run bp s = Inr ((), t) \<and> called t = fst z \<and> callo_ok (callout t) (snd z) \<and> length (snd z) \<le> length L"
proof (cases L)
  case Nil
  then have "c_func (callout s 0) = 0" using ok by (simp add: callo_ok_def)
  then show ?thesis using ok Nil by (simp add: clock_callouts_def W_def R_def z_def)
next
  case (Cons e es)
  have f: "c_func (callout s 0) \<noteq> 0" using ok Cons callo_okD(1,2) [of "callout s" "[]" e es] by simp
  let ?T = "callo_tick L" and ?q = "\<lambda>e. c_time e \<le> 0"
  let ?p = "length (takeWhile ?q L)"
  let ?c = "(callout s)(?p := (callout s ?p)\<lparr>c_time := c_time (callout s ?p) - 1\<rparr>)"
  define u where "u = s\<lparr>callout := ?c\<rparr>"
  have n: "length L < NCALL + 1" using ok by (simp add: callo_ok_def)
  have p: "callo_first (NCALL + 1) 0 (callout s) = Some ?p" using callo_first_found [of "callout s" "[]" L "NCALL + 1"] ok n by simp
  have WR: "?T = W @ R" by (simp add: W_def R_def)
  have okT: "callo_ok (callout u) ([] @ W @ R)" using callo_tick_ok [OF ok refl] by (simp add: u_def WR [symmetric])
  have hd: "callout u 0 = hd ?T" "?T \<noteq> []" using okT Cons unfolding WR [symmetric] by (auto simp: callo_ok_def hd_conv_nth)
  have eq: "clock_callouts run bp s = (if bp then Inr ((), u) else if c_time (hd ?T) \<le> 0 then rbind (callo_run (NCALL + 1) run 0 u) (\<lambda>(p1, s).
      case callo_move (NCALL + 1) p1 0 (callout s) of None \<Rightarrow> Inl (Unfinished, s) | Some c \<Rightarrow> Inr ((), s\<lparr>callout := c\<rparr>)) else Inr ((), u))"
    using f p hd(1) unfolding clock_callouts_def Let_def
    by (simp add: u_def del: callo_first.simps callo_run.simps callo_move.simps One_nat_def)
  have l: "length W + length R = length L" using arg_cong [OF WR, of length] by simp
  consider "bp" | "\<not> bp" "0 < c_time (hd ?T)" | "\<not> bp" "c_time (hd ?T) \<le> 0" by linarith
  then show ?thesis
  proof cases
    case 1
    then show ?thesis using eq okT WR l by (simp add: z_def u_def)
  next
    case 2
    then have "R = ?T" "W = []" using hd(2) unfolding R_def W_def by (cases ?T; simp)+
    then show ?thesis using eq 2 okT by (simp add: u_def z_def)
  next
    case 3
    have "\<forall>e\<in>set ?T. 0 \<le> c_time e" using callo_tick_nonneg [of L] ok unfolding callo_ok_def by blast
    then have W0: "\<forall>e\<in>set ([] @ W). c_time e = 0" using callo_tick_zero [of ?T] by (simp add: W_def)
    have R0: "0 < c_time e" if "R = e # es" for e es
      using dropWhile_eq_Cons_conv [of ?q ?T e es] that by (simp add: R_def not_le)
    have "length W < NCALL + 1" "(\<forall>h. re h = None) \<or> length ([] @ W @ R) + length W < NCALL"
      using n l room by (auto simp: room_def)
    from callo_run_ok [OF run okT W0 _ this] R0 obtain t where
      t: "callo_run (NCALL + 1) run 0 u = Inr (length W, t)" "called t = fst z" "callo_ok (callout t) (W @ snd z)"
      using 3 by (auto simp: z_def u_def)
    have M: "\<forall>e\<in>set (snd z). c_func e \<noteq> 0 \<and> 0 \<le> c_time e" "length (snd z) \<le> length L" "length (snd z) < NCALL"
      using t(3) callo_calls_length [of re "called s" W R] l 3 by (auto simp: callo_ok_def z_def)
    have "\<forall>i<length (snd z). callout t (length W + i) = snd z ! i" "c_func (callout t (length W + length (snd z))) = 0"
      using t(3) by (auto simp: callo_ok_def nth_append dest: spec [of _ "length W + _"])
    then obtain c' where "callo_move (NCALL + 1) (length W) 0 (callout t) = Some c'"
      "\<forall>i<length (snd z). c' (0 + i) = snd z ! i" "c_func (c' (0 + length (snd z))) = 0"
      using callo_move_ok [of "snd z" "callout t" "length W" 0 "NCALL + 1"] M by auto
    then show ?thesis using eq 3 t M by (auto simp: callo_ok_def)
  qed
qed

subsection \<open>Deadlines are met\<close>

text \<open>The clock ticks once for each element of the list, at high priority where it is true.\<close>

fun ticks :: "(nat \<Rightarrow> caddr \<Rightarrow> sched \<Rightarrow> unit pres) \<Rightarrow> bool list \<Rightarrow> sched \<Rightarrow> unit pres" where
  "ticks run [] s = Inr ((), s)"
| "ticks run (bp # bs) s = rbind (clock_callouts run bp s) (\<lambda>(_, s). ticks run bs s)"

text \<open>
  The specification, on the trace of the calls and the list of deadlines.  A tick lowers every
  deadline that is not reached yet; at low priority the routines whose deadline is reached are
  called in order and leave the list, and the callouts that they set are inserted.
\<close>

fun call_due ::
  "((nat \<times> caddr) list \<Rightarrow> (int \<times> nat \<times> caddr) option) \<Rightarrow> (nat \<times> caddr) list \<Rightarrow> (nat \<times> caddr) list \<Rightarrow>
    (int \<times> nat \<times> caddr) list \<Rightarrow> (nat \<times> caddr) list \<times> (int \<times> nat \<times> caddr) list" where
  "call_due re h [] D = (h, D)"
| "call_due re h (x # xs) D =
     (let h = h @ [x] in call_due re h xs (case re h of None \<Rightarrow> D | Some y \<Rightarrow> insert_due y D))"

definition closer :: "(int \<times> 'a) list \<Rightarrow> (int \<times> 'a) list" where
  "closer D = map (\<lambda>(d, x). (max 0 (d - 1), x)) D"

fun due_ticks ::
  "((nat \<times> caddr) list \<Rightarrow> (int \<times> nat \<times> caddr) option) \<Rightarrow> bool list \<Rightarrow> (nat \<times> caddr) list \<Rightarrow>
    (int \<times> nat \<times> caddr) list \<Rightarrow> (nat \<times> caddr) list \<times> (int \<times> nat \<times> caddr) list" where
  "due_ticks re [] h D = (h, D)"
| "due_ticks re (bp # bs) h D =
     (if bp then due_ticks re bs h (closer D)
      else
        case call_due re h (map snd (takeWhile (\<lambda>d. fst d \<le> 0) (closer D))) (dropWhile (\<lambda>d. fst d \<le> 0) (closer D)) of
          (h, D) \<Rightarrow> due_ticks re bs h D)"

lemma callo_due_deadlines:
  "\<forall>e\<in>set L. 0 \<le> c_time e \<Longrightarrow>
     map (\<lambda>e. (c_func e, c_arg e)) (takeWhile (\<lambda>e. c_time e \<le> 0) L) = map snd (takeWhile (\<lambda>d. fst d \<le> b) (deadlines b L)) \<and>
     deadlines b (dropWhile (\<lambda>e. c_time e \<le> 0) L) = dropWhile (\<lambda>d. fst d \<le> b) (deadlines b L)"
  by (induction L) (auto dest!: order_antisym)

lemma callo_calls_deadlines:
  "call_due re h (map (\<lambda>e. (c_func e, c_arg e)) W) (deadlines 0 R) = map_prod (\<lambda>h. h) (deadlines 0) (callo_calls re h W R)"
proof (induction W arbitrary: h R)
  case (Cons e W)
  then show ?case by (simp add: Let_def callo_ins_deadlines [of 0, simplified, symmetric] split: option.split)
qed simp

lemma closer_tick: "\<forall>e\<in>set L. 0 \<le> c_time e \<Longrightarrow> deadlines 0 (callo_tick L) = closer (deadlines 0 L)"
  using deadlines_ge [of L _ 0] by (force simp: callo_tick_deadlines closer_def intro!: map_cong)

lemma ticks_refine:
  assumes "callo_ok (callout s) L" "run_arms run re" "room re (length L)"
  shows "\<exists>t M. ticks run bs s = Inr ((), t) \<and> callo_ok (callout t) M \<and>
    (called t, deadlines 0 M) = due_ticks re bs (called s) (deadlines 0 L)"
  using assms(1,3)
proof (induction bs arbitrary: s L)
  case (Cons bp bs)
  let ?T = "callo_tick L" and ?q = "\<lambda>e. c_time e \<le> 0"
  define z where "z = (if bp then (called s, ?T) else callo_calls re (called s) (takeWhile ?q ?T) (dropWhile ?q ?T))"
  obtain u where u: "clock_callouts run bp s = Inr ((), u)" "called u = fst z" "callo_ok (callout u) (snd z)" "length (snd z) \<le> length L"
    using clock_callouts_ok [OF Cons.prems(1) assms(2) Cons.prems(2), of bp] unfolding z_def by blast
  have "room re (length (snd z))" using Cons.prems(2) u(4) by (auto simp: room_def)
  from Cons.IH [OF u(3) this] obtain t M where
    t: "ticks run bs u = Inr ((), t)" "callo_ok (callout t) M" "(called t, deadlines 0 M) = due_ticks re bs (fst z) (deadlines 0 (snd z))"
    unfolding u(2) by blast
  have L: "\<forall>e\<in>set L. 0 \<le> c_time e" "\<forall>e\<in>set ?T. 0 \<le> c_time e"
    using Cons.prems(1) callo_tick_nonneg [of L] by (auto simp: callo_ok_def)
  have "due_ticks re (bp # bs) (called s) (deadlines 0 L) = due_ticks re bs (fst z) (deadlines 0 (snd z))"
    using callo_due_deadlines [OF L(2), of 0] callo_calls_deadlines [of re "called s" "takeWhile ?q ?T" "dropWhile ?q ?T"]
    by (simp add: closer_tick [OF L(1), symmetric] z_def case_prod_beta)
  then show ?case using u(1) t by auto
qed auto

text \<open>When no routine sets another callout and the last tick is at low priority, the calls have a closed form.\<close>

lemma call_due_none: "call_due (\<lambda>_. None) h xs D = (h @ xs, D)"
  by (induction xs arbitrary: h) (auto simp: Let_def)

lemma deadlines_sorted: "\<forall>e\<in>set L. 0 \<le> c_time e \<Longrightarrow> sorted (map fst (deadlines b L))"
  using deadlines_ge by (induction L arbitrary: b) fastforce+

lemma takeWhile_twice: "(\<And>x. P x \<Longrightarrow> Q x) \<Longrightarrow> takeWhile P xs @ takeWhile Q (dropWhile P xs) = takeWhile Q xs"
  by (induction xs) auto

lemma dropWhile_twice: "(\<And>x. P x \<Longrightarrow> Q x) \<Longrightarrow> dropWhile Q (dropWhile P xs) = dropWhile Q xs"
  by (induction xs) auto

lemma closer_snd [simp]: "map snd (closer D) = map snd D"
  by (induction D) (auto simp: closer_def)

lemma closer_while:
  assumes "0 \<le> n"
  shows "takeWhile (\<lambda>d. fst d \<le> n) (closer D) = closer (takeWhile (\<lambda>d. fst d \<le> n + 1) D)"
    "dropWhile (\<lambda>d. fst d \<le> n) (closer D) = closer (dropWhile (\<lambda>d. fst d \<le> n + 1) D)"
  using assms by (induction D) (auto simp: closer_def)

lemma dropWhile_later:
  assumes "sorted (map fst D)" "d \<in> set (dropWhile (\<lambda>d. fst d \<le> n) D)" shows "n < fst (d :: int \<times> 'a)"
  using assms by (induction D) (auto split: if_splits)

lemma closer_later: "\<forall>d\<in>set D. 1 \<le> fst d \<Longrightarrow> closer D = map (\<lambda>(d, x). (d - 1, x)) D"
  unfolding closer_def by (intro map_cong) auto

lemma closer_sorted: "sorted (map fst D) \<Longrightarrow> sorted (map fst (closer D))"
  by (induction D) (auto simp: closer_def intro: max.mono)

lemma sorted_dropWhile_fst: "sorted (map fst D) \<Longrightarrow> sorted (map fst (dropWhile P D))"
  by (induction D) auto

lemma due_ticks_closed:
  assumes "sorted (map fst D)" "bs \<noteq> []" "\<not> last bs"
  shows "due_ticks (\<lambda>_. None) bs h D =
    (h @ map snd (takeWhile (\<lambda>d. fst d \<le> int (length bs)) D),
     map (\<lambda>(d, x). (d - int (length bs), x)) (dropWhile (\<lambda>d. fst d \<le> int (length bs)) D))"
  using assms
proof (induction bs arbitrary: h D)
  case (Cons bp bs)
  let ?n = "int (length bs)"
  have shift: "map (\<lambda>(d, x). (d - ?n, x)) (closer (dropWhile (\<lambda>d. fst d \<le> ?n + 1) D)) =
      map (\<lambda>(d, x). (d - (?n + 1), x)) (dropWhile (\<lambda>d. fst d \<le> ?n + 1) D)"
    using dropWhile_later [OF Cons.prems(1), of _ "?n + 1"] by (subst closer_later) (force simp: case_prod_beta)+
  note w = closer_while [of ?n D] closer_while [of 0 D]
  show ?case
  proof (cases "bs = []")
    case True
    then show ?thesis using Cons.prems(3) shift w by (simp add: call_due_none)
  next
    case False
    then have IH: "due_ticks (\<lambda>_. None) bs h D = (h @ map snd (takeWhile (\<lambda>d. fst d \<le> ?n) D),
        map (\<lambda>(d, x). (d - ?n, x)) (dropWhile (\<lambda>d. fst d \<le> ?n) D))" if "sorted (map fst D)" for h D
      using Cons.IH [OF that] Cons.prems(3) by simp
    show ?thesis
    proof (cases bp)
      case True
      then show ?thesis using IH [OF closer_sorted [OF Cons.prems(1)], of h] w shift by (simp add: add.commute)
    next
      case False
      let ?E = "dropWhile (\<lambda>d. fst d \<le> 0) (closer D)"
      have E: "takeWhile (\<lambda>d. fst d \<le> 0) (closer D) @ takeWhile (\<lambda>d. fst d \<le> ?n) ?E = takeWhile (\<lambda>d. fst d \<le> ?n) (closer D)"
        "dropWhile (\<lambda>d. fst d \<le> ?n) ?E = dropWhile (\<lambda>d. fst d \<le> ?n) (closer D)"
        by (rule takeWhile_twice dropWhile_twice; simp)+
      have "map snd (takeWhile (\<lambda>d. fst d \<le> 0) (closer D)) @ map snd (takeWhile (\<lambda>d. fst d \<le> ?n) ?E) =
          map snd (takeWhile (\<lambda>d. fst d \<le> ?n + 1) D)"
        unfolding map_append [symmetric] E(1) w(1) [OF of_nat_0_le_iff] by simp
      moreover have "sorted (map fst ?E)" using sorted_dropWhile_fst [OF closer_sorted [OF Cons.prems(1)]] .
      ultimately show ?thesis
        using False IH [of ?E "h @ map snd (takeWhile (\<lambda>d. fst d \<le> 0) (closer D))"] E(2) w(2) shift
        by (simp add: call_due_none add.commute)
    qed
  qed
qed simp

text \<open>
  C20: The table of callouts refines a list of deadlines.  \<open>timeout\<close> inserts a deadline behind
  those of the same tick and leaves the others as they are.  Then the clock ticks, at high or low
  priority as \<open>bs\<close> says: every tick brings all the deadlines one closer, a tick at low priority
  calls exactly the routines whose deadline is reached, each once and in order, and a tick at high priority
  leaves them for the next one.  A routine may set one callout for a later tick, which is
  inserted in turn.  So, when no routine does and the last tick is at low priority, exactly the routines with a
  deadline of at most the number of ticks have been called.  The table must have room, the routines end
  and change the table only with \<open>timeout\<close>, and no tick falls into a routine.
\<close>

theorem callouts_on_time:
  assumes "callo_ok (callout s) L" "length L + 1 < NCALL" "fn \<noteq> 0" "0 \<le> tim" "run_arms run re" "room re (length L + 1)"
  shows "\<exists>t u M. timeout fn arg tim s = Inr ((), t) \<and> called t = called s \<and> ticks run bs t = Inr ((), u) \<and> callo_ok (callout u) M \<and>
    (called u, deadlines 0 M) = due_ticks re bs (called s) (insert_due (tim, fn, arg) (deadlines 0 L)) \<and>
    ((\<forall>h. re h = None) \<and> bs \<noteq> [] \<and> \<not> last bs \<longrightarrow>
      (let D = insert_due (tim, fn, arg) (deadlines 0 L); n = int (length bs) in
       called u = called s @ map snd (takeWhile (\<lambda>d. fst d \<le> n) D) \<and>
       deadlines 0 M = map (\<lambda>(d, x). (d - n, x)) (dropWhile (\<lambda>d. fst d \<le> n) D)))"
proof -
  let ?I = "callo_ins tim fn arg L"
  obtain c where c: "timeout fn arg tim s = Inr ((), s\<lparr>callout := c\<rparr>)" "callo_ok (callout (s\<lparr>callout := c\<rparr>)) ?I"
    using timeout_ok [OF assms(1-4)] by auto
  from ticks_refine [OF c(2) assms(5), of bs] assms(6) obtain u M where
    u: "ticks run bs (s\<lparr>callout := c\<rparr>) = Inr ((), u)" "callo_ok (callout u) M"
    "(called u, deadlines 0 M) = due_ticks re bs (called s) (insert_due (tim, fn, arg) (deadlines 0 L))"
    by (auto simp: callo_ins_deadlines)
  have "sorted (map fst (insert_due (tim, fn, arg) (deadlines 0 L)))"
    using deadlines_sorted [of ?I 0] c(2) by (simp add: callo_ins_deadlines callo_ok_def)
  note closed = due_ticks_closed [OF this, of bs "called s"]
  have "(\<forall>h. re h = None) \<longrightarrow> re = (\<lambda>_. None)" by auto
  then show ?thesis using c(1) u closed by (intro exI [of _ "s\<lparr>callout := c\<rparr>"] exI [of _ u] exI [of _ M]) (auto simp: Let_def)
qed

text \<open>
  Routine 5 sets itself again for two ticks later; the callout of the second tick falls to a tick at high
  priority and is called with the third, and routine 5 runs again with it.
\<close>

definition demo_run :: "nat \<Rightarrow> caddr \<Rightarrow> sched \<Rightarrow> unit pres" where
  "demo_run f a s = (if f = 5 then timeout 5 a 2 s else Inr ((), s))"

theorem callouts_on_time_witness:
  "\<exists>t u. timeout 7 70 2 (demo_sched\<lparr>callout := (callout demo_sched)(0 := \<lparr>c_time = 1, c_arg = 50, c_func = 5\<rparr>,
      1 := \<lparr>c_time = 4, c_arg = 60, c_func = 6\<rparr>)\<rparr>) = Inr ((), t) \<and>
     ticks demo_run [False, True, False] t = Inr ((), u) \<and> called u = [(5, 50), (7, 70), (5, 50)]"
proof -
  let ?L = "[\<lparr>c_time = 1, c_arg = 50, c_func = 5\<rparr>, \<lparr>c_time = 4, c_arg = 60, c_func = 6\<rparr>]"
  let ?s = "demo_sched\<lparr>callout := (callout demo_sched)(0 := ?L ! 0, 1 := ?L ! 1)\<rparr>"
  let ?re = "\<lambda>h. if fst (last h) = 5 then Some (2, 5, snd (last h)) else None"
  have "callo_ok (callout ?s) ?L" by (auto simp: callo_ok_def demo_sched_def NCALL_def nth_Cons')
  moreover have "run_arms demo_run ?re" by (auto simp: run_arms_def demo_run_def)
  moreover have "room ?re (length ?L + 1)" by (simp add: room_def NCALL_def)
  ultimately show ?thesis
    using callouts_on_time [of ?s ?L 7 2 demo_run ?re 70 "[False, True, False]"]
    by (auto simp: NCALL_def insert_due_def demo_sched_def closer_def)
qed

text \<open>
  The test for a full table looks only at the place of the new entry.  With \<open>NCALL - 1\<close> callouts pending, one
  that belongs before the last is accepted, and \<open>timeout\<close> moves the end mark into the memory
  behind the table.
\<close>

theorem timeout_overruns:
  assumes ok: "callo_ok (callout s) (e # es)" and n: "length (e # es) = NCALL - 1" and t: "tim < c_time e"
  shows "\<exists>t. timeout fn arg tim s = Inr ((), t) \<and> callout t NCALL = callout s (NCALL - 1) \<and>
    (\<forall>i<NCALL. c_func (callout t i) = (if i = 0 then fn else c_func (callout s (i - 1))))"
proof -
  let ?c = "(callout s)(0 := (callout s 0)\<lparr>c_time := c_time (callout s 0) - tim\<rparr>)"
  have c: "\<forall>i<length (e # es). callout s i = (e # es) ! i" "c_func (callout s (NCALL - 1)) = 0" "\<forall>e\<in>set (e # es). c_func e \<noteq> 0"
    using ok n by (auto simp: callo_ok_def)
  have f: "timeout_find (NCALL + 1) 0 tim (callout s) = Some (0, tim)" using c(1) t by auto
  have "c_func (callout s i) \<noteq> 0" if "i < NCALL - 1" for i using c(1,3) that n nth_mem [of i "e # es"] by metis
  then have "callo_end (NCALL + 1) 0 ?c = Some (NCALL - 1)"
    using c(2) by (intro callo_end_found) (auto simp: NCALL_def)
  then have "timeout fn arg tim s = Inr ((), s\<lparr>callout := (callo_shift NCALL 0 ?c)(0 := \<lparr>c_time = tim, c_arg = arg, c_func = fn\<rparr>)\<rparr>)"
    using f unfolding timeout_def Let_def
    by (simp add: NCALL_def del: timeout_find.simps callo_end.simps callo_shift.simps One_nat_def)
  then show ?thesis by (auto simp: callo_shift_nth NCALL_def)
qed

theorem timeout_overruns_witness:
  "\<exists>t. timeout 7 70 2 (demo_sched\<lparr>callout := (\<lambda>i. \<lparr>c_time = 5, c_arg = 0, c_func = (if i < 19 then 5 else 0)\<rparr>)\<rparr>) = Inr ((), t) \<and>
     c_func (callout t 19) = 5 \<and> c_func (callout t 20) = 0"
proof -
  let ?s = "demo_sched\<lparr>callout := (\<lambda>i. \<lparr>c_time = 5, c_arg = 0, c_func = (if i < 19 then 5 else 0)\<rparr>)\<rparr>"
  let ?e = "\<lparr>c_time = 5, c_arg = 0, c_func = 5\<rparr>"
  have "callo_ok (callout ?s) (?e # replicate 18 ?e)" by (auto simp: callo_ok_def NCALL_def nth_Cons')
  from timeout_overruns [OF this, of 2 7 70] show ?thesis by (auto simp: NCALL_def)
qed

subsection \<open>The interrupt ends and keeps the queues sound\<close>

lemma clock_proc_ok:
  assumes inv: "proc_inv (s, c)" and p: "p < NPROC"
  shows "\<exists>t. clock_proc p s = Inr ((), t) \<and> proc_inv (t, c)"
proof (cases "pst s p \<in> {SFREE, SZOMB, SSTOP}")
  case True
  then show ?thesis using inv by (simp add: clock_proc_def)
next
  case False
  define u where "u = (if p_time (ptab s p) \<noteq> 127 then upd_proc p (p_time_update (\<lambda>n. n + 1)) s else s)"
  have iu: "proc_inv (u, c)" using inv aside_inv [of s u c] by (simp add: aside_def u_def)
  let ?v = "upd_proc p (p_clktim_update (\<lambda>n. n - 1)) u"
  have iv: "proc_inv (?v, c)" using iu aside_inv [of u ?v c] by (simp add: aside_def)
  obtain w where w: "(if p_clktim (ptab u p) \<noteq> 0 then if p_clktim (ptab ?v p) = 0 then psignal p SIGCLK ?v else Inr ((), ?v) else Inr ((), u)) = Inr ((), w)"
    "proc_inv (w, c)"
  proof -
    obtain x where "psignal p SIGCLK ?v = Inr ((), x)" "proc_inv (x, c)" using psignal_ok [OF iv p] by blast
    then show thesis using that iu iv by (metis (full_types))
  qed
  define a where "a = (let a = uint (p_cpu (ptab w p)) * 8 div 10 + p_nice (ptab w p) - NZERO; a = (if a < 0 then 0 else a) in if 255 < a then 255 else a)"
  let ?x = "upd_proc p (p_cpu_update (\<lambda>_. word_of_int a)) w"
  have ix: "proc_inv (?x, c)" using w(2) aside_inv [of w ?x c] by (simp add: aside_def)
  have "aside ?x (snd (setpri p ?x))" by (simp add: setpri_def aside_def Let_def)
  then have iy: "proc_inv (snd (setpri p ?x), c)" using ix aside_inv by blast
  have "clock_proc p s = (if PUSER \<le> p_pri (ptab ?x p) then Inr ((), snd (setpri p ?x)) else Inr ((), ?x))"
    using False w(1) unfolding clock_proc_def u_def [symmetric] Let_def a_def by simp
  then show ?thesis using ix iy by auto
qed

lemma clock_procs_ok:
  "\<lbrakk>proc_inv (s, c); \<forall>p\<in>set ps. p < NPROC\<rbrakk> \<Longrightarrow> \<exists>t. clock_procs ps s = Inr ((), t) \<and> proc_inv (t, c)"
proof (induction ps arbitrary: s)
  case (Cons p ps)
  then obtain u where "clock_proc p s = Inr ((), u)" "proc_inv (u, c)" using clock_proc_ok [of s c p] by auto
  then show ?case using Cons by simp
qed simp

text \<open>What the routines of the callouts may do to the process table: anything that keeps it sound.\<close>

definition run_sound :: "(nat \<Rightarrow> caddr \<Rightarrow> sched \<Rightarrow> unit pres) \<Rightarrow> bool" where
  "run_sound run \<longleftrightarrow> (\<forall>f a s t c. run f a s = Inr ((), t) \<longrightarrow> proc_inv (s, c) \<longrightarrow> proc_inv (t, c) \<and> a_lbolt t = a_lbolt s)"

lemma callo_run_inv:
  "\<lbrakk>callo_run k run p s = Inr (q, t); run_sound run; proc_inv (s, c)\<rbrakk> \<Longrightarrow> proc_inv (t, c) \<and> a_lbolt t = a_lbolt s"
proof (induction k arbitrary: p s)
  case (Suc k)
  let ?e = "callout s p"
  let ?s = "s\<lparr>called := called s @ [(c_func ?e, c_arg ?e)]\<rparr>"
  show ?case
  proof (cases "c_func ?e \<noteq> 0 \<and> c_time ?e \<le> 0")
    case True
    then obtain u where u: "run (c_func ?e) (c_arg ?e) ?s = Inr ((), u)" "callo_run k run (p + 1) u = Inr (q, t)"
      using Suc.prems(1) by (auto simp: Let_def rbind_Inr_iff)
    have "aside s ?s" by (simp add: aside_def)
    then have "proc_inv (?s, c)" using Suc.prems(3) aside_inv by blast
    then have "proc_inv (u, c) \<and> a_lbolt u = a_lbolt s" using Suc.prems(2) u(1) unfolding run_sound_def by fastforce
    then show ?thesis using Suc.IH [OF u(2) Suc.prems(2)] by simp
  next
    case False
    then show ?thesis using Suc.prems by (auto simp: Let_def split: if_splits)
  qed
qed simp

lemma clock_callouts_inv:
  assumes "callo_ok (callout s) L" "run_arms run re" "room re (length L)" "run_sound run" "proc_inv (s, c)"
  shows "\<exists>t. clock_callouts run bp s = Inr ((), t) \<and> proc_inv (t, c) \<and> a_lbolt t = a_lbolt s"
proof -
  have a: "proc_inv (s\<lparr>callout := x\<rparr>, c) = proc_inv (s, c)" for s x by (rule aside_inv) (simp add: aside_def)
  have p: "callo_first (NCALL + 1) 0 (callout s) = Some (length (takeWhile (\<lambda>e. c_time e \<le> 0) L))"
    using callo_first_found [of "callout s" "[]" L "NCALL + 1"] assms(1) by (simp add: callo_ok_def)
  show ?thesis
  proof (cases bp)
    case True
    then show ?thesis using p assms(5) unfolding clock_callouts_def
      by (simp add: a Let_def del: callo_first.simps One_nat_def)
  next
    case False
    obtain t where t: "clock_callouts run False s = Inr ((), t)" using clock_callouts_ok [OF assms(1-3)] by blast
    have "proc_inv (t, c) \<and> a_lbolt t = a_lbolt s"
    proof (cases "c_func (callout s 0) = 0")
      case True
      then show ?thesis using t assms(5) by (simp add: clock_callouts_def)
    next
      case no: False
      define u where "u = (let p2 = length (takeWhile (\<lambda>e. c_time e \<le> 0) L) in
        s\<lparr>callout := (callout s)(p2 := (callout s p2)\<lparr>c_time := c_time (callout s p2) - 1\<rparr>)\<rparr>)"
      have iu: "proc_inv (u, c)" "a_lbolt u = a_lbolt s" using assms(5) by (simp_all add: u_def Let_def a)
      have r: "(if c_time (callout u 0) \<le> 0 then rbind (callo_run (NCALL + 1) run 0 u) (\<lambda>(p1, s).
        case callo_move (NCALL + 1) p1 0 (callout s) of None \<Rightarrow> Inl (Unfinished, s) | Some c \<Rightarrow> Inr ((), s\<lparr>callout := c\<rparr>))
        else Inr ((), u)) = Inr ((), t)"
        using t no p unfolding clock_callouts_def u_def Let_def
        by (simp del: callo_first.simps callo_run.simps callo_move.simps One_nat_def)
      show ?thesis
      proof (cases "c_time (callout u 0) \<le> 0")
        case True
        then obtain q v d where v: "callo_run (NCALL + 1) run 0 u = Inr (q, v)" "t = v\<lparr>callout := d\<rparr>"
          using r by (auto simp: rbind_Inr_iff simp del: callo_run.simps callo_move.simps split: option.splits)
        then show ?thesis using callo_run_inv [OF v(1) assms(4) iu(1)] iu(2) by (simp add: a)
      next
        case False
        then show ?thesis using r iu by simp
      qed
    qed
    then show ?thesis using t False by simp
  qed
qed

text \<open>
  The clock interrupt always ends and keeps the process queues sound, whatever the
  interrupted priority and mode, if the routines of the callouts end and keep them sound.
\<close>

theorem clock_sound:
  assumes inv: "proc_inv (s, c)" and ok: "callo_ok (callout s) L" and run: "run_arms run re" "room re (length L)" "run_sound run"
    and add: "\<forall>s. aside s (addupc s) \<and> a_lbolt (addupc s) = a_lbolt s" and lb: "a_lbolt s \<noteq> 0"
  shows "\<exists>t. clock run addupc usermode basepri waiting s = Inr ((), t) \<and> proc_inv (t, c)"
proof -
  obtain u where u: "clock_callouts run basepri s = Inr ((), u)" "proc_inv (u, c)" "a_lbolt u = a_lbolt s"
    using clock_callouts_inv [OF ok run inv] by blast
  define v where "v = (clock_times addupc usermode waiting u)\<lparr>lbolt := lbolt (clock_times addupc usermode waiting u) + 1\<rparr>"
  have v: "aside u v" "a_lbolt v = a_lbolt s"
    using add [rule_format, of "u\<lparr>u_utime := u_utime u + 1\<rparr>"] u(3)
    by (auto simp: v_def clock_times_def Let_def aside_def split: prod.splits)
  then have iv: "proc_inv (v, c)" using u(2) aside_inv by blast
  let ?w = "v\<lparr>lbolt := lbolt v - HZ, time := time v + 1, runrun := runrun v + 1\<rparr>"
  have "aside v ?w" by (simp add: aside_def)
  then have "proc_inv (?w, c)" using iv aside_inv by blast
  then obtain x where x: "wakeup (a_lbolt v) ?w = Inr ((), x)" "proc_inv (x, c)" using woken_inv v(2) lb by metis
  obtain y where y: "clock_procs [0..<NPROC] x = Inr ((), y)" "proc_inv (y, c)" using clock_procs_ok [OF x(2), of "[0..<NPROC]"] by auto
  have "aside y (y\<lparr>runin := 0\<rparr>)" by (simp add: aside_def)
  then have iy: "proc_inv (y\<lparr>runin := 0\<rparr>, c)" using y(2) aside_inv by blast
  have "a_runin y \<noteq> 0" using y(2) by (auto simp: proc_inv_def proc_sound_def)
  then obtain z where z: "wakeup (a_runin y) (y\<lparr>runin := 0\<rparr>) = Inr ((), z)" "proc_inv (z, c)" using woken_inv [OF iy] by metis
  have "clock run addupc usermode basepri waiting s =
    (if lbolt v < HZ \<or> basepri then Inr ((), v) else if runin y \<noteq> 0 then Inr ((), z) else Inr ((), y))"
    using x(1) y(1) z(1) by (simp only: clock_def u(1) Let_def rbind_simps prod.case v_def [symmetric]) auto
  then show ?thesis using iv y(2) z(2) by auto
qed

theorem clock_sound_witness:
  "\<exists>t. clock (\<lambda>f a s. Inr ((), s)) (\<lambda>s. s) True False False (demo_system\<lparr>lbolt := 59\<rparr>) = Inr ((), t) \<and> proc_inv (t, Some 3)"
proof -
  have "aside demo_system (demo_system\<lparr>lbolt := 59\<rparr>)" by (simp add: aside_def)
  then have "proc_inv (demo_system\<lparr>lbolt := 59\<rparr>, Some 3)" using demo_system_inv aside_inv by blast
  then show ?thesis
    by (rule clock_sound [of _ _ "[]" _ "\<lambda>_. None"]) (auto simp: callo_ok_def run_arms_def room_def run_sound_def aside_def NCALL_def demo_defs)
qed

end
