(* ===== verification/Qsort.thy ===== *)
theory Qsort
  imports Prelude "HOL-Library.Multiset"
begin

section \<open>Sorting (libc/gen/qsort.c)\<close>

text \<open>
  The sort of the C library on an array of bytes: \<open>n\<close> elements of \<open>es\<close> bytes each, with
  pointers as offsets into the array.  The statics \<open>qscmp\<close> and \<open>qses\<close> are arguments.  The
  comparison routine is a parameter, a function of the bytes of the two elements.  The loops
  are written as \<open>partial_function\<close>, so that a run that does not end has no result; the
  theorem shows that there always is one.

  The array lies in an address space of 16 bits, so a difference of pointers is below 65536;
  where the code compares two such differences as signed numbers, so does the model.
\<close>

subsection \<open>Model\<close>

type_synonym cmp = "u8 list \<Rightarrow> u8 list \<Rightarrow> int"

text \<open>The element at a pointer.\<close>

definition at :: "nat \<Rightarrow> u8 list \<Rightarrow> nat \<Rightarrow> u8 list" where
  "at es m p = take es (drop p m)"

text \<open>The exchanges, byte by byte; the count is the size of an element.\<close>

fun qsexc :: "nat \<Rightarrow> nat \<Rightarrow> nat \<Rightarrow> u8 list \<Rightarrow> u8 list" where
  "qsexc 0 i j m = m"
| "qsexc (Suc n) i j m =
     (let c = m ! i; m = m[i := m ! j]; m = m[j := c] in qsexc n (i + 1) (j + 1) m)"

fun qstexc :: "nat \<Rightarrow> nat \<Rightarrow> nat \<Rightarrow> nat \<Rightarrow> u8 list \<Rightarrow> u8 list" where
  "qstexc 0 i j k m = m"
| "qstexc (Suc n) i j k m =
     (let c = m ! i; m = m[i := m ! k]; m = m[k := m ! j]; m = m[j := c]
      in qstexc n (i + 1) (j + 1) (k + 1) m)"

text \<open>
  The endless loop of \<open>qs1\<close>.  Its state has the pointers, the array and a flag that says
  whether control is at its top or at the label \<open>loop\<close>.  A step either goes back to one of
  the two, or leaves the loop for the two parts with \<open>lp\<close>, \<open>hp\<close> and the array.
\<close>

type_synonym qstate = "bool \<times> nat \<times> nat \<times> nat \<times> nat \<times> u8 list"

definition part_step :: "cmp \<Rightarrow> nat \<Rightarrow> qstate \<Rightarrow> qstate + nat \<times> nat \<times> u8 list" where
  "part_step qscmp es = (\<lambda>(tp, i, lp, hp, j, m).
     if tp \<and> i < lp \<and> qscmp (at es m i) (at es m lp) = 0 then
        Inl (True, i, lp - es, hp, j, qsexc es i (lp - es) m)
     else if tp \<and> i < lp \<and> qscmp (at es m i) (at es m lp) < 0 then
        Inl (True, i + es, lp, hp, j, m)
     else if j > hp then
        (let c = qscmp (at es m hp) (at es m j) in
         if c = 0 then Inl (False, i, lp, hp + es, j, qsexc es (hp + es) j m)
         else if c > 0 then
           (if i = lp then Inl (False, lp + es, lp + es, hp + es, j, qstexc es i (hp + es) j m)
            else Inl (True, i + es, lp, hp, j - es, qsexc es i j m))
         else Inl (False, i, lp, hp, j - es, m))
     else if i = lp then Inr (lp, hp, m)
     else Inl (True, i, lp - es, hp - es, hp - es, qstexc es j (lp - es) i m))"

partial_function (option) qs_part :: "cmp \<Rightarrow> nat \<Rightarrow> qstate \<Rightarrow> (nat \<times> nat \<times> u8 list) option" where
  "qs_part qscmp es s =
     (case part_step qscmp es s of Inr r \<Rightarrow> Some r | Inl s \<Rightarrow> qs_part qscmp es s)"

definition short :: "nat \<Rightarrow> int" where
  "short n = sint (word_of_nat n :: u16)"

partial_function (option) qs1 :: "cmp \<Rightarrow> nat \<Rightarrow> nat \<Rightarrow> nat \<Rightarrow> u8 list \<Rightarrow> u8 list option" where
  "qs1 qscmp es a l m =
     (let n = (l - a) mod 65536 in
      if n \<le> es then Some m
      else
        (let n = es * (n div (2 * es)) in
         Option.bind (qs_part qscmp es (True, a, a + n, a + n, l - es, m)) (\<lambda>(lp, hp, m).
           if short (lp - a) \<ge> short (l - hp)
           then Option.bind (qs1 qscmp es (hp + es) l m) (qs1 qscmp es a lp)
           else Option.bind (qs1 qscmp es a lp m) (qs1 qscmp es (hp + es) l))))"

definition qsort :: "nat \<Rightarrow> nat \<Rightarrow> nat \<Rightarrow> cmp \<Rightarrow> u8 list \<Rightarrow> u8 list option" where
  "qsort a n es fc m = qs1 fc es a (a + n * es) m"

subsection \<open>Elements\<close>

definition elems :: "nat \<Rightarrow> nat \<Rightarrow> u8 list \<Rightarrow> u8 list list" where
  "elems es n m = map (\<lambda>k. at es m (k * es)) [0..<n]"

abbreviation swp :: "nat \<Rightarrow> nat \<Rightarrow> 'a list \<Rightarrow> 'a list" where
  "swp i j xs \<equiv> xs[i := xs ! j, j := xs ! i]"

lemma length_qsexc [simp]: "length (qsexc n i j m) = length m"
  by (induction n i j m rule: qsexc.induct) (simp_all add: Let_def)

lemma length_qstexc [simp]: "length (qstexc n i j k m) = length m"
  by (induction n i j k m rule: qstexc.induct) (simp_all add: Let_def)

lemma length_elems [simp]: "length (elems es n m) = n"
  by (simp add: elems_def)

lemma elems_nth [simp]: "k < n \<Longrightarrow> elems es n m ! k = at es m (k * es)"
  by (simp add: elems_def)

text \<open>What the loops do, byte for byte.\<close>

abbreviation rot3 :: "nat \<Rightarrow> nat \<Rightarrow> nat \<Rightarrow> 'a list \<Rightarrow> 'a list" where
  "rot3 i j k xs \<equiv> swp j k (swp i k xs)"

lemma qsexc_snoc: "qsexc (Suc n) i j m = swp (i + n) (j + n) (qsexc n i j m)"
proof (induction n arbitrary: i j m)
  case (Suc n)
  have "qsexc (Suc (Suc n)) i j m = qsexc (Suc n) (i + 1) (j + 1) (swp i j m)"
    by (simp only: qsexc.simps(2) [of "Suc n"] Let_def)
  also have "\<dots> = swp (i + 1 + n) (j + 1 + n) (qsexc n (i + 1) (j + 1) (swp i j m))" by (rule Suc.IH)
  also have "qsexc n (i + 1) (j + 1) (swp i j m) = qsexc (Suc n) i j m"
    by (simp only: qsexc.simps(2) Let_def)
  finally show ?case by (simp only: add_Suc_right add_Suc Suc_eq_plus1 ac_simps)
qed (simp add: Let_def)

lemma rot3_code:
  assumes "i \<noteq> j" "i \<noteq> k" "i < length m" "j < length m" "k < length m"
  shows "(let c = m ! i; m = m[i := m ! k]; m = m[k := m ! j]; m = m[j := c] in m) = rot3 i j k m"
  using assms by (auto simp: Let_def nth_list_update intro!: nth_equalityI)

lemma qstexc_snoc:
  assumes "i + n < length m" "j + n < length m" "k + n < length m" "i \<noteq> j" "i \<noteq> k"
  shows "qstexc (Suc n) i j k m = rot3 (i + n) (j + n) (k + n) (qstexc n i j k m)"
  using assms
proof (induction n arbitrary: i j k m)
  case 0
  then show ?case using rot3_code [of i j k m] by (simp add: Let_def)
next
  case (Suc n)
  define m' where "m' = (let c = m ! i; m = m[i := m ! k]; m = m[k := m ! j]; m = m[j := c] in m)"
  have "qstexc (Suc (Suc n)) i j k m = qstexc (Suc n) (i + 1) (j + 1) (k + 1) m'"
    by (simp only: qstexc.simps(2) [of "Suc n"] Let_def m'_def)
  also have "\<dots> = rot3 (i + Suc n) (j + Suc n) (k + Suc n) (qstexc n (i + 1) (j + 1) (k + 1) m')"
    using Suc.IH [of "i + 1" m' "j + 1" "k + 1"] Suc.prems by (simp add: m'_def Let_def)
  finally show ?case by (simp add: m'_def Let_def)
qed

definition apart :: "nat \<Rightarrow> nat \<Rightarrow> nat \<Rightarrow> bool" where
  "apart n i j \<longleftrightarrow> i + n \<le> j \<or> j + n \<le> i"

lemma qsexc_nth:
  assumes "i = j \<or> apart n i j" "i + n \<le> length m" "j + n \<le> length m" "p < length m"
  shows "qsexc n i j m ! p =
    (if i \<le> p \<and> p < i + n then m ! (p - i + j) else if j \<le> p \<and> p < j + n then m ! (p - j + i) else m ! p)"
  using assms
proof (induction n arbitrary: p)
  case (Suc n)
  have IH: "qsexc n i j m ! q =
    (if i \<le> q \<and> q < i + n then m ! (q - i + j) else if j \<le> q \<and> q < j + n then m ! (q - j + i) else m ! q)"
    if "q < length m" for q
    using Suc.IH [OF _ _ _ that] Suc.prems by (auto simp: apart_def)
  have "qsexc n i j m ! (i + n) = m ! (i + n)" "qsexc n i j m ! (j + n) = m ! (j + n)"
    using Suc.prems IH [of "i + n"] IH [of "j + n"] by (auto simp: apart_def)
  then have "qsexc (Suc n) i j m ! p = (if p = j + n then m ! (i + n) else if p = i + n then m ! (j + n)
      else qsexc n i j m ! p)"
    using Suc.prems by (simp add: qsexc_snoc nth_list_update del: qsexc.simps)
  then show ?case using Suc.prems IH [of p]
    by (cases "p = i + n \<or> p = j + n") (auto simp: apart_def less_Suc_eq ac_simps simp del: qsexc.simps)
qed auto

lemma qstexc_nth:
  assumes "j = k \<or> apart n j k" "apart n i j" "apart n i k"
    "i + n \<le> length m" "j + n \<le> length m" "k + n \<le> length m" "p < length m"
  shows "qstexc n i j k m ! p =
    (if i \<le> p \<and> p < i + n then m ! (p - i + k) else if j \<le> p \<and> p < j + n then m ! (p - j + i)
     else if k \<le> p \<and> p < k + n then m ! (p - k + j) else m ! p)"
  using assms
proof (induction n arbitrary: p)
  case (Suc n)
  have IH: "qstexc n i j k m ! q =
    (if i \<le> q \<and> q < i + n then m ! (q - i + k) else if j \<le> q \<and> q < j + n then m ! (q - j + i)
     else if k \<le> q \<and> q < k + n then m ! (q - k + j) else m ! q)" if "q < length m" for q
    using Suc.IH [OF _ _ _ _ _ _ that] Suc.prems by (auto simp: apart_def)
  have old: "qstexc n i j k m ! (i + n) = m ! (i + n)" "qstexc n i j k m ! (j + n) = m ! (j + n)"
    "qstexc n i j k m ! (k + n) = m ! (k + n)"
    using Suc.prems IH [of "i + n"] IH [of "j + n"] IH [of "k + n"] by (auto simp: apart_def)
  have "qstexc (Suc n) i j k m = rot3 (i + n) (j + n) (k + n) (qstexc n i j k m)"
    using Suc.prems by (intro qstexc_snoc) (auto simp: apart_def)
  then have "qstexc (Suc n) i j k m ! p = (if p = j + n then m ! (i + n) else if p = k + n then m ! (j + n)
      else if p = i + n then m ! (k + n) else qstexc n i j k m ! p)"
    using Suc.prems old by (auto simp: nth_list_update apart_def)
  then show ?case
    using Suc.prems IH [of p]
    by (cases "p = i + n"; cases "p = j + n"; cases "p = k + n")
      (auto simp: apart_def less_Suc_eq ac_simps simp del: qstexc.simps)
qed auto

text \<open>The same on the elements.\<close>

lemma length_at [simp]: "p + es \<le> length m \<Longrightarrow> length (at es m p) = es"
  by (simp add: at_def)

lemma at_nth: "p + es \<le> length m \<Longrightarrow> b < es \<Longrightarrow> at es m p ! b = m ! (p + b)"
  by (simp add: at_def)

lemma in_elem: "b < es \<Longrightarrow> i * es \<le> q * es + b \<and> q * es + b < i * es + es \<longleftrightarrow> q = i" for b es :: nat
proof (cases q i rule: linorder_cases)
  case less
  then have "Suc q * es \<le> i * es" by (intro mult_le_mono1) simp
  then show "b < es \<Longrightarrow> ?thesis" using less by simp
next
  case greater
  then have "Suc i * es \<le> q * es" by (intro mult_le_mono1) simp
  then show ?thesis using greater by simp
qed simp

lemma elem_end: "i < n \<Longrightarrow> n * es \<le> k \<Longrightarrow> i * es + es \<le> k" for i n es k :: nat
  using mult_le_mono1 [of "Suc i" n es] by simp

lemma elems_apart: "i \<noteq> j \<Longrightarrow> apart es (i * es) (j * es)"
  using mult_le_mono1 [of "Suc i" j es] mult_le_mono1 [of "Suc j" i es]
  by (cases i j rule: linorder_cases) (simp_all add: apart_def)

lemma elems_qsexc:
  assumes "i < n" "j < n" "n * es \<le> length m"
  shows "elems es n (qsexc es (i * es) (j * es) m) = swp i j (elems es n m)"
proof (rule nth_equalityI)
  fix q assume "q < length (elems es n (qsexc es (i * es) (j * es) m))"
  then have q: "q < n" by simp
  note e = elem_end [OF q assms(3)] elem_end [OF assms(1) assms(3)] elem_end [OF assms(2) assms(3)]
  have "at es (qsexc es (i * es) (j * es) m) (q * es) = at es m ((if q = i then j else if q = j then i else q) * es)"
    (is "?l = at es m (?r * es)")
  proof (rule nth_equalityI)
    fix b assume "b < length ?l"
    then have b: "b < es" using e by simp
    have "?l ! b = qsexc es (i * es) (j * es) m ! (q * es + b)" using b e by (simp add: at_nth)
    also have "\<dots> = (if q = i then m ! (j * es + b) else if q = j then m ! (i * es + b) else m ! (q * es + b))"
      using b e elems_apart [of i j es] in_elem [OF b, of i q] in_elem [OF b, of j q]
      by (subst qsexc_nth) (auto simp: ac_simps)
    also have "\<dots> = at es m (?r * es) ! b" using b e by (simp add: at_nth)
    finally show "?l ! b = at es m (?r * es) ! b" .
  qed (use e in auto)
  then show "elems es n (qsexc es (i * es) (j * es) m) ! q = swp i j (elems es n m) ! q"
    using q assms by (auto simp: nth_list_update)
qed simp

lemma elems_qstexc:
  assumes "i < n" "j < n" "k < n" "i \<noteq> j" "i \<noteq> k" "n * es \<le> length m"
  shows "elems es n (qstexc es (i * es) (j * es) (k * es) m) = rot3 i j k (elems es n m)"
proof (rule nth_equalityI)
  fix q assume "q < length (elems es n (qstexc es (i * es) (j * es) (k * es) m))"
  then have q: "q < n" by simp
  note e = elem_end [OF q assms(6)] elem_end [OF assms(1) assms(6)] elem_end [OF assms(2) assms(6)]
    elem_end [OF assms(3) assms(6)]
  have "at es (qstexc es (i * es) (j * es) (k * es) m) (q * es) =
      at es m ((if q = i then k else if q = j then i else if q = k then j else q) * es)"
    (is "?l = at es m (?r * es)")
  proof (rule nth_equalityI)
    fix b assume "b < length ?l"
    then have b: "b < es" using e by simp
    have "?l ! b = qstexc es (i * es) (j * es) (k * es) m ! (q * es + b)" using b e by (simp add: at_nth)
    also have "\<dots> = (if q = i then m ! (k * es + b) else if q = j then m ! (i * es + b)
        else if q = k then m ! (j * es + b) else m ! (q * es + b))"
      using b e elems_apart [OF assms(4)] elems_apart [OF assms(5)] elems_apart [of j k es]
        in_elem [OF b, of i q] in_elem [OF b, of j q] in_elem [OF b, of k q]
      by (subst qstexc_nth) (auto simp: ac_simps)
    also have "\<dots> = at es m (?r * es) ! b" using b e by (simp add: at_nth)
    finally show "?l ! b = at es m (?r * es) ! b" .
  qed (use e in auto)
  then show "elems es n (qstexc es (i * es) (j * es) (k * es) m) ! q = rot3 i j k (elems es n m) ! q"
    using q assms by (auto simp: nth_list_update)
qed simp

subsection \<open>The partition\<close>

text \<open>
  Before the pivots lie smaller elements up to \<open>i\<close>, after them larger ones from \<open>j\<close> on;
  at the label \<open>loop\<close> the element at \<open>i\<close>, if it is not a pivot, is known to be larger.
\<close>

definition part_inv :: "('a \<Rightarrow> 'k::linorder) \<Rightarrow> nat \<Rightarrow> nat \<Rightarrow> 'k \<Rightarrow> 'a list \<Rightarrow> bool \<Rightarrow> nat \<Rightarrow> nat \<Rightarrow> nat \<Rightarrow> nat \<Rightarrow> bool" where
  "part_inv key a l p xs tp i lp hp j \<longleftrightarrow>
     a \<le> i \<and> i \<le> lp \<and> lp \<le> hp \<and> hp \<le> j \<and> j < l \<and> l \<le> length xs \<and>
     (\<forall>q. a \<le> q \<longrightarrow> q < i \<longrightarrow> key (xs ! q) < p) \<and> (\<forall>q. lp \<le> q \<longrightarrow> q \<le> hp \<longrightarrow> key (xs ! q) = p) \<and>
     (\<forall>q. j < q \<longrightarrow> q < l \<longrightarrow> p < key (xs ! q)) \<and> (tp \<or> i = lp \<or> p < key (xs ! i))"

lemma part_inv_cases:
  assumes "part_inv key a l p xs True i lp hp j" "i < lp"
  shows "key (xs ! i) = p \<Longrightarrow> part_inv key a l p (swp i (lp - 1) xs) True i (lp - 1) hp j"
    and "key (xs ! i) < p \<Longrightarrow> part_inv key a l p xs True (i + 1) lp hp j"
  using assms by (auto simp: part_inv_def nth_list_update less_Suc_eq)

lemma part_inv_loop:
  assumes "part_inv key a l p xs False i lp hp j" "hp < j"
  shows "key (xs ! j) = p \<Longrightarrow> part_inv key a l p (swp (hp + 1) j xs) False i lp (hp + 1) j"
    and "key (xs ! j) < p \<Longrightarrow> i = lp \<Longrightarrow>
      part_inv key a l p (rot3 i (hp + 1) j xs) False (lp + 1) (lp + 1) (hp + 1) j"
    and "key (xs ! j) < p \<Longrightarrow> i < lp \<Longrightarrow> part_inv key a l p (swp i j xs) True (i + 1) lp hp (j - 1)"
    and "p < key (xs ! j) \<Longrightarrow> part_inv key a l p xs False i lp hp (j - 1)"
proof -
  have "j - Suc 0 < q \<longleftrightarrow> q = j \<or> j < q" for q using \<open>hp < j\<close> by auto
  then show "key (xs ! j) = p \<Longrightarrow> part_inv key a l p (swp (hp + 1) j xs) False i lp (hp + 1) j"
    and "key (xs ! j) < p \<Longrightarrow> i = lp \<Longrightarrow>
      part_inv key a l p (rot3 i (hp + 1) j xs) False (lp + 1) (lp + 1) (hp + 1) j"
    and "key (xs ! j) < p \<Longrightarrow> i < lp \<Longrightarrow> part_inv key a l p (swp i j xs) True (i + 1) lp hp (j - 1)"
    and "p < key (xs ! j) \<Longrightarrow> part_inv key a l p xs False i lp hp (j - 1)"
    using assms by (auto simp: part_inv_def nth_list_update less_Suc_eq le_Suc_eq)
qed

lemma part_inv_end:
  assumes "part_inv key a l p xs False i lp hp j" "\<not> hp < j" "i \<noteq> lp"
  shows "part_inv key a l p (rot3 j (lp - 1) i xs) True i (lp - 1) (hp - 1) (hp - 1)"
  using assms by (auto simp: part_inv_def nth_list_update less_Suc_eq le_Suc_eq)

text \<open>The elements from \<open>a\<close> to \<open>l\<close> may be permuted, the others stay.\<close>

definition permuted :: "nat \<Rightarrow> nat \<Rightarrow> 'a list \<Rightarrow> 'a list \<Rightarrow> bool" where
  "permuted a l xs ys \<longleftrightarrow> length ys = length xs \<and> mset ys = mset xs \<and> (\<forall>q. q < a \<or> l \<le> q \<longrightarrow> ys ! q = xs ! q)"

lemma permuted_refl [simp]: "permuted a l xs xs"
  by (simp add: permuted_def)

lemma permuted_trans: "permuted a l xs ys \<Longrightarrow> permuted a l ys zs \<Longrightarrow> permuted a l xs zs"
  by (simp add: permuted_def)

lemma permuted_swp: "\<lbrakk>a \<le> i; i < l; a \<le> j; j < l; l \<le> length xs\<rbrakk> \<Longrightarrow> permuted a l xs (swp i j xs)"
  by (auto simp: permuted_def mset_swap nth_list_update)

lemma permuted_rot3:
  "\<lbrakk>a \<le> i; i < l; a \<le> j; j < l; a \<le> k; k < l; l \<le> length xs\<rbrakk> \<Longrightarrow> permuted a l xs (rot3 i j k xs)"
  by (rule permuted_trans [OF permuted_swp [of a i l k xs] permuted_swp [of a j l k]]) simp_all

text \<open>What the code relies on of the comparison routine: it orders the elements by some key.\<close>

definition orders :: "cmp \<Rightarrow> (u8 list \<Rightarrow> 'k::linorder) \<Rightarrow> bool" where
  "orders qscmp key \<longleftrightarrow>
     (\<forall>x y. (qscmp x y < 0 \<longleftrightarrow> key x < key y) \<and> (qscmp x y = 0 \<longleftrightarrow> key x = key y))"

lemma orders_cmp:
  assumes "orders qscmp key"
  shows "qscmp x y < 0 \<longleftrightarrow> key x < key y" "qscmp x y = 0 \<longleftrightarrow> key x = key y" "0 < qscmp x y \<longleftrightarrow> key y < key x"
proof -
  show 1: "qscmp x y < 0 \<longleftrightarrow> key x < key y" and 2: "qscmp x y = 0 \<longleftrightarrow> key x = key y"
    using assms by (simp_all add: orders_def)
  show "0 < qscmp x y \<longleftrightarrow> key y < key x"
    using 1 2 by (cases "key x" "key y" rule: linorder_cases) auto
qed

definition scaled :: "nat \<Rightarrow> bool \<Rightarrow> nat \<Rightarrow> nat \<Rightarrow> nat \<Rightarrow> nat \<Rightarrow> u8 list \<Rightarrow> qstate" where
  "scaled es tp i lp hp j m = (tp, i * es, lp * es, hp * es, j * es, m)"

text \<open>
  One step: the loop is left with the pivots in place, or the invariant holds again and the
  distance left to go is smaller.
\<close>

definition progress where
  "progress key a l p es n m d r \<longleftrightarrow>
     (\<exists>tp i lp hp j m'. r = Inl (scaled es tp i lp hp j m') \<and> length m' = length m \<and>
        part_inv key a l p (elems es n m') tp i lp hp j \<and> permuted a l (elems es n m) (elems es n m') \<and>
        (lp - i) + (j - hp) < d)"

lemma progressI:
  assumes "r = Inl (scaled es tp i lp hp j m')" "length m' = length m" "elems es n m' = ys"
    "part_inv key a l p ys tp i lp hp j" "permuted a l (elems es n m) ys" "(lp - i) + (j - hp) < d"
  shows "progress key a l p es n m d r"
  using assms unfolding progress_def by blast

lemma part_step_top:
  assumes o: "orders qscmp key" and es: "0 < es" and n: "l \<le> n" "n * es \<le> length m"
    and inv: "part_inv key a l p (elems es n m) tp i lp hp j"
    and c: "tp" "i < lp" "key (at es m (i * es)) \<le> p"
  shows "progress key a l p es n m ((lp - i) + (j - hp)) (part_step qscmp es (scaled es tp i lp hp j m))"
proof -
  have b: "a \<le> i" "lp \<le> hp" "hp \<le> j" "j < l" and p: "key (at es m (lp * es)) = p"
    using inv n by (auto simp: part_inv_def)
  have x: "elems es n m ! i = at es m (i * es)" using b c n by simp
  have ilp: "i * es < lp * es" using c es by simp
  show ?thesis
  proof (cases "key (at es m (i * es)) = p")
    case True
    show ?thesis
    proof (rule progressI)
      show "part_step qscmp es (scaled es tp i lp hp j m) =
        Inl (scaled es True i (lp - 1) hp j (qsexc es (i * es) ((lp - 1) * es) m))"
        using c ilp True p by (simp add: part_step_def scaled_def orders_cmp [OF o] diff_mult_distrib)
      show "elems es n (qsexc es (i * es) ((lp - 1) * es) m) = swp i (lp - 1) (elems es n m)"
        by (rule elems_qsexc) (use b c n in auto)
      show "permuted a l (elems es n m) (swp i (lp - 1) (elems es n m))"
        by (rule permuted_swp) (use b c n in auto)
      show "part_inv key a l p (swp i (lp - 1) (elems es n m)) True i (lp - 1) hp j"
        using part_inv_cases(1) [of key a l p "elems es n m" i lp hp j] inv c True x by simp
    qed (use c in auto)
  next
    case False
    then have less: "key (at es m (i * es)) < p" using c by simp
    show ?thesis
    proof (rule progressI)
      show "part_step qscmp es (scaled es tp i lp hp j m) = Inl (scaled es True (i + 1) lp hp j m)"
        using c ilp p less by (simp add: part_step_def scaled_def orders_cmp [OF o] add.commute)
      show "part_inv key a l p (elems es n m) True (i + 1) lp hp j"
        using part_inv_cases(2) [of key a l p "elems es n m" i lp hp j] inv c less x by simp
    qed (use c in auto)
  qed
qed

lemma part_step_loop:
  assumes o: "orders qscmp key" and es: "0 < es" and n: "l \<le> n" "n * es \<le> length m"
    and inv: "part_inv key a l p (elems es n m) False i lp hp j"
    and c: "tp \<Longrightarrow> i < lp \<Longrightarrow> p < key (at es m (i * es))" and j: "hp < j"
  shows "progress key a l p es n m ((lp - i) + (j - hp)) (part_step qscmp es (scaled es tp i lp hp j m))"
proof -
  have b: "a \<le> i" "i \<le> lp" "lp \<le> hp" "j < l"
    and p: "key (at es m (hp * es)) = p" "key (at es m (lp * es)) = p"
    using inv n j by (auto simp: part_inv_def)
  have x: "elems es n m ! j = at es m (j * es)" using b n by simp
  have step: "part_step qscmp es (scaled es tp i lp hp j m) =
     (if key (at es m (j * es)) = p then Inl (scaled es False i lp (hp + 1) j (qsexc es ((hp + 1) * es) (j * es) m))
      else if key (at es m (j * es)) < p then
        (if i = lp then Inl (scaled es False (lp + 1) (lp + 1) (hp + 1) j (qstexc es (i * es) ((hp + 1) * es) (j * es) m))
         else Inl (scaled es True (i + 1) lp hp (j - 1) (qsexc es (i * es) (j * es) m)))
      else Inl (scaled es False i lp hp (j - 1) m))"
    using c j es p by (auto simp: part_step_def scaled_def orders_cmp [OF o] Let_def diff_mult_distrib add.commute)
  note inv' = part_inv_loop [OF inv j]
  consider (eq) "key (at es m (j * es)) = p" | (fin) "key (at es m (j * es)) < p" "i = lp"
    | (swap) "key (at es m (j * es)) < p" "i < lp" | (gr) "p < key (at es m (j * es))"
    using b by fastforce
  then show ?thesis
  proof cases
    case eq
    show ?thesis
    proof (rule progressI)
      show "elems es n (qsexc es ((hp + 1) * es) (j * es) m) = swp (hp + 1) j (elems es n m)"
        by (rule elems_qsexc) (use b j n in auto)
      show "permuted a l (elems es n m) (swp (hp + 1) j (elems es n m))"
        by (rule permuted_swp) (use b j n in auto)
      show "part_inv key a l p (swp (hp + 1) j (elems es n m)) False i lp (hp + 1) j"
        using inv'(1) eq x by simp
    qed (use eq step j in auto)
  next
    case fin
    show ?thesis
    proof (rule progressI)
      show "elems es n (qstexc es (i * es) ((hp + 1) * es) (j * es) m) = rot3 i (hp + 1) j (elems es n m)"
        by (rule elems_qstexc) (use b j n fin in auto)
      show "permuted a l (elems es n m) (rot3 i (hp + 1) j (elems es n m))"
        by (rule permuted_rot3) (use b j n in auto)
      show "part_inv key a l p (rot3 i (hp + 1) j (elems es n m)) False (lp + 1) (lp + 1) (hp + 1) j"
        using inv'(2) fin x by simp
    qed (use fin step j in auto)
  next
    case swap
    show ?thesis
    proof (rule progressI)
      show "elems es n (qsexc es (i * es) (j * es) m) = swp i j (elems es n m)"
        by (rule elems_qsexc) (use b j n in auto)
      show "permuted a l (elems es n m) (swp i j (elems es n m))"
        by (rule permuted_swp) (use b j n in auto)
      show "part_inv key a l p (swp i j (elems es n m)) True (i + 1) lp hp (j - 1)"
        using inv'(3) swap x by simp
    qed (use swap step j in auto)
  next
    case gr
    show ?thesis
      by (rule progressI [OF _ _ refl inv'(4)]) (use gr step j x in auto)
  qed
qed

lemma part_step_end:
  assumes o: "orders qscmp key" and es: "0 < es" and n: "l \<le> n" "n * es \<le> length m"
    and inv: "part_inv key a l p (elems es n m) False i lp hp j"
    and c: "tp \<Longrightarrow> i < lp \<Longrightarrow> p < key (at es m (i * es))" and j: "\<not> hp < j"
  shows "if i = lp then part_step qscmp es (scaled es tp i lp hp j m) = Inr (lp * es, hp * es, m) \<and> hp = j
    else progress key a l p es n m ((lp - i) + (j - hp)) (part_step qscmp es (scaled es tp i lp hp j m))"
proof -
  have b: "a \<le> i" "i \<le> lp" "lp \<le> hp" "hp \<le> j" "j < l" and p: "key (at es m (lp * es)) = p"
    using inv n by (auto simp: part_inv_def)
  have step: "part_step qscmp es (scaled es tp i lp hp j m) =
     (if i = lp then Inr (lp * es, hp * es, m)
      else Inl (scaled es True i (lp - 1) (hp - 1) (hp - 1) (qstexc es (j * es) ((lp - 1) * es) (i * es) m)))"
    using c j es p by (auto simp: part_step_def scaled_def orders_cmp [OF o] Let_def diff_mult_distrib)
  have "progress key a l p es n m ((lp - i) + (j - hp)) (part_step qscmp es (scaled es tp i lp hp j m))"
    if "i \<noteq> lp"
  proof (rule progressI)
    show "elems es n (qstexc es (j * es) ((lp - 1) * es) (i * es) m) = rot3 j (lp - 1) i (elems es n m)"
      by (rule elems_qstexc) (use b j n that in auto)
    show "permuted a l (elems es n m) (rot3 j (lp - 1) i (elems es n m))"
      by (rule permuted_rot3) (use b j n that in auto)
    show "part_inv key a l p (rot3 j (lp - 1) i (elems es n m)) True i (lp - 1) (hp - 1) (hp - 1)"
      by (rule part_inv_end [OF inv j that])
  qed (use step j b that in auto)
  then show ?thesis using step b j by auto
qed

lemma part_step_cases:
  assumes o: "orders qscmp key" and es: "0 < es" and n: "l \<le> n" "n * es \<le> length m"
    and inv: "part_inv key a l p (elems es n m) tp i lp hp j"
  shows "progress key a l p es n m ((lp - i) + (j - hp)) (part_step qscmp es (scaled es tp i lp hp j m)) \<or>
    part_step qscmp es (scaled es tp i lp hp j m) = Inr (lp * es, hp * es, m) \<and> i = lp \<and> hp = j"
proof (cases "tp \<and> i < lp \<and> key (at es m (i * es)) \<le> p")
  case True
  then show ?thesis using part_step_top [OF o es n inv] by blast
next
  case False
  have "i < n" using inv n by (auto simp: part_inv_def)
  then have inv': "part_inv key a l p (elems es n m) False i lp hp j"
    using inv False by (auto simp: part_inv_def not_le)
  have c: "tp \<Longrightarrow> i < lp \<Longrightarrow> p < key (at es m (i * es))" using False by auto
  show ?thesis
  proof (cases "hp < j")
    case True
    then show ?thesis using part_step_loop [OF o es n inv' c] by blast
  next
    case False
    from part_step_end [OF o es n inv' c this] show ?thesis by (metis (full_types))
  qed
qed

lemma qs_part_correct:
  assumes o: "orders qscmp key" and es: "0 < es" and n: "l \<le> n"
  shows "\<lbrakk>n * es \<le> length m; part_inv key a l p (elems es n m) tp i lp hp j\<rbrakk> \<Longrightarrow>
    \<exists>lp' hp' m'. qs_part qscmp es (scaled es tp i lp hp j m) = Some (lp' * es, hp' * es, m') \<and> length m' = length m \<and>
      part_inv key a l p (elems es n m') True lp' lp' hp' hp' \<and> permuted a l (elems es n m) (elems es n m')"
proof (induction "(lp - i) + (j - hp)" arbitrary: tp i lp hp j m rule: less_induct)
  case less
  from part_step_cases [OF o es n less.prems] show ?case
  proof (elim disjE)
    assume "progress key a l p es n m ((lp - i) + (j - hp)) (part_step qscmp es (scaled es tp i lp hp j m))"
    then obtain tp' i' lp' hp' j' m' where
      s: "part_step qscmp es (scaled es tp i lp hp j m) = Inl (scaled es tp' i' lp' hp' j' m')"
        "length m' = length m" "part_inv key a l p (elems es n m') tp' i' lp' hp' j'"
        "permuted a l (elems es n m) (elems es n m')" "(lp' - i') + (j' - hp') < (lp - i) + (j - hp)"
      unfolding progress_def by blast
    show ?thesis
      using less.hyps [OF s(5) _ s(3)] s less.prems permuted_trans [OF s(4)]
      by (auto simp: qs_part.simps [of _ _ "scaled es tp i lp hp j m"])
  next
    assume s: "part_step qscmp es (scaled es tp i lp hp j m) = Inr (lp * es, hp * es, m) \<and> i = lp \<and> hp = j"
    then have "part_inv key a l p (elems es n m) True lp lp hp hp"
      using less.prems by (auto simp: part_inv_def)
    moreover have "qs_part qscmp es (scaled es tp i lp hp j m) = Some (lp * es, hp * es, m)"
      by (subst qs_part.simps) (simp only: conjunct1 [OF s] sum.case)
    ultimately show ?thesis by (metis permuted_refl)
  qed
qed

subsection \<open>The sort\<close>

definition sorted_on :: "('a \<Rightarrow> 'k::linorder) \<Rightarrow> nat \<Rightarrow> nat \<Rightarrow> 'a list \<Rightarrow> bool" where
  "sorted_on key a l xs \<longleftrightarrow> (\<forall>q r. a \<le> q \<longrightarrow> q \<le> r \<longrightarrow> r < l \<longrightarrow> key (xs ! q) \<le> key (xs ! r))"

lemma permuted_mono: "permuted b k xs ys \<Longrightarrow> a \<le> b \<Longrightarrow> k \<le> l \<Longrightarrow> permuted a l xs ys"
  by (auto simp: permuted_def)

lemma permuted_all:
  assumes "permuted a l xs ys" "a \<le> l" "l \<le> length xs" "\<And>q. a \<le> q \<Longrightarrow> q < l \<Longrightarrow> P (xs ! q)" "a \<le> q" "q < l"
  shows "P (ys ! q)"
proof -
  have split: "zs = take a zs @ take (l - a) (drop a zs) @ drop l zs" for zs :: "'a list"
    using assms(2) by (metis append_assoc append_take_drop_id le_add_diff_inverse take_add)
  have "length ys = length xs" "take a ys = take a xs" "drop l ys = drop l xs" "mset ys = mset xs"
    using assms(1-3) by (auto simp: permuted_def intro!: nth_equalityI)
  then have "mset (take (l - a) (drop a ys)) = mset (take (l - a) (drop a xs))"
    using split [of xs] split [of ys] by (metis add_left_cancel add_right_cancel mset_append)
  moreover have "ys ! q \<in> set (take (l - a) (drop a ys))"
    using assms \<open>length ys = length xs\<close> by (auto simp: in_set_conv_nth intro!: exI [of _ "q - a"])
  ultimately have "ys ! q \<in> set (take (l - a) (drop a xs))" by (metis set_mset_mset)
  then obtain r where "r < l - a" "ys ! q = xs ! (a + r)" using assms(3) by (auto simp: in_set_conv_nth)
  then show ?thesis using assms(4) [of "a + r"] by simp
qed

lemma part_inv_permuted:
  assumes "part_inv key a l p xs True lp lp hp hp" "permuted a lp xs ys \<or> permuted (hp + 1) l xs ys"
  shows "part_inv key a l p ys True lp lp hp hp"
  using assms(2)
proof
  assume *: "permuted a lp xs ys"
  then show ?thesis
    using assms(1) permuted_all [OF *, of "\<lambda>x. key x < p"] by (auto simp: part_inv_def permuted_def)
next
  assume *: "permuted (hp + 1) l xs ys"
  then show ?thesis
    using assms(1) permuted_all [OF *, of "\<lambda>x. p < key x"] by (auto simp: part_inv_def permuted_def)
qed

lemma sorted_parts:
  assumes "part_inv key a l p xs True lp lp hp hp" "sorted_on key a lp xs" "sorted_on key (hp + 1) l xs"
  shows "sorted_on key a l xs"
  unfolding sorted_on_def
proof (intro allI impI)
  fix q r assume *: "a \<le> q" "q \<le> r" "r < l"
  have le: "key (xs ! q) \<le> p" if "a \<le> q" "q \<le> hp" for q
    using assms(1) that by (cases "q < lp") (auto simp: part_inv_def intro: less_imp_le)
  have ge: "p \<le> key (xs ! r)" if "lp \<le> r" "r < l" for r
    using assms(1) that by (cases "r \<le> hp") (auto simp: part_inv_def intro: less_imp_le)
  consider "r < lp" | "q \<le> hp" "lp \<le> r" | "hp + 1 \<le> q" by linarith
  then show "key (xs ! q) \<le> key (xs ! r)"
  proof cases
    case 2
    then show ?thesis using le [of q] ge [of r] * by (meson order_trans)
  qed (use assms(2,3) * in \<open>auto simp: sorted_on_def\<close>)
qed

lemma sorted_on_cong: "(\<And>q. a \<le> q \<Longrightarrow> q < l \<Longrightarrow> ys ! q = xs ! q) \<Longrightarrow> sorted_on key a l ys = sorted_on key a l xs"
  unfolding sorted_on_def by (intro iff_allI) auto

definition sorts where
  "sorts key es n a l m r \<longleftrightarrow> (\<exists>m'. r = Some m' \<and> length m' = length m \<and>
     permuted a l (elems es n m) (elems es n m') \<and> sorted_on key a l (elems es n m'))"

lemma sorts_both:
  assumes inv: "part_inv key a l p (elems es n m) True lp lp hp hp"
    and r: "\<And>m'. length m' = length m \<Longrightarrow> sorts key es n a lp m' (f m')"
      "\<And>m'. length m' = length m \<Longrightarrow> sorts key es n (hp + 1) l m' (g m')"
  shows "sorts key es n a l m (Option.bind (f m) g)" "sorts key es n a l m (Option.bind (g m) f)"
proof -
  have le: "a \<le> lp" "lp \<le> hp" "hp < l" using inv by (auto simp: part_inv_def)
  obtain m1 where f: "f m = Some m1" "length m1 = length m" "permuted a lp (elems es n m) (elems es n m1)"
    "sorted_on key a lp (elems es n m1)" using r(1) [of m] by (auto simp: sorts_def)
  obtain m2 where g: "g m1 = Some m2" "length m2 = length m" "permuted (hp + 1) l (elems es n m1) (elems es n m2)"
    "sorted_on key (hp + 1) l (elems es n m2)" using r(2) [of m1] f(2) by (auto simp: sorts_def)
  have "part_inv key a l p (elems es n m2) True lp lp hp hp"
    using part_inv_permuted [OF part_inv_permuted [OF inv]] f(3) g(3) by blast
  moreover have "sorted_on key a lp (elems es n m2)"
    using f(4) g(3) le by (subst sorted_on_cong) (auto simp: permuted_def)
  ultimately have "sorted_on key a l (elems es n m2)" using g(4) by (rule sorted_parts)
  moreover have "permuted a l (elems es n m) (elems es n m2)"
    using permuted_trans [OF permuted_mono [OF f(3)] permuted_mono [OF g(3)]] le by simp
  ultimately show "sorts key es n a l m (Option.bind (f m) g)" using f g by (auto simp: sorts_def)
  obtain m1 where g: "g m = Some m1" "length m1 = length m" "permuted (hp + 1) l (elems es n m) (elems es n m1)"
    "sorted_on key (hp + 1) l (elems es n m1)" using r(2) [of m] by (auto simp: sorts_def)
  obtain m2 where f: "f m1 = Some m2" "length m2 = length m" "permuted a lp (elems es n m1) (elems es n m2)"
    "sorted_on key a lp (elems es n m2)" using r(1) [of m1] g(2) by (auto simp: sorts_def)
  have "part_inv key a l p (elems es n m2) True lp lp hp hp"
    using part_inv_permuted [OF part_inv_permuted [OF inv]] f(3) g(3) by blast
  moreover have "sorted_on key (hp + 1) l (elems es n m2)"
    using g(4) f(3) le by (subst sorted_on_cong) (auto simp: permuted_def)
  ultimately have "sorted_on key a l (elems es n m2)" using f(4) by (blast intro: sorted_parts)
  moreover have "permuted a l (elems es n m) (elems es n m2)"
    using permuted_trans [OF permuted_mono [OF g(3)] permuted_mono [OF f(3)]] le by simp
  ultimately show "sorts key es n a l m (Option.bind (g m) f)" using f g by (auto simp: sorts_def)
qed

lemma qs1_correct:
  assumes o: "orders qscmp key" and es: "0 < es"
  shows "\<lbrakk>n * es \<le> length m; length m < 65536; a \<le> l; l \<le> n\<rbrakk> \<Longrightarrow>
    sorts key es n a l m (qs1 qscmp es (a * es) (l * es) m)"
proof (induction "l - a" arbitrary: a l m rule: less_induct)
  case less
  have "l * es \<le> n * es" using less.prems by (intro mult_le_mono1) simp
  with less.prems have "l * es - a * es < 65536" by linarith
  then have mod: "(l * es - a * es) mod 65536 = (l - a) * es" by (simp add: diff_mult_distrib)
  show ?case
  proof (cases "l - a \<le> 1")
    case True
    then have "l - a = 0 \<or> l - a = 1" by linarith
    then have "qs1 qscmp es (a * es) (l * es) m = Some m"
      by (subst qs1.simps) (auto simp: mod Let_def)
    moreover have "sorted_on key a l (elems es n m)"
      unfolding sorted_on_def
    proof (intro allI impI)
      fix q r assume "a \<le> q" "q \<le> r" "r < l"
      with True have "q = r" by linarith
      then show "key (elems es n m ! q) \<le> key (elems es n m ! r)" by simp
    qed
    ultimately show ?thesis by (auto simp: sorts_def)
  next
    case False
    define k where "k = a + (l - a) div 2"
    have k: "a \<le> k" "k < l" using False by (auto simp: k_def)
    define p where "p = key (elems es n m ! k)"
    have inv: "part_inv key a l p (elems es n m) True a k k (l - 1)"
      using k less.prems by (auto simp: part_inv_def p_def)
    from qs_part_correct [OF o es \<open>l \<le> n\<close> less.prems(1) inv]
    obtain lp hp m' where r: "qs_part qscmp es (scaled es True a k k (l - 1) m) = Some (lp * es, hp * es, m')"
      "length m' = length m" "part_inv key a l p (elems es n m') True lp lp hp hp"
      "permuted a l (elems es n m) (elems es n m')" by blast
    have b: "a \<le> lp" "lp \<le> hp" "hp < l" using r(3) by (auto simp: part_inv_def)
    have "qs1 qscmp es (a * es) (l * es) m =
      (if short (lp * es - a * es) \<ge> short (l * es - hp * es)
       then Option.bind (qs1 qscmp es ((hp + 1) * es) (l * es) m') (qs1 qscmp es (a * es) (lp * es))
       else Option.bind (qs1 qscmp es (a * es) (lp * es) m') (qs1 qscmp es ((hp + 1) * es) (l * es)))"
    proof -
      have "\<not> (l - a) * es \<le> es" using False es by simp
      moreover have "qs_part qscmp es (True, a * es, a * es + es * ((l - a) div 2), a * es + es * ((l - a) div 2),
          l * es - es, m) = Some (lp * es, hp * es, m')"
        using r(1) by (simp add: scaled_def k_def add_mult_distrib diff_mult_distrib mult.commute [of es])
      ultimately show ?thesis
        using es by (subst qs1.simps) (simp add: mod Let_def add.commute [of es])
    qed
    moreover have "sorts key es n a l m' (Option.bind (qs1 qscmp es ((hp + 1) * es) (l * es) m') (qs1 qscmp es (a * es) (lp * es)))"
      "sorts key es n a l m' (Option.bind (qs1 qscmp es (a * es) (lp * es) m') (qs1 qscmp es ((hp + 1) * es) (l * es)))"
      by (rule sorts_both [OF r(3)]; use less.prems r(2) b in \<open>intro less.hyps, auto\<close>)+
    ultimately show ?thesis using r(2,4) by (auto simp: sorts_def intro: permuted_trans split: if_splits)
  qed
qed

text \<open>
  C36: For an array of any number of elements of any size, duplicates included, and a
  comparison routine that orders the elements by some key, \<open>qsort\<close> ends, and the array then
  holds the same elements in ascending order of the key.
\<close>

theorem qsort_sorts:
  fixes key :: "u8 list \<Rightarrow> 'k::linorder"
  assumes "orders fc key" "0 < es" "length m = n * es" "length m < 65536"
  shows "\<exists>m'. qsort 0 n es fc m = Some m' \<and> length m' = length m \<and>
    mset (elems es n m') = mset (elems es n m) \<and> sorted (map key (elems es n m'))"
proof -
  obtain m' where "qs1 fc es 0 (n * es) m = Some m'" "length m' = length m"
    "permuted 0 n (elems es n m) (elems es n m')" "sorted_on key 0 n (elems es n m')"
    using qs1_correct [OF assms(1,2), of n m 0 n] assms(3,4) by (auto simp: sorts_def)
  then show ?thesis
    by (auto simp: qsort_def permuted_def sorted_on_def sorted_iff_nth_mono)
qed

theorem qsort_sorts_witness:
  "\<exists>m'. qsort 0 3 2 (\<lambda>x y. uint (hd x) - uint (hd y)) [3, 0, 1, 1, 3, 2] = Some m' \<and> length m' = 6 \<and>
    mset (elems 2 3 m') = {#[3, 0], [1, 1], [3, 2]#} \<and> sorted (map (uint \<circ> hd) (elems 2 3 m'))"
proof -
  have "orders (\<lambda>x y. uint (hd x) - uint (hd y)) (uint \<circ> hd)" by (auto simp: orders_def)
  moreover have "elems 2 3 [3, 0, 1, 1, 3, 2] = [[3, 0], [1, 1], [3, 2 :: u8]]"
    by (simp add: elems_def at_def upt_rec)
  ultimately show ?thesis
    using qsort_sorts [of "\<lambda>x y. uint (hd x) - uint (hd y)" "uint \<circ> hd" 2 "[3, 0, 1, 1, 3, 2]" 3]
    by (simp add: eval_nat_numeral)
qed

end
