(* ===== verification/Crypt.thy ===== *)
theory Crypt
  imports Prelude
begin

section \<open>Password encryption (libc/gen/crypt.c)\<close>

text \<open>
  The Data Encryption Standard on arrays of bits, one per byte, and the password
  routine built on it.  The halves \<open>L\<close> and \<open>R\<close> lie next to each other in the code, which
  fills both through \<open>L[0..63]\<close>; the model keeps them as one list of 64 bytes, so that
  \<open>R[x-1]\<close> is entry \<open>32+x-1\<close>.  The selector \<open>E\<close> is a static array that only
  \<open>crypt\<close> fills.

  The theorems show that decryption undoes encryption for every key schedule, and that
  \<open>crypt\<close> returns its salt followed by eleven characters of the password alphabet.
\<close>

subsection \<open>Tables\<close>

text \<open>Initial permutation.\<close>

definition IP :: "nat list" where
  "IP = [
    58, 50, 42, 34, 26, 18, 10, 2, 60, 52, 44, 36, 28, 20, 12, 4, 62, 54, 46, 38, 30, 22, 14, 6,
    64, 56, 48, 40, 32, 24, 16, 8, 57, 49, 41, 33, 25, 17, 9, 1, 59, 51, 43, 35, 27, 19, 11, 3,
    61, 53, 45, 37, 29, 21, 13, 5, 63, 55, 47, 39, 31, 23, 15, 7]"

text \<open>Final permutation, the inverse of \<open>IP\<close>.\<close>

definition FP :: "nat list" where
  "FP = [
    40, 8, 48, 16, 56, 24, 64, 32, 39, 7, 47, 15, 55, 23, 63, 31, 38, 6, 46, 14, 54, 22, 62, 30,
    37, 5, 45, 13, 53, 21, 61, 29, 36, 4, 44, 12, 52, 20, 60, 28, 35, 3, 43, 11, 51, 19, 59, 27,
    34, 2, 42, 10, 50, 18, 58, 26, 33, 1, 41, 9, 49, 17, 57, 25]"

definition PC1_C :: "nat list" where
  "PC1_C = [
    57, 49, 41, 33, 25, 17, 9, 1, 58, 50, 42, 34, 26, 18, 10, 2, 59, 51, 43, 35, 27, 19, 11, 3,
    60, 52, 44, 36]"

definition PC1_D :: "nat list" where
  "PC1_D = [
    63, 55, 47, 39, 31, 23, 15, 7, 62, 54, 46, 38, 30, 22, 14, 6, 61, 53, 45, 37, 29, 21, 13, 5,
    28, 20, 12, 4]"

definition shifts :: "nat list" where
  "shifts = [
    1, 1, 2, 2, 2, 2, 2, 2, 1, 2, 2, 2, 2, 2, 2, 1]"

definition PC2_C :: "nat list" where
  "PC2_C = [
    14, 17, 11, 24, 1, 5, 3, 28, 15, 6, 21, 10, 23, 19, 12, 4, 26, 8, 16, 7, 27, 20, 13, 2]"

definition PC2_D :: "nat list" where
  "PC2_D = [
    41, 52, 31, 37, 47, 55, 30, 40, 51, 45, 33, 48, 44, 49, 39, 56, 34, 53, 46, 42, 50, 36, 29, 32]"

text \<open>The E bit-selection table \<open>e[]\<close>.\<close>

definition e_table :: "nat list" where
  "e_table = [
    32, 1, 2, 3, 4, 5, 4, 5, 6, 7, 8, 9, 8, 9, 10, 11, 12, 13, 12, 13, 14, 15, 16, 17, 16, 17,
    18, 19, 20, 21, 20, 21, 22, 23, 24, 25, 24, 25, 26, 27, 28, 29, 28, 29, 30, 31, 32, 1]"

text \<open>The 8 selection functions, 64 entries each.\<close>

definition S_table :: "nat list" where
  "S_table = [
    14, 4, 13, 1, 2, 15, 11, 8, 3, 10, 6, 12, 5, 9, 0, 7, 0, 15, 7, 4, 14, 2, 13, 1, 10, 6, 12,
    11, 9, 5, 3, 8, 4, 1, 14, 8, 13, 6, 2, 11, 15, 12, 9, 7, 3, 10, 5, 0, 15, 12, 8, 2, 4, 9, 1,
    7, 5, 11, 3, 14, 10, 0, 6, 13, 15, 1, 8, 14, 6, 11, 3, 4, 9, 7, 2, 13, 12, 0, 5, 10, 3, 13,
    4, 7, 15, 2, 8, 14, 12, 0, 1, 10, 6, 9, 11, 5, 0, 14, 7, 11, 10, 4, 13, 1, 5, 8, 12, 6, 9, 3,
    2, 15, 13, 8, 10, 1, 3, 15, 4, 2, 11, 6, 7, 12, 0, 5, 14, 9, 10, 0, 9, 14, 6, 3, 15, 5, 1,
    13, 12, 7, 11, 4, 2, 8, 13, 7, 0, 9, 3, 4, 6, 10, 2, 8, 5, 14, 12, 11, 15, 1, 13, 6, 4, 9, 8,
    15, 3, 0, 11, 1, 2, 12, 5, 10, 14, 7, 1, 10, 13, 0, 6, 9, 8, 7, 4, 15, 14, 3, 11, 5, 2, 12,
    7, 13, 14, 3, 0, 6, 9, 10, 1, 2, 8, 5, 11, 12, 4, 15, 13, 8, 11, 5, 6, 15, 0, 3, 4, 7, 2, 12,
    1, 10, 14, 9, 10, 6, 9, 0, 12, 11, 7, 13, 15, 1, 3, 14, 5, 2, 8, 4, 3, 15, 0, 6, 10, 1, 13,
    8, 9, 4, 5, 11, 12, 7, 2, 14, 2, 12, 4, 1, 7, 10, 11, 6, 8, 5, 3, 15, 13, 0, 14, 9, 14, 11,
    2, 12, 4, 7, 13, 1, 5, 0, 15, 10, 3, 9, 8, 6, 4, 2, 1, 11, 10, 13, 7, 8, 15, 9, 12, 5, 6, 3,
    0, 14, 11, 8, 12, 7, 1, 14, 2, 13, 6, 15, 0, 9, 10, 4, 5, 3, 12, 1, 10, 15, 9, 2, 6, 8, 0,
    13, 3, 4, 14, 7, 5, 11, 10, 15, 4, 2, 7, 12, 9, 5, 6, 1, 13, 14, 0, 11, 3, 8, 9, 14, 15, 5,
    2, 8, 12, 3, 7, 0, 4, 10, 1, 13, 11, 6, 4, 3, 2, 12, 9, 5, 15, 10, 11, 14, 1, 7, 6, 0, 8, 13,
    4, 11, 2, 14, 15, 0, 8, 13, 3, 12, 9, 7, 5, 10, 6, 1, 13, 0, 11, 7, 4, 9, 1, 10, 14, 3, 5,
    12, 2, 15, 8, 6, 1, 4, 11, 13, 12, 3, 7, 14, 10, 15, 6, 8, 0, 5, 9, 2, 6, 11, 13, 8, 1, 4,
    10, 7, 9, 5, 0, 15, 14, 2, 3, 12, 13, 2, 8, 4, 6, 15, 11, 1, 10, 9, 3, 14, 5, 0, 12, 7, 1,
    15, 13, 8, 10, 3, 7, 4, 12, 5, 6, 11, 0, 14, 9, 2, 7, 11, 4, 1, 9, 12, 14, 2, 0, 6, 10, 13,
    15, 3, 5, 8, 2, 1, 14, 7, 4, 10, 8, 13, 15, 12, 9, 0, 3, 5, 6, 11]"

definition P_table :: "nat list" where
  "P_table = [
    16, 7, 20, 21, 29, 12, 28, 17, 1, 15, 23, 26, 5, 18, 31, 10, 2, 8, 24, 14, 32, 27, 3, 9, 19,
    13, 30, 6, 22, 11, 4, 25]"

subsection \<open>The key schedule (setkey)\<close>

text \<open>One left rotation, the inner loops over \<open>j\<close>.\<close>

definition rot :: "u8 list \<Rightarrow> u8 list" where
  "rot c = tl c @ [hd c]"

fun key_rounds :: "nat list \<Rightarrow> u8 list \<Rightarrow> u8 list \<Rightarrow> u8 list list" where
  "key_rounds [] c d = []"
| "key_rounds (k # ks) c d =
     (let c = (rot ^^ k) c; d = (rot ^^ k) d
      in (map (\<lambda>j. c ! (j - 1)) PC2_C @ map (\<lambda>j. d ! (j - 28 - 1)) PC2_D) # key_rounds ks c d)"

definition setkey :: "u8 list \<Rightarrow> u8 list list" where
  "setkey key =
     key_rounds shifts (map (\<lambda>i. key ! (i - 1)) PC1_C) (map (\<lambda>i. key ! (i - 1)) PC1_D)"

subsection \<open>Encryption of a block (encrypt)\<close>

text \<open>The function \<open>f(R, K)\<close> before its permutation.\<close>

definition preS :: "nat list \<Rightarrow> u8 list \<Rightarrow> u8 list \<Rightarrow> u8 list" where
  "preS E lr k = map (\<lambda>j. xor (lr ! (32 + E ! j - 1)) (k ! j)) [0..<48]"

definition select :: "u8 list \<Rightarrow> nat \<Rightarrow> u8 list" where
  "select p j =
     (let t = 6 * j;
          i = unat (p ! t) * 32 + unat (p ! (t + 1)) * 8 + unat (p ! (t + 2)) * 4 +
              unat (p ! (t + 3)) * 2 + unat (p ! (t + 4)) + unat (p ! (t + 5)) * 16;
          k = S_table ! (64 * j + i)
      in [of_nat (k div 8 mod 2), of_nat (k div 4 mod 2), of_nat (k div 2 mod 2), of_nat (k mod 2)])"

definition round_f :: "nat list \<Rightarrow> u8 list \<Rightarrow> u8 list \<Rightarrow> u8 list" where
  "round_f E lr k = concat (map (select (preS E lr k)) [0..<8])"

definition des_round :: "nat list \<Rightarrow> u8 list \<Rightarrow> u8 list \<Rightarrow> u8 list" where
  "des_round E lr k =
     (let f = round_f E lr k
      in drop 32 lr @ map (\<lambda>j. xor (lr ! j) (f ! (P_table ! j - 1))) [0..<32])"

definition encrypt :: "nat list \<Rightarrow> u8 list list \<Rightarrow> bool \<Rightarrow> u8 list \<Rightarrow> u8 list" where
  "encrypt E ks edflag block =
     (let lr = map (\<lambda>j. block ! (IP ! j - 1)) [0..<64];
          lr = foldl (\<lambda>lr ii. des_round E lr (ks ! (if edflag then 15 - ii else ii))) lr [0..<16];
          lr = drop 32 lr @ take 32 lr
      in map (\<lambda>j. lr ! (FP ! j - 1)) [0..<64])"

subsection \<open>Passwords (crypt)\<close>

text \<open>
  The key bits of a password: seven bits of each of the first eight characters and a
  zero.  The string ends at a null character.
\<close>

fun pw_bits :: "u8 list \<Rightarrow> nat \<Rightarrow> u8 list" where
  "pw_bits [] i = []"
| "pw_bits (c # pw) i =
     (if c \<noteq> 0 \<and> i < 64 then map (\<lambda>j. of_bool (bit c (6 - j))) [0..<7] @ [0] @ pw_bits pw (i + 8)
      else [])"

definition pw_block :: "u8 list \<Rightarrow> u8 list" where
  "pw_block pw = (let b = pw_bits pw 0 in b @ replicate (66 - length b) 0)"

text \<open>The number that a salt character stands for; a \<open>char\<close> is signed.\<close>

definition salt_code :: "u8 \<Rightarrow> int" where
  "salt_code ch =
     (let c = sint ch; c = (if c > 90 then c - 6 else c); c = (if c > 57 then c - 7 else c) in c - 46)"

definition swap_at :: "nat \<Rightarrow> nat \<Rightarrow> 'a list \<Rightarrow> 'a list" where
  "swap_at a b xs = xs[a := xs ! b, b := xs ! a]"

definition salt_swaps :: "nat \<Rightarrow> u8 \<Rightarrow> nat list \<Rightarrow> nat list" where
  "salt_swaps i ch E =
     foldl (\<lambda>E j. if bit (salt_code ch) j then swap_at (6 * i + j) (6 * i + j + 24) E else E) E [0..<6]"

text \<open>A character of the result from six bits of the block.\<close>

definition out_char :: "u8 list \<Rightarrow> nat \<Rightarrow> int" where
  "out_char block i =
     (let c = foldl (\<lambda>c j. or (c * 2) (uint (block ! (6 * i + j)))) 0 [0..<6];
          c = c + 46;
          c = (if c > 57 then c + 7 else c)
      in if c > 90 then c + 6 else c)"

text \<open>
  \<open>salt\<close> are the bytes at the second argument, at least two.  The blocks passed to
  \<open>encrypt\<close> are the first 64 of 66 bytes; the last two stay 0.
\<close>

definition crypt :: "u8 list \<Rightarrow> u8 list \<Rightarrow> u8 list" where
  "crypt pw salt =
     (let ks = setkey (pw_block pw);
          E = salt_swaps 1 (salt ! 1) (salt_swaps 0 (salt ! 0) e_table);
          block = ((encrypt E ks False) ^^ 25) (replicate 64 0) @ [0, 0];
          out = map (\<lambda>i. word_of_int (out_char block i)) [0..<11]
      in [salt ! 0, if salt ! 1 = 0 then salt ! 0 else salt ! 1] @ out)"

subsection \<open>Decryption\<close>

definition swap_halves :: "u8 list \<Rightarrow> u8 list" where
  "swap_halves lr = drop 32 lr @ take 32 lr"

lemma length_des_round [simp]: "length lr = 64 \<Longrightarrow> length (des_round E lr k) = 64"
  by (simp add: des_round_def Let_def)

lemma length_swap_halves [simp]: "length lr = 64 \<Longrightarrow> length (swap_halves lr) = 64"
  by (simp add: swap_halves_def)

lemma swap_halves_twice: "length lr = 64 \<Longrightarrow> swap_halves (swap_halves lr) = lr"
  by (simp add: swap_halves_def)

definition selector :: "nat list \<Rightarrow> bool" where
  "selector E \<longleftrightarrow> length E = 48 \<and> (\<forall>x\<in>set E. 1 \<le> x \<and> x \<le> 32)"

text \<open>The function of a round only sees the right half.\<close>


lemma preS_right:
  assumes E: "selector E" and l: "length a = 32" "length c = 32"
  shows "preS E (a @ b) k = preS E (c @ b) k"
proof -
  have "(a @ b) ! (32 + E ! j - 1) = (c @ b) ! (32 + E ! j - 1)" if "j < 48" for j
  proof -
    have "1 \<le> E ! j" using E that by (simp add: selector_def)
    then show ?thesis using l by (simp add: nth_append)
  qed
  then show ?thesis by (simp add: preS_def)
qed

text \<open>Applied to the exchanged halves, a round undoes itself.\<close>

lemma des_round_involution:
  assumes E: "selector E" and lr: "length lr = 64"
  shows "des_round E (swap_halves (des_round E lr k)) k = swap_halves lr"
proof -
  obtain a b where ab: "lr = a @ b" "length a = 32" "length b = 32"
    using lr by (metis append_take_drop_id length_drop length_take min.absorb2 add_diff_cancel_left' numeral_Bit0 le_add1)
  let ?f = "round_f E lr k"
  define c where "c = map (\<lambda>j. xor (a ! j) (?f ! (P_table ! j - 1))) [0..<32]"
  have r: "des_round E lr k = b @ c" using ab by (simp add: des_round_def Let_def c_def nth_append)
  have lc: "length c = 32" by (simp add: c_def)
  have s: "swap_halves (b @ c) = c @ b" using ab by (simp add: swap_halves_def)
  have f: "round_f E (c @ b) k = ?f" unfolding round_f_def ab(1) preS_right [OF E ab(2) lc] ..
  have "map (\<lambda>j. xor ((c @ b) ! j) (?f ! (P_table ! j - 1))) [0..<32] = a"
    using ab(2) lc by (intro nth_equalityI) (simp_all add: nth_append, simp_all add: c_def xor.assoc)
  then have "des_round E (c @ b) k = b @ a"
    using lc f by (simp add: des_round_def Let_def)
  then show ?thesis using r s ab by (simp add: swap_halves_def)
qed

lemma length_rounds [simp]: "length lr = 64 \<Longrightarrow> length (foldl (des_round E) lr ks) = 64"
  by (induction ks arbitrary: lr) simp_all

lemma rounds_undo:
  assumes E: "selector E" and lr: "length lr = 64"
  shows "foldl (des_round E) (swap_halves (foldl (des_round E) lr ks)) (rev ks) = swap_halves lr"
proof (induction ks rule: rev_induct)
  case (snoc k ks)
  then show ?case using des_round_involution [OF E, of "foldl (des_round E) lr ks" k] lr by simp
qed simp

lemma perm_tables:
  "j < 64 \<Longrightarrow> FP ! (IP ! j - 1) = Suc j \<and> IP ! (FP ! j - 1) = Suc j \<and> 1 \<le> IP ! j \<and> IP ! j \<le> 64 \<and> 1 \<le> FP ! j \<and> FP ! j \<le> 64"
proof -
  have "list_all (\<lambda>j. FP ! (IP ! j - 1) = Suc j \<and> IP ! (FP ! j - 1) = Suc j \<and> 1 \<le> IP ! j \<and> IP ! j \<le> 64 \<and> 1 \<le> FP ! j \<and> FP ! j \<le> 64) [0..<64]"
    by code_simp
  then show "j < 64 \<Longrightarrow> ?thesis" by (simp add: list_all_iff)
qed

lemma encrypt_rounds:
  "encrypt E ks edflag block =
     (let lr = map (\<lambda>j. block ! (IP ! j - 1)) [0..<64];
          keys = map (\<lambda>i. ks ! i) [0..<16];
          lr = swap_halves (foldl (des_round E) lr (if edflag then rev keys else keys))
      in map (\<lambda>j. lr ! (FP ! j - 1)) [0..<64])"
proof -
  have r: "map (\<lambda>ii. ks ! (15 - ii)) [0..<16] = rev (map (\<lambda>i. ks ! i) [0..<16])"
    by (rule nth_equalityI) (simp_all add: rev_nth)
  have "foldl (\<lambda>lr ii. des_round E lr (ks ! (if edflag then 15 - ii else ii))) lr [0..<16] =
      foldl (des_round E) lr (if edflag then rev (map (\<lambda>i. ks ! i) [0..<16]) else map (\<lambda>i. ks ! i) [0..<16])" for lr
    unfolding r [symmetric] by (cases edflag) (simp_all only: foldl_map if_True if_False)
  then show ?thesis by (simp only: encrypt_def Let_def swap_halves_def)
qed

text \<open>
  C37: decryption undoes encryption, and the other way round: for every key schedule and
  every selector with entries from 1 to 32, such as the standard one with any salt,
  \<open>encrypt\<close> with one value of \<open>edflag\<close> after \<open>encrypt\<close> with the other gives back
  the block of 64.
\<close>

theorem encrypt_inverse:
  assumes "selector E" "length block = 64"
  shows "encrypt E ks (\<not> edflag) (encrypt E ks edflag block) = block"
proof -
  define lr where "lr = map (\<lambda>j. block ! (IP ! j - 1)) [0..<64]"
  define keys where "keys = (if edflag then rev (map (\<lambda>i. ks ! i) [0..<16]) else map (\<lambda>i. ks ! i) [0..<16])"
  define x where "x = swap_halves (foldl (des_round E) lr keys)"
  have lr: "length lr = 64" and x: "length x = 64" by (simp_all add: lr_def x_def)
  have e: "encrypt E ks edflag block = map (\<lambda>j. x ! (FP ! j - 1)) [0..<64]"
    by (simp only: encrypt_rounds Let_def lr_def keys_def x_def)
  have ip: "map (\<lambda>j. encrypt E ks edflag block ! (IP ! j - 1)) [0..<64] = x"
  proof (rule nth_equalityI)
    fix j assume "j < length (map (\<lambda>j. encrypt E ks edflag block ! (IP ! j - 1)) [0..<64])"
    then have j: "j < 64" by simp
    then have "IP ! j - 1 < 64" using perm_tables [OF j] by linarith
    then show "map (\<lambda>j. encrypt E ks edflag block ! (IP ! j - 1)) [0..<64] ! j = x ! j"
      using perm_tables [OF j] j by (simp add: e)
  qed (simp add: x)
  have k: "(if \<not> edflag then rev (map (\<lambda>i. ks ! i) [0..<16]) else map (\<lambda>i. ks ! i) [0..<16]) = rev keys"
    by (simp add: keys_def)
  have "swap_halves (foldl (des_round E) x (rev keys)) = lr"
    unfolding x_def rounds_undo [OF assms(1) lr] by (rule swap_halves_twice [OF lr])
  then have "encrypt E ks (\<not> edflag) (encrypt E ks edflag block) = map (\<lambda>j. lr ! (FP ! j - 1)) [0..<64]"
    by (simp only: encrypt_rounds [of E ks "\<not> edflag"] Let_def ip k)
  also have "\<dots> = block"
  proof (rule nth_equalityI)
    fix j assume "j < length (map (\<lambda>j. lr ! (FP ! j - 1)) [0..<64])"
    then have j: "j < 64" by simp
    then have "FP ! j - 1 < 64" using perm_tables [OF j] by linarith
    then show "map (\<lambda>j. lr ! (FP ! j - 1)) [0..<64] ! j = block ! j"
      using perm_tables [OF j] j by (simp add: lr_def)
  qed (simp add: assms(2))
  finally show ?thesis .
qed

lemma e_table_selector: "selector e_table"
  unfolding selector_def by code_simp

theorem encrypt_inverse_witness:
  "encrypt e_table (setkey (replicate 64 1)) True
     (encrypt e_table (setkey (replicate 64 1)) False (replicate 64 0)) = replicate 64 0"
  using encrypt_inverse [OF e_table_selector, of "replicate 64 0" "setkey (replicate 64 1)" False] by simp

subsection \<open>The output of crypt\<close>

definition bits :: "u8 list \<Rightarrow> bool" where
  "bits xs \<longleftrightarrow> set xs \<subseteq> {0, 1}"

lemma bits_nth: "\<lbrakk>bits xs; j < length xs\<rbrakk> \<Longrightarrow> xs ! j \<in> {0, 1}"
  unfolding bits_def by (metis nth_mem subsetD)

lemma P_table_range: "j < 32 \<Longrightarrow> P_table ! j - 1 < 32"
proof -
  have "list_all (\<lambda>j. P_table ! j - 1 < 32) [0..<32]" by code_simp
  then show "j < 32 \<Longrightarrow> ?thesis" by (simp add: list_all_iff)
qed

lemma of_nat_mod_2: "of_nat (k mod 2) \<in> {0, 1 :: u8}"
  by (cases "even k") (auto simp: mod_2_eq_odd)

lemma round_f_bits: "length (round_f E lr k) = 32 \<and> bits (round_f E lr k)"
proof -
  have s: "length (select p j) = 4 \<and> bits (select p j)" for p j
    using of_nat_mod_2 by (auto simp: select_def bits_def Let_def)
  have "length (round_f E lr k) = sum_list (map (\<lambda>j. 4) [0..<8])"
    unfolding round_f_def length_concat using s by (simp add: comp_def)
  moreover have "bits (round_f E lr k)" using s by (auto simp: round_f_def bits_def)
  ultimately show ?thesis by (simp add: sum_list_triv)
qed

lemma des_round_bits:
  assumes "bits lr" "length lr = 64"
  shows "bits (des_round E lr k)"
proof -
  have x: "xor a b \<in> {0, 1}" if "a \<in> {0, 1}" "b \<in> {0, 1}" for a b :: u8 using that by auto
  have "xor (lr ! j) (round_f E lr k ! (P_table ! j - 1)) \<in> {0, 1}" if "j < 32" for j
  proof (rule x)
    show "lr ! j \<in> {0, 1}" using bits_nth [of lr j] assms that by simp
    show "round_f E lr k ! (P_table ! j - 1) \<in> {0, 1}"
      using round_f_bits [of E lr k] P_table_range [OF that] bits_nth [of "round_f E lr k"] by metis
  qed
  then have "bits (map (\<lambda>j. xor (lr ! j) (round_f E lr k ! (P_table ! j - 1))) [0..<32])"
    by (fastforce simp: bits_def)
  moreover have "bits (drop 32 lr)" using assms(1) set_drop_subset [of 32 lr] by (auto simp: bits_def)
  ultimately show ?thesis by (simp add: des_round_def Let_def bits_def)
qed

lemma rounds_bits: "\<lbrakk>bits lr; length lr = 64\<rbrakk> \<Longrightarrow> bits (foldl (des_round E) lr ks)"
  by (induction ks arbitrary: lr) (simp_all add: des_round_bits)

lemma perm_bits:
  assumes "bits xs" "length xs = 64" "\<And>j. j < 64 \<Longrightarrow> 1 \<le> p ! j \<and> p ! j \<le> 64"
  shows "bits (map (\<lambda>j. xs ! (p ! j - 1)) [0..<64])"
proof -
  have "xs ! (p ! j - 1) \<in> {0, 1}" if "j < 64" for j
  proof (rule bits_nth [OF assms(1)])
    show "p ! j - 1 < length xs" using assms(2) assms(3) [OF that] by linarith
  qed
  then show ?thesis by (fastforce simp: bits_def)
qed

lemma encrypt_bits:
  assumes "bits block" "length block = 64"
  shows "bits (encrypt E ks ed block) \<and> length (encrypt E ks ed block) = 64"
proof -
  have sw: "bits (swap_halves xs)" if "bits xs" for xs
    using that by (auto simp: bits_def swap_halves_def dest: in_set_dropD in_set_takeD)
  show ?thesis
    unfolding encrypt_rounds Let_def
    by (intro conjI perm_bits sw rounds_bits) (use assms perm_tables in auto)
qed

lemma encrypt_power_bits: "bits (((encrypt E ks ed) ^^ n) (replicate 64 0)) \<and> length (((encrypt E ks ed) ^^ n) (replicate 64 0)) = 64"
  by (induction n) (simp_all add: encrypt_bits, simp add: bits_def)

text \<open>Six bits make a number below 64, and the number one of the 64 characters.\<close>

lemma or_bit: "b \<in> {0, 1} \<Longrightarrow> or (c * 2) (uint (b :: u8)) = c * 2 + uint b"
  by (auto simp: or_one_eq)

lemma six_bits:
  assumes "\<And>j. j < 6 \<Longrightarrow> f j \<in> {0, 1 :: u8}"
  shows "0 \<le> foldl (\<lambda>c j. or (c * 2) (uint (f j))) 0 [0..<6] \<and> foldl (\<lambda>c j. or (c * 2) (uint (f j))) 0 [0..<6] < (64 :: int)"
proof -
  have "0 \<le> foldl (\<lambda>c j. or (c * 2) (uint (f j))) 0 [0..<n] \<and> foldl (\<lambda>c j. or (c * 2) (uint (f j))) 0 [0..<n] < 2 ^ n"
    if "n \<le> 6" for n
    using that
  proof (induction n)
    case (Suc n)
    have "f n \<in> {0, 1}" using assms Suc.prems by simp
    moreover from this have "uint (f n) \<in> {0, 1}" by auto
    ultimately show ?case using Suc by (auto simp: or_bit)
  qed simp
  from this [of 6] show ?thesis by simp
qed

definition crypt_alphabet :: "u8 set" where
  "crypt_alphabet = {46..57} \<union> {65..90} \<union> {97..122}"

lemma out_char_alphabet:
  assumes "\<And>j. j < 6 \<Longrightarrow> block ! (6 * i + j) \<in> {0, 1}"
  shows "word_of_int (out_char block i) \<in> crypt_alphabet"
proof -
  let ?c = "foldl (\<lambda>c j. or (c * 2) (uint (block ! (6 * i + j)))) 0 [0..<6]"
  have c: "0 \<le> ?c" "?c < 64" using six_bits [OF assms] by auto
  have r: "46 \<le> out_char block i \<and> out_char block i \<le> 57 \<or> 65 \<le> out_char block i \<and> out_char block i \<le> 90 \<or>
      97 \<le> out_char block i \<and> out_char block i \<le> 122"
    using c unfolding out_char_def Let_def by (auto split: if_splits)
  have w: "a \<le> word_of_int x \<and> word_of_int x \<le> b" if "uint a \<le> x" "x \<le> uint b" for a b :: u8 and x
  proof -
    have "0 \<le> x" using order_trans [OF uint_nonnegative that(1)] .
    moreover have "x < 256" using that(2) uint_bounded [of b] by simp
    ultimately have "0 \<le> x" "x < 256" .
    then have "uint (word_of_int x :: u8) = x" by (simp add: uint_word_of_int)
    then show ?thesis using that by (simp add: word_le_def)
  qed
  show ?thesis using r w [of 46 _ 57] w [of 65 _ 90] w [of 97 _ 122] by (auto simp: crypt_alphabet_def)
qed

text \<open>
  C38: \<open>crypt\<close> returns 13 characters: the first of the salt, the second or, if that is
  null, the first again, and 11 characters of the alphabet \<open>./0-9A-Za-z\<close>, whatever the
  password and the salt are.
\<close>

theorem crypt_output:
  "length (crypt pw salt) = 13 \<and> crypt pw salt ! 0 = salt ! 0 \<and>
   crypt pw salt ! 1 = (if salt ! 1 = 0 then salt ! 0 else salt ! 1) \<and> set (drop 2 (crypt pw salt)) \<subseteq> crypt_alphabet"
proof -
  define block where "block = ((encrypt (salt_swaps 1 (salt ! 1) (salt_swaps 0 (salt ! 0) e_table)) (setkey (pw_block pw)) False) ^^ 25)
    (replicate 64 0) @ [0, 0]"
  have c: "crypt pw salt = [salt ! 0, if salt ! 1 = 0 then salt ! 0 else salt ! 1] @
      map (\<lambda>i. word_of_int (out_char block i)) [0..<11]"
    by (simp only: crypt_def Let_def block_def)
  have l: "length block = 66" and b: "bits block"
    using encrypt_power_bits by (simp_all add: block_def) (simp add: bits_def)
  have "word_of_int (out_char block i) \<in> crypt_alphabet" if "i < 11" for i
    by (rule out_char_alphabet, rule bits_nth [OF b]) (use l that in simp)
  then show ?thesis unfolding c by auto
qed

end
