(* ===== verification/Calendar.thy ===== *)
theory Calendar
  imports Prelude "HOL-Library.Signed_Division"
begin

section \<open>Dates (libc/gen/ctime.c)\<close>

text \<open>
  The conversion of a time in seconds into a date: \<open>gmtime\<close> with its loops over years
  and months, the rules for daylight saving time in \<open>localtime\<close>, and the 26-character
  string of \<open>asctime\<close>.  Division and remainder are those of C, which round towards zero.
  The zone and the daylight flag that \<open>localtime\<close> asks the system for are arguments.

  The main theorem says that \<open>gmtime\<close> is the inverse of the calendar: the fields are in
  range and the date they name, counted in the Julian calendar (every fourth year a leap
  year), is the given second.
\<close>

record tm =
  tm_sec :: int
  tm_min :: int
  tm_hour :: int
  tm_mday :: int
  tm_mon :: int
  tm_year :: int
  tm_wday :: int
  tm_yday :: int
  tm_isdst :: int

definition dysize :: "int \<Rightarrow> int" where
  "dysize y = (if y smod 4 = 0 then 366 else 365)"

lemma dysize_pos [simp]: "0 < dysize y" "365 \<le> dysize y" "dysize y \<le> 366"
  by (simp_all add: dysize_def)

text \<open>The loops that find the year: the year and the day in it.\<close>

function year_up :: "int \<Rightarrow> int \<Rightarrow> int \<times> int" where
  "year_up y day = (if day \<ge> dysize y then year_up (y + 1) (day - dysize y) else (y, day))"
  by pat_completeness auto
termination
proof (relation "measure (\<lambda>(y, day). nat day)")
  fix y day assume "day \<ge> dysize y"
  with dysize_pos(1) [of y] have "0 < dysize y" "0 < day" by linarith+
  then show "((y + 1, day - dysize y), y, day) \<in> measure (\<lambda>(y, day). nat day)" by simp
qed simp

function year_down :: "int \<Rightarrow> int \<Rightarrow> int \<times> int" where
  "year_down y day = (if day < 0 then year_down (y - 1) (day + dysize (y - 1)) else (y, day))"
  by pat_completeness auto
termination
proof (relation "measure (\<lambda>(y, day). nat (- day))")
  fix y day :: int assume "day < 0"
  then show "((y - 1, day + dysize (y - 1)), y, day) \<in> measure (\<lambda>(y, day). nat (- day))"
    using dysize_pos(1) [of "y - 1"] by simp
qed simp

declare year_up.simps [simp del] year_down.simps [simp del]

text \<open>
  \<open>dmsize\<close>, with the second entry that \<open>gmtime\<close> sets for the time of the loop over
  the months.
\<close>

definition dmsize :: "int \<Rightarrow> int list" where
  "dmsize y = [31, if dysize y = 366 then 29 else 28, 31, 30, 31, 30, 31, 31, 30, 31, 30, 31]"

text \<open>The loop over the months: the month and the day in it.\<close>

fun month_loop :: "int list \<Rightarrow> int \<Rightarrow> int \<Rightarrow> int \<times> int" where
  "month_loop [] m d = (m, d)"
| "month_loop (k # ks) m d = (if d \<ge> k then month_loop ks (m + 1) (d - k) else (m, d))"

definition gmtime :: "int \<Rightarrow> tm" where
  "gmtime tim =
     (let hms = tim smod 86400;
          day = tim sdiv 86400;
          (hms, day) = (if hms < 0 then (hms + 86400, day - 1) else (hms, day));
          d1 = hms sdiv 60;
          wday = (day + 7340036) smod 7;
          (year, yday) = (if day \<ge> 0 then year_up 70 day else year_down 70 day);
          (mon, d0) = month_loop (dmsize year) 0 yday
      in \<lparr>tm_sec = hms smod 60, tm_min = d1 smod 60, tm_hour = d1 sdiv 60, tm_mday = d0 + 1, tm_mon = mon,
          tm_year = year, tm_wday = wday, tm_yday = yday, tm_isdst = 0\<rparr>)"

subsection \<open>Local time\<close>

definition sunday :: "tm \<Rightarrow> int \<Rightarrow> int" where
  "sunday t d =
     (let d = (if d \<ge> 58 then d + dysize (tm_year t) - 365 else d)
      in d - (d - tm_yday t + tm_wday t + 700) smod 7)"

text \<open>\<open>timezone\<close> and \<open>dstflag\<close> are what \<open>ftime\<close> reports.\<close>

definition localtime :: "int \<Rightarrow> bool \<Rightarrow> int \<Rightarrow> tm" where
  "localtime timezone dstflag tim =
     (let copyt = tim - timezone * 60;
          ct = gmtime copyt;
          dayno = tm_yday ct;
          (daylbegin, daylend) =
            (if tm_year ct = 74 then (5, 333) else if tm_year ct = 75 then (58, 303) else (119, 303));
          daylbegin = sunday ct daylbegin;
          daylend = sunday ct daylend
      in if dstflag \<and> (dayno > daylbegin \<or> dayno = daylbegin \<and> tm_hour ct \<ge> 2) \<and>
            (dayno < daylend \<or> dayno = daylend \<and> tm_hour ct < 1)
         then (gmtime (copyt + 3600))\<lparr>tm_isdst := 1\<rparr>
         else ct)"

subsection \<open>Strings\<close>

definition digit :: "int \<Rightarrow> char" where
  "digit n = char_of (nat (n + 48))"

text \<open>\<open>ct_numb\<close> skips a character and writes two.\<close>

definition ct_numb :: "char \<Rightarrow> int \<Rightarrow> string" where
  "ct_numb skipped n =
     [skipped, if n \<ge> 10 then digit ((n sdiv 10) smod 10) else CHR '' '', digit (n smod 10)]"

definition asctime :: "tm \<Rightarrow> string" where
  "asctime t =
     take 3 (drop (nat (3 * tm_wday t)) ''SunMonTueWedThuFriSat'') @ '' '' @
     take 3 (drop (nat (3 * tm_mon t)) ''JanFebMarAprMayJunJulAugSepOctNovDec'') @
     ct_numb (CHR '' '') (tm_mday t) @
     ct_numb (CHR '' '') (tm_hour t + 100) @
     ct_numb (CHR '':'') (tm_min t + 100) @
     ct_numb (CHR '':'') (tm_sec t + 100) @
     '' '' @ (if tm_year t \<ge> 100 then ''20'' else ''19'') @
     tl (ct_numb (CHR ''0'') (tm_year t + 100)) @ ''\<newline>''"

definition ctime :: "int \<Rightarrow> bool \<Rightarrow> int \<Rightarrow> string" where
  "ctime timezone dstflag t = asctime (localtime timezone dstflag t)"

subsection \<open>The calendar\<close>

text \<open>
  Days from 1 January 1970 to 1 January of year \<open>1900 + y\<close>, in closed form, and the
  second that a date names.
\<close>

definition days_before :: "int \<Rightarrow> int" where
  "days_before y = 365 * (y - 70) + (y - 69) div 4"

definition year_day :: "tm \<Rightarrow> int" where
  "year_day c = sum_list (take (nat (tm_mon c)) (dmsize (tm_year c))) + tm_mday c - 1"

definition date_seconds :: "tm \<Rightarrow> int" where
  "date_seconds c =
     (((days_before (tm_year c) + year_day c) * 24 + tm_hour c) * 60 + tm_min c) * 60 + tm_sec c"

definition valid_date :: "tm \<Rightarrow> bool" where
  "valid_date c \<longleftrightarrow>
     0 \<le> tm_sec c \<and> tm_sec c < 60 \<and> 0 \<le> tm_min c \<and> tm_min c < 60 \<and>
     0 \<le> tm_hour c \<and> tm_hour c < 24 \<and> 0 \<le> tm_mon c \<and> tm_mon c < 12 \<and>
     1 \<le> tm_mday c \<and> tm_mday c \<le> dmsize (tm_year c) ! nat (tm_mon c) \<and>
     tm_yday c = year_day c \<and>
     tm_wday c = (days_before (tm_year c) + year_day c + 4) mod 7"

lemma smod_zero_iff: "(a smod b = 0) \<longleftrightarrow> b dvd (a :: int)"
  by (simp add: signed_modulo_int_def sgn_mult mod_eq_0_iff_dvd sgn_0_0) auto

lemma dysize_leap: "dysize y = (if y mod 4 = 0 then 366 else 365)"
  by (simp add: dysize_def smod_zero_iff mod_eq_0_iff_dvd)

lemma days_before_Suc: "days_before (y + 1) = days_before y + dysize y"
proof -
  have "(y - 68) div 4 = (y - 69) div 4 + (if y mod 4 = 0 then 1 else 0)" by presburger
  then show ?thesis by (simp add: days_before_def dysize_leap)
qed

lemma days_before_70 [simp]: "days_before 70 = 0"
  by (simp add: days_before_def)

lemma year_up_correct:
  assumes "0 \<le> day" "year_up y day = (y', d')"
  shows "days_before y' + d' = days_before y + day \<and> 0 \<le> d' \<and> d' < dysize y'"
  using assms
proof (induction y day rule: year_up.induct)
  case (1 y day)
  then show ?case
    by (cases "dysize y \<le> day") (auto simp: year_up.simps [of y day] days_before_Suc)
qed

lemma year_down_correct:
  assumes "day < dysize y" "year_down y day = (y', d')"
  shows "days_before y' + d' = days_before y + day \<and> 0 \<le> d' \<and> d' < dysize y'"
  using assms
proof (induction y day rule: year_down.induct)
  case (1 y day)
  then show ?case
    using days_before_Suc [of "y - 1"]
    by (cases "day < 0") (auto simp: year_down.simps [of y day])
qed

lemma month_loop_correct:
  assumes "0 \<le> d" "d < sum_list ks" "month_loop ks m d = (m', d')"
  shows "m \<le> m' \<and> m' < m + int (length ks) \<and> 0 \<le> d' \<and> d' < ks ! nat (m' - m) \<and>
    sum_list (take (nat (m' - m)) ks) + d' = d"
  using assms
proof (induction ks arbitrary: m d)
  case (Cons k ks)
  show ?case
  proof (cases "d \<ge> k")
    case True
    with Cons.prems Cons.IH [of "d - k" "m + 1"]
    have *: "m + 1 \<le> m'" "m' < m + 1 + int (length ks)" "0 \<le> d'" "d' < ks ! nat (m' - (m + 1))"
      "sum_list (take (nat (m' - (m + 1))) ks) + d' = d - k" by auto
    then have "nat (m' - m) = Suc (nat (m' - (m + 1)))" by simp
    with * show ?thesis by simp
  qed (use Cons.prems in auto)
qed simp

lemma sum_dmsize: "sum_list (dmsize y) = dysize y"
  by (simp add: dmsize_def dysize_def)

lemma length_dmsize [simp]: "length (dmsize y) = 12"
  by (simp add: dmsize_def)

text \<open>Division of C by a positive number, corrected as the code does it, is floor division.\<close>

lemma floor_division:
  fixes a b :: int
  assumes "0 < b"
  shows "(if a smod b < 0 then (a smod b + b, a sdiv b - 1) else (a smod b, a sdiv b)) = (a mod b, a div b)"
proof -
  have e: "a sdiv b * b + a smod b = a" by (simp add: sdiv_mult_smod_eq)
  have r: "- b < a smod b" "a smod b < b"
    using assms pos_mod_bound [OF assms, of "\<bar>a\<bar>"] pos_mod_sign [OF assms, of "\<bar>a\<bar>"]
    by (cases a "0 :: int" rule: linorder_cases; simp add: signed_modulo_int_def)+
  define q where "q = (if a smod b < 0 then a sdiv b - 1 else a sdiv b)"
  define m where "m = (if a smod b < 0 then a smod b + b else a smod b)"
  have "a = q * b + m" "0 \<le> m" "m < b"
    using e r by (auto simp: q_def m_def algebra_simps)
  then have "a mod b = m" "a div b = q" using assms by (auto simp: int_div_pos_eq int_mod_pos_eq)
  then show ?thesis by (auto simp: q_def m_def)
qed

lemma smod_sdiv_nonneg: "0 \<le> (a :: int) \<Longrightarrow> 0 < b \<Longrightarrow> a smod b = a mod b \<and> a sdiv b = a div b"
  by (cases "a = 0") (auto simp: signed_modulo_int_def signed_divide_int_def)

text \<open>
  C39: For every time that fits in 32 bits, before 1970 too, \<open>gmtime\<close> returns a valid date
  (every field in its range, the day of the month at most the length of that month, the day
  of the year and the day of the week those of the date) and the second that this date names
  in the calendar is the given one.
\<close>

theorem gmtime_correct:
  assumes "- (2 ^ 31) \<le> t" "t < 2 ^ 31"
  shows "valid_date (gmtime t) \<and> date_seconds (gmtime t) = t"
proof -
  define day hms where "day = t div 86400" and "hms = t mod 86400"
  have t: "t = day * 86400 + hms" and hms: "0 \<le> hms" "hms < 86400" and day: "- 24856 \<le> day"
    using assms by (auto simp: day_def hms_def)
  obtain y yd where y: "(if day \<ge> 0 then year_up 70 day else year_down 70 day) = (y, yd)"
    by fastforce
  have yd: "days_before y + yd = day \<and> 0 \<le> yd \<and> yd < dysize y"
    using year_up_correct [of day 70 y yd] year_down_correct [of day 70 y yd] y
    by (cases "day \<ge> 0") (simp_all add: dysize_def)
  obtain m d where m: "month_loop (dmsize y) 0 yd = (m, d)" by fastforce
  have md: "0 \<le> m \<and> m < 12 \<and> 0 \<le> d \<and> d < dmsize y ! nat m \<and> sum_list (take (nat m) (dmsize y)) + d = yd"
    using month_loop_correct [OF _ _ m] yd by (simp add: sum_dmsize)
  have w: "(day + 7340036) smod 7 = (day + 4) mod 7"
  proof -
    have "(day + 7340036) smod 7 = (day + 7340036) mod 7" using day by (simp add: smod_sdiv_nonneg)
    then show ?thesis by presburger
  qed
  have g: "gmtime t = \<lparr>tm_sec = hms mod 60, tm_min = hms div 60 mod 60, tm_hour = hms div 60 div 60,
      tm_mday = d + 1, tm_mon = m, tm_year = y, tm_wday = (day + 4) mod 7, tm_yday = yd, tm_isdst = 0\<rparr>"
    unfolding gmtime_def Let_def floor_division [of 86400 t, simplified] day_def [symmetric] hms_def [symmetric]
    using hms y m w by (cases "0 \<le> day") (simp_all add: smod_sdiv_nonneg)
  have "year_day (gmtime t) = yd" using md by (simp add: g year_day_def)
  moreover have "hms div 60 div 60 < 24" "0 \<le> hms div 60 div 60" using hms by simp_all
  ultimately have "valid_date (gmtime t)" using md yd hms by (simp add: valid_date_def g)
  moreover have "date_seconds (gmtime t) = t"
  proof -
    have "((hms div 60 div 60) * 60 + hms div 60 mod 60) * 60 + hms mod 60 = hms"
      by (metis div_mult_mod_eq)
    moreover have "date_seconds (gmtime t) =
      ((day * 24 + hms div 60 div 60) * 60 + hms div 60 mod 60) * 60 + hms mod 60"
      unfolding date_seconds_def \<open>year_day (gmtime t) = yd\<close> using yd by (simp add: g)
    moreover have "((a * 24 + h) * 60 + m) * 60 + s = a * 86400 + ((h * 60 + m) * 60 + s)" for a h m s :: int
      by (simp add: algebra_simps)
    ultimately show ?thesis by (simp only: t)
  qed
  ultimately show ?thesis ..
qed

theorem gmtime_correct_witness:
  "valid_date (gmtime (-1)) \<and> date_seconds (gmtime (-1)) = -1"
  using gmtime_correct [of "-1"] by simp

subsection \<open>Daylight saving time\<close>

lemma year_day_range:
  assumes "valid_date c"
  shows "0 \<le> year_day c" "year_day c < dysize (tm_year c)"
proof -
  define n ks where "n = nat (tm_mon c)" and "ks = dmsize (tm_year c)"
  have n: "n < length ks" and d: "1 \<le> tm_mday c" "tm_mday c \<le> ks ! n"
    using assms by (auto simp: valid_date_def n_def ks_def)
  have pos: "0 \<le> k" if "k \<in> set ks" for k using that by (auto simp: ks_def dmsize_def split: if_splits)
  have "sum_list ks = sum_list (take n ks) + ks ! n + sum_list (drop (Suc n) ks)"
    using n by (metis add.assoc append_take_drop_id Cons_nth_drop_Suc sum_list.Cons sum_list_append)
  moreover have "0 \<le> sum_list (drop (Suc n) ks)" "0 \<le> sum_list (take n ks)"
    by (auto intro!: sum_list_nonneg intro: pos dest: in_set_dropD in_set_takeD)
  ultimately show "0 \<le> year_day c" "year_day c < dysize (tm_year c)"
    using d sum_dmsize [of "tm_year c"] by (auto simp: year_day_def n_def ks_def)
qed

text \<open>
  For a valid date, \<open>sunday\<close> gives a Sunday: the day \<open>s\<close> of the year it returns is a
  Sunday by the calendar, and it is the last one not after the day asked for (counted past
  29 February in a leap year).
\<close>

theorem sunday_correct:
  assumes "valid_date c" "0 \<le> d" "d \<le> 365"
  defines "e \<equiv> (if d \<ge> 58 \<and> tm_year c mod 4 = 0 then d + 1 else d)"
  shows "(days_before (tm_year c) + sunday c d + 4) mod 7 = 0 \<and> sunday c d \<le> e \<and> e < sunday c d + 7"
proof -
  define w yd b where "w = tm_wday c" and "yd = tm_yday c" and "b = days_before (tm_year c)"
  have yd: "0 \<le> yd" "yd \<le> 365" and w: "w = (b + yd + 4) mod 7"
    using year_day_range [OF assms(1)] assms(1)
    by (auto simp: valid_date_def w_def yd_def b_def dysize_def split: if_splits)
  have e: "(if d \<ge> 58 then d + dysize (tm_year c) - 365 else d) = e" and "0 \<le> e"
    using assms(2) by (auto simp: e_def dysize_leap)
  have "0 \<le> e - yd + w + 700" using yd \<open>0 \<le> e\<close> by (simp add: w)
  then have s: "sunday c d = e - (e - yd + w + 700) mod 7"
    unfolding sunday_def e Let_def by (simp add: smod_sdiv_nonneg w_def yd_def)
  have "(e - yd + w + 700) mod 7 = (e - yd + (b + yd + 4) + 700) mod 7"
    unfolding w by (metis mod_add_left_eq mod_add_right_eq)
  also have "e - yd + (b + yd + 4) + 700 = (b + e + 4) + 7 * 100" by simp
  also have "((b + e + 4) + 7 * 100) mod 7 = (b + e + 4) mod 7" by (rule mod_mult_self2)
  finally have m: "sunday c d = e - (b + e + 4) mod 7" by (simp add: s)
  have "b + sunday c d + 4 = (b + e + 4) - (b + e + 4) mod 7" by (simp add: m)
  then have "(b + sunday c d + 4) mod 7 = 0" by (simp add: minus_mod_eq_mult_div)
  moreover have "0 \<le> (b + e + 4) mod 7" "(b + e + 4) mod 7 < 7" by simp_all
  ultimately show ?thesis by (auto simp: m b_def)
qed

theorem sunday_correct_witness:
  "(days_before 70 + sunday (gmtime 0) 119 + 4) mod 7 = 0 \<and> sunday (gmtime 0) 119 \<le> 119 \<and>
    119 < sunday (gmtime 0) 119 + 7"
proof -
  have g: "gmtime 0 = \<lparr>tm_sec = 0, tm_min = 0, tm_hour = 0, tm_mday = 1, tm_mon = 0,
      tm_year = 70, tm_wday = 4, tm_yday = 0, tm_isdst = 0\<rparr>"
    by (simp add: gmtime_def year_up.simps [of 70 0] dysize_def dmsize_def signed_modulo_int_def
        signed_divide_int_def)
  show ?thesis
    using sunday_correct [of "gmtime 0" 119]
    by (simp add: g valid_date_def year_day_def dmsize_def)
qed

end
