(* ===== verification/Malloc.thy ===== *)
theory Malloc
  imports Prelude
begin

section \<open>The storage allocator of the C library (libc/gen/malloc.c, calloc.c)\<close>

text \<open>
  The arena is a circular list of blocks in ascending order.  The first word of a block holds the
  address of the next block and, in its lowest bit, whether the block is in use; the last word of
  the arena, \<open>alloct\<close>, is an empty block that leads back to the start.  Memory is a function from
  word numbers to 16-bit words; a pointer is the number of a word, its value in memory is twice
  that.  Pointers and unsigned numbers wrap around at the size of the address space.

  \<open>sbrk\<close> (assembler) keeps the end of the data segment, \<open>nd\<close>; whether the system grants a new end is
  the parameter \<open>grant\<close>.  The assertions and \<open>allock\<close> are compiled for debugging only.

  The theorems: every search ends; a block that is handed out is as long as asked for and
  overlaps no block in use; nothing in a block in use changes; \<open>realloc\<close> keeps the contents; and what
  happens after a failure.  They are for requests of at most 60000 bytes: beyond 64508 bytes
  \<open>temp\<close> overflows, and \<open>nbytes + 3\<close> wraps around beyond 65532.
\<close>

record arena =
  mem :: "nat \<Rightarrow> nat"
  allocs :: nat
  allocp :: nat
  alloct :: nat
  allocx :: nat
  nd :: nat

definition words :: nat where "words = 32768"

definition testbusy :: "nat \<Rightarrow> bool" where "testbusy v = odd v"
definition setbusy :: "nat \<Rightarrow> nat" where "setbusy v = (if odd v then v else v + 1)"
definition clearbusy :: "nat \<Rightarrow> nat" where "clearbusy v = (if odd v then v - 1 else v)"

text \<open>The word a value points to, the value of a pointer, and \<open>p + n\<close>.\<close>

definition deref :: "nat \<Rightarrow> nat" where "deref v = v div 2"
definition addr :: "nat \<Rightarrow> nat" where "addr p = 2 * p"
definition padd :: "nat \<Rightarrow> int \<Rightarrow> nat" where "padd p n = nat ((int p + n) mod int words)"

text \<open>\<open>temp\<close> and the difference of two pointers are signed numbers of 16 bits; division truncates.\<close>

definition wrap16 :: "int \<Rightarrow> int" where "wrap16 x = (x + 32768) mod 65536 - 32768"
definition cdiv :: "int \<Rightarrow> int \<Rightarrow> int" where "cdiv a b = (if a < 0 then - ((- a) div b) else a div b)"
definition pdiff :: "nat \<Rightarrow> nat \<Rightarrow> int" where "pdiff p q = cdiv (wrap16 (2 * (int p - int q))) 2"

definition setptr :: "nat \<Rightarrow> nat \<Rightarrow> arena \<Rightarrow> arena" where
  "setptr p v s = s\<lparr>mem := (mem s)(p := v)\<rparr>"

subsection \<open>malloc\<close>

text \<open>The idle blocks that follow \<open>p\<close> become part of it; the result is the block behind.\<close>

fun coalesce :: "nat \<Rightarrow> nat \<Rightarrow> arena \<Rightarrow> (nat \<times> arena) option" where
  "coalesce 0 p s = None"
| "coalesce (Suc k) p s =
     (let q = deref (mem s p)
      in if \<not> testbusy (mem s q) then coalesce k p (setptr p (mem s q) s) else Some (q, s))"

datatype outcome = Found nat nat | Corrupt | Around nat

fun malloc_search :: "nat \<Rightarrow> nat \<Rightarrow> nat \<Rightarrow> nat \<Rightarrow> arena \<Rightarrow> (outcome \<times> arena) option" where
  "malloc_search 0 nw p temp s = None"
| "malloc_search (Suc k) nw p temp s =
     (case (if \<not> testbusy (mem s p)
            then map_option (\<lambda>(q, s). (if padd p (int nw) \<le> q \<and> p \<le> padd p (int nw) then Some q else None, s)) (coalesce words p s)
            else Some (None, s)) of
        None \<Rightarrow> None
      | Some (Some q, s) \<Rightarrow> Some (Found p q, s)
      | Some (None, s) \<Rightarrow>
          let q = p; p = deref (clearbusy (mem s p))
          in if q < p then malloc_search k nw p temp s
             else if q \<noteq> alloct s \<or> p \<noteq> allocs s then Some (Corrupt, s)
             else if 1 < temp + 1 then Some (Around p, s)
             else malloc_search k nw p (temp + 1) s)"

text \<open>The words asked for, in units of 512.\<close>

definition core_words :: "nat \<Rightarrow> int" where
  "core_words nw = wrap16 (cdiv (wrap16 (int nw + 512)) 512 * 512)"

definition sbrk :: "(nat \<Rightarrow> bool) \<Rightarrow> int \<Rightarrow> arena \<Rightarrow> nat option \<times> arena" where
  "sbrk grant n s =
     (if n mod int words = 0 then (Some (nd s), s)
      else if grant (padd (nd s) n) then (Some (nd s), s\<lparr>nd := padd (nd s) n\<rparr>)
      else (None, s))"

text \<open>More core at the end of the arena; a gap before it is noted as a block in use.\<close>

definition more_core :: "(nat \<Rightarrow> bool) \<Rightarrow> nat \<Rightarrow> arena \<Rightarrow> arena option \<times> arena" where
  "more_core grant nw s =
     (let temp = core_words nw
      in if padd (nd s) (temp + 64) < nd s then (None, s)
         else case sbrk grant temp s of
           (None, s) \<Rightarrow> (None, s)
         | (Some q, s) \<Rightarrow>
             let s = setptr (alloct s) (addr q) s;
                 s = (if q \<noteq> padd (alloct s) 1 then setptr (alloct s) (setbusy (mem s (alloct s))) s else s);
                 t = padd q (temp - 1);
                 s = (setptr q (addr t) s)\<lparr>alloct := t\<rparr>;
                 s = setptr t (setbusy (addr (allocs s))) s
             in (Some s, s))"

definition arena_found :: "nat \<Rightarrow> nat \<Rightarrow> nat \<Rightarrow> arena \<Rightarrow> nat \<times> arena" where
  "arena_found nw p q s =
     (let s = s\<lparr>allocp := padd p (int nw)\<rparr>;
          s = (if allocp s < q then setptr (allocp s) (mem s p) (s\<lparr>allocx := mem s (allocp s)\<rparr>) else s);
          s = setptr p (setbusy (addr (allocp s))) s
      in (padd p 1, s))"

fun malloc_loop :: "nat \<Rightarrow> (nat \<Rightarrow> bool) \<Rightarrow> nat \<Rightarrow> nat \<Rightarrow> arena \<Rightarrow> (nat option \<times> arena) option" where
  "malloc_loop 0 grant nw p s = None"
| "malloc_loop (Suc k) grant nw p s =
     (case malloc_search (3 * words) nw p 0 s of
        None \<Rightarrow> None
      | Some (Found p q, s) \<Rightarrow> (case arena_found nw p q s of (r, s) \<Rightarrow> Some (Some r, s))
      | Some (Corrupt, s) \<Rightarrow> Some (None, s)
      | Some (Around p, s) \<Rightarrow>
          (case more_core grant nw s of
             (None, s) \<Rightarrow> Some (None, s)
           | (Some _, s) \<Rightarrow> malloc_loop k grant nw p s))"

definition malloc_init :: "arena \<Rightarrow> arena" where
  "malloc_init s =
     (if mem s (allocs s) = 0 then
        (setptr (allocs s + 1) (setbusy (addr (allocs s))) (setptr (allocs s) (setbusy (addr (allocs s + 1))) s))
          \<lparr>alloct := allocs s + 1, allocp := allocs s\<rparr>
      else s)"

definition malloc_words :: "nat \<Rightarrow> nat" where
  "malloc_words nbytes = ((nbytes + 3) mod 65536) div 2"

text \<open>The result \<^const>\<open>None\<close> means that a bound on the loops was reached; \<open>Some (None, s)\<close> is a null pointer.\<close>

definition libc_malloc :: "(nat \<Rightarrow> bool) \<Rightarrow> nat \<Rightarrow> arena \<Rightarrow> (nat option \<times> arena) option" where
  "libc_malloc grant nbytes s =
     (let s = malloc_init s in malloc_loop 3 grant (malloc_words nbytes) (allocp s) s)"

subsection \<open>free, realloc, calloc\<close>

definition libc_free :: "nat \<Rightarrow> arena \<Rightarrow> arena" where
  "libc_free ap s =
     (let p = padd ap (-1); s = s\<lparr>allocp := p\<rparr> in setptr p (clearbusy (mem s p)) s)"

fun copy_words :: "nat \<Rightarrow> nat \<Rightarrow> nat \<Rightarrow> arena \<Rightarrow> arena" where
  "copy_words 0 t q s = s"
| "copy_words (Suc n) t q s = copy_words n (padd t 1) (padd q 1) (setptr t (mem s q) s)"

text \<open>The old contents are copied, at most \<open>nw\<close> words; \<open>allocx\<close> is a word that \<open>malloc\<close> has overwritten.\<close>

definition realloc_move :: "nat \<Rightarrow> nat \<Rightarrow> nat \<Rightarrow> nat \<Rightarrow> arena \<Rightarrow> arena" where
  "realloc_move q p nw onw s =
     (let onw = (if nw < onw then nw else onw);
          s = copy_words onw q p s;
          e = padd q (int nw)
      in if q < p \<and> p \<le> e then setptr (padd q (int e - int p)) (allocx s) s else s)"

definition realloc :: "(nat \<Rightarrow> bool) \<Rightarrow> nat \<Rightarrow> nat \<Rightarrow> arena \<Rightarrow> (nat option \<times> arena) option" where
  "realloc grant p nbytes s =
     (let s = (if testbusy (mem s (padd p (-1))) then libc_free p s else s);
          onw = nat (pdiff (deref (mem s (padd p (-1)))) p mod 65536)
      in case libc_malloc grant nbytes s of
           None \<Rightarrow> None
         | Some (None, s) \<Rightarrow> Some (None, s)
         | Some (Some q, s) \<Rightarrow>
             if q = p then Some (Some q, s)
             else Some (Some q, realloc_move q p (((nbytes + 1) mod 65536) div 2) onw s))"

fun clear_words :: "nat \<Rightarrow> nat \<Rightarrow> arena \<Rightarrow> arena" where
  "clear_words 0 q s = s"
| "clear_words (Suc m) q s = clear_words m (padd q 1) (setptr q 0 s)"

text \<open>The count \<open>m\<close> is a signed number, so nothing is cleared if it is negative.\<close>

definition calloc :: "(nat \<Rightarrow> bool) \<Rightarrow> nat \<Rightarrow> nat \<Rightarrow> arena \<Rightarrow> (nat option \<times> arena) option" where
  "calloc grant num sz s =
     (let num = (num * sz) mod 65536
      in case libc_malloc grant num s of
           None \<Rightarrow> None
         | Some (None, s) \<Rightarrow> Some (None, s)
         | Some (Some mp, s) \<Rightarrow> Some (Some mp, clear_words (nat (wrap16 (int (((num + 1) mod 65536) div 2)))) mp s))"

definition cfree :: "nat \<Rightarrow> nat \<Rightarrow> nat \<Rightarrow> arena \<Rightarrow> arena" where
  "cfree p num sz s = libc_free p s"

subsection \<open>The arena as a list of blocks\<close>

text \<open>\<open>chained m xs\<close>: every word of \<open>xs\<close> leads to the next one, and they ascend.\<close>

fun chained :: "(nat \<Rightarrow> nat) \<Rightarrow> nat list \<Rightarrow> bool" where
  "chained m (x # y # zs) \<longleftrightarrow> deref (m x) = y \<and> x < y \<and> chained m (y # zs)"
| "chained m xs \<longleftrightarrow> True"

text \<open>The blocks in use, each from its first word to the first word of the next block.\<close>

fun used :: "(nat \<Rightarrow> nat) \<Rightarrow> nat list \<Rightarrow> (nat \<times> nat) set" where
  "used m (x # y # zs) = (if testbusy (m x) then {(x, y)} else {}) \<union> used m (y # zs)"
| "used m xs = {}"

definition arena_ok :: "arena \<Rightarrow> nat list \<Rightarrow> bool" where
  [inv_simps]: "arena_ok s xs \<longleftrightarrow> chained (mem s) xs \<and> xs \<noteq> [] \<and> hd xs = allocs s \<and> last xs = alloct s \<and>
     mem s (alloct s) = setbusy (addr (allocs s)) \<and> 0 < allocs s \<and> alloct s < nd s \<and> nd s < words"

lemmas ptr_defs = testbusy_def setbusy_def clearbusy_def deref_def addr_def

lemma chained_append: "chained m (us @ x # vs) \<longleftrightarrow> chained m (us @ [x]) \<and> chained m (x # vs)"
proof (induction us)
  case (Cons u us)
  then show ?case by (cases us) auto
qed simp

lemma used_append: "used m (us @ x # vs) = used m (us @ [x]) \<union> used m (x # vs)"
proof (induction us)
  case (Cons u us)
  then show ?case by (cases us) auto
qed simp

lemma chained_sorted: "chained m xs \<Longrightarrow> sorted_wrt (<) xs"
proof (induction xs)
  case (Cons x xs)
  then show ?case by (cases xs) force+
qed simp

lemma chained_cong: "(\<And>x. x \<in> set (butlast xs) \<Longrightarrow> m x = m' x) \<Longrightarrow> chained m xs = chained m' xs"
proof (induction xs)
  case (Cons x xs)
  then show ?case by (cases xs) auto
qed simp

lemma used_cong: "(\<And>x. x \<in> set (butlast xs) \<Longrightarrow> m x = m' x) \<Longrightarrow> used m xs = used m' xs"
proof (induction xs)
  case (Cons x xs)
  then show ?case by (cases xs) auto
qed simp

lemma chained_upd [simp]: "p \<notin> set xs \<Longrightarrow> chained (m(p := v)) xs = chained m xs"
  by (rule chained_cong) (auto dest: in_set_butlastD)

lemma used_upd [simp]: "p \<notin> set xs \<Longrightarrow> used (m(p := v)) xs = used m xs"
  by (rule used_cong) (auto dest: in_set_butlastD)

lemma snoc_upd:
  assumes "p \<notin> set us"
  shows "chained (m(p := v)) (us @ [p]) = chained m (us @ [p])" "used (m(p := v)) (us @ [p]) = used m (us @ [p])"
  using assms by (auto intro!: chained_cong used_cong)

lemma used_bounds: "chained m xs \<Longrightarrow> (a, b) \<in> used m xs \<Longrightarrow> a \<in> set xs \<and> b \<in> set xs \<and> a < b \<and> testbusy (m a)"
proof (induction xs)
  case (Cons x xs)
  then show ?case by (cases xs) (auto split: if_splits)
qed simp

text \<open>No element lies inside a block, so two blocks do not overlap.\<close>

lemma used_gap: "chained m xs \<Longrightarrow> (a, b) \<in> used m xs \<Longrightarrow> c \<in> set xs \<Longrightarrow> c \<le> a \<or> b \<le> c"
proof (induction xs)
  case (Cons x xs)
  show ?case
  proof (cases xs)
    case Nil
    then show ?thesis using Cons by simp
  next
    case [simp]: (Cons y zs)
    have s: "sorted_wrt (<) (x # y # zs)" using chained_sorted [OF Cons.prems(1)] by simp
    show ?thesis
    proof (cases "(a, b) \<in> used m (y # zs)")
      case True
      then have "x < a" using used_bounds [of m "y # zs" a b] Cons.prems(1) s by auto
      then show ?thesis using Cons.IH [OF _ _] True Cons.prems by auto
    next
      case False
      then have "a = x" "b = y" using Cons.prems(2) by (auto split: if_splits)
      then show ?thesis using Cons.prems(3) s by auto
    qed
  qed
qed simp

lemma chained_length: "chained m xs \<Longrightarrow> xs \<noteq> [] \<Longrightarrow> length xs \<le> Suc (last xs)"
proof (induction xs rule: rev_induct)
  case (snoc x xs)
  show ?case
  proof (cases xs rule: rev_cases)
    case (snoc ys y)
    have "chained m xs" "y < x" using snoc.prems(1) chained_append [of m ys y "[x]"] snoc by auto
    then show ?thesis using snoc.IH snoc by simp
  qed simp
qed simp

text \<open>Joining the idle blocks \<open>fs\<close> behind \<open>p\<close>.\<close>

lemma coalesce_ok:
  assumes "chained (mem s) (p # fs @ q # ws)" "\<forall>f\<in>set (p # fs). \<not> testbusy (mem s f)" "testbusy (mem s q)" "length fs < k"
  shows "coalesce k p s = Some (q, s\<lparr>mem := (mem s)(p := addr q)\<rparr>)"
  using assms
proof (induction fs arbitrary: s k)
  case Nil
  then obtain j where "k = Suc j" by (cases k) auto
  moreover have "deref (mem s p) = q" "mem s p = addr q" using Nil by (auto simp: ptr_defs)
  moreover have "(mem s)(p := addr q) = mem s" using \<open>mem s p = addr q\<close> by (metis fun_upd_triv)
  ultimately show ?case using Nil by simp
next
  case (Cons f fs)
  then obtain j where j: "k = Suc j" "length fs < j" by (cases k) auto
  have d: "distinct (p # f # fs @ q # ws)" using chained_sorted [OF Cons.prems(1)] by (auto simp: strict_sorted_iff)
  let ?s = "setptr p (mem s f) s"
  have m: "mem ?s x = (if x = p then mem s f else mem s x)" for x by (simp add: setptr_def)
  obtain y ys where y: "fs @ q # ws = y # ys" by (cases "fs @ q # ws") auto
  have c: "deref (mem s p) = f" "p < f" "deref (mem s f) = y" "f < y" "chained (mem s) (y # ys)" using Cons.prems(1) y by auto
  have "chained (mem ?s) (y # ys)" using c(5) d y by (simp add: setptr_def)
  then have "chained (mem ?s) (p # fs @ q # ws)" using c y by (simp add: m)
  moreover have "\<forall>x\<in>set (p # fs). \<not> testbusy (mem ?s x)" "testbusy (mem ?s q)" using Cons.prems(2,3) d by (auto simp: m)
  ultimately have "coalesce j p ?s = Some (q, ?s\<lparr>mem := (mem ?s)(p := addr q)\<rparr>)" using Cons.IH j(2) by blast
  moreover have "?s\<lparr>mem := (mem ?s)(p := addr q)\<rparr> = s\<lparr>mem := (mem s)(p := addr q)\<rparr>" by (simp add: setptr_def)
  moreover have "\<not> testbusy (mem s f)" using Cons.prems(2) by simp
  ultimately show ?case unfolding j(1) coalesce.simps Let_def c(1) by (simp add: fun_upd_def)
qed

lemma arena_words:
  assumes "arena_ok s xs" "x \<in> set xs"
  shows "x \<le> alloct s" "allocs s \<le> x" "x < words"
proof -
  have s: "sorted_wrt (<) xs" "xs \<noteq> []" "hd xs = allocs s" "last xs = alloct s" "alloct s < words"
    using assms(1) chained_sorted by (auto simp: inv_simps)
  show "x \<le> alloct s" using s(1,2,4) assms(2) by (cases xs rule: rev_cases) (auto simp: sorted_wrt_append)
  then show "x < words" using s(5) by simp
  show "allocs s \<le> x" using s(1-3) assms(2) by (cases xs) auto
qed

lemma arena_distinct: "arena_ok s xs \<Longrightarrow> distinct xs"
  using chained_sorted by (auto simp: inv_simps strict_sorted_iff)

lemma arena_length: "arena_ok s xs \<Longrightarrow> length xs \<le> words"
  using chained_length [of "mem s" xs] by (auto simp: inv_simps)

text \<open>Joining idle blocks changes neither the order nor the blocks in use.\<close>

lemma join_ok:
  assumes ok: "arena_ok s (us @ p # fs @ q # ws)" and f: "\<forall>f\<in>set (p # fs). \<not> testbusy (mem s f)"
  defines "t \<equiv> s\<lparr>mem := (mem s)(p := addr q)\<rparr>"
  shows "arena_ok t (us @ p # q # ws)" "used (mem t) (us @ p # q # ws) = used (mem s) (us @ p # fs @ q # ws)" "\<not> testbusy (mem t p)"
proof -
  have d: "distinct (us @ p # fs @ q # ws)" using arena_distinct [OF ok] .
  have c: "chained (mem s) (us @ [p])" "chained (mem s) (p # fs @ q # ws)" "chained (mem s) (q # ws)"
    using ok chained_append [of "mem s" us p "fs @ q # ws"] chained_append [of "mem s" "p # fs" q ws] by (auto simp: inv_simps)
  have "p < q" using chained_sorted [OF c(2)] by auto
  then have "chained (mem t) (us @ [p])" "chained (mem t) (p # q # ws)" using c d by (simp_all add: t_def snoc_upd ptr_defs)
  then have "chained (mem t) (us @ p # q # ws)" using chained_append [of "mem t" us p "q # ws"] by blast
  moreover have "p \<noteq> alloct s" using ok f by (auto simp: inv_simps ptr_defs)
  ultimately show "arena_ok t (us @ p # q # ws)"
    using ok by (auto simp: inv_simps t_def hd_append split: if_splits)
  have idle: "used (mem s) (p # fs @ q # ws) = used (mem s) (q # ws)" using f
  proof (induction fs arbitrary: p)
    case (Cons f fs)
    then show ?case by (cases fs) auto
  qed simp
  have "used (mem t) (us @ [p]) = used (mem s) (us @ [p])" "used (mem t) (p # q # ws) = used (mem s) (q # ws)"
    using d by (simp_all add: t_def snoc_upd ptr_defs)
  then show "used (mem t) (us @ p # q # ws) = used (mem s) (us @ p # fs @ q # ws)"
    using used_append [of "mem t" us p "q # ws"] used_append [of "mem s" us p "fs @ q # ws"] idle by simp
  show "\<not> testbusy (mem t p)" by (simp add: t_def ptr_defs)
qed

lemma padd_wraps: "p < words \<Longrightarrow> n < words \<Longrightarrow> padd p (int n) < p \<longleftrightarrow> words \<le> p + n"
proof -
  assume a: "p < words" "n < words"
  have m: "padd p (int n) = (p + n) mod words" unfolding padd_def by (metis nat_int of_nat_add zmod_int)
  show ?thesis
  proof (cases "p + n < words")
    case False
    then have "padd p (int n) = p + n - words" using a by (simp add: m le_mod_geq)
    then show ?thesis using False a by auto
  qed (simp add: m)
qed

lemma padd_fits:
  assumes "p < words" "q < words" "nw < words"
  shows "padd p (int nw) \<le> q \<and> p \<le> padd p (int nw) \<longleftrightarrow> p + nw \<le> q" "p + nw < words \<Longrightarrow> padd p (int nw) = p + nw"
proof -
  have m: "padd p (int nw) = (p + nw) mod words" unfolding padd_def by (metis nat_int of_nat_add zmod_int)
  then show e: "p + nw < words \<Longrightarrow> padd p (int nw) = p + nw" by simp
  show "padd p (int nw) \<le> q \<and> p \<le> padd p (int nw) \<longleftrightarrow> p + nw \<le> q"
  proof (cases "p + nw < words")
    case True
    then show ?thesis using e by auto
  next
    case False
    then have "padd p (int nw) = p + nw - words" using assms by (simp add: m le_mod_geq)
    then show ?thesis using False assms by auto
  qed
qed

text \<open>The part of the arena from \<open>p\<close> on contains an idle block of \<open>nw\<close> words.\<close>

fun fits :: "nat \<Rightarrow> (nat \<Rightarrow> nat) \<Rightarrow> nat list \<Rightarrow> bool" where
  "fits nw m (x # y # zs) \<longleftrightarrow> \<not> testbusy (m x) \<and> x + nw \<le> y \<or> fits nw m (y # zs)"
| "fits nw m xs \<longleftrightarrow> False"

text \<open>
  What a search may do: join idle blocks.  It finds an idle block that is long enough, or has been
  around, and it finds one if there is one ahead.
\<close>

definition searched :: "nat \<Rightarrow> arena \<Rightarrow> nat list \<Rightarrow> outcome \<Rightarrow> arena \<Rightarrow> nat list \<Rightarrow> bool" where
  "searched nw s xs out t ys \<longleftrightarrow>
     arena_ok t ys \<and> used (mem t) ys = used (mem s) xs \<and> t = s\<lparr>mem := mem t\<rparr> \<and>
     (\<forall>w. mem t w \<noteq> mem s w \<longrightarrow> w \<in> set xs \<and> \<not> testbusy (mem s w)) \<and> set ys \<subseteq> set xs \<and>
     (case out of
        Found p q \<Rightarrow> (\<exists>us ws. ys = us @ p # q # ws) \<and> \<not> testbusy (mem t p) \<and> p + nw \<le> q
      | Corrupt \<Rightarrow> False
      | Around p \<Rightarrow> p = allocs s)"

lemma fits_cong: "(\<And>x. x \<in> set xs \<Longrightarrow> m x = m' x) \<Longrightarrow> fits nw m xs \<Longrightarrow> fits nw m' xs"
proof (induction xs)
  case (Cons x xs)
  then show ?case by (cases xs) auto
qed simp

lemma fits_join: "\<lbrakk>fits nw m (p # fs @ q # ws); chained m (p # fs @ q # ws)\<rbrakk> \<Longrightarrow> p + nw \<le> q \<or> fits nw m (q # ws)"
proof (induction fs arbitrary: p)
  case Nil
  then show ?case by auto
next
  case (Cons f fs)
  have "f < q" using chained_sorted [OF Cons.prems(2)] by auto
  moreover have "p < f" "chained m (f # fs @ q # ws)" using Cons.prems(2) by auto
  ultimately show ?case using Cons.prems(1) Cons.IH [of f] by auto
qed

lemma searched_refl: "arena_ok s xs \<Longrightarrow> searched nw s xs (Around (allocs s)) s xs"
  by (simp add: searched_def)

lemma searched_trans:
  assumes "searched nw s xs (Around a) t ys" "searched nw t ys out u zs"
  shows "searched nw s xs out u zs"
proof -
  have "w \<in> set xs \<and> \<not> testbusy (mem s w)" if "mem u w \<noteq> mem s w" for w
  proof (cases "mem t w = mem s w")
    case True
    then have "mem u w \<noteq> mem t w" using that by simp
    then have "w \<in> set ys \<and> \<not> testbusy (mem t w)" using assms(2) unfolding searched_def by blast
    then show ?thesis using assms(1) True by (auto simp: searched_def)
  qed (use assms(1) in \<open>simp add: searched_def\<close>)
  moreover have "u = s\<lparr>mem := mem u\<rparr>" "allocs t = allocs s"
    using assms by (cases s; cases t; cases u; simp add: searched_def)+
  ultimately show ?thesis using assms by (auto simp: searched_def split: outcome.splits)
qed

lemma idle_run:
  assumes "arena_ok s (us @ p # vs)" "\<not> testbusy (mem s p)"
  obtains fs q ws where "vs = fs @ q # ws" "\<forall>f\<in>set (p # fs). \<not> testbusy (mem s f)" "testbusy (mem s q)"
proof -
  have "testbusy (mem s (alloct s))" "last (us @ p # vs) = alloct s" using assms(1) by (auto simp: inv_simps ptr_defs)
  then have v: "vs \<noteq> []" "testbusy (mem s (last vs))" using assms(2) by (auto split: if_splits)
  then have "takeWhile (\<lambda>x. \<not> testbusy (mem s x)) vs \<noteq> vs" by (metis last_in_set set_takeWhileD)
  then obtain q ws where q: "vs = takeWhile (\<lambda>x. \<not> testbusy (mem s x)) vs @ q # ws" "\<not> \<not> testbusy (mem s q)"
    by (rule takeWhile_split)
  then show thesis using that [OF q(1)] assms(2) by (auto dest: set_takeWhileD)
qed

lemma search_ok:
  assumes "arena_ok s xs" "xs = us @ p # vs" "temp \<le> 1" "nw < words" "length vs + 1 + (1 - temp) * length xs < k"
  shows "\<exists>out t ys. malloc_search k nw p temp s = Some (out, t) \<and> searched nw s xs out t ys \<and>
    (fits nw (mem s) (p # vs) \<longrightarrow> (\<exists>p q. out = Found p q))"
  using assms
proof (induction k arbitrary: s xs us p vs temp)
  case (Suc k)
  note ok = Suc.prems(1)
  have w: "p < words" using arena_words(3) [OF ok] Suc.prems(2) by simp
  show ?case
  proof (cases "testbusy (mem s p)")
    case busy: True
    show ?thesis
    proof (cases vs)
      case Nil
      have p: "p = alloct s" "deref (clearbusy (mem s p)) = allocs s" "\<not> p < allocs s"
        using ok Suc.prems(2) Nil arena_words(2) [OF ok, of p] by (auto simp: inv_simps ptr_defs)
      show ?thesis
      proof (cases "temp = 1")
        case True
        then have "malloc_search (Suc k) nw p temp s = Some (Around (allocs s), s)" using busy p by (simp add: Let_def)
        then show ?thesis using searched_refl [OF ok] Nil by auto
      next
        case False
        have x: "xs = [] @ allocs s # tl xs" using ok by (cases xs) (auto simp: inv_simps)
        have t: "temp = 0" using False Suc.prems(3) by simp
        have "length xs = length (tl xs) + 1" using x by (metis One_nat_def add.right_neutral add_Suc_right append_Nil list.size(4))
        then have n: "length (tl xs) + 1 + (1 - 1) * length xs < k" using Suc.prems(5) Nil t by simp
        have "malloc_search (Suc k) nw p temp s = malloc_search k nw (allocs s) 1 s" using busy p t by (simp add: Let_def)
        then show ?thesis using Suc.IH [OF ok x _ Suc.prems(4) n] Nil by auto
      qed
    next
      case (Cons y zs)
      have y: "deref (mem s p) = y" "p < y" using ok Suc.prems(2) Cons chained_append [of "mem s" us p vs] by (auto simp: inv_simps)
      then have n: "deref (clearbusy (mem s p)) = y" using busy by (auto simp: ptr_defs elim!: oddE)
      have x: "xs = (us @ [p]) @ y # zs" using Suc.prems(2) Cons by simp
      have "length zs + 1 + (1 - temp) * length xs < k" using Suc.prems(5) Cons by simp
      from Suc.IH [OF ok x Suc.prems(3,4) this] obtain out t ys where o: "malloc_search k nw y temp s = Some (out, t)"
        "searched nw s xs out t ys" "fits nw (mem s) (y # zs) \<longrightarrow> (\<exists>p q. out = Found p q)" by blast
      then have "malloc_search (Suc k) nw p temp s = Some (out, t)" using busy n y by (simp add: Let_def)
      then show ?thesis using o busy Cons by auto
    qed
  next
    case idle: False
    obtain fs q zs where v: "vs = fs @ q # zs" "\<forall>f\<in>set (p # fs). \<not> testbusy (mem s f)" "testbusy (mem s q)"
      using idle_run [OF ok [unfolded Suc.prems(2)] idle] by blast
    have ok': "arena_ok s (us @ p # fs @ q # zs)" using ok Suc.prems(2) v(1) by simp
    define t where "t = s\<lparr>mem := (mem s)(p := addr q)\<rparr>"
    note j = join_ok [OF ok' v(2), folded t_def]
    have c: "chained (mem s) (p # fs @ q # zs)" using ok' chained_append [of "mem s" us p "fs @ q # zs"] by (simp add: inv_simps)
    have "length fs < words" using arena_length [OF ok'] by simp
    then have co: "coalesce words p s = Some (q, t)" using coalesce_ok [OF c v(2,3)] by (simp add: t_def)
    have qw: "q < words" using arena_words(3) [OF ok', of q] by simp
    have st: "searched nw s xs (Around (allocs s)) t (us @ p # q # zs)"
      using j Suc.prems(2) v idle by (auto simp: searched_def t_def)
    show ?thesis
    proof (cases "p + nw \<le> q")
      case True
      then have "malloc_search (Suc k) nw p temp s = Some (Found p q, t)"
        using idle co padd_fits(1) [OF w qw Suc.prems(4)] by simp
      moreover have "searched nw s xs (Found p q) t (us @ p # q # zs)" using st j(3) True by (auto simp: searched_def)
      ultimately show ?thesis by blast
    next
      case False
      have pq: "p < q" using chained_sorted [OF c] by auto
      have n: "deref (clearbusy (mem t p)) = q" by (simp add: t_def ptr_defs)
      have x: "us @ p # q # zs = (us @ [p]) @ q # zs" by simp
      have "(1 - temp) * length (us @ p # q # zs) \<le> (1 - temp) * length xs" using Suc.prems(2) v(1) by (intro mult_le_mono) auto
      then have "length zs + 1 + (1 - temp) * length (us @ p # q # zs) < k" using Suc.prems(5) v(1) by simp
      from Suc.IH [OF j(1) x Suc.prems(3,4) this] obtain out u ys where o: "malloc_search k nw q temp t = Some (out, u)"
        "searched nw t (us @ p # q # zs) out u ys" "fits nw (mem t) (q # zs) \<longrightarrow> (\<exists>p q. out = Found p q)" by blast
      have "malloc_search (Suc k) nw p temp s = Some (out, u)"
        using idle co padd_fits(1) [OF w qw Suc.prems(4)] False n pq o(1) by (auto simp: Let_def)
      moreover have "fits nw (mem t) (q # zs)" if f: "fits nw (mem s) (p # vs)"
      proof -
        have "fits nw (mem s) (q # zs)" using fits_join [OF f [unfolded v(1)] c] False by simp
        then show ?thesis by (rule fits_cong [rotated]) (use arena_distinct [OF ok'] in \<open>auto simp: t_def\<close>)
      qed
      ultimately show ?thesis using o(3) searched_trans [OF st o(2)] by blast
    qed
  qed
qed simp

subsection \<open>Handing out and taking back blocks\<close>

lemma found_ok:
  assumes ok: "arena_ok s (us @ p # q # ws)" and f: "\<not> testbusy (mem s p)" "p + nw \<le> q" "0 < nw"
  defines "t \<equiv> snd (arena_found nw p q s)"
  defines "ys \<equiv> (if p + nw < q then us @ p # (p + nw) # q # ws else us @ p # q # ws)"
  shows "fst (arena_found nw p q s) = p + 1" "arena_ok t ys" "allocp t = p + nw" "p + nw \<in> set ys"
    "used (mem t) ys = insert (p, p + nw) (used (mem s) (us @ p # q # ws))"
    "mem t w \<noteq> mem s w \<longrightarrow> w = p \<or> w = p + nw \<and> w < q"
proof -
  have d: "distinct (us @ p # q # ws)" using arena_distinct [OF ok] .
  have so: "sorted_wrt (<) (us @ p # q # ws)" using ok chained_sorted [of "mem s" "us @ p # q # ws"] unfolding inv_simps by blast
  have c: "chained (mem s) (us @ [p])" "deref (mem s p) = q" "p < q" "chained (mem s) (q # ws)"
    using ok chained_append [of "mem s" us p "q # ws"] by (auto simp: inv_simps)
  have wq: "p < words" "q < words" using arena_words(3) [OF ok] by auto
  then have pa: "padd p (int nw) = p + nw" "padd p 1 = p + 1"
    using padd_fits(2) [of p q nw] padd_fits(2) [of p q 1] f(2,3) by (auto simp: words_def)
  have mp: "mem s p = addr q" using c(2) f(1) by (auto simp: ptr_defs)
  define m where "m = (if p + nw < q then (mem s)(p + nw := addr q) else mem s)(p := setbusy (addr (p + nw)))"
  have t: "mem t = m" "allocp t = p + nw" "allocs t = allocs s" "alloct t = alloct s" "nd t = nd s"
    by (simp_all add: t_def arena_found_def setptr_def pa mp m_def Let_def)
  show "fst (arena_found nw p q s) = p + 1" by (simp add: arena_found_def pa Let_def)
  show "allocp t = p + nw" "p + nw \<in> set ys" using t(2) f(2) by (auto simp: ys_def)
  show "mem t w \<noteq> mem s w \<longrightarrow> w = p \<or> w = p + nw \<and> w < q" by (simp add: t m_def)
  have out: "p + nw \<notin> set us \<and> (p + nw < q \<longrightarrow> p + nw \<notin> set (q # ws))" using so by (auto simp: sorted_wrt_append)
  have e: "m x = mem s x" if "x \<in> set us" for x using that d out by (auto simp: m_def)
  have "chained m (us @ [p]) = chained (mem s) (us @ [p])" by (rule chained_cong) (simp add: e)
  moreover have "used m (us @ [p]) = used (mem s) (us @ [p])" by (rule used_cong) (simp add: e)
  ultimately have u1: "chained m (us @ [p]) \<and> used m (us @ [p]) = used (mem s) (us @ [p])" using c(1) by simp
  have u2: "chained m (q # ws) \<and> used m (q # ws) = used (mem s) (q # ws)" using c(4) d out by (auto simp: m_def)
  have mm: "m p = setbusy (addr (p + nw))" "p + nw < q \<Longrightarrow> m (p + nw) = addr q" using f(3) by (auto simp: m_def)
  have us: "used (mem s) (us @ p # q # ws) = used (mem s) (us @ [p]) \<union> used (mem s) (q # ws)"
    using used_append [of "mem s" us p "q # ws"] f(1) by simp
  have b: "testbusy (m p)" "deref (m p) = p + nw" by (simp_all add: mm ptr_defs)
  have "chained m ys \<and> used m ys = insert (p, p + nw) (used (mem s) (us @ p # q # ws))"
  proof (cases "p + nw < q")
    case True
    have n: "\<not> testbusy (m (p + nw))" "deref (m (p + nw)) = q" by (simp_all add: mm(2) [OF True] ptr_defs)
    have "chained m (p # (p + nw) # q # ws)" "used m (p # (p + nw) # q # ws) = insert (p, p + nw) (used (mem s) (q # ws))"
      using b n u2 True f(3) by auto
    then show ?thesis
      using True u1 us chained_append [of m us p "(p + nw) # q # ws"] used_append [of m us p "(p + nw) # q # ws"] by (simp add: ys_def)
  next
    case False
    then have e: "p + nw = q" using f(2) by simp
    have "chained m (p # q # ws)" "used m (p # q # ws) = insert (p, q) (used (mem s) (q # ws))" using b u2 c(3) e by auto
    then show ?thesis using False e u1 us chained_append [of m us p "q # ws"] used_append [of m us p "q # ws"] by (simp add: ys_def)
  qed
  then have "chained m ys" and "used (mem t) ys = insert (p, p + nw) (used (mem s) (us @ p # q # ws))" by (auto simp: t)
  then show "used (mem t) ys = insert (p, p + nw) (used (mem s) (us @ p # q # ws))" by simp
  note \<open>chained m ys\<close>
  moreover have "m (alloct s) = mem s (alloct s)"
  proof -
    have "last (q # ws) = alloct s" using ok by (simp add: inv_simps)
    then have "alloct s \<in> set (q # ws)" using last_in_set [of "q # ws"] by simp
    then show ?thesis using d out by (auto simp: m_def)
  qed
  ultimately show "arena_ok t ys" using ok unfolding inv_simps t by (auto simp: ys_def hd_append split: if_splits)
qed

lemma core_words_small: "nw \<le> 32000 \<Longrightarrow> core_words nw = int ((nw + 512) div 512 * 512)"
proof -
  assume n: "nw \<le> 32000"
  have "wrap16 (int nw + 512) = int (nw + 512)" using n by (simp add: wrap16_def)
  moreover have "cdiv (int (nw + 512)) 512 = int ((nw + 512) div 512)" by (simp add: cdiv_def zdiv_int)
  moreover have "(nw + 512) div 512 * 512 \<le> nw + 512" by simp
  then have "wrap16 (int ((nw + 512) div 512 * 512)) = int ((nw + 512) div 512 * 512)" using n by (simp add: wrap16_def)
  ultimately show ?thesis by (simp add: core_words_def)
qed

text \<open>More core adds a gap and an idle block that is long enough.\<close>

lemma more_core_ok:
  assumes ok: "arena_ok s xs" and n: "nw \<le> 32000"
  shows "(\<exists>t ys. more_core grant nw s = (Some t, t) \<and> arena_ok t ys \<and> fits nw (mem t) ys \<and> allocs t = allocs s \<and> (\<exists>zs. ys = xs @ zs \<and> set zs \<subseteq> {nd s..}) \<and>
      used (mem t) ys = used (mem s) xs \<union> (if nd s \<noteq> alloct s + 1 then {(alloct s, nd s)} else {}) \<and> nd s \<le> nd t \<and>
      allocp t = allocp s \<and> (\<forall>w. mem t w \<noteq> mem s w \<longrightarrow> w = alloct s \<or> nd s \<le> w)) \<or>
    more_core grant nw s = (None, s) \<and>
      (words \<le> nd s + nat (core_words nw) + 64 \<or> \<not> grant (nd s + nat (core_words nw)))"
proof -
  define k where "k = (nw + 512) div 512 * 512"
  have k: "core_words nw = int k" "nw < k" "k \<le> nw + 512" "512 \<le> k" using core_words_small [OF n] by (simp_all add: k_def)
  have nd: "alloct s < nd s" "nd s < words" using ok by (auto simp: inv_simps)
  have far: "padd (nd s) (int k + 64) < nd s \<longleftrightarrow> words \<le> nd s + k + 64"
    using padd_wraps [of "nd s" "k + 64"] nd k n by (simp add: words_def add.assoc)
  show ?thesis
  proof (cases "words \<le> nd s + k + 64 \<or> \<not> grant (nd s + k)")
    case True
    have "padd (nd s) (int k) = nd s + k" if "\<not> words \<le> nd s + k + 64"
      using padd_fits(2) [of "nd s" "nd s" k] nd k n that by (auto simp: words_def)
    then show ?thesis using True far k by (auto simp: more_core_def sbrk_def Let_def)
  next
    case False
    have pa: "padd (nd s) (int k) = nd s + k" "padd (nd s) (int k - 1) = nd s + k - 1" "padd (alloct s) 1 = alloct s + 1"
      using padd_fits(2) [of "nd s" "nd s" k] padd_fits(2) [of "nd s" "nd s" "k - 1"] padd_fits(2) [of "alloct s" "nd s" 1] nd k n False
      by (auto simp: words_def of_nat_diff)
    define e where "e = (if nd s \<noteq> alloct s + 1 then addr (nd s) + 1 else addr (nd s))"
    define m where "m = (mem s)(alloct s := e, nd s := addr (nd s + k - 1), nd s + k - 1 := setbusy (addr (allocs s)))"
    define t where "t = s\<lparr>mem := m, nd := nd s + k, alloct := nd s + k - 1\<rparr>"
    have t: "more_core grant nw s = (Some t, t)"
      using False far k(1,2) nd by (auto simp: more_core_def sbrk_def Let_def pa setptr_def e_def m_def t_def ptr_defs)
    obtain us where xs: "xs = us @ [alloct s]" "chained (mem s) (us @ [alloct s])"
      using ok by (cases xs rule: rev_cases) (auto simp: inv_simps)
    have lt: "x < nd s" if "x \<in> set xs" for x using arena_words(1) [OF ok that] nd by simp
    have m: "m (alloct s) = e" "m (nd s) = addr (nd s + k - 1)" "m (nd s + k - 1) = setbusy (addr (allocs s))"
      using nd k by (auto simp: m_def)
    have eq: "m x = mem s x" if "x \<in> set us" for x
      using that lt [of x] xs arena_distinct [OF ok] nd k by (auto simp: m_def)
    have de: "deref e = nd s" by (simp add: e_def ptr_defs)
    let ?ys = "us @ alloct s # [nd s, nd s + k - 1]"
    have "chained m (us @ [alloct s]) = chained (mem s) (us @ [alloct s])" by (rule chained_cong) (simp add: eq)
    then have "chained m ?ys" using xs chained_append [of m us "alloct s" "[nd s, nd s + k - 1]"] m nd k de by (simp add: ptr_defs)
    then have "arena_ok t ?ys" using ok xs nd k n False m unfolding inv_simps by (auto simp: t_def hd_append)
    moreover have u: "used m (us @ [alloct s]) = used (mem s) xs" unfolding xs(1) by (rule used_cong) (simp add: eq)
    then have "used m ?ys = used (mem s) xs \<union> (if nd s \<noteq> alloct s + 1 then {(alloct s, nd s)} else {})"
      using used_append [of m us "alloct s" "[nd s, nd s + k - 1]"] m by (auto simp: e_def ptr_defs)
    moreover have "fits nw m ?ys"
    proof -
      have "nd s + nw \<le> nd s + k - 1" using k(2) by simp
      then have "fits nw m [alloct s, nd s, nd s + k - 1]" using m by (simp add: ptr_defs)
      then show ?thesis
      proof (induction us)
        case (Cons u us)
        then show ?case by (cases us) auto
      qed simp
    qed
    moreover have "\<forall>w. mem t w \<noteq> mem s w \<longrightarrow> w = alloct s \<or> nd s \<le> w" using k by (auto simp: t_def m_def)
    moreover have "mem t = m" "allocs t = allocs s" "allocp t = allocp s" "nd s \<le> nd t" "\<exists>zs. ?ys = xs @ zs \<and> set zs \<subseteq> {nd s..}"
      using k(4) by (auto simp: t_def xs(1))
    ultimately show ?thesis using t by (intro disjI1 exI [of _ t] exI [of _ ?ys]) auto
  qed
qed

lemma arena_init_ok: "\<lbrakk>mem s (allocs s) = 0; 0 < allocs s; allocs s + 1 < nd s; nd s < words\<rbrakk> \<Longrightarrow>
    arena_ok (malloc_init s) [allocs s, allocs s + 1] \<and> allocp (malloc_init s) = allocs s"
  by (simp add: malloc_init_def inv_simps setptr_def ptr_defs)

lemma init_done: "arena_ok s xs \<Longrightarrow> 1 < length xs \<Longrightarrow> malloc_init s = s"
proof -
  assume a: "arena_ok s xs" "1 < length xs"
  then obtain y zs where "xs = allocs s # y # zs" by (cases xs; cases "tl xs") (auto simp: inv_simps)
  then have "deref (mem s (allocs s)) = y" "allocs s < y" using a(1) by (auto simp: inv_simps)
  then have "mem s (allocs s) \<noteq> 0" by (auto simp: ptr_defs)
  then show ?thesis by (simp add: malloc_init_def)
qed

text \<open>
  The words the allocator may change: those of the arena that belong to no block in use, and those
  behind the end of the data segment.  \<open>kept\<close>: the arena stays well formed and the blocks in use stay
  in use with all they contain; no word becomes spare.
\<close>

definition spare_word :: "arena \<Rightarrow> nat list \<Rightarrow> nat \<Rightarrow> bool" where
  "spare_word s xs w \<longleftrightarrow>
     allocs s \<le> w \<and> w \<le> alloct s \<and> (\<forall>(a, b)\<in>used (mem s) xs. w < a \<or> b \<le> w) \<or> nd s \<le> w"

definition kept :: "arena \<Rightarrow> nat list \<Rightarrow> arena \<Rightarrow> nat list \<Rightarrow> bool" where
  "kept s xs t ys \<longleftrightarrow>
     arena_ok t ys \<and> used (mem s) xs \<subseteq> used (mem t) ys \<and>
     (\<forall>w. mem t w \<noteq> mem s w \<longrightarrow> spare_word s xs w) \<and> (\<forall>w. spare_word t ys w \<longrightarrow> spare_word s xs w)"

lemma kept_refl: "arena_ok s xs \<Longrightarrow> kept s xs s xs"
  by (simp add: kept_def)

lemma kept_trans: "kept s xs t ys \<Longrightarrow> kept t ys u zs \<Longrightarrow> kept s xs u zs"
  unfolding kept_def by (metis order_trans)

lemma arena_chained: "arena_ok s xs \<Longrightarrow> chained (mem s) xs"
  by (simp add: inv_simps)

text \<open>Before a block is handed out, only first words of blocks change, and words behind the end.\<close>

definition settled :: "arena \<Rightarrow> nat list \<Rightarrow> arena \<Rightarrow> nat list \<Rightarrow> bool" where
  "settled s xs t ys \<longleftrightarrow>
     kept s xs t ys \<and> set ys \<subseteq> set xs \<union> {nd s..} \<and> nd s \<le> nd t \<and>
     (\<forall>w. mem t w \<noteq> mem s w \<longrightarrow> w \<in> set xs \<or> nd s \<le> w)"

lemma settled_trans:
  assumes "settled s xs t ys" "settled t ys u zs"
  shows "settled s xs u zs"
proof -
  have "w \<in> set xs \<or> nd s \<le> w" if "mem u w \<noteq> mem s w" for w
  proof (cases "mem t w = mem s w")
    case True
    then have "w \<in> set ys \<or> nd t \<le> w" using assms(2) that unfolding settled_def by metis
    then show ?thesis using assms(1) by (auto simp: settled_def)
  qed (use assms(1) in \<open>auto simp: settled_def\<close>)
  moreover have "set zs \<subseteq> set xs \<union> {nd s..}" "nd s \<le> nd u" using assms by (fastforce simp: settled_def)+
  ultimately show ?thesis using assms kept_trans unfolding settled_def by blast
qed

lemma searched_settled: "arena_ok s xs \<Longrightarrow> searched nw s xs out t ys \<Longrightarrow> settled s xs t ys \<and> nd t = nd s \<and> allocp t = allocp s \<and> allocs t = allocs s"
proof -
  assume a: "arena_ok s xs" "searched nw s xs out t ys"
  then have t: "allocs t = allocs s" "alloct t = alloct s" "nd t = nd s" "allocp t = allocp s" "used (mem t) ys = used (mem s) xs"
    by (cases s; cases t; simp add: searched_def)+
  have "spare_word s xs w" if "mem t w \<noteq> mem s w" for w
  proof -
    have w: "w \<in> set xs" "\<not> testbusy (mem s w)" using that a(2) unfolding searched_def by blast+
    have "w < c \<or> d \<le> w" if "(c, d) \<in> used (mem s) xs" for c d
      using used_gap [OF arena_chained [OF a(1)] that w(1)] used_bounds [OF arena_chained [OF a(1)] that] w(2) by (cases "w = c") auto
    then show ?thesis using arena_words(1,2) [OF a(1) w(1)] by (auto simp: spare_word_def)
  qed
  moreover have "spare_word t ys w = spare_word s xs w" for w by (simp add: spare_word_def t)
  ultimately show ?thesis using a(2) t by (auto simp: settled_def kept_def searched_def)
qed

text \<open>A block in use does not overlap an idle block.\<close>

lemma idle_apart:
  assumes ok: "arena_ok s (us @ p # q # ws)" and f: "\<not> testbusy (mem s p)" and u: "(a, b) \<in> used (mem s) (us @ p # q # ws)"
  shows "b \<le> p \<or> q \<le> a"
proof -
  note c = arena_chained [OF ok]
  have "sorted_wrt (<) (us @ p # q # ws)" using chained_sorted [OF c] .
  moreover have "a \<in> set (us @ p # q # ws)" "a \<noteq> p" using used_bounds [OF c u] f by auto
  moreover have "p \<le> a \<or> b \<le> p" using used_gap [OF c u, of p] by auto
  ultimately show ?thesis by (auto simp: sorted_wrt_append)
qed

lemma idle_spare:
  assumes "arena_ok s (us @ p # q # ws)" "\<not> testbusy (mem s p)" "p \<le> w" "w < q"
  shows "spare_word s (us @ p # q # ws) w"
proof -
  have "allocs s \<le> w" "w \<le> alloct s" using arena_words(1) [OF assms(1), of q] arena_words(2) [OF assms(1), of p] assms(3,4) by auto
  moreover have "w < a \<or> b \<le> w" if "(a, b) \<in> used (mem s) (us @ p # q # ws)" for a b
    using idle_apart [OF assms(1,2) that] assms(3,4) by auto
  ultimately show ?thesis by (auto simp: spare_word_def)
qed

lemma used_not_spare:
  assumes "arena_ok s xs" "(a, b) \<in> used (mem s) xs" "a \<le> w" "w < b"
  shows "\<not> spare_word s xs w"
proof -
  have "b \<le> alloct s" "alloct s < nd s"
    using used_bounds [OF arena_chained [OF assms(1)] assms(2)] arena_words(1) [OF assms(1)] assms(1) by (auto simp: inv_simps)
  then show ?thesis using assms(2-4) by (fastforce simp: spare_word_def)
qed

text \<open>What a call may return: a block that was spare and is long enough.\<close>

definition granted :: "nat \<Rightarrow> arena \<Rightarrow> nat list \<Rightarrow> nat \<Rightarrow> arena \<Rightarrow> nat list \<Rightarrow> bool" where
  "granted nw s xs p t ys \<longleftrightarrow>
     kept s xs t ys \<and> allocp t \<in> set ys \<and> 0 < p \<and> (p - 1, p - 1 + nw) \<in> used (mem t) ys \<and>
     (\<forall>w. p - 1 \<le> w \<and> w < p - 1 + nw \<longrightarrow> spare_word s xs w) \<and>
     allocp t = p - 1 + nw \<and> (p - 1 \<in> set xs \<or> nd s \<le> p - 1) \<and>
     (\<forall>w. mem t w \<noteq> mem s w \<longrightarrow> w \<in> set xs \<or> nd s \<le> w \<or> w = allocp t) \<and>
     (allocp t \<in> set xs \<or> nd s \<le> allocp t \<or> allocx t = mem s (allocp t))"

lemma granted_facts:
  assumes "granted (n + 1) s xs q t ys"
  shows "0 < q" "allocp t \<in> set ys" "allocp t = q + n" "arena_ok t ys" "(q - 1, q + n) \<in> used (mem t) ys"
    "q \<le> w \<Longrightarrow> w < q + n \<Longrightarrow> spare_word s xs w"
proof -
  have *: "0 < q" "allocp t \<in> set ys" "allocp t = q - 1 + (n + 1)" "arena_ok t ys" "(q - 1, q - 1 + (n + 1)) \<in> used (mem t) ys"
    using assms unfolding granted_def kept_def by blast+
  then show "0 < q" "allocp t \<in> set ys" "allocp t = q + n" "arena_ok t ys" "(q - 1, q + n) \<in> used (mem t) ys" by simp_all
  have "\<forall>w. q - 1 \<le> w \<and> w < q - 1 + (n + 1) \<longrightarrow> spare_word s xs w" using assms unfolding granted_def by blast
  then show "q \<le> w \<Longrightarrow> w < q + n \<Longrightarrow> spare_word s xs w" using *(1) by simp
qed

lemma granted_trans:
  assumes st: "settled s xs t ys" and g: "granted nw t ys p u zs"
  shows "granted nw s xs p u zs"
proof -
  have k: "kept s xs u zs" "\<forall>w. p - 1 \<le> w \<and> w < p - 1 + nw \<longrightarrow> spare_word s xs w"
    using st g kept_trans unfolding settled_def granted_def kept_def by blast+
  have out: "w \<in> set ys \<or> nd t \<le> w \<Longrightarrow> w \<in> set xs \<or> nd s \<le> w" for w using st by (auto simp: settled_def)
  have "w \<in> set xs \<or> nd s \<le> w \<or> w = allocp u" if "mem u w \<noteq> mem s w" for w
  proof (cases "mem t w = mem s w")
    case True
    then have "w \<in> set ys \<or> nd t \<le> w \<or> w = allocp u" using g that unfolding granted_def by metis
    then show ?thesis using out by blast
  qed (use st in \<open>auto simp: settled_def\<close>)
  moreover have "allocp u \<in> set xs \<or> nd s \<le> allocp u \<or> allocx u = mem s (allocp u)"
  proof (cases "mem t (allocp u) = mem s (allocp u)")
    case True
    then show ?thesis using g out [of "allocp u"] by (auto simp: granted_def)
  qed (use st in \<open>auto simp: settled_def\<close>)
  ultimately show ?thesis using g k out unfolding granted_def by blast
qed

lemma found_granted:
  assumes ok: "arena_ok s (us @ p # q # ws)" and f: "\<not> testbusy (mem s p)" "p + nw \<le> q" "0 < nw"
  shows "\<exists>ys. granted nw s (us @ p # q # ws) (fst (arena_found nw p q s)) (snd (arena_found nw p q s)) ys"
proof -
  define t where "t = snd (arena_found nw p q s)"
  define ys where "ys = (if p + nw < q then us @ p # (p + nw) # q # ws else us @ p # q # ws)"
  note o = found_ok [OF ok f, folded t_def ys_def]
  have pq: "p < q" using f(2,3) by simp
  have t: "allocs t = allocs s" "alloct t = alloct s" "nd t = nd s"
    by (simp_all add: t_def arena_found_def setptr_def Let_def)
  have "mem t w \<noteq> mem s w \<Longrightarrow> spare_word s (us @ p # q # ws) w" for w
    using o(6) [of w] idle_spare [OF ok f(1), of w] pq by auto
  moreover have "spare_word t ys w \<Longrightarrow> spare_word s (us @ p # q # ws) w" for w
    using o(5) by (auto simp: spare_word_def t)
  ultimately have "kept s (us @ p # q # ws) t ys" using o(2,5) by (auto simp: kept_def)
  moreover have "\<forall>w. p \<le> w \<and> w < p + nw \<longrightarrow> spare_word s (us @ p # q # ws) w" using idle_spare [OF ok f(1)] f(2) by auto
  moreover have "p + nw \<in> set (us @ p # q # ws) \<or> allocx t = mem s (p + nw)"
    using f(2) o(3) by (cases "p + nw = q") (auto simp: t_def arena_found_def setptr_def Let_def split: if_splits)
  moreover have "w \<in> set (us @ p # q # ws) \<or> nd s \<le> w \<or> w = allocp t" if "mem t w \<noteq> mem s w" for w using o(3,6) that by auto
  ultimately have "granted nw s (us @ p # q # ws) (p + 1) t ys" using o(3,4,5) by (auto simp: granted_def)
  then show ?thesis using o(1) by (auto simp: t_def)
qed

lemma search_step:
  assumes ok: "arena_ok s xs" and p: "p \<in> set xs" and n: "0 < nw" "nw < words"
  obtains a b t ys where "malloc_search (3 * words) nw p 0 s = Some (Found a b, t)"
      "granted nw s xs (fst (arena_found nw a b t)) (snd (arena_found nw a b t)) ys"
    | t ys where "malloc_search (3 * words) nw p 0 s = Some (Around (allocs s), t)" "settled s xs t ys"
      "nd t = nd s" "allocp t = allocp s" "allocs t = allocs s" "p = allocs s \<longrightarrow> \<not> fits nw (mem s) xs"
proof -
  obtain us vs where x: "xs = us @ p # vs" using p by (meson split_list)
  have "length vs + 1 + (1 - 0) * length xs < 3 * words" using arena_length [OF ok] x by (simp add: words_def)
  then obtain out t ys where o: "malloc_search (3 * words) nw p 0 s = Some (out, t)" "searched nw s xs out t ys"
    "fits nw (mem s) (p # vs) \<longrightarrow> (\<exists>p q. out = Found p q)" using search_ok [OF ok x _ n(2)] by blast
  note k = searched_settled [OF ok o(2)]
  show thesis
  proof (cases out)
    case (Found a b)
    then obtain us ws where y: "ys = us @ a # b # ws" "\<not> testbusy (mem t a)" "a + nw \<le> b" "arena_ok t ys"
      using o(2) by (auto simp: searched_def)
    then obtain zs where "granted nw t ys (fst (arena_found nw a b t)) (snd (arena_found nw a b t)) zs"
      using found_granted [of t us a b ws nw] n(1) by blast
    then show thesis using that(1) [of a b t zs] granted_trans k o(1) Found by auto
  next
    case Corrupt
    then show thesis using o(2) by (simp add: searched_def)
  next
    case (Around a)
    have "xs = p # vs" if "p = allocs s"
      using that x arena_distinct [OF ok] ok by (cases us) (auto simp: inv_simps)
    then show thesis using that(2) [of t ys] o k Around by (auto simp: searched_def)
  qed
qed

lemma core_settled:
  assumes ok: "arena_ok s xs" and n: "nw \<le> 32000"
  obtains t ys where "more_core grant nw s = (Some t, t)" "settled s xs t ys" "fits nw (mem t) ys" "allocs t = allocs s"
    | "more_core grant nw s = (None, s)" "words \<le> nd s + nat (core_words nw) + 64 \<or> \<not> grant (nd s + nat (core_words nw))"
proof (cases "more_core grant nw s = (None, s)")
  case False
  then obtain t ys where t: "more_core grant nw s = (Some t, t)" "arena_ok t ys" "fits nw (mem t) ys" "allocs t = allocs s" "\<exists>zs. ys = xs @ zs \<and> set zs \<subseteq> {nd s..}"
    "used (mem t) ys = used (mem s) xs \<union> (if nd s \<noteq> alloct s + 1 then {(alloct s, nd s)} else {})" "nd s \<le> nd t"
    "\<forall>w. mem t w \<noteq> mem s w \<longrightarrow> w = alloct s \<or> nd s \<le> w"
    using more_core_ok [OF ok n, of grant] by blast
  have "w = alloct s \<Longrightarrow> spare_word s xs w" for w
  proof -
    have l: "alloct s \<in> set xs" using ok last_in_set by (fastforce simp: inv_simps)
    have "d \<le> alloct s" if "(c, d) \<in> used (mem s) xs" for c d
      using used_bounds [OF arena_chained [OF ok] that] arena_words(1) [OF ok] by auto
    then show "w = alloct s \<Longrightarrow> spare_word s xs w" using arena_words(2) [OF ok l] by (auto simp: spare_word_def)
  qed
  then have "\<forall>w. mem t w \<noteq> mem s w \<longrightarrow> spare_word s xs w" using t(8) by (auto simp: spare_word_def)
  moreover have "spare_word s xs w" if "spare_word t ys w" for w
    using that t(4,6,7) by (cases "w \<le> alloct s"; cases "nd s \<le> w") (auto simp: spare_word_def split: if_splits)
  ultimately have "kept s xs t ys" using t(2,6) by (auto simp: kept_def)
  moreover have "alloct s \<in> set xs" using ok last_in_set by (fastforce simp: inv_simps)
  ultimately have "settled s xs t ys" using t(5,7,8) unfolding settled_def by auto
  then show thesis using that(1) t by blast
qed (use that(2) more_core_ok [OF ok n, of grant] in auto)

text \<open>One search, then, if need be, more core and a second search that succeeds.\<close>

lemma loop_ok:
  assumes ok: "arena_ok s xs" and p: "p \<in> set xs" and n: "0 < nw" "nw \<le> 32000"
  shows "\<exists>r t ys. malloc_loop (Suc (Suc k)) grant nw p s = Some (r, t) \<and>
    (case r of
       Some b \<Rightarrow> granted nw s xs b t ys
     | None \<Rightarrow> kept s xs t ys \<and> allocp t = allocp s \<and>
         (words \<le> nd s + nat (core_words nw) + 64 \<or> \<not> grant (nd s + nat (core_words nw))))"
proof -
  have w: "nw < words" using n(2) by (simp add: words_def)
  show ?thesis
  proof (rule search_step [OF ok p n(1) w], goal_cases)
    case (1 a b t ys)
    then show ?thesis by (cases "arena_found nw a b t") auto
  next
    case first: (2 t ys)
    then have o: "arena_ok t ys" by (simp add: settled_def kept_def)
    show ?thesis
    proof (rule core_settled [OF o n(2), of grant], goal_cases)
      case more: (1 u zs)
      then have ou: "arena_ok u zs" by (simp add: settled_def kept_def)
      then have h: "allocs u \<in> set zs" using hd_in_set by (fastforce simp: inv_simps)
      have b: "malloc_loop (Suc (Suc k)) grant nw p s = malloc_loop (Suc k) grant nw (allocs u) u"
        using first(1,5) more(1,4) by simp
      have k: "settled s xs u zs" using settled_trans first(2) more(2) by blast
      show ?thesis
      proof (rule search_step [OF ou h n(1) w], goal_cases)
        case (1 a b v vs)
        then show ?thesis using b granted_trans [OF k 1(2)] by (cases "arena_found nw a b v") auto
      qed (use more(3) in auto)
    next
      case 2
      then show ?thesis using first by (intro exI [of _ None] exI [of _ t] exI [of _ ys]) (simp add: settled_def)
    qed
  qed
qed

text \<open>
  \<open>malloc\<close> always ends.  A block it returns has room for \<open>nbytes\<close> bytes, consists of words that
  were spare and is in use from then on; every block in use before remains so, with all it
  contains, and no word outside the arena below the end of the data segment changes.  It returns
  a null pointer only if there is no more core.
\<close>

theorem malloc_sound:
  assumes "arena_ok (malloc_init s) xs" "allocp (malloc_init s) \<in> set xs" "nbytes \<le> 60000"
  shows "\<exists>r t ys. libc_malloc grant nbytes s = Some (r, t) \<and>
    (case r of
       Some p \<Rightarrow> granted (malloc_words nbytes) (malloc_init s) xs p t ys \<and> nbytes \<le> 2 * (malloc_words nbytes - 1)
     | None \<Rightarrow> kept (malloc_init s) xs t ys \<and> allocp t = allocp (malloc_init s) \<and>
         (words \<le> nd s + nat (core_words (malloc_words nbytes)) + 64 \<or> \<not> grant (nd s + nat (core_words (malloc_words nbytes)))))"
proof -
  have "malloc_words nbytes = (nbytes + 3) div 2" using assms(3) by (simp add: malloc_words_def)
  then have n: "0 < malloc_words nbytes" "malloc_words nbytes \<le> 32000" "nbytes \<le> 2 * (malloc_words nbytes - 1)"
    using assms(3) by auto
  have "nd (malloc_init s) = nd s" by (simp add: malloc_init_def setptr_def)
  then show ?thesis using loop_ok [OF assms(1,2) n(1,2), of 1 grant] n(3)
    by (auto simp: libc_malloc_def Let_def numeral_3_eq_3 split: option.splits)
qed

lemma used_split: "(p, e) \<in> used m xs \<Longrightarrow> \<exists>us ws. xs = us @ p # e # ws \<and> testbusy (m p)"
proof (induction xs)
  case (Cons x xs)
  show ?case
  proof (cases xs)
    case [simp]: (Cons y zs)
    show ?thesis
    proof (cases "(p, e) \<in> used m xs")
      case True
      then show ?thesis using Cons.IH by (metis append_Cons)
    next
      case False
      then have "p = x" "e = y" "testbusy (m x)" using Cons.prems by (auto split: if_splits)
      then show ?thesis by (intro exI [of _ "[]"] exI [of _ zs]) auto
    qed
  qed (use Cons.prems in simp)
qed simp

text \<open>
  \<open>free\<close> turns exactly the block it is given into an idle one, and changes one word.
\<close>

theorem free_sound:
  assumes "arena_ok s xs" "(p, e) \<in> used (mem s) xs"
  shows "arena_ok (libc_free (p + 1) s) xs \<and> allocp (libc_free (p + 1) s) \<in> set xs \<and>
    used (mem (libc_free (p + 1) s)) xs = used (mem s) xs - {(p, e)} \<and>
    (\<forall>w. w \<noteq> p \<longrightarrow> mem (libc_free (p + 1) s) w = mem s w)"
proof -
  obtain us ws where x: "xs = us @ p # e # ws" "testbusy (mem s p)" using used_split [OF assms(2)] by blast
  note ok = assms(1) [unfolded x(1)]
  have c: "chained (mem s) (us @ [p])" "deref (mem s p) = e" "p < e" "chained (mem s) (e # ws)"
    using arena_chained [OF ok] chained_append [of "mem s" us p "e # ws"] by auto
  have d: "distinct (us @ p # e # ws)" using arena_distinct [OF ok] .
  have pw: "p < words" using arena_words(3) [OF ok, of p] by simp
  have pa: "padd (Suc p) (- 1) = p" using pw by (simp add: padd_def)
  define t where "t = libc_free (p + 1) s"
  have t: "mem t = (mem s)(p := mem s p - 1)" "allocp t = p" "allocs t = allocs s" "alloct t = alloct s" "nd t = nd s"
    using x(2) by (simp_all add: t_def libc_free_def pa setptr_def ptr_defs Let_def)
  have m: "deref (mem t p) = e" "\<not> testbusy (mem t p)" using x(2) c(2) by (auto simp: t ptr_defs elim!: oddE)
  have "chained (mem t) (us @ [p])" "used (mem t) (us @ [p]) = used (mem s) (us @ [p])" "chained (mem t) (e # ws)"
    "used (mem t) (e # ws) = used (mem s) (e # ws)" using c d by (auto simp: t(1) snoc_upd)
  note h = this
  have "chained (mem t) xs" using chained_append [of "mem t" us p "e # ws"] h m c(3) x(1) by simp
  moreover have "p \<noteq> alloct s" using ok d last_in_set [of "e # ws"] by (auto simp: inv_simps split: if_splits)
  ultimately have "arena_ok t xs" using ok unfolding inv_simps t x(1) by simp
  moreover have "used (mem t) xs = used (mem s) xs - {(p, e)}"
  proof -
    have "(p, e) \<notin> used (mem s) (us @ [p])" using used_bounds [OF c(1)] c(3) d by fastforce
    moreover have "(p, e) \<notin> used (mem s) (e # ws)" using used_bounds [OF c(4)] d by fastforce
    moreover have "used (mem t) xs = used (mem s) (us @ [p]) \<union> used (mem s) (e # ws)"
      using used_append [of "mem t" us p "e # ws"] h(2,4) m(2) x(1) by simp
    moreover have "used (mem s) xs = used (mem s) (us @ [p]) \<union> insert (p, e) (used (mem s) (e # ws))"
      using used_append [of "mem s" us p "e # ws"] x by simp
    ultimately show ?thesis by auto
  qed
  ultimately show ?thesis unfolding t_def [symmetric] using t(1,2) x(1) by simp
qed

text \<open>Evaluation at concrete arenas.\<close>

lemmas fuel_numeral = malloc_search.simps(2) [of "pred_numeral k" for k, folded numeral_eq_Suc]
  malloc_loop.simps(2) [of "pred_numeral k" for k, folded numeral_eq_Suc]
  coalesce.simps(2) [of "pred_numeral k" for k, folded numeral_eq_Suc]

lemmas heap_eval = libc_malloc_def malloc_init_def malloc_words_def arena_found_def more_core_def sbrk_def core_words_def
  wrap16_def cdiv_def libc_free_def setptr_def padd_def words_def ptr_defs Let_def fuel_numeral

subsection \<open>realloc\<close>

lemma copy_words_mem:
  assumes "q + c < words" "p < words"
  shows "(w < q \<or> q + c \<le> w \<longrightarrow> mem (copy_words c q p s) w = mem s w) \<and>
    (\<forall>i<c. p + i < words \<and> (\<forall>j<i. q + j \<noteq> p + i) \<longrightarrow> mem (copy_words c q p s) (q + i) = mem s (p + i))"
  using assms
proof (induction c arbitrary: q p s w)
  case (Suc c)
  have q: "padd q 1 = q + 1" using padd_fits(2) [of q q 1] Suc.prems(1) by (simp add: words_def)
  have p: "padd p 1 < words" "p + 1 < words \<Longrightarrow> padd p 1 = p + 1"
    using padd_fits(2) [of p p 1] Suc.prems(2) by (auto simp: padd_def words_def)
  let ?t = "setptr q (mem s p) s"
  have IH: "(w < q + 1 \<or> q + 1 + c \<le> w \<longrightarrow> mem (copy_words c (q + 1) (padd p 1) ?t) w = mem ?t w)"
    "\<forall>i<c. padd p 1 + i < words \<and> (\<forall>j<i. q + 1 + j \<noteq> padd p 1 + i) \<longrightarrow> mem (copy_words c (q + 1) (padd p 1) ?t) (q + 1 + i) = mem ?t (padd p 1 + i)" for w
    using Suc.IH [of "q + 1" "padd p 1" w ?t] Suc.prems(1) p(1) by auto
  have "mem (copy_words (Suc c) q p s) (q + i) = mem s (p + i)" if i: "i < Suc c" "p + i < words" "\<forall>j<i. q + j \<noteq> p + i" for i
  proof (cases i)
    case 0
    then show ?thesis using IH(1) [of q] q by (simp add: setptr_def)
  next
    case [simp]: (Suc k)
    have pp: "padd p 1 = p + 1" using i(2) p(2) by simp
    have "\<forall>j<k. q + 1 + j \<noteq> p + 1 + k" using i(3) by auto
    moreover have "p + 1 + k \<noteq> q" using i(3) by (metis Suc add.assoc add.right_neutral plus_1_eq_Suc zero_less_Suc)
    ultimately show ?thesis using IH(2) i q pp by (auto simp: setptr_def)
  qed
  moreover have "mem (copy_words (Suc c) q p s) w = mem s w" if "w < q \<or> q + Suc c \<le> w"
    using IH(1) [of w] that q by (auto simp: setptr_def)
  ultimately show ?case by blast
qed simp

text \<open>Stores into the words between the first words of blocks keep the arena.\<close>

lemma arena_cong:
  assumes "arena_ok s xs" "\<And>w. w \<in> set xs \<Longrightarrow> mem t w = mem s w" "allocs t = allocs s" "alloct t = alloct s" "nd t = nd s"
  shows "arena_ok t xs" "used (mem t) xs = used (mem s) xs"
proof -
  have "alloct s \<in> set xs" using assms(1) last_in_set by (fastforce simp: inv_simps)
  moreover have "chained (mem t) xs = chained (mem s) xs" by (rule chained_cong) (auto dest: in_set_butlastD assms(2))
  ultimately show "arena_ok t xs" using assms by (auto simp: inv_simps)
  show "used (mem t) xs = used (mem s) xs" by (rule used_cong) (auto dest: in_set_butlastD assms(2))
qed

lemma copy_words_rest: "allocs (copy_words c q p s) = allocs s \<and> alloct (copy_words c q p s) = alloct s \<and>
    nd (copy_words c q p s) = nd s \<and> allocp (copy_words c q p s) = allocp s \<and> allocx (copy_words c q p s) = allocx s"
  by (induction c arbitrary: q p s) (simp_all add: setptr_def)

text \<open>
  What is copied.  The new block may begin before the old one and end inside it: then \<open>malloc\<close> has
  overwritten one word of the old block with the first word of an idle block, which \<open>allocx\<close> restores.
\<close>

lemma copy_back:
  assumes ok: "arena_ok s (us @ (p - 1) # e # ws)" "0 < p" and g: "granted (n + 1) s (us @ (p - 1) # e # ws) q t ys" and c: "c \<le> n" "q \<noteq> p"
  defines "v \<equiv> copy_words c q p t"
  defines "u \<equiv> (if q < p \<and> p \<le> q + n then setptr (q + (q + n - p)) (allocx t) v else v)"
  shows "\<forall>i<c. p + i < e \<longrightarrow> mem u (q + i) = mem s (p + i)" "\<forall>w. w < q \<or> q + n \<le> w \<longrightarrow> mem u w = mem t w"
proof -
  let ?xs = "us @ (p - 1) # e # ws"
  have gr: "0 < q" "allocp t = q - 1 + (n + 1)" "q - 1 \<in> set ?xs \<or> nd s \<le> q - 1" "arena_ok t ys" "allocp t \<in> set ys"
    "\<forall>w. mem t w \<noteq> mem s w \<longrightarrow> w \<in> set ?xs \<or> nd s \<le> w \<or> w = allocp t"
    "allocp t \<in> set ?xs \<or> nd s \<le> allocp t \<or> allocx t = mem s (allocp t)"
    using g unfolding granted_def kept_def by blast+
  have ap: "allocp t = q + n" using gr(1,2) by simp
  have so: "sorted_wrt (<) ?xs" using chained_sorted [OF arena_chained [OF ok(1)]] .
  have en: "e < nd s" using arena_words(1) [OF ok(1), of e] ok(1) by (auto simp: inv_simps)
  have inside: "x \<notin> set ?xs \<and> \<not> nd s \<le> x" if "p \<le> x" "x < e" for x
    using that so en ok(2) by (auto simp: sorted_wrt_append)
  have "q + n < words" using arena_words(3) [OF gr(4,5)] ap by simp
  then have qc: "q + c < words" using c by simp
  have pe: "p - 1 < e" using so by (auto simp: sorted_wrt_append)
  have ew: "e < words" using arena_words(3) [OF ok(1), of e] by simp
  have pw: "p < words" using pe ew by simp
  have side: "q < p \<or> e < q"
  proof -
    have "\<not> (p \<le> q - 1 \<and> q - 1 < e)" using inside [of "q - 1"] gr(3) by blast
    then show ?thesis using c(2) gr(1) by linarith
  qed
  note m = copy_words_mem [OF qc pw, of _ t, folded v_def]
  show "\<forall>w. w < q \<or> q + n \<le> w \<longrightarrow> mem u w = mem t w" using m c(1) by (auto simp: u_def setptr_def)
  show "\<forall>i<c. p + i < e \<longrightarrow> mem u (q + i) = mem s (p + i)"
  proof (intro allI impI)
    fix i assume i: "i < c" "p + i < e"
    have ins: "p + i \<notin> set ?xs" "\<not> nd s \<le> p + i" using inside [of "p + i"] i(2) by auto
    have v: "mem v (q + i) = mem t (p + i)" using m i ew side by auto
    have tm: "mem t (p + i) = mem s (p + i)" if "p + i \<noteq> q + n" using ap gr(6) ins that by metis
    show "mem u (q + i) = mem s (p + i)"
    proof (cases "p + i = q + n")
      case True
      then have "q < p" "p \<le> q + n" "q + n - p = i" using side i(2) by auto
      then have "u = setptr (q + i) (allocx t) v" by (simp add: u_def)
      then show ?thesis using ap gr(7) ins True by (simp add: setptr_def)
    next
      case False
      then have "p \<le> q + n \<Longrightarrow> q + (q + n - p) \<noteq> q + i" by auto
      then have "mem u (q + i) = mem v (q + i)" by (auto simp: u_def setptr_def)
      then show ?thesis using v tm False by simp
    qed
  qed
qed

lemma used_here: "testbusy (m p) \<Longrightarrow> (p, e) \<in> used m (us @ p # e # ws)"
  using used_append [of m us p "e # ws"] by simp

lemma pdiff_ge: "q \<le> p \<Longrightarrow> p < words \<Longrightarrow> p - q \<le> nat (pdiff p q mod 65536)"
proof -
  assume a: "q \<le> p" "p < words"
  define d where "d = p - q"
  have d: "int p - int q = int d" "d < 32768" using a by (auto simp: d_def words_def)
  show ?thesis
  proof (cases "d < 16384")
    case True
    then show ?thesis by (simp add: pdiff_def d d_def [symmetric] wrap16_def cdiv_def)
  next
    case False
    have "(2 * int d + 32768) mod 65536 = 2 * int d - 32768" using False d(2) by (subst mod_pos_geq) auto
    then have "pdiff p q = int d - 32768" using False d by (simp add: pdiff_def wrap16_def cdiv_def)
    moreover have "(int d - 32768) mod 65536 = (int d - 32768 + 65536) mod 65536" by (rule mod_add_self2 [symmetric])
    then have "(int d - 32768) mod 65536 = int d + 32768" using d(2) by simp
    ultimately show ?thesis by (simp add: d_def [symmetric])
  qed
qed

lemma move_ok:
  assumes ok: "arena_ok s (us @ (p - 1) # e # ws)" "0 < p" and g: "granted (n + 1) s (us @ (p - 1) # e # ws) q t ys"
  defines "u \<equiv> (if q = p then t else realloc_move q p n (nat (pdiff e p mod 65536)) t)"
  shows "\<forall>i<n. p + i < e \<longrightarrow> mem u (q + i) = mem s (p + i)" "\<forall>w. w < q \<or> q + n \<le> w \<longrightarrow> mem u w = mem t w"
    "allocs u = allocs t" "alloct u = alloct t" "nd u = nd t" "allocp u = allocp t"
proof -
  let ?xs = "us @ (p - 1) # e # ws"
  define c where "c = min n (nat (pdiff e p mod 65536))"
  have so: "sorted_wrt (<) ?xs" using chained_sorted [OF arena_chained [OF ok(1)]] .
  have ap: "allocp t \<in> set ys" "allocp t = q + n" "arena_ok t ys" using granted_facts [OF g] by auto
  have qw: "q + n < words" using arena_words(3) [OF ap(3,1)] ap(2) by simp
  have pq: "padd q (int n) = q + n" using padd_fits(2) [of q q n] qw by simp
  have pd: "padd q (int (q + n) - int p) = q + (q + n - p)" if "q < p" "p \<le> q + n"
    using that qw padd_fits(2) [of q q "q + n - p"] by (simp add: of_nat_diff)
  have cc: "(if n < nat (pdiff e p mod 65536) then n else nat (pdiff e p mod 65536)) = c" by (simp add: c_def)
  have u: "realloc_move q p n (nat (pdiff e p mod 65536)) t =
      (if q < p \<and> p \<le> q + n then setptr (q + (q + n - p)) (allocx t) (copy_words c q p t) else copy_words c q p t)"
    unfolding realloc_move_def Let_def cc pq using pd copy_words_rest by auto
  show "allocs u = allocs t" "alloct u = alloct t" "nd u = nd t" "allocp u = allocp t"
    using copy_words_rest by (auto simp: u_def u setptr_def)
  have "e < words" using arena_words(3) [OF ok(1), of e] by simp
  then have "e - p \<le> nat (pdiff e p mod 65536)" using pdiff_ge [of p e] so by (auto simp: sorted_wrt_append)
  then have ic: "i < c" if "i < n" "p + i < e" for i using that by (auto simp: c_def)
  have "(\<forall>i<n. p + i < e \<longrightarrow> mem u (q + i) = mem s (p + i)) \<and> (\<forall>w. w < q \<or> q + n \<le> w \<longrightarrow> mem u w = mem t w)"
  proof (cases "q = p")
    case True
    have "mem t w = mem s w" if "p \<le> w" "w < e" "w < q + n" for w
    proof -
      have "w \<notin> set ?xs" using so that ok(2) by (auto simp: sorted_wrt_append)
      moreover have "\<not> nd s \<le> w" using arena_words(1) [OF ok(1), of e] ok(1) that by (auto simp: inv_simps)
      ultimately show ?thesis using g that(3) ap(2) unfolding granted_def by (metis less_irrefl)
    qed
    then show ?thesis using True by (simp add: u_def)
  next
    case False
    have "c \<le> n" by (simp add: c_def)
    note b = copy_back [OF ok g this False, folded u]
    show ?thesis using b ic False by (simp add: u_def)
  qed
  then show "\<forall>i<n. p + i < e \<longrightarrow> mem u (q + i) = mem s (p + i)" "\<forall>w. w < q \<or> q + n \<le> w \<longrightarrow> mem u w = mem t w" by blast+
qed

text \<open>
  C30: \<open>realloc\<close> of a block in use, or freed since the last \<open>malloc\<close>, keeps the old contents up to the shorter of
  the two lengths even if the old and the new block overlap; it changes no other block in use.
\<close>

theorem realloc_keeps_contents:
  assumes "arena_ok s (us @ p # e # ws)" "allocp s \<in> set (us @ p # e # ws)" "nbytes \<le> 60000"
    and "realloc grant (p + 1) nbytes s = Some (Some q, t)"
  shows "\<exists>ys. arena_ok t ys \<and> allocp t \<in> set ys \<and> 0 < q \<and> (q - 1, q + (nbytes + 1) div 2) \<in> used (mem t) ys \<and>
    (\<forall>i<(nbytes + 1) div 2. p + 1 + i < e \<longrightarrow> mem t (q + i) = mem s (p + 1 + i)) \<and>
    (\<forall>(a, b)\<in>used (mem s) (us @ p # e # ws). a \<noteq> p \<longrightarrow>
       (a, b) \<in> used (mem t) ys \<and> (\<forall>w. a \<le> w \<and> w < b \<longrightarrow> mem t w = mem s w))"
proof -
  let ?xs = "us @ p # e # ws" and ?n = "(nbytes + 1) div 2"
  have "p < words" using arena_words(3) [OF assms(1)] by auto
  then have pa: "padd (p + 1) (- 1) = p" by (simp add: padd_def)
  define f where "f = (if testbusy (mem s p) then libc_free (p + 1) s else s)"
  have f: "arena_ok f ?xs" "allocp f \<in> set ?xs" "used (mem s) ?xs - {(p, e)} \<subseteq> used (mem f) ?xs" "\<forall>w. w \<noteq> p \<longrightarrow> mem f w = mem s w"
    using assms(1,2) free_sound [OF assms(1), of p e] used_here [of "mem s" p e us ws] by (auto simp: f_def)
  have n: "malloc_words nbytes = ?n + 1" "((nbytes + 1) mod 65536) div 2 = ?n" using assms(3) by (simp_all add: malloc_words_def)
  have de: "deref (mem f p) = e" using arena_chained [OF f(1)] chained_append [of "mem f" us p "e # ws"] by simp
  obtain t' where m: "libc_malloc grant nbytes f = Some (Some q, t')"
    and t: "t = (if q = p + 1 then t' else realloc_move q (p + 1) ?n (nat (pdiff e (p + 1) mod 65536)) t')"
    using assms(4) unfolding realloc_def Let_def pa f_def [symmetric] de n(2) by (auto split: option.splits if_splits)
  obtain ys where g: "granted (?n + 1) f ?xs q t' ys"
    using malloc_sound [of f ?xs nbytes grant] f(1,2) assms(3) n(1) m init_done [OF f(1)] by auto
  note ap = granted_facts(2,1,4,5) [OF g]
  have x: "us @ (p + 1 - 1) # e # ws = ?xs" by simp
  note M = move_ok [of f us "p + 1" e ws ?n q t' ys, unfolded x, OF f(1) _ g, folded t, simplified]
  have "mem t w = mem t' w" if "w \<in> set ys" for w
    using M(2) used_gap [OF arena_chained [OF ap(3)] ap(4) that] ap(2) by auto
  note A = arena_cong [OF ap(3) this M(3-5)]
  have B: "(a, b) \<in> used (mem t) ys \<and> (\<forall>w. a \<le> w \<and> w < b \<longrightarrow> mem t w = mem s w)" if ab: "(a, b) \<in> used (mem s) ?xs" "a \<noteq> p" for a b
  proof -
    have u: "(a, b) \<in> used (mem f) ?xs" using ab f(3) by auto
    have "mem t w = mem s w" if w: "a \<le> w" "w < b" for w
    proof -
      have ns: "\<not> spare_word f ?xs w" using used_not_spare [OF f(1) u w] .
      then have "w < q \<or> q + ?n \<le> w" using granted_facts(6) [OF g, of w] by linarith
      then have "mem t w = mem f w" using M(2) ns g unfolding granted_def kept_def by (metis Suc_eq_plus1)
      moreover have "w \<noteq> p" using used_gap [OF arena_chained [OF assms(1)] ab(1), of p] ab(2) w by auto
      ultimately show ?thesis using f(4) by simp
    qed
    moreover have "(a, b) \<in> used (mem t') ys" using u g unfolding granted_def kept_def by blast
    ultimately show ?thesis using A(2) by simp
  qed
  have "\<forall>i<?n. p + 1 + i < e \<longrightarrow> mem t (q + i) = mem s (p + 1 + i)" using M(1) f(4) by simp
  then show ?thesis using A B ap M(6) by (intro exI [of _ ys]) auto
qed

definition example_arena :: arena where
  "example_arena = \<lparr>mem = (\<lambda>_. 0)(100 := 203, 101 := 401, 200 := 418, 209 := 437, 210 := 11, 216 := 17, 217 := 18, 218 := 1423, 711 := 201),
    allocs = 100, allocp = 100, alloct = 711, allocx = 0, nd = 712\<rparr>"

theorem realloc_keeps_contents_witness:
  "\<exists>t. realloc (\<lambda>_. False) 210 30 example_arena = Some (Some 201, t) \<and> mem t 201 = 11 \<and> mem t 207 = 17 \<and> mem t 208 = 18"
proof -
  obtain t where t: "realloc (\<lambda>_. False) (209 + 1) 30 example_arena = Some (Some 201, t)"
    by (simp add: example_arena_def realloc_def heap_eval)
  have "arena_ok example_arena ([100, 101, 200] @ 209 # 218 # [711])" "allocp example_arena \<in> set ([100, 101, 200] @ 209 # 218 # [711])" "(30::nat) \<le> 60000"
    by (simp_all add: example_arena_def inv_simps ptr_defs words_def)
  from realloc_keeps_contents [OF this t] have c: "i < (30 + 1) div 2 \<Longrightarrow> 209 + 1 + i < 218 \<Longrightarrow> mem t (201 + i) = mem example_arena (209 + 1 + i)" for i
    by blast
  show ?thesis using c [of 0] c [of 6] c [of 7] t by (simp add: example_arena_def)
qed

text \<open>\<open>calloc\<close> clears the whole block, if \<open>num * size\<close> does not overflow.\<close>

lemma clear_words_mem: "q + m < words \<Longrightarrow> mem (clear_words m q s) w = (if q \<le> w \<and> w < q + m then 0 else mem s w)"
proof (induction m arbitrary: q s)
  case (Suc m)
  have "padd q 1 = q + 1" using padd_fits(2) [of q q 1] Suc.prems by (simp add: words_def)
  then show ?case using Suc.IH [of "q + 1"] Suc.prems by (auto simp: setptr_def)
qed simp

theorem calloc_clears:
  assumes "arena_ok (malloc_init s) xs" "allocp (malloc_init s) \<in> set xs" "num * sz \<le> 60000"
    and "calloc grant num sz s = Some (Some p, t)" "p \<le> w" "w < p + (num * sz + 1) div 2"
  shows "mem t w = 0"
proof -
  let ?n = "(num * sz + 1) div 2"
  have n: "num * sz mod 65536 = num * sz" "malloc_words (num * sz) = ?n + 1" using assms(3) by (simp_all add: malloc_words_def)
  have c: "nat (wrap16 (int (((num * sz + 1) mod 65536) div 2))) = ?n" using assms(3) by (simp add: wrap16_def)
  obtain u where u: "libc_malloc grant (num * sz) s = Some (Some p, u)" "t = clear_words ?n p u"
    using assms(4) unfolding calloc_def Let_def n(1) c by (auto split: option.splits)
  then obtain ys where g: "granted (?n + 1) (malloc_init s) xs p u ys"
    using malloc_sound [OF assms(1-3), of grant] n(2) by auto
  have "p + ?n < words" using arena_words(3) [OF granted_facts(4,2) [OF g]] granted_facts(3) [OF g] by simp
  then show ?thesis using clear_words_mem [of p ?n u w] assms(5,6) u(2) by simp
qed

subsection \<open>A program that uses the allocator\<close>

text \<open>
  The blocks the program holds, by address and length in bytes, and what it has stored in
  them.  It may also move the end of the data segment up itself.
\<close>

definition in_block :: "nat \<times> nat \<Rightarrow> nat \<Rightarrow> bool" where
  "in_block b w \<longleftrightarrow> fst b \<le> w \<and> w < fst b + (snd b + 1) div 2"

inductive heap_step :: "arena \<times> (nat \<times> nat) set \<times> (nat \<rightharpoonup> nat) \<Rightarrow> arena \<times> (nat \<times> nat) set \<times> (nat \<rightharpoonup> nat) \<Rightarrow> bool" where
  c_malloc: "\<lbrakk>n \<le> 60000; libc_malloc grant n s = Some (Some p, t)\<rbrakk> \<Longrightarrow> heap_step (s, B, h) (t, insert (p, n) B, h)"
| c_free: "(p, n) \<in> B \<Longrightarrow> heap_step (s, B, h) (libc_free p s, B - {(p, n)}, h |` {w. \<not> in_block (p, n) w})"
| c_store: "\<lbrakk>b \<in> B; in_block b w\<rbrakk> \<Longrightarrow> heap_step (s, B, h) (s\<lparr>mem := (mem s)(w := v)\<rparr>, B, h(w \<mapsto> v))"
| c_sbrk: "\<lbrakk>nd s \<le> e; e < words\<rbrakk> \<Longrightarrow> heap_step (s, B, h) (s\<lparr>nd := e\<rparr>, B, h)"

definition fresh_arena :: "arena \<Rightarrow> bool" where
  "fresh_arena s \<longleftrightarrow> mem s (allocs s) = 0 \<and> 0 < allocs s \<and> allocs s + 1 < nd s \<and> nd s < words"

definition heap_start :: "arena \<times> (nat \<times> nat) set \<times> (nat \<rightharpoonup> nat) \<Rightarrow> bool" where
  "heap_start c \<longleftrightarrow> (case c of (s, B, h) \<Rightarrow> fresh_arena s \<and> B = {} \<and> h = Map.empty)"

definition owned :: "arena \<Rightarrow> nat list \<Rightarrow> nat \<times> nat \<Rightarrow> bool" where
  "owned s xs b \<longleftrightarrow> 0 < fst b \<and> (\<exists>e. (fst b - 1, e) \<in> used (mem s) xs \<and> fst b + (snd b + 1) div 2 \<le> e)"

definition holding :: "arena \<Rightarrow> nat list \<Rightarrow> (nat \<times> nat) set \<Rightarrow> (nat \<rightharpoonup> nat) \<Rightarrow> bool" where
  "holding s xs B h \<longleftrightarrow>
     arena_ok s xs \<and> 1 < length xs \<and> allocp s \<in> set xs \<and> (\<forall>b\<in>B. owned s xs b) \<and> inj_on fst B \<and>
     (\<forall>w v. h w = Some v \<longrightarrow> mem s w = v \<and> (\<exists>b\<in>B. in_block b w))"

definition heap_inv :: "arena \<times> (nat \<times> nat) set \<times> (nat \<rightharpoonup> nat) \<Rightarrow> bool" where
  "heap_inv c \<longleftrightarrow> heap_start c \<or> (case c of (s, B, h) \<Rightarrow> \<exists>xs. holding s xs B h)"

lemma owned_facts:
  assumes ok: "arena_ok s xs" and o: "owned s xs b" and w: "in_block b w"
  shows "\<not> spare_word s xs w" "w \<notin> set xs"
proof -
  obtain e where e: "0 < fst b" "(fst b - 1, e) \<in> used (mem s) xs" "fst b + (snd b + 1) div 2 \<le> e" using o by (auto simp: owned_def)
  then show "\<not> spare_word s xs w" using used_not_spare [OF ok e(2)] w by (auto simp: in_block_def)
  show "w \<notin> set xs" using used_gap [OF arena_chained [OF ok] e(2), of w] e w by (auto simp: in_block_def)
qed

lemma granted_holding:
  assumes h: "holding s xs B h" and g: "granted nw s xs p t ys" and n: "nw = (n + 1) div 2 + 1"
  shows "holding t ys (insert (p, n) B) h"
proof -
  have ok: "arena_ok s xs" and ow: "\<forall>b\<in>B. owned s xs b" and inj: "inj_on fst B" using h by (auto simp: holding_def)
  have k: "kept s xs t ys" "allocp t \<in> set ys" "0 < p" "(p - 1, p - 1 + nw) \<in> used (mem t) ys" "spare_word s xs (p - 1)"
    using g n by (auto simp: granted_def)
  have u: "arena_ok t ys" "used (mem s) xs \<subseteq> used (mem t) ys" using k(1) by (auto simp: kept_def)
  obtain us ws where "ys = us @ (p - 1) # (p - 1 + nw) # ws" using used_split [OF k(4)] by blast
  then have "1 < length ys" by simp
  moreover have "\<forall>b\<in>B. owned t ys b" using ow u(2) by (fastforce simp: owned_def)
  moreover have "owned t ys (p, n)" using k(3,4) n by (auto simp: owned_def)
  moreover have "fst b \<noteq> p" if "b \<in> B" for b
  proof
    assume b: "fst b = p"
    then obtain e where e: "(p - 1, e) \<in> used (mem s) xs" using ow \<open>b \<in> B\<close> by (auto simp: owned_def)
    then show False using k(5) used_not_spare [OF ok e] used_bounds [OF arena_chained [OF ok] e] by blast
  qed
  then have "inj_on fst (insert (p, n) B)" using inj by (auto simp: inj_on_insert)
  moreover have "mem t w = v \<and> (\<exists>b\<in>B. in_block b w)" if hw: "h w = Some v" for w v
  proof -
    obtain b where b: "mem s w = v" "b \<in> B" "in_block b w" using h hw unfolding holding_def by blast
    then have "\<not> spare_word s xs w" using owned_facts(1) [OF ok] ow by blast
    then show ?thesis using b k(1) by (auto simp: kept_def)
  qed
  ultimately show ?thesis using u k(2) by (auto simp: holding_def)
qed

lemma free_holding:
  assumes h: "holding s xs B h" and b: "(p, n) \<in> B"
  shows "holding (libc_free p s) xs (B - {(p, n)}) (h |` {w. \<not> in_block (p, n) w})"
proof -
  have ok: "arena_ok s xs" "1 < length xs" and ow: "\<forall>b\<in>B. owned s xs b" and inj: "inj_on fst B" using h by (auto simp: holding_def)
  obtain e where e: "0 < p" "(p - 1, e) \<in> used (mem s) xs" using ow b by (fastforce simp: owned_def)
  define t where "t = libc_free p s"
  have t: "arena_ok t xs" "allocp t \<in> set xs" "used (mem t) xs = used (mem s) xs - {(p - 1, e)}"
    "\<forall>w. w \<noteq> p - 1 \<longrightarrow> mem t w = mem s w" using free_sound [OF ok(1) e(2)] e(1) by (simp_all add: t_def)
  have "owned t xs c" if "c \<in> B - {(p, n)}" for c
  proof -
    have "fst c \<noteq> p" "owned s xs c" using that inj b ow by (fastforce simp: inj_on_def)+
    then show ?thesis using t(3) e(1) by (auto simp: owned_def)
  qed
  moreover have "mem t w = v \<and> (\<exists>c\<in>B - {(p, n)}. in_block c w)" if w: "(h |` {w. \<not> in_block (p, n) w}) w = Some v" for w v
  proof -
    have "h w = Some v" "\<not> in_block (p, n) w" using w by (auto simp: restrict_map_def split: if_splits)
    then obtain c where c: "mem s w = v" "c \<in> B" "in_block c w" using h unfolding holding_def by blast
    moreover have "w \<noteq> p - 1" using owned_facts(2) [OF ok(1) _ c(3)] ow c(2) used_bounds [OF arena_chained [OF ok(1)] e(2)] by auto
    ultimately show ?thesis using t(4) \<open>\<not> in_block (p, n) w\<close> by auto
  qed
  moreover have "inj_on fst (B - {(p, n)})" using inj by (rule inj_on_subset) auto
  ultimately show ?thesis using t(1,2) ok(2) by (auto simp: holding_def t_def)
qed

lemma store_holding:
  assumes h: "holding s xs B h" and b: "b \<in> B" "in_block b w"
  shows "holding (s\<lparr>mem := (mem s)(w := v)\<rparr>) xs B (h(w \<mapsto> v))"
proof -
  have ok: "arena_ok s xs" and ow: "\<forall>b\<in>B. owned s xs b" using h by (auto simp: holding_def)
  have w: "w \<notin> set xs" using owned_facts(2) [OF ok _ b(2)] ow b(1) by blast
  have "alloct s \<in> set xs" using ok last_in_set by (fastforce simp: inv_simps)
  then have "arena_ok (s\<lparr>mem := (mem s)(w := v)\<rparr>) xs" using ok w by (auto simp: inv_simps)
  moreover have "\<forall>b\<in>B. owned (s\<lparr>mem := (mem s)(w := v)\<rparr>) xs b" using ow w by (simp add: owned_def)
  ultimately show ?thesis using h b by (auto simp: holding_def)
qed

lemma heap_step_inv:
  assumes "heap_inv c" "heap_step c d"
  shows "heap_inv d"
  using assms(2)
proof cases
  case (c_malloc n grant s p t B h)
  have w: "malloc_words n = (n + 1) div 2 + 1" using c_malloc(3) by (simp add: malloc_words_def)
  obtain xs where xs: "holding (malloc_init s) xs B h"
  proof (cases "heap_start c")
    case True
    then have f: "fresh_arena s" "B = {}" "h = Map.empty" using c_malloc by (auto simp: heap_start_def)
    then show thesis using that [of "[allocs s, allocs s + 1]"] arena_init_ok [of s] by (auto simp: holding_def fresh_arena_def)
  next
    case False
    then obtain xs where "holding s xs B h" using assms(1) c_malloc by (auto simp: heap_inv_def)
    then show thesis using that init_done by (auto simp: holding_def)
  qed
  then obtain ys where "granted (malloc_words n) (malloc_init s) xs p t ys"
    using malloc_sound [of s xs n grant] c_malloc(3,4) by (auto simp: holding_def)
  then have "holding t ys (insert (p, n) B) h" using granted_holding [OF xs _ w] by blast
  then show ?thesis using c_malloc by (auto simp: heap_inv_def)
next
  case (c_free p n B s h)
  then show ?thesis using assms(1) free_holding by (fastforce simp: heap_inv_def heap_start_def)
next
  case (c_store b B w s h v)
  then obtain xs where "holding s xs B h" using assms(1) by (auto simp: heap_inv_def heap_start_def)
  then show ?thesis using c_store store_holding [of s xs B h b w v] by (auto simp: heap_inv_def)
next
  case (c_sbrk s e B h)
  have "holding s xs B h \<Longrightarrow> holding (s\<lparr>nd := e\<rparr>) xs B h" for xs
    using c_sbrk(3,4) by (auto simp: holding_def inv_simps owned_def)
  moreover have "heap_start c \<Longrightarrow> heap_start d" using c_sbrk by (auto simp: heap_start_def fresh_arena_def)
  ultimately show ?thesis using assms(1) c_sbrk by (auto simp: heap_inv_def)
qed

interpretation heap: safe_system heap_start heap_step heap_inv
  by unfold_locales (simp add: heap_inv_def, rule heap_step_inv)

text \<open>
  C29: Whatever a program does with \<open>malloc\<close> (while it succeeds), \<open>free\<close>, \<open>sbrk\<close> and stores into its own blocks, the
  blocks it holds never overlap, and every word it stored in one of them is still there.
\<close>

theorem malloc_blocks_sound:
  assumes "reach heap_start heap_step (s, B, h)"
  shows "(\<forall>b\<in>B. \<forall>c\<in>B. \<forall>w. in_block b w \<and> in_block c w \<longrightarrow> b = c) \<and> (\<forall>w v. h w = Some v \<longrightarrow> mem s w = v)"
proof (cases "heap_start (s, B, h)")
  case True
  then show ?thesis by (simp add: heap_start_def)
next
  case False
  then obtain xs where h: "holding s xs B h" using heap.reach_inv [OF assms] by (auto simp: heap_inv_def)
  then have ok: "arena_ok s xs" by (simp add: holding_def)
  have "b = c" if bc: "b \<in> B" "c \<in> B" "in_block b w" "in_block c w" for b c w
  proof (rule inj_onD [of fst B])
    obtain d where d: "0 < fst b" "(fst b - 1, d) \<in> used (mem s) xs" "fst b + (snd b + 1) div 2 \<le> d"
      using h bc(1) by (auto simp: holding_def owned_def)
    obtain e where e: "0 < fst c" "(fst c - 1, e) \<in> used (mem s) xs" "fst c + (snd c + 1) div 2 \<le> e"
      using h bc(2) by (auto simp: holding_def owned_def)
    note g = used_gap [OF arena_chained [OF ok]] used_bounds [OF arena_chained [OF ok]]
    have "fst c - 1 \<le> fst b - 1 \<or> d \<le> fst c - 1" "fst b - 1 \<le> fst c - 1 \<or> e \<le> fst b - 1"
      using g d(2) e(2) by blast+
    then show "fst b = fst c" using d e bc(3,4) by (auto simp: in_block_def)
  qed (use h bc in \<open>auto simp: holding_def\<close>)
  then show ?thesis using h by (auto simp: holding_def)
qed

theorem malloc_blocks_sound_witness:
  "\<exists>s p. reach heap_start heap_step (s, {(p, 10)}, [p \<mapsto> 7]) \<and> mem s p = 7"
proof -
  define s where "s = \<lparr>mem = \<lambda>_. 0, allocs = 100, allocp = 0, alloct = 0, allocx = 0, nd = 200\<rparr>"
  have f: "heap_start (s, {}, Map.empty)" by (simp add: heap_start_def fresh_arena_def s_def words_def)
  have "arena_ok (malloc_init s) [100, 101]" "allocp (malloc_init s) \<in> set [100, 101]"
    using arena_init_ok [of s] by (auto simp: s_def words_def)
  from malloc_sound [OF this, of 10 "\<lambda>_. True"] obtain p t where t: "libc_malloc (\<lambda>_. True) 10 s = Some (Some p, t)"
    by (auto simp: s_def words_def core_words_def malloc_words_def wrap16_def cdiv_def split: option.splits)
  have "reach heap_start heap_step (t, {(p, 10)}, Map.empty)"
    by (rule reach_step [OF reach_start]) (use f c_malloc [OF _ t, of "{}" Map.empty] in auto)
  from reach_step [OF this c_store [of "(p, 10)" _ p _ _ 7]]
  have r: "reach heap_start heap_step (t\<lparr>mem := (mem t)(p := 7)\<rparr>, {(p, 10)}, [p \<mapsto> 7])" by (simp add: in_block_def)
  have "mem (t\<lparr>mem := (mem t)(p := 7)\<rparr>) p = 7" using malloc_blocks_sound [OF r] by simp
  then show ?thesis using r by blast
qed

subsection \<open>After a failure\<close>

text \<open>A sequence of calls of \<open>malloc\<close>, with what the system says to a request for core, and \<open>free\<close>.\<close>

datatype heap_op = Malloc bool nat | Free nat

fun heap_run :: "heap_op list \<Rightarrow> arena \<Rightarrow> (nat option list \<times> arena) option" where
  "heap_run [] s = Some ([], s)"
| "heap_run (Malloc g n # os) s =
     (case libc_malloc (\<lambda>_. g) n s of
        None \<Rightarrow> None
      | Some (r, s) \<Rightarrow> map_option (\<lambda>(rs, s). (r # rs, s)) (heap_run os s))"
| "heap_run (Free p # os) s = heap_run os (libc_free p s)"

text \<open>
  When \<open>malloc\<close> fails, it has joined idle blocks but \<open>allocp\<close> may still point to one that is now inside
  another.  A later request is served there, and the block around it is handed out as well:
  after two blocks are freed and one request fails, the blocks of 8 bytes at 210 and of 30 bytes
  at 201 are in use together and overlap.
\<close>

theorem malloc_overlaps_after_failure:
  "map_option fst (heap_run [Malloc True 16, Malloc True 16, Malloc True 983, Free 201, Free 210, Malloc False 40000, Malloc False 8, Malloc False 30]
      \<lparr>mem = \<lambda>_. 0, allocs = 100, allocp = 0, alloct = 0, allocx = 0, nd = 200\<rparr>) =
    Some [Some 201, Some 210, Some 219, None, Some 210, Some 201] \<and>
    in_block (210, 8) 210 \<and> in_block (201, 30) 210"
  by (simp add: heap_eval in_block_def)

end
