(* ===== verification/Spec2Isabelle.thy ===== *)
theory Spec2Isabelle
  imports ResourceMap Mailbox Descriptors Clist BufferCache Clock Qsort Crypt Calendar Malloc
begin

text \<open>
  \<^bold>\<open>Verification of the Seventh Edition UNIX kernel and parts of its library.\<close>

  \<^bold>\<open>The program.\<close>  The repository holds the UNIX Version 7 distribution under \<open>v7/\<close> and a small
  mailbox library under \<open>src/\<close>.  The kernel (\<open>v7/usr/sys\<close>) is layered: a system call (sys2.c,
  sys3.c, sys4.c) uses file descriptors and the table of open files (fio.c), path names (nami.c),
  the table of in-core inodes (iget.c), the map from logical to physical blocks (subr.c), the
  copying of bytes (rdwri.c), the free lists of blocks and inodes (alloc.c) and, below all of
  them, the buffer cache (dev/bio.c) and the drivers.  Pipes (pipe.c) are inodes used as ring
  buffers, terminals use character lists (prim.c), memory and swap space come from resource maps
  (malloc.c).  Processes sleep and wake up on channels (slp.c), send each other signals (sig.c) and
  are driven by the clock (clock.c).  The C library (\<open>v7/usr/src/libc\<close>) runs in the processes.

  \<^bold>\<open>Layout.\<close>  A theory per component, each opening with what it models.
  \<^item> \<open>Prelude\<close>: the widths of machine integers, results of kernel routines (a value and a state,
    or the reason why the routine does not return), reachable states of transition systems
    (locales \<open>safe_system\<close>, \<open>mutex_system\<close>).  \<open>Bytes\<close>: integers and structures in blocks.
    \<open>LinkedLists\<close>: circular doubly linked lists, singly linked lists.
  \<^item> \<open>Kernel\<close>: the record of the kernel tables (h/inode.h, filsys.h, mount.h, file.h, user.h), and the
    buffer cache as the file system sees it: the contents of blocks, read and replaced.
  \<^item> \<open>FreeList\<close> (alloc.c: alloc, free, badblock, getfs), \<open>Inode\<close> (iget.c; ialloc, ifree and update of
    alloc.c), \<open>FileTree\<close> and \<open>Bmap\<close> (subr.c: bmap), \<open>FileIO\<close> (rdwri.c; passc, cpass of subr.c),
    \<open>Namei\<close> (nami.c; access, suser of fio.c; the part of text.c the file system calls), \<open>Files\<close>
    (fio.c), \<open>Pipe\<close> (pipe.c), \<open>Syscalls\<close> (sys2.c), \<open>Syscalls2\<close> (sys3.c, sys4.c).
  \<^item> \<open>Frames\<close>, \<open>CallViews\<close>, \<open>Descriptors\<close>: what the routines keep.  A view of the state that the lower
    routines do not change (locales \<open>kern_view\<close>, \<open>path_view\<close>, \<open>name_view\<close>, \<open>fd_view\<close>) is interpreted
    once for the table of open files and once for the identity of the process, and so each call
    is shown to keep the two invariants.
  \<^item> \<open>BufferCache\<close> (dev/bio.c, binit of main.c): the real cache under the view of \<open>Kernel\<close>, with headers
    linked into the available list and the lists of the devices.
  \<^item> \<open>Process\<close> (slp.c: sleep, wakeup, setrq, setrun, setpri, swtch, the table part of newproc; sig.c: fsig,
    issig, psignal, signal; sys4.c: ssig, kill), with the theorems on wakeup; \<open>Signals\<close>, the invariant of
    the process table and the signals; \<open>Dispatch\<close>, swtch and the process table as a transition
    system; \<open>Clock\<close> (clock.c).  They share one record, \<open>sched\<close>, which is apart from the record of the file system.
  \<^item> \<open>ResourceMap\<close> (malloc.c), \<open>Clist\<close> (prim.c), \<open>Spinlock\<close> (h/spinlock.h), \<open>Mailbox\<close> (src/kernel,
    src/user/lib).
  \<^item> \<open>Qsort\<close>, \<open>Crypt\<close>, \<open>Calendar\<close>: qsort.c, crypt.c and ctime.c of libc/gen.  \<open>Malloc\<close>:
    malloc.c and calloc.c of libc/gen.

  \<^bold>\<open>Modelling.\<close>  A structure is a record, a pointer into a table an index, a null pointer \<open>None\<close>; in
  \<open>Clist\<close> and \<open>BufferCache\<close>, where the links matter, each field of the structure is a function of
  the address.  Integers are kept at their width where they can wrap: 16-bit words in the maps,
  bytes in blocks and characters, \<open>wrap32\<close> on offsets, \<open>wrap8\<close> on the counts of files and inodes.  \<open>u.u_error\<close> is an option of the
  error codes.  A routine that calls \<open>sleep\<close> ends with \<open>Sleeping\<close> and the state in which it sleeps;
  \<open>panic\<close> ends with \<open>Panicked\<close>.  Interrupt priorities (\<open>spl\<close>) only delimit what is atomic and are not
  in the state, but for \<open>Clist\<close>, where one routine does not put the priority back.  Device drivers and the comparison routine of \<open>qsort\<close> are parameters.

  \<^bold>\<open>Fuel.\<close>  Loops with a bound known in advance are run with it, and the theorems show that it is
  enough: a scan of a directory as many times as it has entries, a search of the buffers of a
  device or a turn over the available list one more than there are buffers, a walk along the
  process queues three times the size of the process table (a wakeup may nest once), the search
  for a process number four times that size, the search of the C library's malloc three times the number of words, a search of the callouts one more than the table.  The transfer loops
  of readi and writei run once per byte at most.  The retries of iget and of namei and the loop of
  writep are given a bound by the caller; a run that uses it up has the result \<open>Unfinished\<close>, and the
  invariants of \<open>Descriptors\<close> speak of calls that return.  qsort is a partial function whose
  termination is a theorem.

  \<^bold>\<open>Results.\<close>
  \<^item> Files: bmap with all levels of indirection refines a lookup in the tree of a file, writei stores
    and readi delivers exactly the bytes asked for and disturb nothing else, and the two are
    inverse; errors at the largest file size are described as they are.  Pipes are queues of bytes.
  \<^item> Free list: alloc hands out each block once and in order, free is its inverse across link
    blocks, over any sequence no block is lost or given out twice.
  \<^item> Names and rights: the scan of a directory is a lookup, access decides by the nine bits unless the file
    system is read-only or the file a text in use.
  \<^item> Calls: over any sequence the counts of open files are exact, while they fit into a signed character, and an
    ordinary process becomes the super user only by executing a set-user-id file of the super user.
  \<^item> Buffer cache: it is a plain store of blocks under every interleaving with the devices, for blocks whose
    last write has not failed and of which no changed buffer was released unwritten; its lists are sound, getblk and bflush end, no wakeup is lost, bflush leaves nothing behind.
  \<^item> Processes: under every order of calls and interrupts the queues are sound and no process is lost, as
    long as no swapped-out process sleeps on the hash queue of \<open>runout\<close> while the swapper waits there
    (\<open>parted\<close>); wakeup wakes exactly the sleepers of the channel, with the same exception, and what
    happens otherwise is described as it is; swtch takes the best process, kill reaches exactly its
    addressees, callouts are called at the first tick at low priority from their deadline on, those
    that set themselves again included, and the clock interrupt ends.
  \<^item> Resource maps: first fit, exact return of units, conservation.  Character lists: FIFO queues
    on one shared pool; block moves equal repeated moves, but for the priority after \<open>q_to_b\<close> of an empty list.  Locks: mutual exclusion, order and
    progress under every interleaving, with 32-bit counters that wrap.  Mailboxes: FIFO under
    every interleaving.
  \<^item> Library: qsort ends and sorts, DES decryption undoes encryption, crypt yields printable
    strings, gmtime is the inverse of the calendar for all 32-bit times.  The blocks of malloc never
    overlap and keep what is stored in them, and realloc keeps the contents; after a failure they
    may overlap, which is shown by an example.

  \<^bold>\<open>Not modelled.\<close>  Exec (but for the change of the user), exit, wait and memory management (sys1.c, slp.c's and text.c's swapping,
  ureg.c, machdep.c), which work on physical memory and the segmentation hardware; the delivery of
  signals and tracing (psig, core, grow, ptrace of sig.c), which change saved registers and the
  memory of the process; traps and dispatch (trap.c, sysent.c); the drivers and line disciplines under dev/,
  multiplexed files (mx) and the packet driver (pk), which are hardware protocols; swap and
  physio of bio.c; accounting and console output (acct.c, prf.c).  The rest of the libraries and
  the commands under \<open>v7/usr/src\<close> (compilers, editors, text formatters, games) are separate programs.
\<close>

end
